(* ===== verification/Py_Prelude.thy ===== *)
theory Py_Prelude
  imports Main "HOL-Library.Sublist"
begin

text \<open>
  What every component shares: Python values, the string methods the source calls, and the
  generic list and option lemmas behind them.

  A Python \<open>str\<close> is a HOL \<^typ>\<open>string\<close>, a list of \<^typ>\<open>char\<close>; each \<^typ>\<open>char\<close> is a code point
  between 0 and 255 (the Latin-1 block), and \<open>len\<close> is \<^const>\<open>length\<close>. Character classes
  (\<open>isspace\<close>, \<open>isdigit\<close>, \<open>lower\<close>) follow Python's tables on that block. Components whose
  behaviour depends on larger code points (token estimation) use lists of naturals instead.

  A decoded JSON document, or a dict that an untyped Python function receives, is a \<open>pyval\<close>.
  Dictionaries are association lists with the keys in insertion order.
\<close>

named_theorems py_str "characterisations of the Python string methods"
named_theorems guard_simps "unfolding rules of the command guard"
named_theorems store_simps "reads after writes on the task store"

section \<open>Python values\<close>

datatype pyval =
    PNone
  | PBool bool
  | PInt int
  | PFloat string
  | PStr string
  | PList "pyval list"
  | PDict "(string \<times> pyval) list"

text \<open>\<open>d.get(k)\<close> on a dict; a missing key is \<open>None\<close>.\<close>

definition dget :: "(string \<times> 'v) list \<Rightarrow> string \<Rightarrow> 'v option" where
  "dget d k = map_of d k"

text \<open>\<open>ev.get(k)\<close> where the caller already knows it holds a dict: an absent key reads as \<open>None\<close>.\<close>

definition pget :: "(string \<times> pyval) list \<Rightarrow> string \<Rightarrow> pyval" where
  "pget d k = (case map_of d k of None \<Rightarrow> PNone | Some v \<Rightarrow> v)"

text \<open>\<open>bool(v)\<close>. A float is kept as its literal and is false when it is zero.\<close>

fun truthy :: "pyval \<Rightarrow> bool" where
  "truthy PNone = False"
| "truthy (PBool b) = b"
| "truthy (PInt i) = (i \<noteq> 0)"
| "truthy (PFloat s) = (s \<noteq> ''0.0'' \<and> s \<noteq> ''-0.0'')"
| "truthy (PStr s) = (s \<noteq> [])"
| "truthy (PList xs) = (xs \<noteq> [])"
| "truthy (PDict d) = (d \<noteq> [])"

fun as_str :: "pyval \<Rightarrow> string option" where
  "as_str (PStr s) = Some s"
| "as_str _ = None"

fun as_list :: "pyval \<Rightarrow> pyval list option" where
  "as_list (PList xs) = Some xs"
| "as_list _ = None"

fun as_dict :: "pyval \<Rightarrow> (string \<times> pyval) list option" where
  "as_dict (PDict d) = Some d"
| "as_dict _ = None"

fun_cases as_strE [elim]: "as_str v = Some s"
fun_cases as_listE [elim]: "as_list v = Some xs"
fun_cases as_dictE [elim]: "as_dict v = Some d"

text \<open>Type tests: \<open>isinstance(v, str) and ...\<close> and its like.\<close>

lemma case_str_ex: "(case v of PStr s \<Rightarrow> P s | _ \<Rightarrow> False) \<longleftrightarrow> (\<exists>s. v = PStr s \<and> P s)"
  by (cases v) auto

lemma case_list_ex: "(case v of PList xs \<Rightarrow> P xs | _ \<Rightarrow> False) \<longleftrightarrow> (\<exists>xs. v = PList xs \<and> P xs)"
  by (cases v) auto

lemma case_dict_ex: "(case v of PDict d \<Rightarrow> P d | _ \<Rightarrow> False) \<longleftrightarrow> (\<exists>d. v = PDict d \<and> P d)"
  by (cases v) auto

lemma case_Some_ex: "(case x of None \<Rightarrow> False | Some y \<Rightarrow> P y) \<longleftrightarrow> (\<exists>y. x = Some y \<and> P y)"
  by (cases x) auto

lemmas type_tests = case_str_ex case_list_ex case_dict_ex case_Some_ex

lemma dget_update:
  "dget ((k, v) # d) k' = (if k' = k then Some v else dget d k')"
  by (simp add: dget_def)

section \<open>Characters\<close>

text \<open>\<open>str.isspace\<close> of one code point below 256.\<close>

definition py_isspace :: "char \<Rightarrow> bool" where
  "py_isspace c \<longleftrightarrow> c \<in> set [CHR 0x09, CHR 0x0A, CHR 0x0B, CHR 0x0C, CHR 0x0D,
     CHR 0x1C, CHR 0x1D, CHR 0x1E, CHR 0x1F, CHR 0x20, CHR 0x85, CHR 0xA0]"

text \<open>The decimal digits, which \<open>int\<close> can read.\<close>

definition ascii_digit :: "char \<Rightarrow> bool" where
  "ascii_digit c \<longleftrightarrow> c \<in> set ''0123456789''"

text \<open>
  \<open>str.isdigit\<close> of one code point below 256: the decimal digits and the three superscripts
  (code points 178, 179 and 185), which \<open>int\<close> refuses.
\<close>

definition py_isdigit :: "char \<Rightarrow> bool" where
  "py_isdigit c \<longleftrightarrow> ascii_digit c \<or> c \<in> set [CHR 0xB2, CHR 0xB3, CHR 0xB9]"

definition lower_char :: "char \<Rightarrow> char" where
  "lower_char c = (let n = (of_char c :: nat) in
     if 65 \<le> n \<and> n \<le> 90 \<or> 192 \<le> n \<and> n \<le> 222 \<and> n \<noteq> 215 then char_of (n + 32) else c)"

definition py_lower :: "string \<Rightarrow> string" where
  "py_lower s = map lower_char s"

section \<open>String methods\<close>

definition startswith :: "'a list \<Rightarrow> 'a list \<Rightarrow> bool" where
  "startswith s p \<longleftrightarrow> prefix p s"

definition endswith :: "'a list \<Rightarrow> 'a list \<Rightarrow> bool" where
  "endswith s p \<longleftrightarrow> suffix p s"

text \<open>\<open>p in s\<close>\<close>

definition contains :: "'a list \<Rightarrow> 'a list \<Rightarrow> bool" where
  "contains s p \<longleftrightarrow> sublist p s"

definition lstrip_of :: "('a \<Rightarrow> bool) \<Rightarrow> 'a list \<Rightarrow> 'a list" where
  "lstrip_of P s = dropWhile P s"

definition rstrip_of :: "('a \<Rightarrow> bool) \<Rightarrow> 'a list \<Rightarrow> 'a list" where
  "rstrip_of P s = rev (dropWhile P (rev s))"

definition py_strip :: "string \<Rightarrow> string" where
  "py_strip s = rstrip_of py_isspace (lstrip_of py_isspace s)"

text \<open>\<open>s.split(c)\<close> cuts at every separator; the pieces may be empty.\<close>

fun split_by :: "('a \<Rightarrow> bool) \<Rightarrow> 'a list \<Rightarrow> 'a list list" where
  "split_by P [] = [[]]"
| "split_by P (x # xs) =
     (if P x then [] # split_by P xs
      else case split_by P xs of [] \<Rightarrow> [[x]] | y # ys \<Rightarrow> (x # y) # ys)"

definition split_on :: "'a \<Rightarrow> 'a list \<Rightarrow> 'a list list" where
  "split_on c s = split_by (\<lambda>x. x = c) s"

text \<open>\<open>s.split()\<close>: maximal runs without whitespace.\<close>

definition split_ws :: "string \<Rightarrow> string list" where
  "split_ws s = filter (\<lambda>w. w \<noteq> []) (split_by py_isspace s)"

text \<open>\<open>sep.join(xs)\<close>\<close>

fun join_with :: "'a list \<Rightarrow> 'a list list \<Rightarrow> 'a list" where
  "join_with sep [] = []"
| "join_with sep [x] = x"
| "join_with sep (x # y # ys) = x @ sep @ join_with sep (y # ys)"

text \<open>\<open>s.partition(c)\<close>, without the separator itself.\<close>

definition before_char :: "'a \<Rightarrow> 'a list \<Rightarrow> 'a list" where
  "before_char c s = takeWhile (\<lambda>x. x \<noteq> c) s"

definition after_char :: "'a \<Rightarrow> 'a list \<Rightarrow> 'a list" where
  "after_char c s = drop 1 (dropWhile (\<lambda>x. x \<noteq> c) s)"

text \<open>\<open>s.rsplit(c, 1)\<close> where \<open>c\<close> occurs in \<open>s\<close>.\<close>

definition before_last :: "'a \<Rightarrow> 'a list \<Rightarrow> 'a list" where
  "before_last c s = rev (after_char c (rev s))"

definition after_last :: "'a \<Rightarrow> 'a list \<Rightarrow> 'a list" where
  "after_last c s = rev (before_char c (rev s))"

text \<open>\<open>int(s)\<close> for a string of decimal digits.\<close>

definition digit_val :: "char \<Rightarrow> int" where
  "digit_val c = int (of_char c) - 48"

definition int_of_digits :: "string \<Rightarrow> int" where
  "int_of_digits s = foldl (\<lambda>n c. 10 * n + digit_val c) 0 s"

text \<open>\<open>str(n)\<close> for a natural number.\<close>

fun str_of_nat :: "nat \<Rightarrow> string" where
  "str_of_nat n = (if n < 10 then [char_of (n + 48)]
     else str_of_nat (n div 10) @ [char_of (n mod 10 + 48)])"

declare str_of_nat.simps [simp del]

text \<open>The digits of a number, and its value read back from them.\<close>

definition digits_val :: "string \<Rightarrow> nat" where
  "digits_val s = foldl (\<lambda>a c. a * 10 + (of_char c - 48)) 0 s"

lemma str_of_nat_digits: "set (str_of_nat n) \<subseteq> char_of ` {48..57::nat}" "digits_val (str_of_nat n) = n"
proof (induction n rule: str_of_nat.induct)
  case (1 n)
  have d: "k < 10 \<Longrightarrow> of_char (char_of (k + 48) :: char) = k + 48" for k :: nat by simp
  { case 1
    show ?case using "1.IH"(1) by (subst str_of_nat.simps) auto
  next
    case 2
    show ?case using "1.IH"(2) d [of n] d [of "n mod 10"]
      by (subst str_of_nat.simps) (auto simp: digits_val_def)
  }
qed

text \<open>\<open>repr(s)\<close>: single quotes unless the text has a single quote and no double quote; the
  backslash, the quote in use and the unprintable code points are escaped.\<close>

definition hex_digit :: "nat \<Rightarrow> char" where
  "hex_digit n = (if n < 10 then char_of (n + 48) else char_of (n + 87))"

definition repr_char :: "char \<Rightarrow> char \<Rightarrow> string" where
  "repr_char q c = (let n = (of_char c :: nat) in
     if c = CHR 0x5C \<or> c = q then [CHR 0x5C, c]
     else if n = 10 then [CHR 0x5C, CHR ''n''] else if n = 13 then [CHR 0x5C, CHR ''r'']
     else if n = 9 then [CHR 0x5C, CHR ''t'']
     else if n < 32 \<or> 127 \<le> n \<and> n \<le> 160 \<or> n = 173
     then [CHR 0x5C, CHR ''x'', hex_digit (n div 16), hex_digit (n mod 16)]
     else [c])"

definition repr_str :: "string \<Rightarrow> string" where
  "repr_str s = (let q = (if CHR 0x27 \<in> set s \<and> CHR 0x22 \<notin> set s then CHR 0x22 else CHR 0x27)
     in q # concat (map (repr_char q) s) @ [q])"

definition str_of_int :: "int \<Rightarrow> string" where
  "str_of_int i = (if i < 0 then CHR ''-'' # str_of_nat (nat (- i)) else str_of_nat (nat i))"

fun repr_val :: "pyval \<Rightarrow> string" where
  "repr_val PNone = ''None''"
| "repr_val (PBool b) = (if b then ''True'' else ''False'')"
| "repr_val (PInt i) = str_of_int i"
| "repr_val (PFloat s) = s"
| "repr_val (PStr s) = repr_str s"
| "repr_val (PList xs) = ''['' @ join_with '', '' (map repr_val xs) @ '']''"
| "repr_val (PDict d) =
     ''{'' @ join_with '', '' (map (\<lambda>(k, v). repr_str k @ '': '' @ repr_val v) d) @ ''}''"

text \<open>\<open>str(v)\<close>\<close>

definition str_val :: "pyval \<Rightarrow> string" where
  "str_val v = (case v of PStr s \<Rightarrow> s | _ \<Rightarrow> repr_val v)"

text \<open>\<open>v or e\<close>, and \<open>v.get(k, e)\<close> on a value that may not be a dict (\<open>None\<close>: it raises).\<close>

definition py_or :: "pyval \<Rightarrow> pyval \<Rightarrow> pyval" where
  "py_or v e = (if truthy v then v else e)"

definition dict_get :: "pyval \<Rightarrow> string \<Rightarrow> pyval \<Rightarrow> pyval option" where
  "dict_get v k e = map_option (\<lambda>d. case map_of d k of None \<Rightarrow> e | Some x \<Rightarrow> x) (as_dict v)"

section \<open>Lemmas on the string methods\<close>

lemma startswith_append [py_str]: "startswith s p \<longleftrightarrow> (\<exists>r. s = p @ r)"
  by (simp add: startswith_def prefix_def)

lemma startswith_Nil [simp]: "startswith s []"
  by (simp add: startswith_def)

lemma startswith_Nil_left [simp]: "startswith [] p \<longleftrightarrow> p = []"
  by (simp add: startswith_def)

lemma startswith_Cons [simp]: "startswith (x # s) (y # p) \<longleftrightarrow> x = y \<and> startswith s p"
  by (auto simp: startswith_def)

lemma startswith_refl [simp]: "startswith s s"
  by (simp add: startswith_def)

lemma startswith_self_append [simp]: "startswith (p @ s) p"
  by (simp add: startswith_def)

lemma startswith_trans [intro]: "startswith s p \<Longrightarrow> startswith p q \<Longrightarrow> startswith s q"
  by (auto simp: startswith_def intro: prefix_order.trans)

lemma startswith_same_length:
  "startswith s p \<Longrightarrow> startswith s q \<Longrightarrow> length p \<le> length q \<Longrightarrow> startswith q p"
  by (auto simp: startswith_def intro: prefix_length_prefix)

lemma startswith_code [code]:
  "startswith s [] = True"
  "startswith [] (y # p) = False"
  "startswith (x # s) (y # p) = (x = y \<and> startswith s p)"
  by simp_all

lemma endswith_append [py_str]: "endswith s p \<longleftrightarrow> (\<exists>r. s = r @ p)"
  by (simp add: endswith_def suffix_def)

lemma endswith_Nil [simp]: "endswith s []"
  by (simp add: endswith_def)

lemma endswith_code [code, py_str]: "endswith s p = startswith (rev s) (rev p)"
  by (simp add: endswith_def startswith_def suffix_to_prefix)

lemma contains_append [py_str]: "contains s p \<longleftrightarrow> (\<exists>a b. s = a @ p @ b)"
  by (simp add: contains_def sublist_def)

lemma contains_code [code]:
  "contains [] p = (p = [])"
  "contains (x # s) p = (startswith (x # s) p \<or> contains s p)"
  by (auto simp: contains_def startswith_def sublist_Cons_right)

lemmas contains_simps = contains_code

lemma contains_single [simp]: "contains s [c] \<longleftrightarrow> c \<in> set s"
  by (induction s) (auto simp: contains_simps)

lemma contains_appendI [intro]: "contains a p \<Longrightarrow> contains (a @ b) p"
  by (metis append_assoc contains_append)

lemma split_by_not_Nil [simp]: "split_by P s \<noteq> []"
  by (induction s) (auto split: list.splits)

lemma split_by_no_sep: "\<forall>x\<in>set s. \<not> P x \<Longrightarrow> split_by P s = [s]"
  by (induction s) auto

lemma split_by_pieces: "w \<in> set (split_by P s) \<Longrightarrow> x \<in> set w \<Longrightarrow> \<not> P x \<and> x \<in> set s"
proof (induction s arbitrary: w)
  case Nil
  then show ?case by simp
next
  case (Cons y s)
  then show ?case
    by (cases "split_by P s") (fastforce split: if_splits)+
qed

lemma split_on_no_sep: "w \<in> set (split_on c s) \<Longrightarrow> c \<notin> set w"
  unfolding split_on_def using split_by_pieces by fastforce

lemma join_with_Cons: "ys \<noteq> [] \<Longrightarrow> join_with sep (x # ys) = x @ sep @ join_with sep ys"
  by (cases ys) auto

lemma join_with_head: "join_with sep ((x # y) # ys) = x # join_with sep (y # ys)"
  by (cases ys) auto

text \<open>Joining what \<open>split\<close> cut gives the string back.\<close>

lemma join_split_on: "join_with [c] (split_on c s) = s"
proof (induction s)
  case Nil
  then show ?case by (simp add: split_on_def)
next
  case (Cons x s)
  have ne: "split_by (\<lambda>y. y = c) s \<noteq> []" by simp
  then obtain y ys where ys: "split_by (\<lambda>y. y = c) s = y # ys" by (cases "split_by (\<lambda>y. y = c) s") auto
  show ?case
  proof (cases "x = c")
    case True
    with Cons ne show ?thesis by (simp add: split_on_def join_with_Cons)
  next
    case False
    with Cons ys show ?thesis by (simp add: split_on_def join_with_head)
  qed
qed

lemma split_on_append_sep: "c \<notin> set a \<Longrightarrow> split_on c (a @ c # b) = a # split_on c b"
  by (induction a) (auto simp: split_on_def)

lemma split_on_single: "c \<notin> set a \<Longrightarrow> split_on c a = [a]"
  unfolding split_on_def by (rule split_by_no_sep) auto

lemma split_on_join:
  "xs \<noteq> [] \<Longrightarrow> \<forall>w\<in>set xs. c \<notin> set w \<Longrightarrow> split_on c (join_with [c] xs) = xs"
proof (induction xs rule: induct_list012)
  case 1
  then show ?case by simp
next
  case (2 x)
  then show ?case by (simp add: split_on_single)
next
  case (3 x y zs)
  then show ?case by (simp add: split_on_append_sep)
qed

lemma before_after_char: "c \<in> set s \<Longrightarrow> s = before_char c s @ c # after_char c s"
  by (induction s) (auto simp: before_char_def after_char_def)

lemma before_char_no_sep: "c \<notin> set (before_char c s)"
  by (auto simp: before_char_def dest: set_takeWhileD)

lemma before_after_last: "c \<in> set s \<Longrightarrow> s = before_last c s @ c # after_last c s"
proof -
  assume "c \<in> set s"
  then have "rev s = before_char c (rev s) @ c # after_char c (rev s)"
    by (intro before_after_char) simp
  then have "rev (rev s) = rev (before_char c (rev s) @ c # after_char c (rev s))"
    by (rule arg_cong)
  then show ?thesis by (simp add: before_last_def after_last_def)
qed

lemma after_last_no_sep: "c \<notin> set (after_last c s)"
  by (simp add: after_last_def before_char_no_sep)

lemma length_rstrip: "length (rstrip_of P s) \<le> length s"
  by (metis length_dropWhile_le length_rev rstrip_of_def)

lemma rstrip_of_append: "rstrip_of P (a @ [x]) = (if P x then rstrip_of P a else a @ [x])"
  by (simp add: rstrip_of_def)

lemma rstrip_of_id: "s \<noteq> [] \<Longrightarrow> \<not> P (last s) \<Longrightarrow> rstrip_of P s = s"
  by (cases s rule: rev_cases) (auto simp: rstrip_of_append)

lemma split_ws_nonempty: "w \<in> set (split_ws s) \<Longrightarrow> w \<noteq> []"
  by (simp add: split_ws_def)

lemma split_ws_no_space: "w \<in> set (split_ws s) \<Longrightarrow> x \<in> set w \<Longrightarrow> \<not> py_isspace x"
  by (auto simp: split_ws_def dest: split_by_pieces)

lemma set_join_with: "x \<in> set (join_with sep ws) \<Longrightarrow> x \<in> set sep \<or> (\<exists>w\<in>set ws. x \<in> set w)"
  by (induction ws rule: induct_list012) auto

lemma split_by_append_sep: "\<forall>x\<in>set a. \<not> P x \<Longrightarrow> P c \<Longrightarrow> split_by P (a @ c # b) = a # split_by P b"
  by (induction a) auto

lemma split_by_join:
  "xs \<noteq> [] \<Longrightarrow> \<forall>w\<in>set xs. \<forall>x\<in>set w. \<not> P x \<Longrightarrow> P c \<Longrightarrow> split_by P (join_with [c] xs) = xs"
proof (induction xs rule: induct_list012)
  case (2 x)
  then show ?case by (simp add: split_by_no_sep)
next
  case (3 x y zs)
  then show ?case by (simp add: split_by_append_sep)
qed simp

lemma split_ws_join:
  assumes "\<forall>w\<in>set ws. w \<noteq> [] \<and> (\<forall>x\<in>set w. \<not> py_isspace x)"
  shows "split_ws (join_with '' '' ws) = ws"
proof (cases "ws = []")
  case False
  have "split_by py_isspace (join_with '' '' ws) = ws"
    using False assms by (intro split_by_join) (auto simp: py_isspace_def)
  moreover have "filter (\<lambda>w. w \<noteq> []) ws = ws" using assms by (intro filter_True) simp
  ultimately show ?thesis by (simp add: split_ws_def)
qed (simp add: split_ws_def)

section \<open>Dictionaries\<close>

declare map_of_eq_Some_iff [simp del] Some_eq_map_of_iff [simp del]

text \<open>\<open>d[k] = v\<close> keeps the place of an existing key and appends a new one; \<open>d.pop(k, None)\<close>.\<close>

fun dput :: "'k \<Rightarrow> 'v \<Rightarrow> ('k \<times> 'v) list \<Rightarrow> ('k \<times> 'v) list" where
  "dput k v [] = [(k, v)]"
| "dput k v ((k', v') # d) = (if k = k' then (k, v) # d else (k', v') # dput k v d)"

definition ddel :: "'k \<Rightarrow> ('k \<times> 'v) list \<Rightarrow> ('k \<times> 'v) list" where
  "ddel k d = filter (\<lambda>(k', v). k' \<noteq> k) d"

lemma map_of_dput [simp]: "map_of (dput k v d) = (map_of d)(k \<mapsto> v)"
  by (induction k v d rule: dput.induct) auto

lemma map_of_ddel [simp]: "map_of (ddel k d) = (map_of d)(k := None)"
  by (induction d) (auto simp: ddel_def)

lemma keys_dput: "set (map fst (dput k v d)) = insert k (set (map fst d))"
  by (induction k v d rule: dput.induct) auto

lemma keys_ddel: "set (map fst (ddel k d)) = set (map fst d) - {k}"
  by (force simp: ddel_def)

lemma dput_keys_present: "map_of d k = Some w \<Longrightarrow> map fst (dput k v d) = map fst d"
  by (induction k v d rule: dput.induct) (auto split: if_splits)

lemma distinct_dput [simp]: "distinct (map fst d) \<Longrightarrow> distinct (map fst (dput k v d))"
proof (induction k v d rule: dput.induct)
  case (2 k v k' v' d)
  then show ?case using keys_dput [of k v d] by auto
qed simp

lemma distinct_ddel [simp]: "distinct (map fst d) \<Longrightarrow> distinct (map fst (ddel k d))"
  unfolding ddel_def by (induction d) auto

lemma dput_twice: "dput k v (dput k w d) = dput k v d"
  by (induction k w d rule: dput.induct) auto

lemma ddel_absent: "k \<notin> fst ` set d \<Longrightarrow> ddel k d = d"
  unfolding ddel_def by (rule filter_True) force

lemma dput_set: "set (dput k v d) \<subseteq> insert (k, v) (set d)"
  by (induction k v d rule: dput.induct) auto

lemma ddel_set: "set (ddel k d) \<subseteq> set d"
  by (auto simp: ddel_def)

lemma map_of_map_snd: "map_of (map (\<lambda>(k, v). (k, f v)) xs) k = map_option f (map_of xs k)"
  by (induction xs) auto

lemma pget_dput [simp]: "pget (dput k v d) k' = (if k' = k then v else pget d k')"
  by (simp add: pget_def)

section \<open>Generic list lemmas\<close>

text \<open>Deleting the first row that matches, as \<open>DELETE ... LIMIT 1\<close> on a list of rows.\<close>

lemma find_Some_set: "List.find P xs = Some x \<Longrightarrow> x \<in> set xs \<and> P x"
  by (auto simp: find_Some_iff)

lemma find_None_all: "List.find P xs = None \<longleftrightarrow> (\<forall>x\<in>set xs. \<not> P x)"
  by (auto simp: find_None_iff)

lemma find_sorted:
  "sorted xs \<Longrightarrow> List.find P xs = Some x \<Longrightarrow> x \<in> set xs \<and> P x \<and> (\<forall>y\<in>set xs. y < x \<longrightarrow> \<not> P y)"
  by (induction xs) (auto split: if_splits)

lemma distinct_map_filter: "distinct (map f xs) \<Longrightarrow> distinct (map f (filter P xs))"
  by (induction xs) auto

lemma distinct_map_inj:
  "distinct (map f xs) \<Longrightarrow> x \<in> set xs \<Longrightarrow> y \<in> set xs \<Longrightarrow> f x = f y \<Longrightarrow> x = y"
  by (metis distinct_map inj_onD)

section \<open>The worst of several verdicts\<close>

text \<open>
  Two components fold a list of graded verdicts with a binary \<open>worse\<close> that keeps its first
  argument on a tie: the shell classifier and the egress scanner. The contract and its
  consequences are stated once.
\<close>

locale worst_of =
  fixes rank :: "'v \<Rightarrow> nat"
    and worse :: "'v \<Rightarrow> 'v \<Rightarrow> 'v"
  assumes worse_rule: "worse a b = (if rank b \<le> rank a then a else b)"
begin

lemma worse_is_arg: "worse a b = a \<or> worse a b = b"
  by (simp add: worse_rule)

lemma rank_worse: "rank (worse a b) = max (rank a) (rank b)"
  by (auto simp: worse_rule)

lemma rank_foldl: "rank (foldl worse a vs) = fold max (map rank vs) (rank a)"
proof (induction vs arbitrary: a)
  case Nil
  then show ?case by simp
next
  case (Cons v vs)
  then show ?case by (simp add: rank_worse max.commute)
qed

lemma foldl_mem: "foldl worse a vs \<in> insert a (set vs)"
proof (induction vs arbitrary: a)
  case Nil
  then show ?case by simp
next
  case (Cons v vs)
  have "foldl worse (worse a v) vs \<in> insert (worse a v) (set vs)" by (rule Cons)
  with worse_is_arg [of a v] show ?case by auto
qed

lemma foldl_ge_start: "rank a \<le> rank (foldl worse a vs)"
proof (induction vs arbitrary: a)
  case (Cons v vs)
  have "rank (worse a v) \<le> rank (foldl worse (worse a v) vs)" by (rule Cons)
  then show ?case by (simp add: rank_worse)
qed simp

lemma foldl_ge_mem: "v \<in> set vs \<Longrightarrow> rank v \<le> rank (foldl worse a vs)"
proof (induction vs arbitrary: a)
  case (Cons w vs)
  have "rank (worse a w) \<le> rank (foldl worse (worse a w) vs)" by (rule foldl_ge_start)
  with Cons show ?case by (auto simp: rank_worse)
qed simp

end

end
