(* ===== verification/Py_Path.thy ===== *)
theory Py_Path
  imports Py_Prelude
begin

text \<open>
  The pure part of Python's \<open>posixpath\<close> (\<open>isabs\<close>, \<open>join\<close>, \<open>basename\<close>, \<open>dirname\<close>,
  \<open>normpath\<close>, \<open>abspath\<close>) and the component-boundary comparison \<open>p == r or p.startswith(r + "/")\<close>
  that the file scope, the shell classifier, the task driver and the sandbox view all use.
  The comparison is a locale: each gate interprets it with its own definition, and inherits that
  it decides exactly ``is a component prefix of'' on canonical paths.
  What a path resolves to on the running system (\<open>os.path.realpath\<close>, \<open>os.path.isdir\<close>) is a
  parameter wherever it is used.
\<close>

section \<open>posixpath\<close>

definition isabs :: "string \<Rightarrow> bool" where
  "isabs p \<longleftrightarrow> startswith p ''/''"

definition path_join :: "string \<Rightarrow> string \<Rightarrow> string" where
  "path_join a b =
     (if startswith b ''/'' then b
      else if a = [] \<or> endswith a ''/'' then a @ b
      else a @ ''/'' @ b)"

definition basename :: "string \<Rightarrow> string" where
  "basename p = after_last (CHR ''/'') p"

definition dirname :: "string \<Rightarrow> string" where
  "dirname p =
     (let head = take (length p - length (basename p)) p
      in if head \<noteq> [] \<and> (\<exists>c\<in>set head. c \<noteq> CHR ''/'')
         then rstrip_of (\<lambda>c. c = CHR ''/'') head else head)"

text \<open>The loop of \<open>normpath\<close>; the stack of kept components is held in reverse.\<close>

fun norm_loop :: "bool \<Rightarrow> string list \<Rightarrow> string list \<Rightarrow> string list" where
  "norm_loop rooted acc [] = rev acc"
| "norm_loop rooted acc (c # cs) =
     (if c = [] \<or> c = ''.'' then norm_loop rooted acc cs
      else if c \<noteq> ''..'' \<or> (\<not> rooted \<and> acc = []) \<or> (acc \<noteq> [] \<and> hd acc = ''..'')
      then norm_loop rooted (c # acc) cs
      else if acc \<noteq> [] then norm_loop rooted (tl acc) cs
      else norm_loop rooted acc cs)"

definition normpath :: "string \<Rightarrow> string" where
  "normpath p =
     (if p = [] then ''.''
      else let slashes = (if startswith p ''//'' \<and> \<not> startswith p ''///'' then ''//''
                          else if startswith p ''/'' then ''/'' else []);
               q = slashes @ join_with ''/'' (norm_loop (slashes \<noteq> []) [] (split_on (CHR ''/'') p))
           in if q = [] then ''.'' else q)"

text \<open>\<open>os.path.abspath\<close>; the working directory of the process is a parameter.\<close>

definition abspath :: "string \<Rightarrow> string \<Rightarrow> string" where
  "abspath cwd p = normpath (if isabs p then p else path_join cwd p)"

section \<open>Canonical paths and their components\<close>

text \<open>The path that lists the given components: \<open>/a/b\<close>; no component is the root itself.\<close>

definition raw_path :: "string list \<Rightarrow> string" where
  "raw_path cs = concat (map (\<lambda>c. CHR ''/'' # c) cs)"

definition abs_path :: "string list \<Rightarrow> string" where
  "abs_path cs = (if cs = [] then ''/'' else raw_path cs)"

definition comp_ok :: "string \<Rightarrow> bool" where
  "comp_ok c \<longleftrightarrow> c \<noteq> [] \<and> CHR ''/'' \<notin> set c"

definition path_comps :: "string \<Rightarrow> string list" where
  "path_comps p = filter (\<lambda>c. c \<noteq> []) (split_on (CHR ''/'') p)"

definition canonical :: "string \<Rightarrow> bool" where
  "canonical p \<longleftrightarrow> p = abs_path (path_comps p)"

lemma raw_path_simps [simp]:
  "raw_path [] = []" "raw_path (c # cs) = CHR ''/'' # c @ raw_path cs"
  "raw_path (cs @ ds) = raw_path cs @ raw_path ds"
  by (simp_all add: raw_path_def)

lemma split_on_append: "split_on c (a @ c # b) = split_on c a @ split_on c b"
proof (induction a)
  case Nil
  then show ?case by (simp add: split_on_def)
next
  case (Cons x a)
  have ne: "split_by (\<lambda>y. y = c) a \<noteq> []" by simp
  then obtain y ys where ys: "split_by (\<lambda>y. y = c) a = y # ys"
    by (cases "split_by (\<lambda>y. y = c) a") auto
  from Cons ys show ?case by (simp add: split_on_def)
qed

lemma split_raw_path: "\<forall>c\<in>set cs. comp_ok c \<Longrightarrow> split_on (CHR ''/'') (raw_path cs) = [] # cs"
proof (induction cs)
  case Nil
  then show ?case by (simp add: split_on_def)
next
  case (Cons c cs)
  then have c: "CHR ''/'' \<notin> set c" and IH: "split_on (CHR ''/'') (raw_path cs) = [] # cs"
    by (auto simp: comp_ok_def)
  show ?case
  proof (cases cs)
    case Nil
    with split_on_append [of "CHR ''/''" "[]" c] c show ?thesis
      by (simp add: split_on_single)
  next
    case (Cons d ds)
    then have "raw_path (c # cs) = [] @ CHR ''/'' # (c @ CHR ''/'' # (d @ raw_path ds))" by simp
    moreover have "split_on (CHR ''/'') (d @ raw_path ds) = cs"
    proof -
      have "[] # split_on (CHR ''/'') (d @ raw_path ds) = [] # cs"
        using IH Cons split_on_append [of "CHR ''/''" "[]" "d @ raw_path ds"]
        by (simp add: split_on_single)
      then show ?thesis by simp
    qed
    ultimately show ?thesis
      by (simp only: split_on_append split_on_single [OF c]) (simp add: split_on_def)
  qed
qed

lemma path_comps_raw: "\<forall>c\<in>set cs. comp_ok c \<Longrightarrow> path_comps (raw_path cs) = cs"
  by (auto simp: path_comps_def split_raw_path comp_ok_def)

lemma path_comps_abs [simp]: "\<forall>c\<in>set cs. comp_ok c \<Longrightarrow> path_comps (abs_path cs) = cs"
  using path_comps_raw [of cs] by (auto simp: abs_path_def path_comps_def split_on_def)

lemma path_comps_ok: "c \<in> set (path_comps p) \<Longrightarrow> comp_ok c"
  by (auto simp: path_comps_def comp_ok_def dest: split_on_no_sep)

lemma canonical_abs_path: "\<forall>c\<in>set cs. comp_ok c \<Longrightarrow> canonical (abs_path cs)"
  by (simp add: canonical_def)

lemma canonicalE:
  assumes "canonical p"
  obtains cs where "\<forall>c\<in>set cs. comp_ok c" "p = abs_path cs" "path_comps p = cs"
  using assms path_comps_ok unfolding canonical_def by blast

lemma canonical_isabs: "canonical p \<Longrightarrow> isabs p"
  by (auto simp: isabs_def abs_path_def neq_Nil_conv elim!: canonicalE)

lemma raw_path_inject:
  assumes "\<forall>c\<in>set cs. comp_ok c" "\<forall>c\<in>set ds. comp_ok c" "raw_path cs = raw_path ds"
  shows "cs = ds"
  using assms path_comps_raw by metis

section \<open>The component-boundary comparison\<close>

text \<open>A root with its trailing separators removed, as \<open>r.rstrip("/")\<close>.\<close>

definition strip_slash :: "string \<Rightarrow> string" where
  "strip_slash r = rstrip_of (\<lambda>c. c = CHR ''/'') r"

lemma strip_slash_abs_path: "\<forall>c\<in>set cs. comp_ok c \<Longrightarrow> strip_slash (abs_path cs) = raw_path cs"
proof (cases cs rule: rev_cases)
  case Nil
  then show ?thesis by (simp add: strip_slash_def abs_path_def rstrip_of_def)
next
  case (snoc ds d)
  assume "\<forall>c\<in>set cs. comp_ok c"
  with snoc have "d \<noteq> []" "CHR ''/'' \<notin> set d" by (auto simp: comp_ok_def)
  then obtain e x where "d = e @ [x]" "x \<noteq> CHR ''/''" by (cases d rule: rev_cases) auto
  with snoc show ?thesis
    by (simp add: strip_slash_def abs_path_def rstrip_of_def)
qed

lemma raw_under_iff_prefix:
  assumes cs: "\<forall>c\<in>set cs. comp_ok c" and ds: "\<forall>c\<in>set ds. comp_ok c"
  shows "raw_path ds = raw_path cs \<or> startswith (raw_path ds) (raw_path cs @ ''/'')
    \<longleftrightarrow> prefix cs ds"
proof
  assume "raw_path ds = raw_path cs \<or> startswith (raw_path ds) (raw_path cs @ ''/'')"
  then show "prefix cs ds"
  proof
    assume "raw_path ds = raw_path cs"
    with cs ds have "ds = cs" by (intro raw_path_inject)
    then show ?thesis by simp
  next
    assume "startswith (raw_path ds) (raw_path cs @ ''/'')"
    then obtain r where r: "raw_path ds = raw_path cs @ CHR ''/'' # r"
      by (auto simp: startswith_append)
    have "[] # ds = split_on (CHR ''/'') (raw_path ds)" by (simp add: split_raw_path ds)
    also have "\<dots> = [] # cs @ split_on (CHR ''/'') r"
      unfolding r split_on_append by (simp add: split_raw_path cs)
    finally show ?thesis by auto
  qed
next
  assume "prefix cs ds"
  then obtain es where "ds = cs @ es" by (auto simp: prefix_def)
  then show "raw_path ds = raw_path cs \<or> startswith (raw_path ds) (raw_path cs @ ''/'')"
    by (cases es) (auto simp: startswith_append)
qed

text \<open>
  A gate compares a candidate path with an authorised (or forbidden) root. What it promises is
  that it accepts the root itself and whatever lies below it, on a component boundary.
\<close>

locale path_scope =
  fixes covers :: "string \<Rightarrow> string \<Rightarrow> bool"
    and good_root :: "string \<Rightarrow> bool"
  assumes covers_iff:
    "good_root r \<Longrightarrow> covers r p \<longleftrightarrow> p = strip_slash r \<or> startswith p (strip_slash r @ ''/'')"
    and good_root_canonical: "good_root r \<Longrightarrow> canonical r"
begin

lemma covers_iff_prefix:
  assumes "good_root r" "canonical p"
    and "path_comps p = [] \<Longrightarrow> path_comps r = [] \<Longrightarrow> False"
  shows "covers r p \<longleftrightarrow> prefix (path_comps r) (path_comps p)"
proof -
  obtain cs where cs: "\<forall>c\<in>set cs. comp_ok c" "r = abs_path cs" "path_comps r = cs"
    using good_root_canonical [OF assms(1)] by (rule canonicalE)
  obtain ds where ds: "\<forall>c\<in>set ds. comp_ok c" "p = abs_path ds" "path_comps p = ds"
    using assms(2) by (rule canonicalE)
  have cov: "covers r p \<longleftrightarrow> p = raw_path cs \<or> startswith p (raw_path cs @ ''/'')"
    using covers_iff [OF assms(1)] cs strip_slash_abs_path by simp
  show ?thesis
  proof (cases ds)
    case Nil
    with assms(3) cs ds have "cs \<noteq> []" by auto
    then obtain c cs' where "cs = c # cs'" by (cases cs) auto
    with cs(1) Nil ds cov cs(3) show ?thesis
      by (auto simp: abs_path_def comp_ok_def startswith_append Cons_eq_append_conv)
  next
    case (Cons d ds')
    with ds have "p = raw_path ds" by (simp add: abs_path_def)
    with cov raw_under_iff_prefix [OF cs(1) ds(1)] cs ds show ?thesis by simp
  qed
qed

lemma covers_no_sibling:
  assumes "good_root r" "r \<noteq> ''/''" "x \<noteq> CHR ''/''"
  shows "\<not> covers r (r @ x # s)"
proof -
  obtain cs where cs: "\<forall>c\<in>set cs. comp_ok c" "r = abs_path cs"
    using good_root_canonical [OF assms(1)] by (rule canonicalE)
  then have "cs \<noteq> []" using assms(2) by (auto simp: abs_path_def)
  with cs have "strip_slash r = r" by (simp add: strip_slash_abs_path) (simp add: abs_path_def)
  with covers_iff [OF assms(1)] assms(3) show ?thesis by (simp add: startswith_append)
qed

lemma covers_below:
  assumes "good_root r" "covers r p"
  shows "covers r (p @ ''/'' @ s)"
proof -
  from assms have "p = strip_slash r \<or> startswith p (strip_slash r @ ''/'')"
    using covers_iff by simp
  then have "startswith (p @ ''/'' @ s) (strip_slash r @ ''/'')"
    by (auto simp: startswith_append)
  with covers_iff [OF assms(1)] show ?thesis by simp
qed

end

text \<open>The comparison as most gates write it: \<open>p == r or p.startswith(r + "/")\<close>.\<close>

definition under :: "string \<Rightarrow> string \<Rightarrow> bool" where
  "under r p \<longleftrightarrow> p = r \<or> startswith p (r @ ''/'')"

lemma strip_slash_canonical: "canonical r \<Longrightarrow> r \<noteq> ''/'' \<Longrightarrow> strip_slash r = r"
  by (elim canonicalE) (auto simp: strip_slash_abs_path, auto simp: abs_path_def split: if_splits)

interpretation under_scope: path_scope under "\<lambda>r. canonical r \<and> r \<noteq> ''/''"
  by unfold_locales (auto simp: under_def strip_slash_canonical)

section \<open>Normalisation of absolute paths\<close>

lemma norm_loop_comps:
  "\<forall>c\<in>set acc. comp_ok c \<and> c \<noteq> ''.'' \<and> c \<noteq> ''..'' \<Longrightarrow> \<forall>c\<in>set cs. CHR ''/'' \<notin> set c \<Longrightarrow>
   \<forall>c\<in>set (norm_loop True acc cs). comp_ok c \<and> c \<noteq> ''.'' \<and> c \<noteq> ''..''"
proof (induction "True" acc cs rule: norm_loop.induct)
  case (1 acc)
  then show ?case by simp
next
  case (2 acc c cs)
  have acc: "acc = [] \<or> hd acc \<noteq> ''..''" using "2.prems"(1) by (cases acc) auto
  have tl: "\<forall>c\<in>set (tl acc). comp_ok c \<and> c \<noteq> ''.'' \<and> c \<noteq> ''..''"
    using "2.prems"(1) by (cases acc) auto
  consider (skip) "c = [] \<or> c = ''.''" | (keep) "c \<noteq> []" "c \<noteq> ''.''" "c \<noteq> ''..''"
    | (pop) "c = ''..''" "acc \<noteq> []" | (top) "c = ''..''" "acc = []" by blast
  then show ?case
  proof cases
    case skip
    then have "norm_loop True acc (c # cs) = norm_loop True acc cs" by auto
    with "2.hyps"(1) [OF skip] "2.prems" show ?thesis by simp
  next
    case keep
    then have eq: "norm_loop True acc (c # cs) = norm_loop True (c # acc) cs" by simp
    have "comp_ok c" using keep(1) "2.prems"(2) by (simp add: comp_ok_def)
    then have "\<forall>c\<in>set (c # acc). comp_ok c \<and> c \<noteq> ''.'' \<and> c \<noteq> ''..''"
      using keep "2.prems"(1) by simp
    moreover have "\<forall>c\<in>set cs. CHR ''/'' \<notin> set c" using "2.prems"(2) by simp
    moreover have "\<not> (c = [] \<or> c = ''.'')" using keep by blast
    ultimately show ?thesis unfolding eq using keep(3) "2.hyps"(2) by blast
  next
    case pop
    with acc have eq: "norm_loop True acc (c # cs) = norm_loop True (tl acc) cs" by simp
    have "\<forall>c\<in>set cs. CHR ''/'' \<notin> set c" using "2.prems"(2) by simp
    moreover have "\<not> (c = [] \<or> c = ''.'')" using pop by simp
    moreover have "\<not> (c \<noteq> ''..'' \<or> \<not> True \<and> acc = [] \<or> acc \<noteq> [] \<and> hd acc = ''..'')"
      using pop acc by blast
    ultimately show ?thesis unfolding eq using pop(2) tl "2.hyps"(3) by blast
  next
    case top
    then have eq: "norm_loop True acc (c # cs) = norm_loop True acc cs" by simp
    have "\<forall>c\<in>set cs. CHR ''/'' \<notin> set c" using "2.prems"(2) by simp
    moreover have "\<not> (c = [] \<or> c = ''.'')" using top by simp
    moreover have "\<not> (c \<noteq> ''..'' \<or> \<not> True \<and> acc = [] \<or> acc \<noteq> [] \<and> hd acc = ''..'')"
      using top by blast
    ultimately show ?thesis unfolding eq using top(2) "2.prems"(1) "2.hyps"(4) by blast
  qed
qed

lemma join_slash: "cs \<noteq> [] \<Longrightarrow> CHR ''/'' # join_with ''/'' cs = raw_path cs"
  by (induction cs rule: induct_list012) auto

lemma normpath_rooted:
  assumes "startswith p ''/''" "\<not> startswith p ''//'' \<or> startswith p ''///''"
  shows "normpath p = abs_path (norm_loop True [] (split_on (CHR ''/'') p))"
proof -
  define cs where "cs = norm_loop True [] (split_on (CHR ''/'') p)"
  define sl where "sl = (if startswith p ''//'' \<and> \<not> startswith p ''///'' then ''//''
                         else if startswith p ''/'' then ''/'' else [])"
  from assms have ne: "p \<noteq> []" by auto
  from assms have sl: "sl = ''/''" unfolding sl_def by argo
  have "normpath p = (let q = sl @ join_with ''/'' (norm_loop (sl \<noteq> []) [] (split_on (CHR ''/'') p))
      in if q = [] then ''.'' else q)"
    using ne by (simp only: normpath_def sl_def Let_def if_False)
  also have "\<dots> = CHR ''/'' # join_with ''/'' cs"
    by (simp add: sl cs_def)
  also have "\<dots> = abs_path cs"
    using join_slash [of cs] by (cases "cs = []") (simp_all add: abs_path_def)
  finally show ?thesis unfolding cs_def .
qed

lemma normpath_canonical:
  assumes "startswith p ''/''" "\<not> startswith p ''//'' \<or> startswith p ''///''"
  shows "canonical (normpath p)"
    and "\<forall>c\<in>set (path_comps (normpath p)). c \<noteq> ''.'' \<and> c \<noteq> ''..''"
proof -
  let ?cs = "norm_loop True [] (split_on (CHR ''/'') p)"
  have "\<forall>c\<in>set (split_on (CHR ''/'') p). CHR ''/'' \<notin> set c"
    by (auto dest: split_on_no_sep)
  then have ok: "\<forall>c\<in>set ?cs. comp_ok c \<and> c \<noteq> ''.'' \<and> c \<noteq> ''..''"
    by (intro norm_loop_comps) auto
  then have "\<forall>c\<in>set ?cs. comp_ok c" by blast
  then show "canonical (normpath p)"
    unfolding normpath_rooted [OF assms] by (rule canonical_abs_path)
  show "\<forall>c\<in>set (path_comps (normpath p)). c \<noteq> ''.'' \<and> c \<noteq> ''..''"
    unfolding normpath_rooted [OF assms] using ok by simp
qed

lemma basename_no_slash: "CHR ''/'' \<notin> set (basename p)"
  by (simp add: basename_def after_last_no_sep)

text \<open>
  A path as \<open>os.path.realpath\<close> returns it: absolute, without empty, \<open>.\<close> or \<open>..\<close> components. On such paths
  \<open>normpath\<close> and \<open>abspath\<close> are the identity and \<open>dirname\<close>, \<open>basename\<close> split off the last component.
\<close>

definition dotless :: "string \<Rightarrow> bool" where
  "dotless c \<longleftrightarrow> comp_ok c \<and> c \<noteq> ''.'' \<and> c \<noteq> ''..''"

definition plain_path :: "string \<Rightarrow> bool" where
  "plain_path p \<longleftrightarrow> canonical p \<and> (\<forall>c\<in>set (path_comps p). c \<noteq> ''.'' \<and> c \<noteq> ''..'')"

lemma plain_abs_path: "\<forall>c\<in>set cs. dotless c \<Longrightarrow> plain_path (abs_path cs)"
  by (auto simp: plain_path_def dotless_def canonical_abs_path)

lemma plain_pathE:
  assumes "plain_path p"
  obtains cs where "\<forall>c\<in>set cs. dotless c" "p = abs_path cs" "path_comps p = cs"
proof -
  from assms have p: "p = abs_path (path_comps p)" by (simp add: plain_path_def canonical_def)
  have "\<forall>c\<in>set (path_comps p). dotless c"
    using assms path_comps_ok [of _ p] by (auto simp: plain_path_def dotless_def)
  from that [OF this p refl] show ?thesis .
qed

lemma norm_loop_dotless: "\<forall>c\<in>set cs. dotless c \<Longrightarrow> norm_loop True acc cs = rev acc @ cs"
  by (induction cs arbitrary: acc) (auto simp: dotless_def comp_ok_def)

lemma abs_path_slashes:
  assumes "\<forall>c\<in>set cs. comp_ok c"
  shows "startswith (abs_path cs) ''/''" "\<not> startswith (abs_path cs) ''//''"
proof -
  show "startswith (abs_path cs) ''/''" by (cases cs) (simp_all add: abs_path_def)
  show "\<not> startswith (abs_path cs) ''//''"
  proof (cases cs)
    case (Cons c ds)
    with assms obtain x y where "c = x # y" "x \<noteq> CHR ''/''" by (cases c) (auto simp: comp_ok_def)
    with Cons show ?thesis by (simp add: abs_path_def)
  qed (simp add: abs_path_def)
qed

lemma normpath_abs_path:
  assumes "\<forall>c\<in>set cs. dotless c"
  shows "normpath (abs_path cs) = abs_path cs"
proof -
  have ok: "\<forall>c\<in>set cs. comp_ok c" using assms by (simp add: dotless_def)
  have "norm_loop True [] (split_on (CHR ''/'') (abs_path cs)) = cs"
  proof (cases "cs = []")
    case True
    then show ?thesis by (simp add: abs_path_def split_on_def)
  next
    case False
    then show ?thesis using norm_loop_dotless [OF assms, of "[]"] ok
      by (simp add: abs_path_def split_raw_path)
  qed
  with normpath_rooted [of "abs_path cs"] abs_path_slashes [OF ok] show ?thesis by simp
qed

lemma normpath_plain: "plain_path p \<Longrightarrow> normpath p = p"
  by (elim plain_pathE) (simp add: normpath_abs_path)

lemma abspath_plain: "plain_path p \<Longrightarrow> abspath cwd p = p"
  by (simp add: abspath_def normpath_plain canonical_isabs plain_path_def)

lemma after_last_append: "c \<notin> set b \<Longrightarrow> after_last c (a @ c # b) = b"
proof -
  assume "c \<notin> set b"
  then have eq: "takeWhile (\<lambda>x. x \<noteq> c) (rev b) = rev b" by (auto simp: takeWhile_eq_all_conv)
  show ?thesis by (simp add: after_last_def before_char_def takeWhile_tail eq)
qed

lemma basename_abs_path: "comp_ok c \<Longrightarrow> basename (abs_path (cs @ [c])) = c"
  by (simp add: basename_def abs_path_def comp_ok_def after_last_append)

lemma dirname_abs_path:
  assumes "\<forall>d\<in>set cs. comp_ok d" "comp_ok c"
  shows "dirname (abs_path (cs @ [c])) = abs_path cs"
proof -
  have head: "take (length (abs_path (cs @ [c])) - length c) (abs_path (cs @ [c])) = raw_path cs @ ''/''"
    by (simp add: abs_path_def)
  show ?thesis
  proof (cases "cs = []")
    case True
    with head assms(2) show ?thesis unfolding dirname_def basename_abs_path [OF assms(2)] by simp (simp add: abs_path_def)
  next
    case False
    then obtain d ds where d: "cs = d # ds" by (cases cs) auto
    with assms(1) obtain x where "x \<in> set d" "x \<noteq> CHR ''/''" by (cases d) (auto simp: comp_ok_def)
    with d have ex: "\<exists>c\<in>set (raw_path cs @ ''/''). c \<noteq> CHR ''/''" by auto
    have "strip_slash (raw_path cs @ ''/'') = strip_slash (abs_path cs)"
      using False by (simp add: strip_slash_def rstrip_of_append abs_path_def)
    then have "rstrip_of (\<lambda>c. c = CHR ''/'') (raw_path cs @ ''/'') = abs_path cs"
      using strip_slash_abs_path [OF assms(1)] False by (simp add: strip_slash_def abs_path_def)
    with head ex assms(2) show ?thesis unfolding dirname_def by (simp add: basename_abs_path)
  qed
qed

lemma dirname_root [simp]: "dirname ''/'' = ''/''"
  by (simp add: dirname_def basename_def after_last_def before_char_def)

end
