(* ===== verification/Permissions.thy ===== *)
theory Permissions
  imports Py_Path "HOL-Library.Monad_Syntax"
begin

text \<open>
  \<open>agent/permissions.py\<close>: the box-wide policy that says which confirmation gates approve
  themselves. The document is a JSON value (\<open>pyval\<close>); \<open>merge\<close> normalises it, \<open>decide\<close> is the pure
  decision, \<open>load\<close> and \<open>save\<close> go through the settings table and the single-slot cache, and
  \<open>gate_of_event\<close> classifies a confirmation event. A Python exception inside \<open>decide\<close> is the
  value \<open>None\<close> of its core, which the handler turns into ``ask''.
  The floor of \<open>agent/tasks/driver.py\<close> (\<open>fs_root_denied\<close>), which this module calls, is here too.
\<close>

section \<open>Gates\<close>

definition GATE_MODES :: "string list" where
  "GATE_MODES = [''ask'', ''auto'']"

definition SHELL_MODES :: "string list" where
  "SHELL_MODES = [''ask'', ''auto_gray'', ''auto_all'']"

definition CONTEXT_MODES :: "string list" where
  "CONTEXT_MODES = [''strict'', ''follow'', ''auto'']"

definition PRESETS :: "string list" where
  "PRESETS = [''custom'', ''strict'', ''balanced'', ''trusted'']"

definition GATES_DEFAULT :: "(string \<times> string) list" where
  "GATES_DEFAULT = [(''apps'', ''ask''), (''message_bus'', ''ask''), (''notes'', ''ask''),
     (''wiki'', ''ask''), (''installs'', ''ask''), (''fs_access'', ''ask''), (''mcp_tools'', ''ask''),
     (''network'', ''ask''), (''upload'', ''ask''), (''shell'', ''ask'')]"

definition JUDGES_DEFAULT :: "(string \<times> bool) list" where
  "JUDGES_DEFAULT = [(''shell'', True), (''egress'', True)]"

definition CONTEXTS_DEFAULT :: "(string \<times> string) list" where
  "CONTEXTS_DEFAULT = [(''tasks'', ''strict''), (''channels'', ''strict'')]"

definition PROXY_DEFAULT :: "(string \<times> int) list" where
  "PROXY_DEFAULT = [(''tofu_ttl_hours'', 1), (''upload_threshold_kb'', 64)]"

definition TOFU_TTL_HOURS_MAX :: int where
  "TOFU_TTL_HOURS_MAX = 24 * 30"

definition UPLOAD_THRESHOLD_KB_MAX :: int where
  "UPLOAD_THRESHOLD_KB_MAX = 1024 * 1024"

definition ACTION_GATE :: "(string \<times> string) list" where
  "ACTION_GATE = [(''install_app'', ''apps''), (''start_app'', ''apps''), (''stop_app'', ''apps''),
     (''restart_app'', ''apps''), (''uninstall_app'', ''apps''), (''update_app'', ''apps''),
     (''trigger_action'', ''message_bus''),
     (''notes_write'', ''notes''), (''notes_update'', ''notes''),
     (''wiki_append_notes'', ''wiki''), (''wiki_replace_notes'', ''wiki''),
     (''wiki_register_root'', ''wiki''),
     (''grant_access'', ''fs_access''),
     (''shell_command'', ''shell''),
     (''shell_network'', ''network''),
     (''egress_upload'', ''upload''),
     (''egress'', ''network'')]"

definition PREFIX_GATE :: "(string \<times> string) list" where
  "PREFIX_GATE = [(''mcp_install:'', ''installs''), (''toolbox_install:'', ''installs''),
     (''mcp_call:'', ''mcp_tools'')]"

definition gate_of :: "pyval \<Rightarrow> string option" where
  "gate_of action = (case action of
     PStr a \<Rightarrow> (case map_of ACTION_GATE a of
         Some g \<Rightarrow> Some g
       | None \<Rightarrow> map_option snd (List.find (\<lambda>(p, g). startswith a p) PREFIX_GATE))
   | _ \<Rightarrow> None)"

section \<open>The policy document\<close>

definition default_policy :: pyval where
  "default_policy = PDict
     [(''preset'', PStr ''custom''),
      (''gates'', PDict (map (\<lambda>(k, v). (k, PStr v)) GATES_DEFAULT)),
      (''judges'', PDict (map (\<lambda>(k, b). (k, PBool b)) JUDGES_DEFAULT)),
      (''contexts'', PDict (map (\<lambda>(k, v). (k, PStr v)) CONTEXTS_DEFAULT)),
      (''proxy'', PDict (map (\<lambda>(k, i). (k, PInt i)) PROXY_DEFAULT))]"

text \<open>One string-valued setting: kept when it is one of the valid values, else the default.\<close>

definition merge_choice :: "string list \<Rightarrow> pyval \<Rightarrow> string \<Rightarrow> pyval" where
  "merge_choice valid v dflt = (case v of PStr s \<Rightarrow> if s \<in> set valid then PStr s else PStr dflt
     | _ \<Rightarrow> PStr dflt)"

definition merge_flag :: "pyval \<Rightarrow> bool \<Rightarrow> pyval" where
  "merge_flag v dflt = (case v of PBool b \<Rightarrow> PBool b | _ \<Rightarrow> PBool dflt)"

definition merge_int :: "int \<Rightarrow> pyval \<Rightarrow> int \<Rightarrow> pyval" where
  "merge_int hi v dflt = (case v of PInt i \<Rightarrow> if 1 \<le> i \<and> i \<le> hi then PInt i else PInt dflt
     | _ \<Rightarrow> PInt dflt)"

definition gate_modes :: "string \<Rightarrow> string list" where
  "gate_modes k = (if k = ''shell'' then SHELL_MODES else GATE_MODES)"

definition proxy_max :: "string \<Rightarrow> int" where
  "proxy_max k = (if k = ''tofu_ttl_hours'' then TOFU_TTL_HOURS_MAX else UPLOAD_THRESHOLD_KB_MAX)"

text \<open>A section of the document that is not a dict contributes nothing.\<close>

definition section_of :: "(string \<times> pyval) list \<Rightarrow> string \<Rightarrow> (string \<times> pyval) list" where
  "section_of d k = (case pget d k of PDict e \<Rightarrow> e | _ \<Rightarrow> [])"

definition merge :: "pyval \<Rightarrow> pyval" where
  "merge doc = (case doc of PDict d \<Rightarrow> PDict
     [(''preset'', merge_choice PRESETS (pget d ''preset'') ''custom''),
      (''gates'', PDict (map (\<lambda>(k, v). (k, merge_choice (gate_modes k)
          (pget (section_of d ''gates'') k) v)) GATES_DEFAULT)),
      (''judges'', PDict (map (\<lambda>(k, b). (k, merge_flag
          (pget (section_of d ''judges'') k) b)) JUDGES_DEFAULT)),
      (''contexts'', PDict (map (\<lambda>(k, v). (k, merge_choice CONTEXT_MODES
          (pget (section_of d ''contexts'') k) v)) CONTEXTS_DEFAULT)),
      (''proxy'', PDict (map (\<lambda>(k, i). (k, merge_int (proxy_max k)
          (pget (section_of d ''proxy'') k) i)) PROXY_DEFAULT))]
   | _ \<Rightarrow> default_policy)"

section \<open>The decision\<close>

definition shell_auto :: "pyval \<Rightarrow> string \<Rightarrow> bool" where
  "shell_auto mode level =
     (if mode = PStr ''auto_gray'' then level = ''gray''
      else if mode = PStr ''auto_all'' then level \<in> set [''gray'', ''dangerous'']
      else False)"

text \<open>The body of \<open>decide\<close> for a known gate; \<open>None\<close> is an exception.\<close>

definition decide_core :: "pyval \<Rightarrow> string \<Rightarrow> string \<Rightarrow> string \<Rightarrow> bool option" where
  "decide_core policy gate level ctx = do {
     let policy = py_or policy (PDict []);
     g \<leftarrow> dict_get policy ''gates'' PNone;
     let gates = py_or g (PDict []);
     if ctx = ''interactive'' then
       (if gate = ''shell''
        then do { m \<leftarrow> dict_get gates ''shell'' (PStr ''ask''); Some (shell_auto m level) }
        else do { m \<leftarrow> dict_get gates gate PNone; Some (m = PStr ''auto'') })
     else if ctx \<in> set [''task'', ''channel''] then do {
       c \<leftarrow> dict_get policy ''contexts'' PNone;
       cmode \<leftarrow> dict_get (py_or c (PDict [])) (if ctx = ''task'' then ''tasks'' else ''channels'')
                  (PStr ''strict'');
       if cmode \<notin> set [PStr ''follow'', PStr ''auto''] then Some False
       else if gate = ''shell'' then
         (if level \<noteq> ''gray'' then Some False
          else if cmode = PStr ''auto'' then Some True
          else do { m \<leftarrow> dict_get gates ''shell'' (PStr ''ask''); Some (shell_auto m level) })
       else if cmode = PStr ''auto'' then Some True
       else do { m \<leftarrow> dict_get gates gate PNone; Some (m = PStr ''auto'') }
     }
     else Some False
   }"

definition decide :: "pyval \<Rightarrow> string option \<Rightarrow> string \<Rightarrow> string \<Rightarrow> bool" where
  "decide policy gate level ctx =
     (case gate of None \<Rightarrow> False | Some g \<Rightarrow> decide_core policy g level ctx = Some True)"

section \<open>The settings row and the cache\<close>

text \<open>
  A connection is a pair of its identity and the database it is open on. The policy row of a
  database is missing, holds a JSON document, holds text that is not JSON, or cannot be read.
\<close>

type_synonym conn_id = "nat \<times> nat"

datatype policy_row = NoRow | Junk | Doc pyval | Unreadable

record perm_state =
  rows :: "nat \<Rightarrow> policy_row"
  cache_conn :: "conn_id option"
  cache_doc :: "pyval option"

definition perm_init :: "(nat \<Rightarrow> policy_row) \<Rightarrow> perm_state" where
  "perm_init r = \<lparr>rows = r, cache_conn = None, cache_doc = None\<rparr>"

fun row_doc :: "policy_row \<Rightarrow> pyval" where
  "row_doc (Doc d) = merge d"
| "row_doc _ = default_policy"

definition load :: "conn_id \<Rightarrow> perm_state \<Rightarrow> pyval \<times> perm_state" where
  "load conn st =
     (if cache_conn st = Some conn \<and> cache_doc st \<noteq> None then (merge (the (cache_doc st)), st)
      else case rows st (snd conn) of
        Unreadable \<Rightarrow> (default_policy, st)
      | row \<Rightarrow> (merge (row_doc row), st\<lparr>cache_conn := Some conn, cache_doc := Some (row_doc row)\<rparr>))"

text \<open>\<open>save\<close> raises (\<open>None\<close>) when the table cannot be written; nothing changes then.\<close>

definition save :: "conn_id \<Rightarrow> pyval \<Rightarrow> perm_state \<Rightarrow> (pyval \<times> perm_state) option" where
  "save conn doc st =
     (if rows st (snd conn) = Unreadable then None
      else let normalized = merge doc in
        Some (merge normalized,
              st\<lparr>rows := (rows st)(snd conn := Doc normalized),
                 cache_conn := Some conn, cache_doc := Some normalized\<rparr>))"

definition auto_approve ::
  "conn_id \<Rightarrow> string \<Rightarrow> string \<Rightarrow> string option \<Rightarrow> string \<Rightarrow> perm_state \<Rightarrow> bool \<times> perm_state" where
  "auto_approve conn action level context run_ctx st =
     (case gate_of (PStr action) of
        None \<Rightarrow> (False, st)
      | Some g \<Rightarrow>
          let ctx = (case context of Some c \<Rightarrow> c | None \<Rightarrow> run_ctx);
              (pol, st') = load conn st
          in (decide pol (Some g) level ctx, st'))"

text \<open>
  \<open>policy_waives\<close> consults the process connection (\<open>None\<close>: it cannot be opened) and writes one
  audit record when it waives; a failing audit changes nothing of the answer.
\<close>

definition policy_waives ::
  "conn_id option \<Rightarrow> string \<Rightarrow> string \<Rightarrow> string option \<Rightarrow> string \<Rightarrow> bool \<Rightarrow>
   perm_state \<times> (string \<times> string) list \<Rightarrow> bool \<times> perm_state \<times> (string \<times> string) list" where
  "policy_waives conn action level audit_event run_ctx audit_ok s =
     (case conn of None \<Rightarrow> (False, s)
      | Some c \<Rightarrow>
          let (ok, st') = auto_approve c action level None run_ctx (fst s) in
          if \<not> ok then (False, st', snd s)
          else (True, st', if audit_ok
                 then snd s @ [(case audit_event of Some e \<Rightarrow> if e = [] then action else e
                                | None \<Rightarrow> action, ''auto_approved_by_policy'')]
                 else snd s))"

definition judge_enabled :: "conn_id \<Rightarrow> string \<Rightarrow> perm_state \<Rightarrow> bool" where
  "judge_enabled conn which st =
     (case dict_get (fst (load conn st)) ''judges'' PNone of
        Some (PDict j) \<Rightarrow> (case map_of j which of None \<Rightarrow> True | Some v \<Rightarrow> truthy v)
      | _ \<Rightarrow> True)"

definition context_mode :: "conn_id \<Rightarrow> string \<Rightarrow> perm_state \<Rightarrow> string" where
  "context_mode conn ctx st =
     (case dict_get (fst (load conn st)) ''contexts'' PNone of
        Some (PDict c) \<Rightarrow> (case map_of c ctx of
            Some (PStr m) \<Rightarrow> if m \<in> set CONTEXT_MODES then m else ''strict''
          | _ \<Rightarrow> ''strict'')
      | _ \<Rightarrow> ''strict'')"

definition proxy_settings :: "conn_id \<Rightarrow> perm_state \<Rightarrow> pyval" where
  "proxy_settings conn st =
     (case dict_get (fst (load conn st)) ''proxy'' PNone of
        Some (PDict p) \<Rightarrow> PDict p
      | _ \<Rightarrow> PDict (map (\<lambda>(k, i). (k, PInt i)) PROXY_DEFAULT))"

section \<open>Confirmation events\<close>

definition egress_gate_action :: "string \<Rightarrow> string option" where
  "egress_gate_action reason =
     (if reason = ''tofu_unknown_host'' then Some ''egress''
      else if reason = ''upload_over_threshold'' then Some ''egress_upload''
      else None)"

text \<open>
  Classification of an event; \<open>None\<close> is the exception that \<open>kind.startswith\<close> raises on a
  \<open>kind\<close> that is neither empty nor a string.
\<close>

definition gate_of_event :: "pyval \<Rightarrow> (string option \<times> string) option" where
  "gate_of_event ev = (case ev of
     PDict e \<Rightarrow>
       (if pget e ''type'' = PStr ''access_request'' then Some (Some ''fs_access'', [])
        else let action = py_or (pget e ''action'') (PStr []);
                 kind = py_or (pget e ''kind'') (PStr []) in
          if action = PStr ''egress_confirm'' then
            Some (case egress_gate_action (str_val (py_or (pget e ''reason'') (PStr []))) of
                    Some ga \<Rightarrow> gate_of (PStr ga) | None \<Rightarrow> None, [])
          else if kind = PStr ''mcp_tool'' then Some (Some ''mcp_tools'', [])
          else if kind \<in> set [PStr ''mcp_install'', PStr ''toolbox_install'']
            then Some (Some ''installs'', [])
          else (case kind of
              PStr k \<Rightarrow> if startswith k ''mcp_elicit'' then Some (None, [])
                        else Some (gate_of action, str_val (py_or (pget e ''risk_level'') (PStr [])))
            | _ \<Rightarrow> None))
   | _ \<Rightarrow> Some (None, []))"

section \<open>The floor under policy-driven file grants\<close>

definition FS_DENY_ROOTS :: "string list" where
  "FS_DENY_ROOTS = [''/etc'', ''/proc'', ''/sys'', ''/dev'', ''/boot'', ''/bin'', ''/sbin'', ''/lib'',
     ''/lib64'', ''/usr'', ''/root'', ''/run'', ''/var/lib/nimoos'']"

definition fs_root_denied :: "string \<Rightarrow> bool" where
  "fs_root_denied real_root \<longleftrightarrow>
     real_root = [] \<or> real_root = ''/'' \<or>
     (\<exists>deny\<in>set FS_DENY_ROOTS. real_root = deny \<or> startswith real_root (deny @ ''/''))"

text \<open>\<open>realpath\<close> resolves a path on the running system; \<open>None\<close> when it raises.\<close>

definition paths_policy_grantable :: "(string \<Rightarrow> string option) \<Rightarrow> pyval \<Rightarrow> bool" where
  "paths_policy_grantable realpath paths = (case paths of
     PList ps \<Rightarrow> ps \<noteq> [] \<and>
       (\<forall>p\<in>set ps. case p of
          PStr s \<Rightarrow> s \<noteq> [] \<and> (case realpath s of None \<Rightarrow> False | Some r \<Rightarrow> \<not> fs_root_denied r)
        | _ \<Rightarrow> False)
   | _ \<Rightarrow> False)"

section \<open>Normalisation\<close>

lemma merge_choice_idem [simp]: "merge_choice V (merge_choice V v d) d = merge_choice V v d"
  by (auto simp: merge_choice_def split: pyval.splits)

lemma merge_flag_idem [simp]: "merge_flag (merge_flag v d) d = merge_flag v d"
  by (auto simp: merge_flag_def split: pyval.splits)

lemma merge_int_idem [simp]: "merge_int h (merge_int h v d) d = merge_int h v d"
  by (auto simp: merge_int_def split: pyval.splits)

lemma pget_simps [simp]:
  "pget [] k = PNone"
  "pget ((k', v) # d) k = (if k = k' then v else pget d k)"
  by (simp_all add: pget_def)

lemma pget_map: "pget (map (\<lambda>(k, v). (k, f k v)) d) k =
    (case map_of d k of None \<Rightarrow> PNone | Some v \<Rightarrow> f k v)"
  by (induction d) auto

lemma map_keyed_cong:
  "distinct (map fst d) \<Longrightarrow> (\<And>k v. (k, v) \<in> set d \<Longrightarrow> g k v (f k v) = f k v) \<Longrightarrow>
   map (\<lambda>(k, v). (k, g k v (pget (map (\<lambda>(k, v). (k, f k v)) d) k))) d = map (\<lambda>(k, v). (k, f k v)) d"
  by (auto simp: pget_map)

lemma defaults_distinct [simp]:
  "distinct (map fst GATES_DEFAULT)" "distinct (map fst JUDGES_DEFAULT)"
  "distinct (map fst CONTEXTS_DEFAULT)" "distinct (map fst PROXY_DEFAULT)"
  by (simp_all add: GATES_DEFAULT_def JUDGES_DEFAULT_def CONTEXTS_DEFAULT_def PROXY_DEFAULT_def)

lemma section_of_keyed:
  "pget d s = PDict e \<Longrightarrow> section_of d s = e"
  by (simp add: section_of_def)

lemma merge_PDict_idem: "merge (merge (PDict d)) = merge (PDict d)"
proof -
  note keyed = map_keyed_cong [where g = "\<lambda>k v x. merge_choice (gate_modes k) x v"]
    map_keyed_cong [where g = "\<lambda>k v x. merge_choice CONTEXT_MODES x v"]
    map_keyed_cong [where g = "\<lambda>k v x. merge_flag x v"]
    map_keyed_cong [where g = "\<lambda>k v x. merge_int (proxy_max k) x v"]
  show ?thesis
    by (simp add: merge_def section_of_def keyed)
qed

lemma default_policy_merge: "default_policy = merge (PDict [])"
  by (simp add: default_policy_def merge_def section_of_def merge_choice_def merge_flag_def
      merge_int_def)

lemma merge_idem: "merge (merge doc) = merge doc"
proof (cases doc)
  case (PDict d)
  then show ?thesis using merge_PDict_idem by simp
qed (simp_all add: merge_def [of "PStr _"] merge_def [of PNone] merge_def [of "PBool _"]
      merge_def [of "PInt _"] merge_def [of "PFloat _"] merge_def [of "PList _"]
      default_policy_merge merge_PDict_idem)

lemma merge_default [simp]: "merge default_policy = default_policy"
  by (simp add: default_policy_merge merge_PDict_idem)

lemma merge_row_doc [simp]: "merge (row_doc r) = row_doc r"
  by (cases r) (simp_all add: merge_idem)

section \<open>The ladder\<close>

text \<open>
  What every consumer of the decision relies on: an event with no gate is never waived, and the
  shell gate waives gray commands only, or dangerous ones when a person is at the other end.
\<close>

locale waiver =
  fixes waives :: "'p \<Rightarrow> string option \<Rightarrow> string \<Rightarrow> string \<Rightarrow> bool"
  assumes no_gate: "\<not> waives p None l c"
    and shell_cap: "waives p (Some ''shell'') l c \<Longrightarrow>
      l = ''gray'' \<or> l = ''dangerous'' \<and> c = ''interactive''"
    and known_context: "waives p g l c \<Longrightarrow> c \<in> {''interactive'', ''task'', ''channel''}"
begin

lemma protected_never: "\<not> waives p (Some ''shell'') ''protected'' c"
  using shell_cap by fastforce

lemma unattended_cap: "waives p (Some ''shell'') l c \<Longrightarrow> c \<noteq> ''interactive'' \<Longrightarrow> l = ''gray''"
  using shell_cap by blast

lemma waives_gate: "waives p g l c \<Longrightarrow> \<exists>k. g = Some k"
  using no_gate by (cases g) auto

end

lemma shell_auto_level: "shell_auto m l \<Longrightarrow> l = ''gray'' \<or> l = ''dangerous''"
  by (auto simp: shell_auto_def split: if_splits)

lemma decide_core_shell:
  "decide_core p ''shell'' l c = Some True \<Longrightarrow> l = ''gray'' \<or> l = ''dangerous'' \<and> c = ''interactive''"
  by (auto simp: decide_core_def Let_def bind_eq_Some_conv split: if_splits dest: shell_auto_level)

lemma decide_core_context:
  "decide_core p g l c = Some True \<Longrightarrow> c \<in> {''interactive'', ''task'', ''channel''}"
  by (auto simp: decide_core_def Let_def bind_eq_Some_conv split: if_splits)

interpretation policy: waiver decide
proof
  show "\<not> decide p None l c" for p l c
    by (simp add: decide_def)
  show "decide p (Some ''shell'') l c \<Longrightarrow> l = ''gray'' \<or> l = ''dangerous'' \<and> c = ''interactive''" for p l c
    unfolding decide_def by (auto dest: decide_core_shell)
  show "decide p g l c \<Longrightarrow> c \<in> {''interactive'', ''task'', ''channel''}" for p g l c
    unfolding decide_def by (cases g) (auto dest: decide_core_context)
qed

text \<open>A gate the default policy knows is asked about in every context.\<close>

lemma default_sections:
  "dict_get default_policy ''gates'' PNone = Some (PDict (map (\<lambda>(k, v). (k, PStr v)) GATES_DEFAULT))"
  "dict_get default_policy ''contexts'' PNone = Some (PDict (map (\<lambda>(k, v). (k, PStr v)) CONTEXTS_DEFAULT))"
  "truthy default_policy"
  by (simp_all add: default_policy_def dict_get_def)

lemma map_of_PStr: "map_of (map (\<lambda>(k, v). (k, PStr v)) d) k = map_option PStr (map_of d k)"
  by (induction d) auto

lemma gates_default_ask: "(g, m) \<in> set GATES_DEFAULT \<Longrightarrow> m = ''ask''"
  by (auto simp: GATES_DEFAULT_def)

lemma contexts_default_strict:
  "k \<in> {''tasks'', ''channels''} \<Longrightarrow> map_of CONTEXTS_DEFAULT k = Some ''strict''"
  by (auto simp: CONTEXTS_DEFAULT_def)

lemma gates_default_get:
  "dict_get (PDict (map (\<lambda>(k, v). (k, PStr v)) GATES_DEFAULT)) g d = Some m \<Longrightarrow> m = PStr ''ask'' \<or> m = d"
  by (auto simp: dict_get_def map_of_PStr split: option.splits dest!: map_of_SomeD gates_default_ask)

lemma decide_default: "\<not> decide default_policy g l c"
proof (cases g)
  case (Some k)
  have ne: "truthy (PDict (map (\<lambda>(k, v). (k, PStr v)) GATES_DEFAULT))"
    "truthy (PDict (map (\<lambda>(k, v). (k, PStr v)) CONTEXTS_DEFAULT))"
    by (simp_all add: GATES_DEFAULT_def CONTEXTS_DEFAULT_def)
  have ctx: "dict_get (PDict (map (\<lambda>(k, v). (k, PStr v)) CONTEXTS_DEFAULT))
      (if c = ''task'' then ''tasks'' else ''channels'') (PStr ''strict'') = Some (PStr ''strict'')"
    by (simp add: dict_get_def map_of_PStr contexts_default_strict)
  let ?G = "PDict (map (\<lambda>(k, v). (k, PStr v)) GATES_DEFAULT)"
  have gate: "dict_get ?G k PNone \<noteq> Some (PStr ''auto'')"
    using gates_default_get [of k PNone "PStr ''auto''"] by auto
  have shell: "dict_get ?G ''shell'' (PStr ''ask'') = Some m \<Longrightarrow> \<not> shell_auto m l" for m
    using gates_default_get [of "''shell''" "PStr ''ask''" m] by (auto simp: shell_auto_def)
  have "decide_core default_policy k l c \<noteq> Some True"
  proof (cases "c = ''interactive''")
    case True
    then show ?thesis
      using gate shell
      by (auto simp: decide_core_def py_or_def default_sections Let_def bind_eq_Some_conv
          split: if_splits)
  next
    case False
    then show ?thesis
      using ne by (simp add: decide_core_def py_or_def default_sections ctx Let_def)
  qed
  with Some show ?thesis by (simp add: decide_def)
qed (simp add: decide_def)

section \<open>The cache\<close>

definition perm_inv :: "perm_state \<Rightarrow> bool" where
  "perm_inv st \<longleftrightarrow> (case (cache_conn st, cache_doc st) of
     (Some c, Some d) \<Rightarrow> d = row_doc (rows st (snd c)) | _ \<Rightarrow> True)"

lemma load_inv:
  assumes "perm_inv st"
  shows "fst (load conn st) = row_doc (rows st (snd conn))"
    and "perm_inv (snd (load conn st))" and "rows (snd (load conn st)) = rows st"
  using assms
  by (auto simp: load_def perm_inv_def merge_idem split: policy_row.splits option.splits)

lemma save_inv:
  assumes "perm_inv st" "save conn doc st = Some (d, st')"
  shows "d = merge doc" "perm_inv st'" "rows st' = (rows st)(snd conn := Doc (merge doc))"
  using assms by (auto simp: save_def perm_inv_def merge_idem Let_def split: if_splits)

text \<open>What the process can do to the policy: read it and write it, on any connection.\<close>

inductive perm_step :: "perm_state \<Rightarrow> perm_state \<Rightarrow> bool" where
  load_step: "load conn st = (d, st') \<Longrightarrow> perm_step st st'"
| save_step: "save conn doc st = Some (d, st') \<Longrightarrow> perm_step st st'"

inductive perm_reach :: "(nat \<Rightarrow> policy_row) \<Rightarrow> perm_state \<Rightarrow> bool" for r where
  start: "perm_reach r (perm_init r)"
| step: "perm_reach r st \<Longrightarrow> perm_step st st' \<Longrightarrow> perm_reach r st'"

lemma perm_step_inv: "perm_step st st' \<Longrightarrow> perm_inv st \<Longrightarrow> perm_inv st'"
  by (induction rule: perm_step.induct) (metis load_inv(2) snd_conv, metis save_inv(2))

lemma perm_reach_inv: "perm_reach r st \<Longrightarrow> perm_inv st"
proof (induction rule: perm_reach.induct)
  case start
  show ?case by (simp add: perm_inv_def perm_init_def)
next
  case (step st st')
  then show ?case by (blast intro: perm_step_inv)
qed

lemma auto_approve_load:
  assumes "perm_inv st"
  shows "fst (auto_approve conn action level context run_ctx st) =
     decide (row_doc (rows st (snd conn))) (gate_of (PStr action)) level
       (case context of Some c \<Rightarrow> c | None \<Rightarrow> run_ctx)"
  using load_inv(1) [OF assms, of conn]
  by (auto simp: auto_approve_def Let_def policy.no_gate split: option.splits prod.splits)

section \<open>Events\<close>

lemma gate_of_event_elicit:
  assumes "as_str (pget e ''kind'') = Some (''mcp_elicit'' @ k)"
    and "pget e ''type'' \<noteq> PStr ''access_request''" "pget e ''action'' \<noteq> PStr ''egress_confirm''"
  shows "gate_of_event (PDict e) = Some (None, [])"
  using assms by (auto simp: gate_of_event_def py_or_def Let_def elim!: as_strE)

lemma deny_roots_canonical: "r \<in> set FS_DENY_ROOTS \<Longrightarrow> canonical r \<and> r \<noteq> ''/''"
proof -
  have "\<forall>r\<in>set FS_DENY_ROOTS. canonical r \<and> r \<noteq> ''/''"
    unfolding FS_DENY_ROOTS_def by code_simp
  then show "r \<in> set FS_DENY_ROOTS \<Longrightarrow> canonical r \<and> r \<noteq> ''/''" by blast
qed

lemma fs_root_denied_under:
  "fs_root_denied p \<longleftrightarrow> p = [] \<or> p = ''/'' \<or> (\<exists>r\<in>set FS_DENY_ROOTS. under r p)"
  by (simp add: fs_root_denied_def under_def)

text \<open>On canonical paths the floor is a statement about path components.\<close>

lemma fs_root_denied_comps:
  assumes "canonical p"
  shows "fs_root_denied p \<longleftrightarrow>
    path_comps p = [] \<or> (\<exists>r\<in>set FS_DENY_ROOTS. prefix (path_comps r) (path_comps p))"
proof -
  have p: "p \<noteq> []" "p = ''/'' \<longleftrightarrow> path_comps p = []"
    using assms by (auto simp: canonical_def abs_path_def path_comps_def split_on_def raw_path_def
        split: if_splits)
  have "under r p \<longleftrightarrow> prefix (path_comps r) (path_comps p)" if "r \<in> set FS_DENY_ROOTS" for r
  proof -
    have r: "canonical r \<and> r \<noteq> ''/''" using that by (rule deny_roots_canonical)
    then have "path_comps r \<noteq> []" by (auto simp: canonical_def abs_path_def)
    then show ?thesis by (intro under_scope.covers_iff_prefix) (use r assms in auto)
  qed
  with p show ?thesis by (auto simp: fs_root_denied_under)
qed

section \<open>Well-formed policies\<close>

text \<open>
  The documents the settings screen can produce: exactly the five sections, every gate, judge,
  context and proxy setting present, in order, each with one of its values.
\<close>

definition section_ok :: "(string \<Rightarrow> pyval \<Rightarrow> bool) \<Rightarrow> string list \<Rightarrow> pyval \<Rightarrow> bool" where
  "section_ok ok ks v = (case v of PDict e \<Rightarrow> map fst e = ks \<and> (\<forall>(k, x)\<in>set e. ok k x) | _ \<Rightarrow> False)"

definition choice_ok :: "string list \<Rightarrow> pyval \<Rightarrow> bool" where
  "choice_ok V v = (case v of PStr s \<Rightarrow> s \<in> set V | _ \<Rightarrow> False)"

definition flag_ok :: "pyval \<Rightarrow> bool" where
  "flag_ok v = (case v of PBool b \<Rightarrow> True | _ \<Rightarrow> False)"

definition int_ok :: "int \<Rightarrow> pyval \<Rightarrow> bool" where
  "int_ok hi v = (case v of PInt i \<Rightarrow> 1 \<le> i \<and> i \<le> hi | _ \<Rightarrow> False)"

definition policy_ok :: "pyval \<Rightarrow> bool" where
  "policy_ok doc = (case doc of
     PDict d \<Rightarrow>
       map fst d = [''preset'', ''gates'', ''judges'', ''contexts'', ''proxy''] \<and>
       choice_ok PRESETS (pget d ''preset'') \<and>
       section_ok (\<lambda>k. choice_ok (gate_modes k)) (map fst GATES_DEFAULT) (pget d ''gates'') \<and>
       section_ok (\<lambda>_. flag_ok) (map fst JUDGES_DEFAULT) (pget d ''judges'') \<and>
       section_ok (\<lambda>_. choice_ok CONTEXT_MODES) (map fst CONTEXTS_DEFAULT) (pget d ''contexts'') \<and>
       section_ok (\<lambda>k. int_ok (proxy_max k)) (map fst PROXY_DEFAULT) (pget d ''proxy'')
   | _ \<Rightarrow> False)"

lemma merge_value_ok:
  "d \<in> set V \<Longrightarrow> choice_ok V (merge_choice V v d)" "flag_ok (merge_flag v b)"
  "1 \<le> i \<Longrightarrow> i \<le> hi \<Longrightarrow> int_ok hi (merge_int hi v i)"
  by (auto simp: choice_ok_def merge_choice_def flag_ok_def merge_flag_def int_ok_def merge_int_def
      split: pyval.splits)

lemma merge_value_id:
  "choice_ok V v \<Longrightarrow> merge_choice V v d = v" "flag_ok v \<Longrightarrow> merge_flag v b = v"
  "int_ok hi v \<Longrightarrow> merge_int hi v i = v"
  by (auto simp: choice_ok_def merge_choice_def flag_ok_def merge_flag_def int_ok_def merge_int_def
      split: pyval.splits)

lemma section_ok_map:
  "(\<And>k v. (k, v) \<in> set d \<Longrightarrow> ok k (f k v)) \<Longrightarrow> section_ok ok (map fst d) (PDict (map (\<lambda>(k, v). (k, f k v)) d))"
  by (auto simp: section_ok_def)

lemma defaults_valid:
  "(k, v) \<in> set GATES_DEFAULT \<Longrightarrow> v \<in> set (gate_modes k)"
  "(k, v) \<in> set CONTEXTS_DEFAULT \<Longrightarrow> v \<in> set CONTEXT_MODES"
  "(k, i) \<in> set PROXY_DEFAULT \<Longrightarrow> 1 \<le> i \<and> i \<le> proxy_max k"
  by (auto simp: GATES_DEFAULT_def CONTEXTS_DEFAULT_def PROXY_DEFAULT_def gate_modes_def SHELL_MODES_def
      GATE_MODES_def CONTEXT_MODES_def proxy_max_def TOFU_TTL_HOURS_MAX_def UPLOAD_THRESHOLD_KB_MAX_def)

lemma policy_ok_merge_PDict: "policy_ok (merge (PDict d))"
  unfolding policy_ok_def merge_def
  by (simp add: section_ok_map merge_value_ok defaults_valid PRESETS_def)

lemma policy_ok_merge: "policy_ok (merge doc)"
proof -
  have "merge doc = default_policy \<or> (\<exists>d. doc = PDict d)" by (cases doc) (simp_all add: merge_def)
  then show ?thesis using policy_ok_merge_PDict default_policy_merge by metis
qed

text \<open>Re-reading a section whose keys are those of the defaults gives the section back.\<close>

lemma keyed_section_id:
  assumes "distinct (map fst d)" "map fst e = map fst d"
    and "\<And>k v x. (k, v) \<in> set d \<Longrightarrow> (k, x) \<in> set e \<Longrightarrow> f k v x = x"
  shows "map (\<lambda>(k, v). (k, f k v (pget e k))) d = e"
proof (rule nth_equalityI)
  have len: "length d = length e" using arg_cong [OF assms(2), of length] by simp
  then show "length (map (\<lambda>(k, v). (k, f k v (pget e k))) d) = length e" by simp
  fix i
  assume "i < length (map (\<lambda>(k, v). (k, f k v (pget e k))) d)"
  then have i: "i < length d" "i < length e" using len by simp_all
  obtain k v where d: "d ! i = (k, v)" by fastforce
  obtain k' x where e: "e ! i = (k', x)" by fastforce
  have "k' = k" using assms(2) d e i by (metis fst_conv nth_map)
  then have mem: "(k, v) \<in> set d" "(k, x) \<in> set e" using d e i nth_mem by metis+
  then have "pget e k = x" using assms(1,2) by (simp add: pget_def map_of_is_SomeI)
  with mem assms(3) d e i \<open>k' = k\<close> show "map (\<lambda>(k, v). (k, f k v (pget e k))) d ! i = e ! i" by simp
qed

lemma section_okE:
  assumes "section_ok ok ks v"
  obtains e where "v = PDict e" "map fst e = ks" "\<And>k x. (k, x) \<in> set e \<Longrightarrow> ok k x"
  using assms by (cases v) (auto simp: section_ok_def)

lemma section_merge_id:
  assumes "section_ok ok (map fst d) v" "distinct (map fst d)" "\<And>k v x. ok k x \<Longrightarrow> f k v x = x"
  obtains e where "v = PDict e" "map (\<lambda>(k, v). (k, f k v (pget e k))) d = e"
proof -
  obtain e where e: "v = PDict e" "map fst e = map fst d" "\<And>k x. (k, x) \<in> set e \<Longrightarrow> ok k x"
    using assms(1) by (auto elim: section_okE)
  have "map (\<lambda>(k, v). (k, f k v (pget e k))) d = e"
    using assms(2) e(2) by (rule keyed_section_id) (use assms(3) e(3) in blast)
  with e(1) that show ?thesis by blast
qed

lemma merge_ok_id:
  assumes "policy_ok doc"
  shows "merge doc = doc"
proof -
  obtain p g j c x where doc: "doc = PDict [(''preset'', p), (''gates'', g), (''judges'', j), (''contexts'', c), (''proxy'', x)]"
    and p: "choice_ok PRESETS p" and g: "section_ok (\<lambda>k. choice_ok (gate_modes k)) (map fst GATES_DEFAULT) g"
    and j: "section_ok (\<lambda>_. flag_ok) (map fst JUDGES_DEFAULT) j"
    and c: "section_ok (\<lambda>_. choice_ok CONTEXT_MODES) (map fst CONTEXTS_DEFAULT) c"
    and x: "section_ok (\<lambda>k. int_ok (proxy_max k)) (map fst PROXY_DEFAULT) x"
  proof -
    from assms obtain d where d: "doc = PDict d" by (cases doc) (simp_all add: policy_ok_def)
    with assms have "map fst d = [''preset'', ''gates'', ''judges'', ''contexts'', ''proxy'']"
      by (simp add: policy_ok_def)
    then obtain p g j c x where "d = [(''preset'', p), (''gates'', g), (''judges'', j), (''contexts'', c), (''proxy'', x)]"
      by (auto simp: map_eq_Cons_conv)
    with that assms d show ?thesis by (simp add: policy_ok_def)
  qed
  obtain g' where g': "g = PDict g'" "map (\<lambda>(k, v). (k, merge_choice (gate_modes k) (pget g' k) v)) GATES_DEFAULT = g'"
    using section_merge_id [OF g, of "\<lambda>k v x. merge_choice (gate_modes k) x v"] merge_value_id(1) by auto
  obtain j' where j': "j = PDict j'" "map (\<lambda>(k, v). (k, merge_flag (pget j' k) v)) JUDGES_DEFAULT = j'"
    using section_merge_id [OF j, of "\<lambda>k v x. merge_flag x v"] merge_value_id(2) by auto
  obtain c' where c': "c = PDict c'" "map (\<lambda>(k, v). (k, merge_choice CONTEXT_MODES (pget c' k) v)) CONTEXTS_DEFAULT = c'"
    using section_merge_id [OF c, of "\<lambda>k v x. merge_choice CONTEXT_MODES x v"] merge_value_id(1) by auto
  obtain x' where x': "x = PDict x'" "map (\<lambda>(k, v). (k, merge_int (proxy_max k) (pget x' k) v)) PROXY_DEFAULT = x'"
    using section_merge_id [OF x, of "\<lambda>k v x. merge_int (proxy_max k) x v"] merge_value_id(3) by auto
  show ?thesis
    unfolding doc merge_def using p g' j' c' x' by (simp add: section_of_def merge_value_id)
qed

section \<open>Properties\<close>

text \<open>
  C1. The shell ladder, for every policy value however malformed: a command of level
  \<open>protected\<close> is never waived, and outside an interactive session (or in an unknown context)
  at most a gray command is.
\<close>

theorem decide_shell_ladder:
  "\<not> decide pol (Some ''shell'') ''protected'' ctx \<and>
   (decide pol (Some ''shell'') lev ctx \<longrightarrow>
      lev = ''gray'' \<or> lev = ''dangerous'' \<and> ctx = ''interactive'') \<and>
   (decide pol g lev ctx \<longrightarrow> g \<noteq> None \<and> ctx \<in> {''interactive'', ''task'', ''channel''})"
  using policy.protected_never policy.shell_cap policy.known_context policy.waives_gate
  by (metis option.distinct(1))

theorem decide_shell_ladder_witness:
  "decide (PDict [(''gates'', PDict [(''shell'', PStr ''auto_all'')])]) (Some ''shell'') ''dangerous'' ''interactive'' \<and>
   \<not> decide (PDict [(''gates'', PDict [(''shell'', PStr ''auto_all'')])]) (Some ''shell'') ''protected'' ''interactive''"
proof
  show "decide (PDict [(''gates'', PDict [(''shell'', PStr ''auto_all'')])]) (Some ''shell'') ''dangerous'' ''interactive''"
    by code_simp
  show "\<not> decide (PDict [(''gates'', PDict [(''shell'', PStr ''auto_all'')])]) (Some ''shell'') ''protected'' ''interactive''"
    using decide_shell_ladder by blast
qed

text \<open>
  C7. In every state the process can reach by loading and saving policies, a database whose
  policy row is missing, is not JSON or cannot be read approves nothing by itself, whatever the
  action, level and context.
\<close>

theorem no_policy_asks:
  assumes "perm_reach r st" "\<And>d. rows st (snd conn) \<noteq> Doc d"
  shows "\<not> fst (auto_approve conn action lev context run_ctx st)"
proof -
  have "row_doc (rows st (snd conn)) = default_policy" using assms(2) by (cases "rows st (snd conn)") auto
  then show ?thesis using auto_approve_load [OF perm_reach_inv [OF assms(1)]] decide_default by simp
qed

theorem no_policy_asks_witness:
  "\<not> fst (auto_approve (0, 7) ''install_app'' [] None ''interactive'' (perm_init (\<lambda>_. Junk)))"
  by (rule no_policy_asks [OF perm_reach.start]) (simp add: perm_init_def)

text \<open>
  What is saved is what is loaded: in every reachable state a successful save makes every
  connection to that database read the normalised document, cached or not, leaves every other
  database's policy as it was, and the cache never serves one database's policy to another.
\<close>

theorem save_load_coherent:
  assumes "perm_reach r st" "save conn doc st = Some (d, st')"
  shows "fst (load conn' st') =
    (if snd conn' = snd conn then merge doc else row_doc (rows st (snd conn')))"
proof -
  have inv: "perm_inv st'" using save_inv(2) perm_reach_inv assms by blast
  show ?thesis
    using save_inv(3) [OF perm_reach_inv [OF assms(1)] assms(2)] load_inv(1) [OF inv, of conn']
    by (simp add: merge_idem)
qed

theorem save_load_coherent_witness:
  "let st = perm_init (\<lambda>_. NoRow); doc = PDict [(''gates'', PDict [(''apps'', PStr ''auto'')])] in
   fst (load (1, 7) (snd (the (save (0, 7) doc st)))) = merge doc \<and>
   fst (load (1, 8) (snd (the (save (0, 7) doc st)))) = default_policy"
proof -
  let ?st = "perm_init (\<lambda>_. NoRow)" and ?doc = "PDict [(''gates'', PDict [(''apps'', PStr ''auto'')])]"
  have s: "save (0, 7) ?doc ?st = Some (the (save (0, 7) ?doc ?st))"
    by (simp add: save_def perm_init_def Let_def)
  then have s': "save (0, 7) ?doc ?st = Some (fst (the (save (0, 7) ?doc ?st)), snd (the (save (0, 7) ?doc ?st)))"
    by simp
  show ?thesis
    using save_load_coherent [OF perm_reach.start s', of "(1, 7)"]
      save_load_coherent [OF perm_reach.start s', of "(1, 8)"]
    by (simp add: Let_def perm_init_def)
qed

text \<open>
  C12. Normalisation is a retraction onto the well-formed policies: whatever JSON value it is
  given, \<open>merge\<close> returns a document with every setting present and valid, and it changes nothing
  exactly when the document was one already.
\<close>

theorem merge_retraction: "policy_ok (merge doc) \<and> (merge doc = doc \<longleftrightarrow> policy_ok doc)"
  using policy_ok_merge merge_ok_id by metis

text \<open>
  The floor under automatic file grants, on canonical paths: a path is refused exactly when
  it is the root directory or when the components of one of the forbidden roots are a prefix of
  its own. In particular a sibling that only shares leading characters with a forbidden root is
  not refused by it.
\<close>

theorem fs_floor_components:
  assumes "canonical p"
  shows "fs_root_denied p \<longleftrightarrow>
    path_comps p = [] \<or> (\<exists>root\<in>set FS_DENY_ROOTS. prefix (path_comps root) (path_comps p))"
  using assms by (rule fs_root_denied_comps)

theorem fs_floor_components_witness:
  "fs_root_denied ''/etc/ssh'' \<and> \<not> fs_root_denied ''/etcetera''"
proof
  have "canonical ''/etc/ssh''" by code_simp
  then have "fs_root_denied ''/etc/ssh'' \<longleftrightarrow> path_comps ''/etc/ssh'' = [] \<or>
      (\<exists>root\<in>set FS_DENY_ROOTS. prefix (path_comps root) (path_comps ''/etc/ssh''))"
    by (rule fs_floor_components)
  moreover have "prefix (path_comps ''/etc'') (path_comps ''/etc/ssh'')" by code_simp
  ultimately show "fs_root_denied ''/etc/ssh''" by (auto simp: FS_DENY_ROOTS_def)
  show "\<not> fs_root_denied ''/etcetera''" by code_simp
qed

end
