(* ===== verification/Shell_Parse.thy ===== *)
theory Shell_Parse
  imports Py_Path
begin

text \<open>
  \<open>agent/shell_guard/parse.py\<close>: a command line is cut into segments (an argv with its read and
  write redirections) before it is classified. The tokenizer is Python's \<open>shlex\<close> in POSIX mode;
  its state machine is modelled with the two settings the source uses: \<open>lex_split\<close> is
  \<open>shlex.split\<close> (no comments, no punctuation), \<open>lex_punct\<close> is
  \<open>shlex.shlex(s, posix=True, punctuation_chars=True)\<close> with \<open>whitespace_split\<close>, which keeps the
  default comment character.
\<close>

section \<open>shlex in POSIX mode\<close>

record lex_cfg =
  commenters :: string
  punctuation :: string

text \<open>
  The states of \<open>read_token\<close> with the token read so far; the flag says that a quote was seen, so
  that an empty quoted word is a token. \<open>LEsc\<close> is after a backslash outside quotes, \<open>LQEsc\<close> after
  one inside double quotes.
\<close>

datatype lex_state =
    LBlank
  | LWord string bool
  | LPunct string
  | LQuote char string
  | LEsc string bool
  | LQEsc string

definition lex_ws :: "char \<Rightarrow> bool" where
  "lex_ws c \<longleftrightarrow> c \<in> set [CHR '' '', CHR 0x09, CHR 0x0D, CHR 0x0A]"

definition is_quote :: "char \<Rightarrow> bool" where
  "is_quote c \<longleftrightarrow> c = CHR 0x27 \<or> c = CHR 0x22"

abbreviation backslash :: char where "backslash \<equiv> CHR 0x5C"
abbreviation dquote :: char where "dquote \<equiv> CHR 0x22"
abbreviation squote :: char where "squote \<equiv> CHR 0x27"

text \<open>\<open>instream.readline()\<close>\<close>

definition drop_line :: "string \<Rightarrow> string" where
  "drop_line s = drop 1 (dropWhile (\<lambda>c. c \<noteq> CHR 0x0A) s)"

text \<open>A token is emitted when it has text or came from quotes; \<open>None\<close> is the \<open>ValueError\<close>.\<close>

definition emit :: "string \<Rightarrow> bool \<Rightarrow> string list option \<Rightarrow> string list option" where
  "emit t q rest = (if t \<noteq> [] \<or> q then map_option ((#) t) rest else rest)"

lemma length_drop_line: "length (drop_line s) \<le> length s"
  using length_dropWhile_le [of "\<lambda>c. c \<noteq> CHR 0x0A" s] by (simp add: drop_line_def)

function (sequential) lex :: "lex_cfg \<Rightarrow> lex_state \<Rightarrow> string \<Rightarrow> string list option" where
  "lex cfg LBlank [] = Some []"
| "lex cfg LBlank (c # cs) =
     (if lex_ws c then lex cfg LBlank cs
      else if c \<in> set (commenters cfg) then lex cfg LBlank (drop_line cs)
      else if c = backslash then lex cfg (LEsc [] False) cs
      else if c \<in> set (punctuation cfg) then lex cfg (LPunct [c]) cs
      else if is_quote c then lex cfg (LQuote c []) cs
      else lex cfg (LWord [c] False) cs)"
| "lex cfg (LWord t q) [] = emit t q (Some [])"
| "lex cfg (LWord t q) (c # cs) =
     (if lex_ws c then emit t q (lex cfg LBlank cs)
      else if c \<in> set (commenters cfg) then emit t q (lex cfg LBlank (drop_line cs))
      else if is_quote c then lex cfg (LQuote c t) cs
      else if c = backslash then lex cfg (LEsc t q) cs
      else if c \<notin> set (punctuation cfg) then lex cfg (LWord (t @ [c]) q) cs
      else emit t q (lex cfg LBlank (c # cs)))"
| "lex cfg (LPunct t) [] = emit t False (Some [])"
| "lex cfg (LPunct t) (c # cs) =
     (if lex_ws c then emit t False (lex cfg LBlank cs)
      else if c \<in> set (commenters cfg) then emit t False (lex cfg LBlank (drop_line cs))
      else if c \<in> set (punctuation cfg) then lex cfg (LPunct (t @ [c])) cs
      else emit t False (lex cfg LBlank (c # cs)))"
| "lex cfg (LQuote qc t) [] = None"
| "lex cfg (LQuote qc t) (c # cs) =
     (if c = qc then lex cfg (LWord t True) cs
      else if c = backslash \<and> qc = dquote then lex cfg (LQEsc t) cs
      else lex cfg (LQuote qc (t @ [c])) cs)"
| "lex cfg (LEsc t q) [] = None"
| "lex cfg (LEsc t q) (c # cs) = lex cfg (LWord (t @ [c]) q) cs"
| "lex cfg (LQEsc t) [] = None"
| "lex cfg (LQEsc t) (c # cs) =
     lex cfg (LQuote dquote (t @ (if c \<noteq> backslash \<and> c \<noteq> dquote then [backslash] else []) @ [c])) cs"
  by pat_completeness auto
termination
  by (relation "measures [\<lambda>(cfg, st, s). length s, \<lambda>(cfg, st, s). if st = LBlank then 0 else 1]")
     (auto simp: le_imp_less_Suc length_drop_line)

definition split_cfg :: lex_cfg where
  "split_cfg = \<lparr>commenters = [], punctuation = []\<rparr>"

definition punct_cfg :: lex_cfg where
  "punct_cfg = \<lparr>commenters = ''#'', punctuation = ''();<>|&''\<rparr>"

definition shlex_split :: "string \<Rightarrow> string list option" where
  "shlex_split s = lex split_cfg LBlank s"

section \<open>Segments\<close>

definition OPERATORS :: "string list" where
  "OPERATORS = [''|'', ''||'', ''&&'', '';'', ''&'', ''|&'', '';;'', '';&'', '';;&'']"

definition REDIRECT_OPS :: "string list" where
  "REDIRECT_OPS = [''>'', ''>>'', ''&>'']"

definition READ_OPS :: "string list" where
  "READ_OPS = [''<'', ''<<'']"

definition ALL_REDIRECT :: "string list" where
  "ALL_REDIRECT = [''>'', ''>>'', ''&>'', ''<'', ''<<'']"

record segment =
  argv :: "string list"
  redirect_targets :: "string list"
  read_targets :: "string list"

definition empty_seg :: segment where
  "empty_seg = \<lparr>argv = [], redirect_targets = [], read_targets = []\<rparr>"

definition seg_used :: "segment \<Rightarrow> bool" where
  "seg_used s \<longleftrightarrow> argv s \<noteq> [] \<or> redirect_targets s \<noteq> [] \<or> read_targets s \<noteq> []"

definition is_nl :: "char \<Rightarrow> bool" where
  "is_nl c \<longleftrightarrow> c = CHR 0x0A \<or> c = CHR 0x0D"

text \<open>The first argument is the quote the scan is inside of, if any.\<close>

function (sequential) split_unquoted_newlines :: "char option \<Rightarrow> string \<Rightarrow> string" where
  "split_unquoted_newlines q [] = []"
| "split_unquoted_newlines (Some q) (c # cs) =
     (if c = backslash \<and> q = dquote \<and> cs \<noteq> []
      then c # hd cs # split_unquoted_newlines (Some q) (tl cs)
      else c # split_unquoted_newlines (if c = q then None else Some q) cs)"
| "split_unquoted_newlines None (c # cs) =
     (if is_quote c then c # split_unquoted_newlines (Some c) cs
      else if is_nl c then CHR '';'' # split_unquoted_newlines None (dropWhile is_nl cs)
      else c # split_unquoted_newlines None cs)"
  by pat_completeness auto
termination
  by (relation "measure (\<lambda>(q, s). length s)") (auto simp: le_imp_less_Suc length_dropWhile_le)

definition re_ident_char :: "char \<Rightarrow> bool" where
  "re_ident_char c \<longleftrightarrow> c \<in> set ''abcdefghijklmnopqrstuvwxyzABCDEFGHIJKLMNOPQRSTUVWXYZ0123456789_''"

text \<open>\<open>_IFS_RE.match\<close> at the head of the text: the length of the match, 0 for none.\<close>

definition ifs_match :: "string \<Rightarrow> nat" where
  "ifs_match s =
     (if startswith s ''${IFS}'' then 6
      else if startswith s ''$IFS'' \<and> (case drop 4 s of [] \<Rightarrow> True | c # _ \<Rightarrow> \<not> re_ident_char c) then 4
      else 0)"

function (sequential) expand_ifs_unquoted :: "char option \<Rightarrow> string \<Rightarrow> string" where
  "expand_ifs_unquoted q [] = []"
| "expand_ifs_unquoted (Some q) (c # cs) =
     (if c = backslash \<and> q = dquote \<and> cs \<noteq> []
      then c # hd cs # expand_ifs_unquoted (Some q) (tl cs)
      else c # expand_ifs_unquoted (if c = q then None else Some q) cs)"
| "expand_ifs_unquoted None (c # cs) =
     (if is_quote c then c # expand_ifs_unquoted (Some c) cs
      else if ifs_match (c # cs) > 0
      then CHR '' '' # expand_ifs_unquoted None (drop (ifs_match (c # cs) - 1) cs)
      else c # expand_ifs_unquoted None cs)"
  by pat_completeness auto
termination
  by (relation "measure (\<lambda>(q, s). length s)") auto

definition tokenize :: "string \<Rightarrow> string list option" where
  "tokenize command = lex punct_cfg LBlank command"

text \<open>The token loop; the last branch of the redirection case never applies.\<close>

function (sequential) seg_loop :: "segment \<Rightarrow> string list \<Rightarrow> segment list" where
  "seg_loop cur [] = (if seg_used cur then [cur] else [])"
| "seg_loop cur (t # ts) =
     (if t \<in> set OPERATORS then (if seg_used cur then [cur] else []) @ seg_loop empty_seg ts
      else if t \<in> set ALL_REDIRECT then
        (case ts of [] \<Rightarrow> seg_loop cur []
         | u # us \<Rightarrow> seg_loop
             (if t \<in> set REDIRECT_OPS then cur\<lparr>redirect_targets := redirect_targets cur @ [u]\<rparr>
              else if t \<in> set READ_OPS then cur\<lparr>read_targets := read_targets cur @ [u]\<rparr>
              else cur) us)
      else seg_loop (cur\<lparr>argv := argv cur @ [t]\<rparr>) ts)"
  by pat_completeness auto
termination
  by (relation "measure (\<lambda>(cur, ts). length ts)") auto

text \<open>Command and process substitution, which the source refuses to resolve statically.\<close>

definition has_substitution :: "string \<Rightarrow> bool" where
  "has_substitution s \<longleftrightarrow> (\<exists>m\<in>set [''$('', ''`'', ''<('', ''>('']. contains s m)"

definition segments :: "string \<Rightarrow> segment list option" where
  "segments command =
     (let command = split_unquoted_newlines None (expand_ifs_unquoted None command) in
      case tokenize command of
        None \<Rightarrow> None
      | Some toks \<Rightarrow> if has_substitution command then None else Some (seg_loop empty_seg toks))"

definition extract_paths :: "segment \<Rightarrow> string list" where
  "extract_paths seg =
     filter (\<lambda>t. \<not> startswith t ''-'' \<and> (startswith t ''/'' \<or> contains t ''/'')) (drop 1 (argv seg))
     @ redirect_targets seg @ read_targets seg"

section \<open>Quote tracking\<close>

text \<open>
  The two rewriting passes track quotes the same way; what they promise to each other and to the
  tokenizer is that quoted text passes through unchanged.
\<close>

locale quote_scan =
  fixes scan :: "char option \<Rightarrow> string \<Rightarrow> string"
  assumes scan_Nil: "scan mode [] = []"
    and scan_quoted: "scan (Some q) (c # cs) =
      (if c = backslash \<and> q = dquote \<and> cs \<noteq> [] then c # hd cs # scan (Some q) (tl cs)
       else c # scan (if c = q then None else Some q) cs)"
    and scan_open: "is_quote c \<Longrightarrow> scan None (c # cs) = c # scan (Some c) cs"
begin

lemma scan_body:
  assumes "q \<notin> set body" "q = dquote \<Longrightarrow> backslash \<notin> set body" "is_quote q"
  shows "scan (Some q) (body @ q # rest) = body @ q # scan None rest"
  using assms(1,2)
proof (induction body)
  case Nil
  have "\<not> (q = backslash \<and> q = dquote \<and> rest \<noteq> [])" by auto
  moreover have "backslash \<noteq> dquote" by simp
  ultimately have "scan (Some q) (q # rest) = q # scan None rest" unfolding scan_quoted by metis
  then show ?case by simp
next
  case (Cons c body)
  then have "c \<noteq> q" "\<not> (c = backslash \<and> q = dquote)" by auto
  with Cons show ?case by (auto simp: scan_quoted)
qed

lemma quoted_verbatim:
  assumes "is_quote q" "q \<notin> set body" "q = dquote \<Longrightarrow> backslash \<notin> set body"
  shows "scan None (q # body @ q # rest) = q # body @ q # scan None rest"
  using assms by (simp add: scan_open scan_body)

end

interpretation nl: quote_scan split_unquoted_newlines
  by unfold_locales auto

interpretation ifs: quote_scan expand_ifs_unquoted
  by unfold_locales auto

lemma split_newlines_id:
  "\<forall>c\<in>set s. \<not> is_quote c \<and> \<not> is_nl c \<Longrightarrow> split_unquoted_newlines None s = s"
  by (induction s) auto

lemma ifs_match_dollar: "ifs_match (c # s) > 0 \<Longrightarrow> c = CHR ''$''"
  by (auto simp: ifs_match_def split: if_splits)

lemma expand_ifs_id:
  "\<forall>c\<in>set s. \<not> is_quote c \<and> c \<noteq> CHR ''$'' \<Longrightarrow> expand_ifs_unquoted None s = s"
proof (induction s)
  case (Cons c s)
  then have "\<not> ifs_match (c # s) > 0" using ifs_match_dollar by fastforce
  with Cons show ?case by auto
qed simp

text \<open>An unquoted newline never survives: it becomes a separator.\<close>

lemma split_newlines_none:
  "\<forall>c\<in>set s. \<not> is_quote c \<Longrightarrow> \<forall>c\<in>set (split_unquoted_newlines None s). \<not> is_nl c"
proof (induction "None :: char option" s rule: split_unquoted_newlines.induct)
  case (3 c cs)
  have q: "\<not> is_quote c" using "3.prems" by simp
  have semi: "\<not> is_nl (CHR '';'')" by (simp add: is_nl_def)
  show ?case
  proof (cases "is_nl c")
    case True
    have "\<forall>c\<in>set (dropWhile is_nl cs). \<not> is_quote c" using "3.prems" by (auto dest: set_dropWhileD)
    with "3.hyps"(1) [OF q True] q True semi show ?thesis by simp
  next
    case False
    with "3.hyps"(2) [OF q False] "3.prems" q show ?thesis by simp
  qed
qed simp

section \<open>Tokens of plain words\<close>

definition plain_char :: "lex_cfg \<Rightarrow> char \<Rightarrow> bool" where
  "plain_char cfg c \<longleftrightarrow> \<not> lex_ws c \<and> c \<notin> set (commenters cfg) \<and> c \<notin> set (punctuation cfg)
     \<and> \<not> is_quote c \<and> c \<noteq> backslash"

lemma lex_word:
  "\<forall>c\<in>set w. plain_char cfg c \<Longrightarrow> lex cfg (LWord t q) (w @ rest) = lex cfg (LWord (t @ w) q) rest"
  by (induction w arbitrary: t) (auto simp: plain_char_def)

lemma lex_blank_word:
  assumes "w \<noteq> []" "\<forall>c\<in>set w. plain_char cfg c"
  shows "lex cfg LBlank (w @ rest) = lex cfg (LWord w False) rest"
proof (cases w)
  case (Cons c cs)
  with assms have "lex cfg LBlank (w @ rest) = lex cfg (LWord [c] False) (cs @ rest)"
    by (auto simp: plain_char_def)
  also have "\<dots> = lex cfg (LWord ([c] @ cs) False) rest"
    using assms Cons by (intro lex_word) auto
  finally show ?thesis by (simp add: Cons)
qed (use assms in simp)

lemma lex_join:
  "\<forall>w\<in>set ws. w \<noteq> [] \<and> (\<forall>c\<in>set w. plain_char cfg c) \<Longrightarrow>
   lex cfg LBlank (join_with '' '' ws) = Some ws"
proof (induction ws rule: induct_list012)
  case 1
  then show ?case by simp
next
  case (2 w)
  then have "lex cfg LBlank (w @ []) = lex cfg (LWord w False) []" by (intro lex_blank_word) auto
  with 2 show ?case by (simp add: emit_def)
next
  case (3 x y zs)
  have sp: "lex_ws (CHR '' '')" by (simp add: lex_ws_def)
  have "lex cfg LBlank (x @ '' '' @ join_with '' '' (y # zs))
      = lex cfg (LWord x False) ('' '' @ join_with '' '' (y # zs))"
    using 3 by (intro lex_blank_word) auto
  with 3 sp show ?case by (simp add: emit_def)
qed

lemma punct_cfg_sel [simp]:
  "commenters punct_cfg = ''#''" "punctuation punct_cfg = ''();<>|&''"
  by (simp_all add: punct_cfg_def)

section \<open>What the token loop keeps\<close>

definition seg_words :: "segment \<Rightarrow> string set" where
  "seg_words s = set (argv s) \<union> set (redirect_targets s) \<union> set (read_targets s)"

lemma seg_used_words: "seg_used s \<longleftrightarrow> seg_words s \<noteq> {}"
  by (auto simp: seg_used_def seg_words_def)

lemma seg_words_empty [simp]: "seg_words empty_seg = {}"
  by (simp add: seg_words_def empty_seg_def)

text \<open>No token is lost: all but the operators end up in a segment.\<close>

lemma seg_loop_words:
  "seg_words cur \<union> {t \<in> set ts. t \<notin> set OPERATORS \<and> t \<notin> set ALL_REDIRECT}
     \<subseteq> (\<Union>s\<in>set (seg_loop cur ts). seg_words s)"
proof (induction cur ts rule: seg_loop.induct)
  case (1 cur)
  then show ?case by (auto simp: seg_used_words)
next
  case (2 cur t ts)
  consider (op) "t \<in> set OPERATORS" | (last) "t \<notin> set OPERATORS" "t \<in> set ALL_REDIRECT" "ts = []"
    | (redir) u us where "t \<notin> set OPERATORS" "t \<in> set ALL_REDIRECT" "ts = u # us"
    | (arg) "t \<notin> set OPERATORS" "t \<notin> set ALL_REDIRECT" by (cases ts) auto
  then show ?case
  proof cases
    case op
    then have "seg_loop cur (t # ts) = (if seg_used cur then [cur] else []) @ seg_loop empty_seg ts"
      by simp
    with op "2.IH"(1) [OF op] show ?thesis by (auto simp: seg_used_words)
  next
    case last
    then have "seg_loop cur (t # ts) = (if seg_used cur then [cur] else [])" by simp
    with last show ?thesis by (auto simp: seg_used_words)
  next
    case redir
    have t: "t \<in> set REDIRECT_OPS \<or> t \<in> set READ_OPS"
      using redir(2) by (auto simp: ALL_REDIRECT_def REDIRECT_OPS_def READ_OPS_def)
    define cur' where "cur' = (if t \<in> set REDIRECT_OPS then cur\<lparr>redirect_targets := redirect_targets cur @ [u]\<rparr>
      else if t \<in> set READ_OPS then cur\<lparr>read_targets := read_targets cur @ [u]\<rparr> else cur)"
    have eq: "seg_loop cur (t # ts) = seg_loop cur' us" using redir by (simp add: cur'_def)
    have "seg_words cur' = insert u (seg_words cur)" using t by (auto simp: seg_words_def cur'_def)
    moreover have "seg_words cur' \<union> {t \<in> set us. t \<notin> set OPERATORS \<and> t \<notin> set ALL_REDIRECT}
        \<subseteq> (\<Union>s\<in>set (seg_loop cur' us). seg_words s)"
      using "2.IH"(3) [OF redir] by (simp only: cur'_def)
    moreover have "{x \<in> set (t # ts). x \<notin> set OPERATORS \<and> x \<notin> set ALL_REDIRECT}
        \<subseteq> insert u {x \<in> set us. x \<notin> set OPERATORS \<and> x \<notin> set ALL_REDIRECT}"
      unfolding redir(3) using redir(2) by auto
    ultimately show ?thesis unfolding eq by blast
  next
    case arg
    have eq: "seg_loop cur (t # ts) = seg_loop (cur\<lparr>argv := argv cur @ [t]\<rparr>) ts" using arg by simp
    have "seg_words (cur\<lparr>argv := argv cur @ [t]\<rparr>) = insert t (seg_words cur)"
      by (auto simp: seg_words_def)
    with "2.IH"(4) [OF arg] have
      "insert t (seg_words cur) \<union> {t \<in> set ts. t \<notin> set OPERATORS \<and> t \<notin> set ALL_REDIRECT}
        \<subseteq> (\<Union>s\<in>set (seg_loop cur (t # ts)). seg_words s)"
      unfolding eq by (simp only:)
    moreover have "{x \<in> set (t # ts). x \<notin> set OPERATORS \<and> x \<notin> set ALL_REDIRECT}
        \<subseteq> insert t {x \<in> set ts. x \<notin> set OPERATORS \<and> x \<notin> set ALL_REDIRECT}" by auto
    ultimately show ?thesis by blast
  qed
qed

text \<open>A segment holds words of the command only, and its argv holds no operator.\<close>

lemma seg_loop_argv:
  "\<forall>t\<in>set (argv cur). t \<notin> set OPERATORS \<and> t \<notin> set ALL_REDIRECT \<Longrightarrow> s \<in> set (seg_loop cur ts) \<Longrightarrow>
   (\<forall>t\<in>set (argv s). t \<notin> set OPERATORS \<and> t \<notin> set ALL_REDIRECT) \<and> seg_used s"
proof (induction cur ts rule: seg_loop.induct)
  case (1 cur)
  then show ?case by (auto split: if_splits)
next
  case (2 cur t ts)
  have e: "\<forall>t\<in>set (argv empty_seg). t \<notin> set OPERATORS \<and> t \<notin> set ALL_REDIRECT"
    by (simp add: empty_seg_def)
  consider (op) "t \<in> set OPERATORS" | (last) "t \<notin> set OPERATORS" "t \<in> set ALL_REDIRECT" "ts = []"
    | (redir) u us where "t \<notin> set OPERATORS" "t \<in> set ALL_REDIRECT" "ts = u # us"
    | (arg) "t \<notin> set OPERATORS" "t \<notin> set ALL_REDIRECT" by (cases ts) auto
  then show ?case
  proof cases
    case op
    then have eq: "seg_loop cur (t # ts) = (if seg_used cur then [cur] else []) @ seg_loop empty_seg ts"
      by simp
    from "2.IH"(1) [OF op e] "2.prems" show ?thesis unfolding eq by (auto split: if_splits)
  next
    case last
    then have eq: "seg_loop cur (t # ts) = (if seg_used cur then [cur] else [])" by simp
    from "2.prems" show ?thesis unfolding eq by (auto split: if_splits)
  next
    case redir
    let ?cur = "if t \<in> set REDIRECT_OPS then cur\<lparr>redirect_targets := redirect_targets cur @ [u]\<rparr>
      else if t \<in> set READ_OPS then cur\<lparr>read_targets := read_targets cur @ [u]\<rparr> else cur"
    have eq: "seg_loop cur (t # ts) = seg_loop ?cur us" using redir by simp
    have "argv ?cur = argv cur" by simp
    with "2.IH"(3) [OF redir] "2.prems" show ?thesis unfolding eq by metis
  next
    case arg
    have eq: "seg_loop cur (t # ts) = seg_loop (cur\<lparr>argv := argv cur @ [t]\<rparr>) ts" using arg by simp
    have "\<forall>t\<in>set (argv (cur\<lparr>argv := argv cur @ [t]\<rparr>)). t \<notin> set OPERATORS \<and> t \<notin> set ALL_REDIRECT"
      using arg "2.prems"(1) by auto
    from "2.IH"(4) [OF arg this] "2.prems"(2) show ?thesis unfolding eq by blast
  qed
qed

lemma seg_loop_args:
  "\<forall>t\<in>set ts. t \<notin> set OPERATORS \<and> t \<notin> set ALL_REDIRECT \<Longrightarrow>
   seg_loop cur ts = (if seg_used cur \<or> ts \<noteq> [] then [cur\<lparr>argv := argv cur @ ts\<rparr>] else [])"
proof (induction ts arbitrary: cur)
  case (Cons t ts)
  then show ?case by (simp add: seg_used_def)
qed simp

lemma operators_punct:
  "t \<in> set OPERATORS \<or> t \<in> set ALL_REDIRECT \<Longrightarrow> t \<noteq> [] \<and> (\<forall>c\<in>set t. c \<in> set ''();<>|&'')"
  by (auto simp: OPERATORS_def ALL_REDIRECT_def)

section \<open>Properties\<close>

text \<open>A character that no pass over the command line treats specially.\<close>

definition inert_char :: "char \<Rightarrow> bool" where
  "inert_char c \<longleftrightarrow> plain_char punct_cfg c \<and> c \<noteq> CHR ''$'' \<and> c \<noteq> CHR 0x60"

lemma contains_set: "contains s p \<Longrightarrow> set p \<subseteq> set s"
  by (auto simp: contains_append)

lemma inert_join:
  assumes "\<forall>w\<in>set ws. \<forall>c\<in>set w. inert_char c" "c \<in> set (join_with '' '' ws)"
  shows "\<not> is_quote c \<and> \<not> is_nl c \<and> c \<notin> set ''$`();<>|&#''"
proof -
  have "c = CHR '' '' \<or> inert_char c" using set_join_with [OF assms(2)] assms(1) by auto
  then show ?thesis
    by (auto simp: inert_char_def plain_char_def lex_ws_def is_nl_def is_quote_def)
qed

lemma inert_not_op:
  "w \<noteq> [] \<Longrightarrow> \<forall>c\<in>set w. inert_char c \<Longrightarrow> w \<notin> set OPERATORS \<and> w \<notin> set ALL_REDIRECT"
  using operators_punct [of w] by (cases w) (auto simp: inert_char_def plain_char_def)

text \<open>
  A command line written from plain words is read back as exactly those words: one segment,
  its argv the words in order, no redirection. (The tokenizer, both quote-aware rewriting passes
  and the segment loop are all involved.)
\<close>

theorem segments_of_words:
  assumes "ws \<noteq> []" "\<forall>w\<in>set ws. w \<noteq> [] \<and> (\<forall>c\<in>set w. inert_char c)"
  shows "segments (join_with '' '' ws) =
    Some [\<lparr>argv = ws, redirect_targets = [], read_targets = []\<rparr>]"
proof -
  let ?s = "join_with '' '' ws"
  have c: "\<not> is_quote c \<and> \<not> is_nl c \<and> c \<notin> set ''$`();<>|&#''" if "c \<in> set ?s" for c
    using inert_join that assms(2) by blast
  have ifs: "expand_ifs_unquoted None ?s = ?s" by (rule expand_ifs_id) (use c in auto)
  have nl: "split_unquoted_newlines None ?s = ?s" by (rule split_newlines_id) (use c in auto)
  have lexed: "tokenize ?s = Some ws"
    unfolding tokenize_def by (rule lex_join) (use assms(2) in \<open>auto simp: inert_char_def\<close>)
  have sub: "\<not> has_substitution ?s"
    using c contains_set [of ?s] by (fastforce simp: has_substitution_def)
  have "seg_loop empty_seg ws = [empty_seg\<lparr>argv := ws\<rparr>]"
    using assms inert_not_op by (subst seg_loop_args) (auto simp: empty_seg_def)
  then show ?thesis by (simp add: segments_def ifs nl lexed sub empty_seg_def)
qed

theorem segments_of_words_witness:
  "segments ''ls -la /DATA/photos'' =
    Some [\<lparr>argv = [''ls'', ''-la'', ''/DATA/photos''], redirect_targets = [], read_targets = []\<rparr>]"
  using segments_of_words [of "[''ls'', ''-la'', ''/DATA/photos'']"]
  by (simp add: inert_char_def plain_char_def lex_ws_def is_quote_def)

text \<open>
  When a command is split into segments no word disappears: every token the lexer found that
  is not an operator or a redirection sign is the argument or the redirection target of some
  segment; no segment is empty and no argv contains an operator. A command with a command or
  process substitution is never split.
\<close>

theorem segments_keep_words:
  assumes "segments command = Some segs"
  shows "(\<exists>cmd toks. cmd = split_unquoted_newlines None (expand_ifs_unquoted None command) \<and>
      tokenize cmd = Some toks \<and> \<not> has_substitution cmd \<and>
      {t \<in> set toks. t \<notin> set OPERATORS \<and> t \<notin> set ALL_REDIRECT} \<subseteq> (\<Union>s\<in>set segs. seg_words s)) \<and>
    (\<forall>s\<in>set segs. seg_used s \<and> (\<forall>t\<in>set (argv s). t \<notin> set OPERATORS \<and> t \<notin> set ALL_REDIRECT))"
proof
  let ?cmd = "split_unquoted_newlines None (expand_ifs_unquoted None command)"
  obtain toks where t: "tokenize ?cmd = Some toks" "\<not> has_substitution ?cmd" "segs = seg_loop empty_seg toks"
    using assms by (auto simp: segments_def Let_def split: option.splits if_splits)
  then show "\<exists>cmd toks. cmd = ?cmd \<and> tokenize cmd = Some toks \<and> \<not> has_substitution cmd \<and>
      {t \<in> set toks. t \<notin> set OPERATORS \<and> t \<notin> set ALL_REDIRECT} \<subseteq> (\<Union>s\<in>set segs. seg_words s)"
    using seg_loop_words [of empty_seg toks] by auto
  have "\<forall>t\<in>set (argv empty_seg). t \<notin> set OPERATORS \<and> t \<notin> set ALL_REDIRECT" by (simp add: empty_seg_def)
  then show "\<forall>s\<in>set segs. seg_used s \<and> (\<forall>t\<in>set (argv s). t \<notin> set OPERATORS \<and> t \<notin> set ALL_REDIRECT)"
    unfolding t(3) using seg_loop_argv by blast
qed

theorem segments_keep_words_witness:
  "\<exists>segs. segments ''cat a > b; ls'' = Some segs \<and> length segs = 2 \<and> (\<forall>s\<in>set segs. seg_used s)"
proof -
  have "map_option length (segments ''cat a > b; ls'') = Some 2" by code_simp
  then obtain segs where s: "segments ''cat a > b; ls'' = Some segs" "length segs = 2" by auto
  with segments_keep_words [OF s(1)] show ?thesis by blast
qed

end
