(* ===== verification/Shell_Rules.thy ===== *)
theory Shell_Rules
  imports Shell_Parse
begin

text \<open>
  \<open>agent/shell_guard/rules.py\<close>: the deterministic risk classifier. Each segment of a command gets
  a level, and the worst level wins. Command names, flags and paths are compared as the source
  does; \<open>realpath\<close>, what a path resolves to on the running system, is a parameter
  (\<open>None\<close> when the call raises \<open>OSError\<close>), and so is the directory the command will run in.
\<close>

section \<open>Levels and decisions\<close>

datatype level = Safe | Gray | Dangerous | Protected

fun level_name :: "level \<Rightarrow> string" where
  "level_name Safe = ''safe''"
| "level_name Gray = ''gray''"
| "level_name Dangerous = ''dangerous''"
| "level_name Protected = ''protected''"

fun level_rank :: "level \<Rightarrow> nat" where
  "level_rank Safe = 0"
| "level_rank Gray = 1"
| "level_rank Dangerous = 2"
| "level_rank Protected = 3"

lemma level_rank_inject [simp]: "level_rank a = level_rank b \<longleftrightarrow> a = b"
  by (cases a; cases b) auto

instantiation level :: linorder
begin

definition less_eq_level :: "level \<Rightarrow> level \<Rightarrow> bool" where
  "less_eq_level a b \<longleftrightarrow> level_rank a \<le> level_rank b"

definition less_level :: "level \<Rightarrow> level \<Rightarrow> bool" where
  "less_level a b \<longleftrightarrow> level_rank a < level_rank b"

instance
proof
  fix x y z :: level
  show "x < y \<longleftrightarrow> x \<le> y \<and> \<not> y \<le> x" by (auto simp: less_eq_level_def less_level_def)
  show "x \<le> x" by (simp add: less_eq_level_def)
  show "x \<le> y \<Longrightarrow> y \<le> z \<Longrightarrow> x \<le> z" by (simp add: less_eq_level_def)
  show "x \<le> y \<Longrightarrow> y \<le> x \<Longrightarrow> x = y" by (simp add: less_eq_level_def order_antisym)
  show "x \<le> y \<or> y \<le> x" by (auto simp: less_eq_level_def)
qed

end

record decision =
  dlevel :: level
  dreason :: string
  dpaths :: "string list"

definition safe_decision :: decision where
  "safe_decision = \<lparr>dlevel = Safe, dreason = [], dpaths = []\<rparr>"

definition worse :: "decision \<Rightarrow> decision \<Rightarrow> decision" where
  "worse a b = (if level_rank (dlevel b) \<le> level_rank (dlevel a) then a else b)"

section \<open>Command tables\<close>

definition SAFE_CMDS :: "string list" where
  "SAFE_CMDS = [''ls'', ''tree'', ''cat'', ''head'', ''tail'', ''file'', ''grep'', ''egrep'', ''fgrep'',
     ''ps'', ''df'', ''du'', ''wc'', ''stat'', ''realpath'', ''basename'', ''dirname'',
     ''pwd'', ''which'', ''echo'', ''env'', ''printenv'', ''id'', ''uname'', ''hostname'',
     ''date'', ''cksum'', ''sha256sum'', ''md5sum'']"

definition SAFE_GIT_SUB :: "string list" where
  "SAFE_GIT_SUB = [''status'', ''log'', ''diff'', ''show'']"

definition HARMLESS_DEVS :: "string list" where
  "HARMLESS_DEVS = [''/dev/null'', ''/dev/stdout'', ''/dev/stderr'']"

definition SHELL_CMDS :: "string list" where
  "SHELL_CMDS = [''sh'', ''bash'', ''zsh'', ''dash'']"

definition DISK_CMDS :: "string list" where
  "DISK_CMDS = [''dd'', ''mkfs'', ''wipefs'', ''fdisk'', ''parted'', ''sgdisk'', ''shred'']"

definition SYSTEMCTL_MUTATE :: "string list" where
  "SYSTEMCTL_MUTATE = [''start'', ''stop'', ''restart'', ''reload'', ''enable'', ''disable'', ''mask'',
     ''unmask'', ''kill'', ''isolate'', ''poweroff'', ''reboot'', ''halt'',
     ''suspend'', ''hibernate'', ''daemon-reload'', ''set-default'']"

definition APT_MUTATE :: "string list" where
  "APT_MUTATE = [''install'', ''remove'', ''purge'', ''autoremove'', ''upgrade'',
     ''full-upgrade'', ''dist-upgrade'']"

definition YUM_MUTATE :: "string list" where
  "YUM_MUTATE = [''install'', ''remove'', ''erase'', ''update'', ''upgrade'', ''downgrade'']"

definition EXEC_WRAPPERS :: "string list" where
  "EXEC_WRAPPERS = [''env'', ''nohup'', ''nice'', ''timeout'', ''stdbuf'', ''setsid'', ''ionice'',
     ''sudo'', ''doas'', ''xargs'', ''chroot'']"

definition WRAPPERS_WITH_OPERAND :: "string list" where
  "WRAPPERS_WITH_OPERAND = [''timeout'', ''chroot'']"

definition TRUSTED_BIN_DIRS :: "string list" where
  "TRUSTED_BIN_DIRS = [''/bin/'', ''/usr/bin/'', ''/usr/local/bin/'', ''/sbin/'', ''/usr/sbin/'']"

definition READONLY_CMDS :: "string list" where
  "READONLY_CMDS = SAFE_CMDS @ [''less'', ''more'', ''strings'', ''od'', ''xxd'', ''hexdump'', ''diff'',
     ''cmp'', ''sort'', ''uniq'', ''cut'', ''tr'', ''nl'', ''tac'', ''readlink'', ''rg'', ''jq'',
     ''column'', ''find'', ''sed'']"

definition FIND_MUTATING :: "string list" where
  "FIND_MUTATING = [''-delete'', ''-exec'', ''-execdir'', ''-ok'', ''-okdir'']"

definition SECRET_PREFIXES :: "string list" where
  "SECRET_PREFIXES = [''/etc'', ''/var/lib/nimoos'']"

definition INTEGRITY_PREFIXES :: "string list" where
  "INTEGRITY_PREFIXES = [''/boot'', ''/usr'', ''/opt/nimoos'']"

definition PROTECTED_PREFIXES :: "string list" where
  "PROTECTED_PREFIXES = SECRET_PREFIXES @ INTEGRITY_PREFIXES"

definition PROTECTED_SUFFIXES :: "string list" where
  "PROTECTED_SUFFIXES = [''.key'', ''.pem'']"

definition PROTECTED_SUBSTR :: "string list" where
  "PROTECTED_SUBSTR = [''/.ssh/'', ''agent.db'']"

definition DATA_ROOT :: string where
  "DATA_ROOT = ''/DATA''"

section \<open>The command that really runs\<close>

definition cmd_name :: "segment \<Rightarrow> string" where
  "cmd_name seg = (case argv seg of [] \<Rightarrow> [] | a # _ \<Rightarrow> basename a)"

text \<open>\<open>_ENV_ASSIGN_RE\<close>: an identifier followed by an equals sign.\<close>

definition is_env_assign :: "string \<Rightarrow> bool" where
  "is_env_assign a \<longleftrightarrow> (case a of [] \<Rightarrow> False
     | c # cs \<Rightarrow> re_ident_char c \<and> \<not> ascii_digit c \<and>
         startswith (dropWhile re_ident_char cs) ''='')"

text \<open>The loop of \<open>_effective_argv\<close>, which the source bounds by 8 rounds.\<close>

fun effective_loop :: "nat \<Rightarrow> string list \<Rightarrow> string list" where
  "effective_loop 0 a = a"
| "effective_loop (Suc n) a =
     (let stripped = dropWhile is_env_assign a in
      if length stripped < length a then effective_loop n stripped
      else case a of
        [] \<Rightarrow> a
      | x # rest \<Rightarrow>
          if basename x \<in> set EXEC_WRAPPERS then
            (let r = dropWhile (\<lambda>t. startswith t ''-'') rest;
                 inner = (if basename x \<in> set WRAPPERS_WITH_OPERAND then drop 1 r else r)
             in if inner = [] then a else effective_loop n inner)
          else a)"

definition effective_argv :: "string list \<Rightarrow> string list" where
  "effective_argv a = effective_loop 8 a"

definition effective_seg :: "segment \<Rightarrow> segment" where
  "effective_seg seg = \<lparr>argv = effective_argv (argv seg),
     redirect_targets = redirect_targets seg, read_targets = read_targets seg\<rparr>"

definition is_trusted_argv0 :: "string \<Rightarrow> bool" where
  "is_trusted_argv0 arg0 \<longleftrightarrow>
     CHR ''/'' \<notin> set arg0 \<or> (\<exists>d\<in>set TRUSTED_BIN_DIRS. startswith arg0 d)"

section \<open>Dangerous patterns\<close>

text \<open>\<open>\<backslash>w\<close> of Python's \<open>re\<close> on code points below 256.\<close>

definition re_word_char :: "char \<Rightarrow> bool" where
  "re_word_char c \<longleftrightarrow> re_ident_char c \<or>
     (let n = (of_char c :: nat) in n \<in> set [170, 178, 179, 181, 185, 186, 188, 189, 190]
        \<or> 192 \<le> n \<and> n \<noteq> 215 \<and> n \<noteq> 247)"

text \<open>\<open>re.search(r"\<backslash>bW\<backslash>b", s)\<close> for a word of word characters; the first argument is the character before.\<close>

fun has_word :: "string \<Rightarrow> char option \<Rightarrow> string \<Rightarrow> bool" where
  "has_word w prev [] = False"
| "has_word w prev (c # cs) =
     ((case prev of None \<Rightarrow> True | Some p \<Rightarrow> \<not> re_word_char p) \<and> startswith (c # cs) w \<and>
        (case drop (length w) (c # cs) of [] \<Rightarrow> True | x # _ \<Rightarrow> \<not> re_word_char x)
      \<or> has_word w (Some c) cs)"

definition flag_chars :: "segment \<Rightarrow> string" where
  "flag_chars seg = concat (map (lstrip_of (\<lambda>c. c = CHR ''-''))
     (filter (\<lambda>a. startswith a ''-'') (drop 1 (argv seg))))"

definition is_dangerous_seg :: "segment \<Rightarrow> segment list \<Rightarrow> nat \<Rightarrow> string option" where
  "is_dangerous_seg seg all_segs idx =
     (let name = cmd_name seg; fc = flag_chars seg; args = drop 1 (argv seg) in
      if name = ''rm'' \<and> (CHR ''r'' \<in> set (py_lower fc) \<or> CHR ''f'' \<in> set (py_lower fc))
        then Some ''recursive/forced remove''
      else if name = ''find'' \<and> ''-delete'' \<in> set (argv seg) then Some ''find -delete''
      else if name \<in> set DISK_CMDS \<or> startswith name ''mkfs''
        then Some (''disk/format command: '' @ name)
      else if name \<in> set [''chmod'', ''chown''] \<and> CHR ''R'' \<in> set fc then Some (''recursive '' @ name)
      else if name = ''systemctl'' then
        (if \<exists>a\<in>set args. a \<in> set SYSTEMCTL_MUTATE then Some ''systemctl mutating command'' else None)
      else if name \<in> set [''apt'', ''apt-get''] then
        (if \<exists>a\<in>set args. a \<in> set APT_MUTATE then Some (name @ '' mutating command'') else None)
      else if name \<in> set [''yum'', ''dnf''] then
        (if \<exists>a\<in>set args. a \<in> set YUM_MUTATE then Some (name @ '' mutating command'') else None)
      else if name = ''dpkg'' then
        (if \<exists>f\<in>set [''-r'', ''-P'', ''-i'', ''--remove'', ''--purge'', ''--install'']. f \<in> set args
         then Some ''dpkg mutating command'' else None)
      else if name = ''docker'' \<and> (\<exists>x\<in>set [''prune'', ''rm'', ''rmi'']. x \<in> set (argv seg))
        then Some ''docker destructive subcommand''
      else if name \<in> set SHELL_CMDS \<and> idx > 0 \<and>
          cmd_name (all_segs ! (idx - 1)) \<in> set [''curl'', ''wget'', ''fetch'']
        then Some ''pipe remote content to shell''
      else if name \<in> set SHELL_CMDS \<and> ''-c'' \<in> set (argv seg) \<and>
          (has_word ''curl'' None (join_with '' '' (argv seg)) \<or>
           has_word ''wget'' None (join_with '' '' (argv seg)))
        then Some ''shell -c fetching remote content''
      else if contains (concat (argv seg)) '':(){'' then Some ''fork bomb pattern''
      else case List.find (\<lambda>t. startswith t ''/dev/'' \<and> t \<notin> set HARMLESS_DEVS) (redirect_targets seg) of
          Some tgt \<Rightarrow> Some (''redirect to device: '' @ tgt)
        | None \<Rightarrow> None)"

section \<open>Protected paths\<close>

definition seg_reads_only :: "segment \<Rightarrow> bool" where
  "seg_reads_only eff = (case argv eff of [] \<Rightarrow> False
     | a0 # args \<Rightarrow>
         (let name = cmd_name eff in
          name \<in> set READONLY_CMDS \<and> is_trusted_argv0 a0 \<and>
          (name = ''sed'' \<longrightarrow> (\<forall>a\<in>set args.
             \<not> (a = ''--in-place'' \<or> startswith a ''--in-place='') \<and>
             \<not> (startswith a ''-'' \<and> \<not> startswith a ''--'' \<and> CHR ''i'' \<in> set (drop 1 a)))) \<and>
          (name = ''find'' \<longrightarrow> (\<forall>a\<in>set args. a \<notin> set FIND_MUTATING \<and> \<not> startswith a ''-fprint''))))"

type_synonym resolver = "string \<Rightarrow> string option"

definition resolve :: "resolver \<Rightarrow> string option \<Rightarrow> string \<Rightarrow> string" where
  "resolve realpath cwd p =
     (let q = (case cwd of Some d \<Rightarrow> if d \<noteq> [] \<and> \<not> isabs p then path_join d p else p | None \<Rightarrow> p)
      in case realpath q of Some r \<Rightarrow> r | None \<Rightarrow> q)"

definition has_prefix_of :: "string list \<Rightarrow> string \<Rightarrow> bool" where
  "has_prefix_of pres rp \<longleftrightarrow> (\<exists>pre\<in>set pres. rp = pre \<or> startswith rp (pre @ ''/''))"

definition is_protected_path :: "resolver \<Rightarrow> string option \<Rightarrow> string \<Rightarrow> bool" where
  "is_protected_path realpath cwd raw =
     (let rp = resolve realpath cwd raw in
      has_prefix_of PROTECTED_PREFIXES rp \<or> (\<exists>s\<in>set PROTECTED_SUFFIXES. endswith rp s) \<or>
      (\<exists>s\<in>set PROTECTED_SUBSTR. contains rp s))"

definition is_secret_path :: "resolver \<Rightarrow> string option \<Rightarrow> string \<Rightarrow> bool" where
  "is_secret_path realpath cwd raw =
     (let rp = resolve realpath cwd raw in
      has_prefix_of SECRET_PREFIXES rp \<or> (\<exists>s\<in>set PROTECTED_SUFFIXES. endswith rp s) \<or>
      (\<exists>s\<in>set PROTECTED_SUBSTR. contains rp s))"

definition is_data_mass :: "resolver \<Rightarrow> string option \<Rightarrow> string \<Rightarrow> bool" where
  "is_data_mass realpath cwd raw \<longleftrightarrow>
     CHR ''*'' \<in> set raw \<and> (raw = ''/DATA/*'' \<or> startswith raw ''/DATA/'') \<or>
     resolve realpath cwd (strip_slash raw) = DATA_ROOT"

definition is_destructive :: "segment \<Rightarrow> bool" where
  "is_destructive seg \<longleftrightarrow> cmd_name seg \<in> set [''rm'', ''shred''] \<or>
     cmd_name seg = ''find'' \<and> ''-delete'' \<in> set (argv seg)"

section \<open>Classification\<close>

definition repr_list :: "string list \<Rightarrow> string" where
  "repr_list xs = repr_val (PList (map PStr xs))"

definition classify_seg :: "resolver \<Rightarrow> string option \<Rightarrow> segment \<Rightarrow> segment list \<Rightarrow> nat \<Rightarrow> decision" where
  "classify_seg realpath cwd seg all_segs idx =
     (let eff = effective_seg seg;
          name = cmd_name eff;
          paths = extract_paths eff;
          danger = is_dangerous_seg eff all_segs idx;
          sensitive = filter (is_protected_path realpath cwd) paths in
      if sensitive \<noteq> [] then
        (if (\<exists>p\<in>set sensitive. is_secret_path realpath cwd p)
            \<or> (\<exists>t\<in>set (redirect_targets seg). is_protected_path realpath cwd t)
            \<or> danger \<noteq> None \<or> \<not> seg_reads_only eff
         then \<lparr>dlevel = Protected, dreason = ''touches protected path(s): '' @ repr_list sensitive,
               dpaths = sensitive\<rparr>
         else \<lparr>dlevel = Gray, dreason = ''read-only access to protected path(s): '' @ repr_list sensitive,
               dpaths = sensitive\<rparr>)
      else let mass = (if is_destructive eff then filter (is_data_mass realpath cwd) paths else []) in
        if mass \<noteq> [] then \<lparr>dlevel = Protected, dreason = ''mass delete under /DATA: '' @ repr_list mass,
               dpaths = mass\<rparr>
        else case danger of
          Some d \<Rightarrow> \<lparr>dlevel = Dangerous, dreason = d, dpaths = paths\<rparr>
        | None \<Rightarrow>
            (let has_write = (\<exists>t\<in>set (redirect_targets seg). t \<notin> set HARMLESS_DEVS);
                 arg0 = (case argv eff of [] \<Rightarrow> [] | a # _ \<Rightarrow> a) in
             if name \<in> set SAFE_CMDS \<and> \<not> has_write \<and> is_trusted_argv0 arg0 then safe_decision
             else if name = ''git'' \<and> length (argv eff) > 1 \<and> argv eff ! 1 \<in> set SAFE_GIT_SUB
                 \<and> \<not> has_write \<and> is_trusted_argv0 arg0 then safe_decision
             else \<lparr>dlevel = Gray, dreason = ''unclassified command: '' @
                     (if name \<noteq> [] then name else ''(redirect)''), dpaths = paths\<rparr>))"

definition add_new :: "'a list \<Rightarrow> 'a list \<Rightarrow> 'a list" where
  "add_new acc xs = foldl (\<lambda>a p. if p \<in> set a then a else a @ [p]) acc xs"

definition classify :: "resolver \<Rightarrow> string option \<Rightarrow> string \<Rightarrow> decision" where
  "classify realpath cwd command = (case segments command of
     None \<Rightarrow> \<lparr>dlevel = Gray, dreason = ''command could not be parsed (obfuscation/substitution)'',
              dpaths = []\<rparr>
   | Some [] \<Rightarrow> safe_decision
   | Some segs \<Rightarrow>
       (let result = foldl worse safe_decision
              (map (\<lambda>(idx, seg). classify_seg realpath cwd seg segs idx) (enumerate 0 segs));
            all_paths = foldl (\<lambda>acc seg. add_new acc (extract_paths seg)) [] segs
        in if dlevel result \<noteq> Safe then result\<lparr>dpaths := all_paths\<rparr> else result))"

section \<open>The worst segment wins\<close>

interpretation decisions: worst_of "\<lambda>d. level_rank (dlevel d)" worse
  by unfold_locales (simp add: worse_def)

definition seg_decisions :: "resolver \<Rightarrow> string option \<Rightarrow> segment list \<Rightarrow> decision list" where
  "seg_decisions realpath cwd segs =
     map (\<lambda>(idx, seg). classify_seg realpath cwd seg segs idx) (enumerate 0 segs)"

lemma classify_parsed:
  assumes "segments command = Some segs"
  shows "dlevel (classify realpath cwd command) =
    dlevel (foldl worse safe_decision (seg_decisions realpath cwd segs))"
  using assms by (cases segs) (simp_all add: classify_def seg_decisions_def safe_decision_def Let_def)

lemma classify_ge_seg:
  assumes "segments command = Some segs" "i < length segs"
  shows "dlevel (classify_seg realpath cwd (segs ! i) segs i) \<le> dlevel (classify realpath cwd command)"
proof -
  have "(i, segs ! i) \<in> set (enumerate 0 segs)"
    using assms(2) by (simp add: in_set_enumerate_eq)
  then have "classify_seg realpath cwd (segs ! i) segs i \<in> set (seg_decisions realpath cwd segs)"
    by (force simp: seg_decisions_def)
  then show ?thesis
    unfolding classify_parsed [OF assms(1)] less_eq_level_def by (rule decisions.foldl_ge_mem)
qed

lemma classify_attained:
  assumes "segments command = Some segs" "dlevel (classify realpath cwd command) \<noteq> Safe"
  shows "\<exists>i<length segs. dlevel (classify realpath cwd command) = dlevel (classify_seg realpath cwd (segs ! i) segs i)"
proof -
  let ?ds = "seg_decisions realpath cwd segs"
  have "foldl worse safe_decision ?ds \<in> insert safe_decision (set ?ds)"
    by (rule decisions.foldl_mem)
  moreover have "foldl worse safe_decision ?ds \<noteq> safe_decision"
    using assms by (auto simp: classify_parsed [OF assms(1)] safe_decision_def)
  ultimately have "foldl worse safe_decision ?ds \<in> set ?ds" by blast
  then obtain i where "i < length segs"
    "foldl worse safe_decision ?ds = classify_seg realpath cwd (segs ! i) segs i"
    by (auto simp: seg_decisions_def in_set_enumerate_eq)
  then show ?thesis by (auto simp: classify_parsed [OF assms(1)])
qed

section \<open>Segment verdicts\<close>

text \<open>What a safe verdict on one segment rests on.\<close>

definition safe_shape :: "resolver \<Rightarrow> string option \<Rightarrow> segment \<Rightarrow> bool" where
  "safe_shape realpath cwd seg =
     (let eff = effective_seg seg in
      (cmd_name eff \<in> set SAFE_CMDS \<or>
         cmd_name eff = ''git'' \<and> length (argv eff) > 1 \<and> argv eff ! 1 \<in> set SAFE_GIT_SUB)
      \<and> argv eff \<noteq> [] \<and> is_trusted_argv0 (hd (argv eff))
      \<and> set (redirect_targets seg) \<subseteq> set HARMLESS_DEVS
      \<and> (\<forall>p\<in>set (extract_paths eff). \<not> is_protected_path realpath cwd p))"

lemma cmd_name_Nil: "argv s = [] \<Longrightarrow> cmd_name s = []"
  by (simp add: cmd_name_def)

lemma safe_cmds_nonempty: "[] \<notin> set SAFE_CMDS"
  by (simp add: SAFE_CMDS_def)

lemma classify_seg_safe:
  assumes "dlevel (classify_seg realpath cwd seg segs i) = Safe"
  shows "safe_shape realpath cwd seg"
proof -
  let ?eff = "effective_seg seg"
  have ne: "argv ?eff \<noteq> []" if "cmd_name ?eff \<noteq> []" using that cmd_name_Nil by blast
  have sens: "filter (is_protected_path realpath cwd) (extract_paths ?eff) = []"
    using assms by (auto simp: classify_seg_def Let_def split: if_splits)
  have "(cmd_name ?eff \<in> set SAFE_CMDS \<or> cmd_name ?eff = ''git'' \<and> length (argv ?eff) > 1 \<and>
      argv ?eff ! 1 \<in> set SAFE_GIT_SUB) \<and>
      \<not> (\<exists>t\<in>set (redirect_targets seg). t \<notin> set HARMLESS_DEVS) \<and>
      is_trusted_argv0 (case argv ?eff of [] \<Rightarrow> [] | a # _ \<Rightarrow> a)"
    using assms sens by (auto simp: classify_seg_def Let_def split: if_splits option.splits)
  moreover from this have "cmd_name ?eff \<noteq> []" using safe_cmds_nonempty by auto
  then have "argv ?eff \<noteq> []" by (rule ne)
  ultimately show ?thesis
    using sens by (auto simp: safe_shape_def Let_def filter_empty_conv neq_Nil_conv)
qed

lemma secret_is_protected: "is_secret_path realpath cwd p \<Longrightarrow> is_protected_path realpath cwd p"
  by (auto simp: is_secret_path_def is_protected_path_def Let_def has_prefix_of_def PROTECTED_PREFIXES_def)

lemma classify_seg_secret:
  assumes "p \<in> set (extract_paths (effective_seg seg))" "is_secret_path realpath cwd p"
  shows "dlevel (classify_seg realpath cwd seg segs i) = Protected"
proof -
  have "p \<in> set (filter (is_protected_path realpath cwd) (extract_paths (effective_seg seg)))"
    using assms secret_is_protected by auto
  then show ?thesis
    using assms(2) by (auto simp: classify_seg_def Let_def filter_empty_conv)
qed

lemma classify_seg_write_protected:
  assumes "t \<in> set (redirect_targets seg)" "is_protected_path realpath cwd t"
  shows "dlevel (classify_seg realpath cwd seg segs i) = Protected"
proof -
  have "t \<in> set (extract_paths (effective_seg seg))"
    using assms(1) by (simp add: extract_paths_def effective_seg_def)
  then show ?thesis using assms by (auto simp: classify_seg_def Let_def filter_empty_conv)
qed

lemma classify_seg_danger:
  "is_dangerous_seg (effective_seg seg) segs i \<noteq> None \<Longrightarrow>
   Dangerous \<le> dlevel (classify_seg realpath cwd seg segs i)"
  by (auto simp: classify_seg_def Let_def less_eq_level_def split: if_splits)

section \<open>Unwrapping\<close>

text \<open>One round of the loop; \<open>None\<close> when the round leaves the loop.\<close>

definition unwrap_inner :: "string \<Rightarrow> string list \<Rightarrow> string list" where
  "unwrap_inner x rest = (let r = dropWhile (\<lambda>t. startswith t ''-'') rest
     in if basename x \<in> set WRAPPERS_WITH_OPERAND then drop 1 r else r)"

definition unwrap_once :: "string list \<Rightarrow> string list option" where
  "unwrap_once a =
     (if length (dropWhile is_env_assign a) < length a then Some (dropWhile is_env_assign a)
      else case a of [] \<Rightarrow> None
      | x # rest \<Rightarrow> if basename x \<in> set EXEC_WRAPPERS \<and> unwrap_inner x rest \<noteq> []
                    then Some (unwrap_inner x rest) else None)"

text \<open>A command line that no round changes any more.\<close>

definition unwrapped :: "string list \<Rightarrow> bool" where
  "unwrapped a \<longleftrightarrow> unwrap_once a = None"

lemma effective_loop_once:
  "effective_loop (Suc n) a = (case unwrap_once a of None \<Rightarrow> a | Some b \<Rightarrow> effective_loop n b)"
  by (cases a) (simp_all add: unwrap_once_def unwrap_inner_def Let_def)

lemma suffix_unwrap_inner: "suffix (unwrap_inner x rest) rest"
  by (auto simp: unwrap_inner_def Let_def intro: suffix_drop suffix_dropWhile suffix_order.trans)

lemma unwrap_once_shorter:
  assumes "unwrap_once a = Some b"
  shows "suffix b a" "length b < length a"
proof -
  have inner: "suffix (unwrap_inner x rest) (x # rest) \<and> length (unwrap_inner x rest) < length (x # rest)"
    for x rest
    using suffix_unwrap_inner [of x rest] by (auto intro: suffix_ConsI dest: suffix_length_le)
  with assms show "suffix b a" "length b < length a"
    by (auto simp: unwrap_once_def suffix_dropWhile split: if_splits list.splits)
qed

lemma effective_loop_suffix: "suffix (effective_loop n a) a"
proof (induction n arbitrary: a)
  case (Suc n)
  show ?case
  proof (cases "unwrap_once a")
    case (Some b)
    with Suc [of b] unwrap_once_shorter(1) [OF Some] show ?thesis
      by (simp add: effective_loop_once del: effective_loop.simps)
  qed (simp add: effective_loop_once del: effective_loop.simps)
qed simp

lemma effective_loop_stable: "length a \<le> n \<Longrightarrow> unwrapped (effective_loop n a)"
proof (induction n arbitrary: a)
  case 0
  then show ?case by (simp add: unwrapped_def unwrap_once_def)
next
  case (Suc n)
  show ?case
  proof (cases "unwrap_once a")
    case (Some b)
    with Suc unwrap_once_shorter(2) [OF Some] show ?thesis
      by (simp add: effective_loop_once del: effective_loop.simps)
  qed (simp add: effective_loop_once unwrapped_def del: effective_loop.simps)
qed

section \<open>Properties\<close>

text \<open>
  The verdict on a command is the worst verdict on its segments: no segment is worse, and
  unless the verdict is ``safe'' some segment has exactly that level. A command that cannot be
  parsed is never safe.
\<close>

theorem classify_worst:
  shows "(\<forall>segs. segments command = Some segs \<longrightarrow>
      (\<forall>i<length segs. dlevel (classify_seg realpath cwd (segs ! i) segs i) \<le> dlevel (classify realpath cwd command)) \<and>
      (dlevel (classify realpath cwd command) \<noteq> Safe \<longrightarrow>
        (\<exists>i<length segs. dlevel (classify realpath cwd command) = dlevel (classify_seg realpath cwd (segs ! i) segs i)))) \<and>
    (segments command = None \<longrightarrow> dlevel (classify realpath cwd command) = Gray)"
  using classify_ge_seg classify_attained by (simp add: classify_def)

theorem classify_worst_witness:
  "dlevel (classify Some None ''ls; rm -rf /DATA/x'') = Dangerous \<and>
   (\<exists>segs. segments ''ls; rm -rf /DATA/x'' = Some segs \<and>
      (\<exists>i<length segs. Dangerous = dlevel (classify_seg Some None (segs ! i) segs i)))"
proof -
  have d: "dlevel (classify Some None ''ls; rm -rf /DATA/x'') = Dangerous" by code_simp
  then obtain segs where s: "segments ''ls; rm -rf /DATA/x'' = Some segs"
    by (cases "segments ''ls; rm -rf /DATA/x''") (simp_all add: classify_def)
  with d classify_worst [of "''ls; rm -rf /DATA/x''" Some None] show ?thesis by auto
qed





text \<open>
  Unwrapping: the effective command line is what remains of the command line after a number
  of leading words; for command lines of at most eight words no environment assignment and no
  exec wrapper in front of another command is left, so the bound on the loop is not felt.
\<close>

theorem effective_argv_unwrapped:
  "suffix (effective_argv a) a \<and> (length a \<le> 8 \<longrightarrow> unwrapped (effective_argv a))"
  unfolding effective_argv_def using effective_loop_suffix effective_loop_stable by blast

theorem effective_argv_unwrapped_witness:
  "effective_argv [''A=1'', ''sudo'', ''-n'', ''timeout'', ''5'', ''rm'', ''x''] = [''rm'', ''x''] \<and>
   unwrapped (effective_argv [''A=1'', ''sudo'', ''-n'', ''timeout'', ''5'', ''rm'', ''x''])"
proof
  show "effective_argv [''A=1'', ''sudo'', ''-n'', ''timeout'', ''5'', ''rm'', ''x''] = [''rm'', ''x'']"
    by code_simp
  show "unwrapped (effective_argv [''A=1'', ''sudo'', ''-n'', ''timeout'', ''5'', ''rm'', ''x''])"
    using effective_argv_unwrapped [of "[''A=1'', ''sudo'', ''-n'', ''timeout'', ''5'', ''rm'', ''x'']"] by simp
qed

end
