(* ===== verification/Run_Gate.thy ===== *)
theory Run_Gate
  imports Shell_Rules
begin

text \<open>
  The three pre-authorisations of a shell command: the persistent allowlist
  (\<open>agent/shell_guard/allowlist.py\<close>), the run-scoped prefix rules and the run-scoped script rules
  of a scheduled task (\<open>agent/skills/shell.py\<close>, with \<open>shell_match\<close> of \<open>agent/tasks/preauth.py\<close>).
  The context variables that hold the run's rules are arguments. The regular-expression engine
  that a \<open>regex\<close> allowlist entry is matched with is a parameter \<open>fullmatch\<close> (\<open>None\<close>: the pattern
  does not compile).
\<close>

section \<open>The persistent allowlist\<close>

record allow_entry =
  ae_id :: string
  ae_match_type :: string
  ae_value :: string
  ae_created_by :: string
  ae_note :: string
  ae_created_at :: int

datatype allow_error = BadMatchType string

text \<open>The table is the list of its rows in insertion order; the row id and the clock are arguments.\<close>

definition allowlist_add ::
  "allow_entry list \<Rightarrow> string \<Rightarrow> int \<Rightarrow> string \<Rightarrow> string \<Rightarrow> string \<Rightarrow> string \<Rightarrow>
   allow_error + (string \<times> allow_entry list)" where
  "allowlist_add rows entry_id now match_type value created_by note =
     (if match_type \<notin> set [''prefix'', ''regex'', ''path_scope''] then Inl (BadMatchType match_type)
      else Inr (entry_id, rows @ [\<lparr>ae_id = entry_id, ae_match_type = match_type, ae_value = value,
             ae_created_by = created_by, ae_note = note, ae_created_at = now\<rparr>]))"

definition list_entries :: "allow_entry list \<Rightarrow> allow_entry list" where
  "list_entries rows = sort_key (\<lambda>e. - ae_created_at e) rows"

definition allowlist_delete :: "allow_entry list \<Rightarrow> string \<Rightarrow> bool \<times> allow_entry list" where
  "allowlist_delete rows entry_id =
     (\<exists>e\<in>set rows. ae_id e = entry_id, filter (\<lambda>e. ae_id e \<noteq> entry_id) rows)"

text \<open>\<open>any\<close> and \<open>all\<close> over a test that may raise (\<open>None\<close>); both stop at the first decisive element.\<close>

fun any_m :: "('a \<Rightarrow> bool option) \<Rightarrow> 'a list \<Rightarrow> bool option" where
  "any_m f [] = Some False"
| "any_m f (x # xs) = (case f x of None \<Rightarrow> None | Some True \<Rightarrow> Some True | Some False \<Rightarrow> any_m f xs)"

fun all_m :: "('a \<Rightarrow> bool option) \<Rightarrow> 'a list \<Rightarrow> bool option" where
  "all_m f [] = Some True"
| "all_m f (x # xs) = (case f x of None \<Rightarrow> None | Some False \<Rightarrow> Some False | Some True \<Rightarrow> all_m f xs)"

type_synonym re_engine = "string \<Rightarrow> string \<Rightarrow> bool option"

definition entry_matches ::
  "resolver \<Rightarrow> re_engine \<Rightarrow> string \<Rightarrow> segment \<Rightarrow> string \<Rightarrow> string \<Rightarrow> bool option" where
  "entry_matches realpath fullmatch command seg match_type value =
     (if match_type \<in> set [''prefix'', ''regex''] \<and>
         (\<exists>p\<in>set (extract_paths seg). is_protected_path realpath None p) then Some False
      else if match_type = ''prefix'' then Some (startswith (py_strip command) value)
      else if match_type = ''regex'' then
        (case fullmatch value command of None \<Rightarrow> Some False | Some b \<Rightarrow> Some b)
      else if match_type = ''path_scope'' then
        (case realpath value of None \<Rightarrow> None
         | Some scope \<Rightarrow>
             if extract_paths seg = [] then Some False
             else all_m (\<lambda>p. map_option (\<lambda>r. r = scope \<or> startswith r (scope @ ''/'')) (realpath p))
                    (extract_paths seg))
      else Some False)"

definition allowlist_match ::
  "resolver \<Rightarrow> re_engine \<Rightarrow> allow_entry list \<Rightarrow> string \<Rightarrow> bool option" where
  "allowlist_match realpath fullmatch rows command =
     (case segments command of
        Some [seg] \<Rightarrow>
          if redirect_targets seg \<noteq> [] \<or> read_targets seg \<noteq> [] then Some False
          else any_m (\<lambda>r. entry_matches realpath fullmatch command seg (ae_match_type r) (ae_value r)) rows
      | _ \<Rightarrow> Some False)"

section \<open>Run-scoped rules\<close>

definition MAX_RULES :: nat where
  "MAX_RULES = 64"

definition shell_match :: "pyval list \<Rightarrow> string \<Rightarrow> bool" where
  "shell_match rules command \<longleftrightarrow>
     (\<exists>rule\<in>set (take MAX_RULES rules). case rule of
        PDict r \<Rightarrow> pget r ''kind'' = PStr ''prefix'' \<and>
          (case pget r ''value'' of PStr v \<Rightarrow> v \<noteq> [] \<and> startswith command v | _ \<Rightarrow> False)
      | _ \<Rightarrow> False)"

definition SHELL_META_CHARS :: string where
  "SHELL_META_CHARS = '';|&`()<>'' @ [CHR 0x0A, CHR 0x0D]"

definition argv_is_atomic :: "segment \<Rightarrow> bool" where
  "argv_is_atomic seg \<longleftrightarrow>
     \<not> (\<exists>tok\<in>set (argv seg). contains tok ''$('' \<or> (\<exists>ch\<in>set SHELL_META_CHARS. ch \<in> set tok))"

definition RUN_INTERPRETERS :: "string list" where
  "RUN_INTERPRETERS = [''sh'', ''bash'', ''zsh'', ''dash'', ''ash'', ''ksh'', ''busybox'',
     ''python'', ''python2'', ''python3'', ''perl'', ''ruby'', ''php'', ''lua'',
     ''node'', ''nodejs'', ''deno'', ''bun'', ''awk'', ''gawk'', ''mawk'',
     ''pwsh'', ''powershell'', ''tclsh'', ''expect'', ''Rscript'', ''osascript'',
     ''xargs'', ''make'', ''systemd-run'', ''ansible-playbook'']"

definition RUN_EXEC_FLAGS :: "string list" where
  "RUN_EXEC_FLAGS = [''-exec'', ''-execdir'', ''-ok'', ''-okdir'']"

definition SCRIPT_INTERPRETERS :: "string list" where
  "SCRIPT_INTERPRETERS = [''sh'', ''bash'', ''zsh'', ''dash'', ''ash'', ''ksh'',
     ''python'', ''python2'', ''python3'', ''perl'', ''ruby'', ''php'', ''lua'',
     ''node'', ''nodejs'', ''deno'', ''bun'', ''Rscript'', ''osascript'']"

text \<open>The script path when the command is exactly an interpreter and an absolute path, else empty.\<close>

definition script_run_target :: "string \<Rightarrow> string" where
  "script_run_target command =
     (if py_strip command = [] then []
      else case segments command of
        Some [seg] \<Rightarrow>
          if redirect_targets seg \<noteq> [] \<or> read_targets seg \<noteq> [] then []
          else (case argv seg of
              [a, b] \<Rightarrow> if basename a \<in> set SCRIPT_INTERPRETERS \<and> startswith b ''/'' then b else []
            | _ \<Rightarrow> [])
      | _ \<Rightarrow> [])"

definition run_script_match :: "pyval list \<Rightarrow> string \<Rightarrow> decision \<Rightarrow> bool" where
  "run_script_match scripts command d \<longleftrightarrow>
     scripts \<noteq> [] \<and> dlevel d \<noteq> Protected \<and>
     (let script = script_run_target command in script \<noteq> [] \<and> PStr script \<in> set scripts)"

definition run_scripts_would_cover :: "resolver \<Rightarrow> string option \<Rightarrow> string \<Rightarrow> pyval list \<Rightarrow> bool" where
  "run_scripts_would_cover realpath cwd command scripts =
     (if py_strip command = [] then False
      else let d = classify realpath cwd command in
        if dlevel d = Safe then True else run_script_match scripts command d)"

definition run_allowlist_match :: "pyval list \<Rightarrow> string \<Rightarrow> decision \<Rightarrow> bool" where
  "run_allowlist_match rules command d \<longleftrightarrow>
     rules \<noteq> [] \<and> dlevel d \<noteq> Protected \<and>
     (case segments command of
        Some [seg] \<Rightarrow>
          redirect_targets seg = [] \<and> read_targets seg = [] \<and>
          (let raw_argv = argv seg; eff = effective_argv raw_argv in
           eff \<noteq> [] \<and>
           (let scan = hd raw_argv # filter (\<lambda>tok. \<not> contains tok ''://'') (tl raw_argv) in
            \<not> (\<exists>tok\<in>set scan. basename tok \<in> set RUN_INTERPRETERS) \<and>
            \<not> (\<exists>tok\<in>set (tl eff). tok \<in> set RUN_EXEC_FLAGS) \<and>
            shell_match rules command))
      | _ \<Rightarrow> False)"

definition run_allowlist_would_cover :: "resolver \<Rightarrow> string option \<Rightarrow> string \<Rightarrow> pyval list \<Rightarrow> bool" where
  "run_allowlist_would_cover realpath cwd command rules =
     (if py_strip command = [] then False
      else let d = classify realpath cwd command in
        if dlevel d = Safe then True else run_allowlist_match rules command d)"

section \<open>What the pre-authorisations share\<close>

lemma any_m_True: "any_m f xs = Some True \<Longrightarrow> \<exists>x\<in>set xs. f x = Some True"
  by (induction xs) (auto split: option.splits bool.splits)

lemma all_m_True: "all_m f xs = Some True \<longleftrightarrow> (\<forall>x\<in>set xs. f x = Some True)"
  by (induction xs) (auto split: option.splits bool.splits)

text \<open>
  The shape every waiver insists on: the command parses to exactly one segment, without
  redirections.
\<close>

definition single_simple :: "string \<Rightarrow> segment \<Rightarrow> bool" where
  "single_simple command seg \<longleftrightarrow>
     segments command = Some [seg] \<and> redirect_targets seg = [] \<and> read_targets seg = []"

locale command_waiver =
  fixes waived :: "string \<Rightarrow> decision \<Rightarrow> bool"
  assumes one_segment: "waived command d \<Longrightarrow> \<exists>seg. single_simple command seg"
    and not_protected: "waived command d \<Longrightarrow> dlevel d \<noteq> Protected"
begin

lemma no_redirect: "waived command d \<Longrightarrow> segments command = Some segs \<Longrightarrow> s \<in> set segs \<Longrightarrow>
  redirect_targets s = [] \<and> read_targets s = []"
  using one_segment by (fastforce simp: single_simple_def)

lemma parses: "waived command d \<Longrightarrow> segments command \<noteq> None"
  using one_segment by (fastforce simp: single_simple_def)

text \<open>A waived command is not one that touches a secret or writes a protected path.\<close>

lemma not_secret:
  assumes "waived command (classify realpath cwd command)" "segments command = Some [seg]"
    and "p \<in> set (extract_paths (effective_seg seg))"
  shows "\<not> is_secret_path realpath cwd p"
proof
  assume "is_secret_path realpath cwd p"
  with assms(3) have "dlevel (classify_seg realpath cwd seg [seg] 0) = Protected"
    by (rule classify_seg_secret)
  with classify_ge_seg [OF assms(2), of 0 realpath cwd]
  have "Protected \<le> dlevel (classify realpath cwd command)" by simp
  then have "dlevel (classify realpath cwd command) = Protected"
    by (cases "dlevel (classify realpath cwd command)") (auto simp: less_eq_level_def)
  with assms(1) not_protected show False by blast
qed

end

lemma list_singleE: "(case xs of Some [x] \<Rightarrow> P x | _ \<Rightarrow> False) \<Longrightarrow> (\<And>x. xs = Some [x] \<Longrightarrow> P x \<Longrightarrow> R) \<Longrightarrow> R"
  by (auto split: option.splits list.splits)

interpretation run_rules: command_waiver "run_allowlist_match rules"
  by unfold_locales
     (auto simp: run_allowlist_match_def single_simple_def Let_def elim!: list_singleE)

lemma script_run_target_shape:
  assumes "script_run_target command = t" "t \<noteq> []"
  shows "\<exists>seg a. single_simple command seg \<and> argv seg = [a, t] \<and>
    basename a \<in> set SCRIPT_INTERPRETERS \<and> startswith t ''/''"
  using assms
  by (auto simp: script_run_target_def single_simple_def split: if_splits option.splits list.splits)

interpretation run_scripts: command_waiver "run_script_match scripts"
  by unfold_locales (auto simp: run_script_match_def Let_def dest: script_run_target_shape [OF refl])

lemma shell_match_prefix:
  "shell_match rules command \<Longrightarrow> \<exists>r v. PDict r \<in> set rules \<and> pget r ''kind'' = PStr ''prefix'' \<and>
     pget r ''value'' = PStr v \<and> v \<noteq> [] \<and> startswith command v"
proof -
  assume "shell_match rules command"
  then obtain rule where rule: "rule \<in> set (take MAX_RULES rules)"
    and m: "case rule of PDict r \<Rightarrow> pget r ''kind'' = PStr ''prefix'' \<and>
        (case pget r ''value'' of PStr v \<Rightarrow> v \<noteq> [] \<and> startswith command v | _ \<Rightarrow> False)
      | _ \<Rightarrow> False"
    unfolding shell_match_def by blast
  from m obtain r where r: "rule = PDict r" "pget r ''kind'' = PStr ''prefix''"
    and v: "case pget r ''value'' of PStr v \<Rightarrow> v \<noteq> [] \<and> startswith command v | _ \<Rightarrow> False"
    by (cases rule) auto
  from v obtain v' where "pget r ''value'' = PStr v'" "v' \<noteq> []" "startswith command v'"
    by (cases "pget r ''value''") auto
  with r rule in_set_takeD show ?thesis by fast
qed

lemma allowlist_match_shape:
  assumes "allowlist_match realpath fullmatch rows command = Some True"
  shows "\<exists>seg e. single_simple command seg \<and> e \<in> set rows \<and>
    entry_matches realpath fullmatch command seg (ae_match_type e) (ae_value e) = Some True"
  using assms
  by (auto simp: allowlist_match_def single_simple_def split: option.splits list.splits if_splits
      dest!: any_m_True)

section \<open>Properties\<close>

text \<open>
  C6. A run-scoped prefix rule lets a command through only when the command is a single segment
  without any redirection, a rule's non-empty prefix really is a prefix of it, neither its
  program nor any later word is an interpreter (words that are URLs apart), no exec flag occurs
  in the effective command line, and, for the verdict \<open>classify\<close> itself gives, none of its paths
  is secret.
\<close>

theorem run_rule_sound:
  assumes "run_allowlist_match rules command (classify realpath cwd command)"
  shows "\<exists>seg r v. single_simple command seg \<and> PDict r \<in> set rules \<and>
    pget r ''value'' = PStr v \<and> v \<noteq> [] \<and> startswith command v \<and>
    basename (hd (argv seg)) \<notin> set RUN_INTERPRETERS \<and>
    (\<forall>tok\<in>set (tl (argv seg)). \<not> contains tok ''://'' \<longrightarrow> basename tok \<notin> set RUN_INTERPRETERS) \<and>
    set (tl (effective_argv (argv seg))) \<inter> set RUN_EXEC_FLAGS = {} \<and>
    (\<forall>p\<in>set (extract_paths (effective_seg seg)). \<not> is_secret_path realpath cwd p)"
proof -
  obtain seg where seg: "single_simple command seg" using run_rules.one_segment [OF assms] by blast
  then have s: "segments command = Some [seg]" by (simp add: single_simple_def)
  have "shell_match rules command" using assms s by (simp add: run_allowlist_match_def Let_def)
  then obtain r v where rv: "PDict r \<in> set rules" "pget r ''value'' = PStr v" "v \<noteq> []" "startswith command v"
    using shell_match_prefix by blast
  have scan: "basename (hd (argv seg)) \<notin> set RUN_INTERPRETERS"
    "\<forall>tok\<in>set (tl (argv seg)). \<not> contains tok ''://'' \<longrightarrow> basename tok \<notin> set RUN_INTERPRETERS"
    "set (tl (effective_argv (argv seg))) \<inter> set RUN_EXEC_FLAGS = {}"
    using assms s by (auto simp: run_allowlist_match_def Let_def)
  have "\<forall>p\<in>set (extract_paths (effective_seg seg)). \<not> is_secret_path realpath cwd p"
    using run_rules.not_secret [OF assms s] by blast
  with seg rv scan show ?thesis by blast
qed

theorem run_rule_sound_witness:
  "\<exists>seg. single_simple ''rsync -a /DATA/a /DATA/b'' seg \<and>
     (\<forall>p\<in>set (extract_paths (effective_seg seg)). \<not> is_secret_path Some None p)"
proof -
  have "run_allowlist_match [PDict [(''kind'', PStr ''prefix''), (''value'', PStr ''rsync -a'')]]
      ''rsync -a /DATA/a /DATA/b'' (classify Some None ''rsync -a /DATA/a /DATA/b'')" by code_simp
  from run_rule_sound [OF this] show ?thesis by blast
qed

text \<open>
  A run-scoped script rule vouches for nothing but an interpreter applied to one of the listed
  scripts, by its exact absolute path and with no further argument, flag or redirection.
\<close>

theorem run_script_exact:
  assumes "run_script_match scripts command d"
  shows "\<exists>seg interp script. single_simple command seg \<and> argv seg = [interp, script] \<and>
    basename interp \<in> set SCRIPT_INTERPRETERS \<and> startswith script ''/'' \<and>
    PStr script \<in> set scripts \<and> dlevel d \<noteq> Protected"
proof -
  from assms have t: "script_run_target command \<noteq> []" "PStr (script_run_target command) \<in> set scripts"
    "dlevel d \<noteq> Protected"
    by (auto simp: run_script_match_def Let_def)
  with script_run_target_shape [OF refl t(1)] show ?thesis by blast
qed

theorem run_script_exact_witness:
  "\<exists>seg interp script. single_simple ''/usr/bin/python3 /DATA/job.py'' seg \<and>
     argv seg = [interp, script] \<and> PStr script \<in> set [PStr ''/DATA/job.py'']"
proof -
  have "run_script_match [PStr ''/DATA/job.py''] ''/usr/bin/python3 /DATA/job.py''
    (classify Some None ''/usr/bin/python3 /DATA/job.py'')" by code_simp
  from run_script_exact [OF this] show ?thesis by blast
qed

text \<open>
  The persistent allowlist vouches only for a single simple command. A prefix or regex entry
  never vouches for one that names a protected path; a path-scope entry vouches only when the
  command names some path and every one of them resolves to the scope or below it.
\<close>

theorem allowlist_sound:
  assumes "allowlist_match realpath fullmatch rows command = Some True"
  shows "\<exists>seg e. single_simple command seg \<and> e \<in> set rows \<and>
    (if ae_match_type e = ''path_scope''
     then \<exists>scope. realpath (ae_value e) = Some scope \<and> extract_paths seg \<noteq> [] \<and>
       (\<forall>p\<in>set (extract_paths seg). \<exists>q. realpath p = Some q \<and> under scope q)
     else ae_match_type e \<in> {''prefix'', ''regex''} \<and>
       (\<forall>p\<in>set (extract_paths seg). \<not> is_protected_path realpath None p))"
proof -
  obtain seg e where seg: "single_simple command seg" "e \<in> set rows"
    and m: "entry_matches realpath fullmatch command seg (ae_match_type e) (ae_value e) = Some True"
    using allowlist_match_shape [OF assms] by blast
  show ?thesis
  proof (cases "ae_match_type e = ''path_scope''")
    case True
    with m have "\<exists>scope. realpath (ae_value e) = Some scope \<and> extract_paths seg \<noteq> [] \<and>
        (\<forall>p\<in>set (extract_paths seg). \<exists>q. realpath p = Some q \<and> under scope q)"
      by (auto simp: entry_matches_def all_m_True under_def split: option.splits if_splits)
    with True seg show ?thesis by auto
  next
    case False
    with m have "ae_match_type e \<in> {''prefix'', ''regex''} \<and>
        (\<forall>p\<in>set (extract_paths seg). \<not> is_protected_path realpath None p)"
      by (auto simp: entry_matches_def split: if_splits)
    with False seg show ?thesis by auto
  qed
qed

theorem allowlist_sound_witness:
  "\<exists>seg. single_simple ''rm /DATA/tmp/a'' seg \<and>
     (\<forall>p\<in>set (extract_paths seg). \<exists>q. Some p = Some q \<and> under ''/DATA/tmp'' q)"
proof -
  let ?e = "\<lparr>ae_id = ''e'', ae_match_type = ''path_scope'', ae_value = ''/DATA/tmp'', ae_created_by = ''u'',
      ae_note = [], ae_created_at = 0\<rparr>"
  have "allowlist_match Some (\<lambda>_ _. None) [?e] ''rm /DATA/tmp/a'' = Some True" by code_simp
  from allowlist_sound [OF this] show ?thesis by auto
qed

end
