(* ===== verification/Confirm.thy ===== *)
theory Confirm
  imports Py_Prelude
begin

text \<open>
  \<open>agent/confirm.py\<close>: the manager that parks a tool on a confirmation until somebody answers. Its
  dictionaries are association lists, a pending confirmation is its session and whether its event
  is set, \<open>db_rows\<close> is the table \<open>pending_confirmations\<close> and \<open>trail\<close> the audit records. The
  coroutine \<open>wait\<close> is modelled by how it ends: its event fires, its timeout passes, or its task is
  cancelled. Fresh identifiers and the clock are arguments.
\<close>

section \<open>State\<close>

definition ELICIT_ACTIONS :: "string list" where
  "ELICIT_ACTIONS = [''accept'', ''decline'', ''cancel'']"

record pend =
  p_session :: string
  p_set :: bool

record confirm_row =
  cr_id :: string
  cr_session :: string
  cr_action :: string
  cr_description :: string
  cr_command :: string
  cr_created_at :: int

record audit_rec =
  ar_session :: string
  ar_confirm :: string
  ar_action :: "string option"
  ar_command :: "string option"
  ar_decision :: string
  ar_remember :: bool
  ar_source :: string

record confirm_mgr =
  pending :: "(string \<times> pend) list"
  results :: "(string \<times> bool) list"
  remembered :: "(string \<times> bool) list"
  actions :: "(string \<times> string) list"
  contents :: "(string \<times> pyval) list"
  db_rows :: "confirm_row list"
  trail :: "audit_rec list"

datatype confirm_error = ConfirmExpired | SessionMismatch | UnknownAction string

definition mgr_init :: confirm_mgr where
  "mgr_init = \<lparr>pending = [], results = [], remembered = [], actions = [], contents = [],
     db_rows = [], trail = []\<rparr>"

section \<open>Operations\<close>

definition register ::
  "confirm_mgr \<Rightarrow> string \<Rightarrow> int \<Rightarrow> string \<Rightarrow> string \<Rightarrow> string \<Rightarrow> string \<Rightarrow> confirm_mgr" where
  "register m cid now sid action description command =
     m\<lparr>pending := dput cid \<lparr>p_session = sid, p_set = False\<rparr> (pending m),
       db_rows := db_rows m @ [\<lparr>cr_id = cid, cr_session = sid, cr_action = action,
         cr_description = description, cr_command = command, cr_created_at = now\<rparr>]\<rparr>"

definition cleanup :: "confirm_mgr \<Rightarrow> string \<Rightarrow> confirm_mgr" where
  "cleanup m cid = m\<lparr>pending := ddel cid (pending m), db_rows := filter (\<lambda>r. cr_id r \<noteq> cid) (db_rows m)\<rparr>"

text \<open>
  Resolution by an answer. The audit record is written unless the audit itself fails
  (\<open>audit_ok\<close>); a failing audit does not stop the resolution.
\<close>

definition resolve ::
  "confirm_mgr \<Rightarrow> bool \<Rightarrow> string \<Rightarrow> bool \<Rightarrow> bool \<Rightarrow> string option \<Rightarrow> string option \<Rightarrow> pyval option
   \<Rightarrow> string \<Rightarrow> confirm_error + confirm_mgr" where
  "resolve m audit_ok cid confirmed remember expected action content source =
     (if action \<noteq> None \<and> the action \<notin> set ELICIT_ACTIONS then Inl (UnknownAction (the action))
      else
     (case map_of (pending m) cid of
        None \<Rightarrow> Inl ConfirmExpired
      | Some p \<Rightarrow>
          if expected \<noteq> None \<and> expected \<noteq> Some (p_session p) then Inl SessionMismatch
          else
            (let row = List.find (\<lambda>r. cr_id r = cid) (db_rows m);
                 m1 = (if audit_ok then m\<lparr>trail := trail m @ [\<lparr>ar_session = p_session p, ar_confirm = cid,
                          ar_action = map_option cr_action row, ar_command = map_option cr_command row,
                          ar_decision = (case action of Some a \<Rightarrow> a
                              | None \<Rightarrow> if confirmed then ''approved'' else ''denied''),
                          ar_remember = remember, ar_source = source\<rparr>]\<rparr> else m);
                 m2 = m1\<lparr>results := dput cid confirmed (results m1)\<rparr>;
                 m3 = (case action of None \<Rightarrow> m2
                       | Some a \<Rightarrow> (case content of
                            None \<Rightarrow> m2\<lparr>actions := dput cid a (actions m2)\<rparr>
                          | Some c \<Rightarrow> m2\<lparr>actions := dput cid a (actions m2),
                                         contents := dput cid c (contents m2)\<rparr>));
                 m4 = (if remember then m3\<lparr>remembered := dput cid True (remembered m3)\<rparr> else m3)
             in Inr (m4\<lparr>pending := dput cid (p\<lparr>p_set := True\<rparr>) (pending m4)\<rparr>))))"

definition session_ids :: "confirm_mgr \<Rightarrow> string \<Rightarrow> string list" where
  "session_ids m sid = map fst (filter (\<lambda>(cid, p). p_session p = sid) (pending m))"

definition cancel_one :: "confirm_mgr \<Rightarrow> string \<Rightarrow> confirm_mgr" where
  "cancel_one m cid = (case map_of (pending m) cid of None \<Rightarrow> m
     | Some p \<Rightarrow> m\<lparr>results := dput cid False (results m),
                   pending := dput cid (p\<lparr>p_set := True\<rparr>) (pending m)\<rparr>)"

definition cancel_session :: "confirm_mgr \<Rightarrow> string \<Rightarrow> nat \<times> confirm_mgr" where
  "cancel_session m sid = (length (session_ids m sid), foldl cancel_one m (session_ids m sid))"

definition consume_remember :: "confirm_mgr \<Rightarrow> string \<Rightarrow> bool \<times> confirm_mgr" where
  "consume_remember m cid = (map_of (remembered m) cid = Some True, m\<lparr>remembered := ddel cid (remembered m)\<rparr>)"

text \<open>How a parked coroutine comes back.\<close>

datatype wake = Fired | TimedOut | Cancelled

text \<open>\<open>wait\<close>: \<open>None\<close> is the \<open>CancelledError\<close> that propagates. \<open>Fired\<close> presupposes that the event is set.\<close>

definition wait :: "confirm_mgr \<Rightarrow> string \<Rightarrow> wake \<Rightarrow> bool option \<times> confirm_mgr" where
  "wait m cid w = (case map_of (pending m) cid of
     None \<Rightarrow> (Some False, m)
   | Some p \<Rightarrow> (case w of
        Fired \<Rightarrow> (Some (map_of (results m) cid = Some True),
                  (cleanup m cid)\<lparr>results := ddel cid (results m)\<rparr>)
      | TimedOut \<Rightarrow> (Some False, cleanup m cid)
      | Cancelled \<Rightarrow> (None, cleanup m cid)))"

definition forget_answer :: "confirm_mgr \<Rightarrow> string \<Rightarrow> confirm_mgr" where
  "forget_answer m cid = m\<lparr>actions := ddel cid (actions m), contents := ddel cid (contents m)\<rparr>"

text \<open>
  \<open>wait_elicit\<close>: an unregistered id is \<open>cancel\<close>; a timeout is what the caller says it is; every path
  that parked forgets the answer. The inner result \<open>None\<close> is the \<open>CancelledError\<close>.
\<close>

definition wait_elicit ::
  "confirm_mgr \<Rightarrow> string \<Rightarrow> string \<Rightarrow> wake \<Rightarrow>
   confirm_error + (string \<times> pyval option) option \<times> confirm_mgr" where
  "wait_elicit m cid on_timeout w =
     (if on_timeout \<notin> set ELICIT_ACTIONS then Inl (UnknownAction on_timeout)
      else case map_of (pending m) cid of
        None \<Rightarrow> Inr (Some (''cancel'', None), m)
      | Some p \<Rightarrow>
          (let m1 = (cleanup m cid)\<lparr>results := ddel cid (results m)\<rparr>;
               ans = (case w of
                   TimedOut \<Rightarrow> Some (on_timeout, None)
                 | Cancelled \<Rightarrow> None
                 | Fired \<Rightarrow> Some (case map_of (actions m) cid of Some a \<Rightarrow> a | None \<Rightarrow> ''cancel'',
                                   map_of (contents m) cid))
           in Inr (ans, forget_answer m1 cid)))"

section \<open>The manager as a state machine\<close>

text \<open>
  One step is one call. A new id has never been used before (\<open>uuid4\<close>); a wait fires only when its
  event is set and times out only when it is not. The parameter says whether auditing works.
\<close>

definition fresh_id :: "confirm_mgr \<Rightarrow> string \<Rightarrow> bool" where
  "fresh_id m cid \<longleftrightarrow> map_of (pending m) cid = None \<and> map_of (results m) cid = None \<and>
     (\<forall>r\<in>set (trail m). ar_confirm r \<noteq> cid)"

inductive confirm_step :: "bool \<Rightarrow> confirm_mgr \<Rightarrow> confirm_mgr \<Rightarrow> bool" for ok where
  reg: "fresh_id m cid \<Longrightarrow> confirm_step ok m (register m cid now sid action description command)"
| ans: "resolve m ok cid confirmed remember expected action content source = Inr m' \<Longrightarrow>
     confirm_step ok m m'"
| stop: "cancel_session m sid = (n, m') \<Longrightarrow> confirm_step ok m m'"
| woken: "map_of (pending m) cid = Some p \<Longrightarrow> p_set p \<Longrightarrow> wait m cid Fired = (r, m') \<Longrightarrow>
     confirm_step ok m m'"
| expired: "map_of (pending m) cid = Some p \<Longrightarrow> \<not> p_set p \<Longrightarrow> wait m cid TimedOut = (r, m') \<Longrightarrow>
     confirm_step ok m m'"
| elicited: "map_of (pending m) cid = Some p \<Longrightarrow> w = Fired \<Longrightarrow> p_set p \<Longrightarrow>
     wait_elicit m cid on_timeout w = Inr (a, m') \<Longrightarrow> confirm_step ok m m'"
| elicit_expired: "map_of (pending m) cid = Some p \<Longrightarrow> \<not> p_set p \<Longrightarrow>
     wait_elicit m cid on_timeout TimedOut = Inr (a, m') \<Longrightarrow> confirm_step ok m m'"
| tick: "consume_remember m cid = (b, m') \<Longrightarrow> confirm_step ok m m'"

inductive confirm_reach :: "bool \<Rightarrow> confirm_mgr \<Rightarrow> bool" for ok where
  start: "confirm_reach ok mgr_init"
| step: "confirm_reach ok m \<Longrightarrow> confirm_step ok m m' \<Longrightarrow> confirm_reach ok m'"

text \<open>
  What every call keeps: table and memory agree on what is pending; an event is set exactly when
  a result is there to be read; a result that approves comes from a recorded answer for that
  session.
\<close>

definition answered :: "confirm_mgr \<Rightarrow> string \<Rightarrow> string \<Rightarrow> bool" where
  "answered m cid sid \<longleftrightarrow> (\<exists>r\<in>set (trail m). ar_confirm r = cid \<and> ar_session r = sid \<and>
     ar_decision r \<in> insert ''approved'' (set ELICIT_ACTIONS))"

definition mgr_inv :: "bool \<Rightarrow> confirm_mgr \<Rightarrow> bool" where
  "mgr_inv ok m \<longleftrightarrow>
     distinct (map fst (pending m)) \<and>
     cr_id ` set (db_rows m) = dom (map_of (pending m)) \<and>
     (\<forall>cid p. map_of (pending m) cid = Some p \<longrightarrow> (p_set p \<longleftrightarrow> map_of (results m) cid \<noteq> None)) \<and>
     (ok \<longrightarrow> (\<forall>cid p. map_of (pending m) cid = Some p \<longrightarrow> map_of (results m) cid = Some True \<longrightarrow>
        answered m cid (p_session p)))"

lemma mgr_inv_init: "mgr_inv ok mgr_init"
  by (simp add: mgr_inv_def mgr_init_def)

lemma register_inv: "mgr_inv ok m \<Longrightarrow> fresh_id m cid \<Longrightarrow> mgr_inv ok (register m cid now sid a d c)"
  by (auto simp: mgr_inv_def register_def fresh_id_def answered_def)

lemma resolve_cases:
  assumes "resolve m ok cid confirmed remember expected action content source = Inr m'"
  obtains p where "map_of (pending m) cid = Some p"
    "expected = None \<or> expected = Some (p_session p)"
    "pending m' = dput cid (p\<lparr>p_set := True\<rparr>) (pending m)"
    "results m' = dput cid confirmed (results m)" "db_rows m' = db_rows m"
    "set (trail m) \<subseteq> set (trail m')"
    "ok \<Longrightarrow> confirmed \<Longrightarrow> answered m' cid (p_session p)"
    "action = None \<Longrightarrow> actions m' = actions m \<and> contents m' = contents m"
proof -
  obtain p where p: "map_of (pending m) cid = Some p"
    using assms by (auto simp: resolve_def split: if_splits option.splits)
  show ?thesis
    by (rule that [OF p])
       (use assms p in \<open>auto simp: resolve_def Let_def answered_def split: if_splits option.splits\<close>)
qed

lemma answered_mono: "answered m cid sid \<Longrightarrow> set (trail m) \<subseteq> set (trail m') \<Longrightarrow> answered m' cid sid"
  by (auto simp: answered_def)

lemma resolve_inv:
  assumes "mgr_inv ok m" "resolve m ok cid confirmed remember expected action content source = Inr m'"
  shows "mgr_inv ok m'"
  using assms(2)
proof (rule resolve_cases)
  fix p
  assume p: "map_of (pending m) cid = Some p" and m': "pending m' = dput cid (p\<lparr>p_set := True\<rparr>) (pending m)"
    "results m' = dput cid confirmed (results m)" "db_rows m' = db_rows m" "set (trail m) \<subseteq> set (trail m')"
    and new: "ok \<Longrightarrow> confirmed \<Longrightarrow> answered m' cid (p_session p)"
  have "answered m' c (p_session q)" if "ok" "map_of (pending m) c = Some q" "map_of (results m) c = Some True" for c q
    using that assms(1) m'(4) answered_mono unfolding mgr_inv_def by blast
  with assms(1) p m' new show ?thesis by (auto simp: mgr_inv_def)
qed

lemma cancel_one_pending:
  "map_of (pending (cancel_one m cid)) = (map_of (pending m))(cid := map_option (\<lambda>p. p\<lparr>p_set := True\<rparr>) (map_of (pending m) cid))"
  "map_of (results (cancel_one m cid)) = (if map_of (pending m) cid = None then map_of (results m)
     else (map_of (results m))(cid \<mapsto> False))"
  "db_rows (cancel_one m cid) = db_rows m" "trail (cancel_one m cid) = trail m"
  "actions (cancel_one m cid) = actions m" "contents (cancel_one m cid) = contents m"
  by (auto simp: cancel_one_def fun_upd_idem split: option.splits)

lemma cancel_one_inv: "mgr_inv ok m \<Longrightarrow> mgr_inv ok (cancel_one m cid)"
  unfolding mgr_inv_def answered_def
  by (auto simp: cancel_one_def split: option.splits)

lemma foldl_cancel_inv: "mgr_inv ok m \<Longrightarrow> mgr_inv ok (foldl cancel_one m ids)"
  by (induction ids arbitrary: m) (simp_all add: cancel_one_inv)

lemma cleanup_inv:
  "mgr_inv ok m \<Longrightarrow> mgr_inv ok ((cleanup m cid)\<lparr>results := ddel cid (results m)\<rparr>)"
  "mgr_inv ok m \<Longrightarrow> mgr_inv ok (cleanup m cid)"
  by (auto simp: mgr_inv_def cleanup_def answered_def image_iff split: if_splits)

lemma forget_inv: "mgr_inv ok (forget_answer m cid) = mgr_inv ok m"
  by (simp add: mgr_inv_def forget_answer_def answered_def)

lemma wait_inv: "mgr_inv ok m \<Longrightarrow> wait m cid w = (r, m') \<Longrightarrow> mgr_inv ok m'"
  by (auto simp: wait_def cleanup_inv split: option.splits wake.splits)

lemma wait_elicit_inv: "mgr_inv ok m \<Longrightarrow> wait_elicit m cid t w = Inr (a, m') \<Longrightarrow> mgr_inv ok m'"
  by (auto simp: wait_elicit_def Let_def forget_inv cleanup_inv split: option.splits if_splits)

lemma confirm_step_inv: "confirm_step ok m m' \<Longrightarrow> mgr_inv ok m \<Longrightarrow> mgr_inv ok m'"
proof (induction rule: confirm_step.induct)
  case (stop m sid n m')
  then show ?case by (auto simp: cancel_session_def foldl_cancel_inv)
next
  case (tick m cid b m')
  then have "m' = m\<lparr>remembered := ddel cid (remembered m)\<rparr>" by (simp add: consume_remember_def)
  with tick show ?case by (simp add: mgr_inv_def answered_def)
qed (blast intro: register_inv resolve_inv wait_inv wait_elicit_inv)+

lemma confirm_reach_inv: "confirm_reach ok m \<Longrightarrow> mgr_inv ok m"
  by (induction rule: confirm_reach.induct) (auto intro: mgr_inv_init confirm_step_inv)

section \<open>Cancelling a session\<close>

lemma foldl_cancel_pending:
  "map_of (pending (foldl cancel_one m ids)) cid =
     (if cid \<in> set ids then map_option (\<lambda>p. p\<lparr>p_set := True\<rparr>) (map_of (pending m) cid)
      else map_of (pending m) cid)"
proof (induction ids arbitrary: m)
  case (Cons i ids)
  have "map_option (p_set_update (\<lambda>_. True) \<circ> p_set_update (\<lambda>_. True)) x = map_option (p_set_update (\<lambda>_. True)) x" for x :: "pend option"
    by (cases x) auto
  with Cons show ?case by (auto simp: cancel_one_pending option.map_comp)
qed simp

lemma foldl_cancel_results:
  "map_of (results (foldl cancel_one m ids)) cid =
     (if cid \<in> set ids \<and> map_of (pending m) cid \<noteq> None then Some False else map_of (results m) cid)"
  by (induction ids arbitrary: m) (auto simp: cancel_one_pending)

lemma session_ids_iff:
  "distinct (map fst (pending m)) \<Longrightarrow>
   cid \<in> set (session_ids m sid) \<longleftrightarrow> (\<exists>p. map_of (pending m) cid = Some p \<and> p_session p = sid)"
  by (force simp: session_ids_def map_of_eq_Some_iff)

lemma cancel_session_releases:
  assumes "mgr_inv ok m" "map_of (pending m) cid = Some p" "p_session p = sid"
  shows "map_of (pending (snd (cancel_session m sid))) cid = Some (p\<lparr>p_set := True\<rparr>)"
    and "map_of (results (snd (cancel_session m sid))) cid = Some False"
proof -
  have "cid \<in> set (session_ids m sid)"
    using assms session_ids_iff unfolding mgr_inv_def by blast
  then show "map_of (pending (snd (cancel_session m sid))) cid = Some (p\<lparr>p_set := True\<rparr>)"
    and "map_of (results (snd (cancel_session m sid))) cid = Some False"
    using assms(2) by (simp_all add: cancel_session_def foldl_cancel_pending foldl_cancel_results)
qed

lemma cancel_session_other:
  assumes "mgr_inv ok m" "map_of (pending m) cid = Some p" "p_session p \<noteq> sid"
  shows "map_of (pending (snd (cancel_session m sid))) cid = Some p"
    and "map_of (results (snd (cancel_session m sid))) cid = map_of (results m) cid"
proof -
  have "cid \<notin> set (session_ids m sid)"
    using assms session_ids_iff unfolding mgr_inv_def by (metis option.inject)
  then show "map_of (pending (snd (cancel_session m sid))) cid = Some p"
    and "map_of (results (snd (cancel_session m sid))) cid = map_of (results m) cid"
    using assms(2) by (simp_all add: cancel_session_def foldl_cancel_pending foldl_cancel_results)
qed

section \<open>Properties\<close>

text \<open>
  C3. In every state the manager can reach from an empty one, with working auditing: when a parked
  tool is woken with an approval, the audit trail holds an answer for exactly that confirmation,
  given in that session, that was not a denial. The table of pending confirmations always lists
  exactly the confirmations in memory, and a confirmation is signalled exactly when its result is
  there.
\<close>

theorem approval_is_answered:
  assumes "confirm_reach True m" "map_of (pending m) cid = Some p"
  shows "(fst (wait m cid w) = Some True \<longrightarrow> w = Fired \<and> answered m cid (p_session p)) \<and>
    cr_id ` set (db_rows m) = dom (map_of (pending m)) \<and>
    (p_set p \<longleftrightarrow> map_of (results m) cid \<noteq> None)"
  using confirm_reach_inv [OF assms(1)] assms(2)
  by (auto simp: mgr_inv_def wait_def split: wake.splits)

theorem approval_is_answered_witness:
  "let m = register mgr_init ''c1'' 0 ''s1'' ''install_app'' [] [];
       m' = projr (resolve m True ''c1'' True False (Some ''s1'') None None ''web'')
   in fst (wait m' ''c1'' Fired) = Some True \<and> answered m' ''c1'' ''s1''"
proof -
  let ?m = "register mgr_init ''c1'' 0 ''s1'' ''install_app'' [] []"
  let ?m' = "projr (resolve ?m True ''c1'' True False (Some ''s1'') None None ''web'')"
  have reg: "confirm_reach True ?m"
    by (rule confirm_reach.step [OF confirm_reach.start confirm_step.reg])
      (simp add: fresh_id_def mgr_init_def)
  have res: "resolve ?m True ''c1'' True False (Some ''s1'') None None ''web'' = Inr ?m'" by code_simp
  have reach: "confirm_reach True ?m'" by (rule confirm_reach.step [OF reg confirm_step.ans [OF res]])
  have p: "map_of (pending ?m') ''c1'' = Some \<lparr>p_session = ''s1'', p_set = True\<rparr>" by code_simp
  have w: "fst (wait ?m' ''c1'' Fired) = Some True" by code_simp
  with approval_is_answered [OF reach p, of Fired] show ?thesis by (simp add: Let_def)
qed

text \<open>
  Stopping a session: every confirmation that session has pending is signalled and reads as a
  denial when its tool wakes up, and the confirmations of every other session keep their state and
  their result. The count returned is the number of confirmations of the session.
\<close>

theorem cancel_session_exact:
  assumes "confirm_reach ok m" "map_of (pending m) cid = Some p"
  shows "if p_session p = sid
    then map_of (pending (snd (cancel_session m sid))) cid = Some (p\<lparr>p_set := True\<rparr>) \<and>
         fst (wait (snd (cancel_session m sid)) cid Fired) = Some False
    else map_of (pending (snd (cancel_session m sid))) cid = Some p \<and>
         fst (wait (snd (cancel_session m sid)) cid w) = fst (wait m cid w)"
  using cancel_session_releases [OF confirm_reach_inv [OF assms(1)] assms(2)]
    cancel_session_other [OF confirm_reach_inv [OF assms(1)] assms(2)] assms(2)
  by (auto simp: wait_def split: wake.splits)

theorem cancel_session_exact_witness:
  "let m = register mgr_init ''c1'' 0 ''s1'' ''install_app'' [] []
   in fst (wait (snd (cancel_session m ''s1'')) ''c1'' Fired) = Some False"
proof -
  let ?m = "register mgr_init ''c1'' 0 ''s1'' ''install_app'' [] []"
  have reg: "confirm_reach True ?m"
    by (rule confirm_reach.step [OF confirm_reach.start confirm_step.reg])
      (simp add: fresh_id_def mgr_init_def)
  have p: "map_of (pending ?m) ''c1'' = Some \<lparr>p_session = ''s1'', p_set = False\<rparr>" by code_simp
  from cancel_session_exact [OF reg p, of "''s1''" Fired] show ?thesis by (simp add: Let_def)
qed

text \<open>
  An answer reaches one confirmation and only from its own session: a resolution that names
  another session, an unknown confirmation or an unknown action is refused, and an accepted one
  changes no other confirmation's state, result, action or content.
\<close>

theorem resolve_isolated:
  assumes "resolve m ok cid confirmed remember expected action content source = Inr m'" "cid' \<noteq> cid"
  shows "(\<exists>p. map_of (pending m) cid = Some p \<and> (expected = None \<or> expected = Some (p_session p))) \<and>
    (action = None \<or> the action \<in> set ELICIT_ACTIONS) \<and>
    map_of (pending m') cid' = map_of (pending m) cid' \<and>
    map_of (results m') cid' = map_of (results m) cid' \<and>
    map_of (actions m') cid' = map_of (actions m) cid' \<and>
    map_of (contents m') cid' = map_of (contents m) cid'"
proof -
  obtain p where "map_of (pending m) cid = Some p" "expected = None \<or> expected = Some (p_session p)"
    using assms(1) by (rule resolve_cases)
  moreover have "(action = None \<or> the action \<in> set ELICIT_ACTIONS) \<and>
    map_of (pending m') cid' = map_of (pending m) cid' \<and>
    map_of (results m') cid' = map_of (results m) cid' \<and>
    map_of (actions m') cid' = map_of (actions m) cid' \<and>
    map_of (contents m') cid' = map_of (contents m) cid'"
    using assms by (auto simp: resolve_def Let_def split: if_splits option.splits)
  ultimately show ?thesis by blast
qed

theorem resolve_isolated_witness:
  "let m = register (register mgr_init ''c1'' 0 ''s1'' ''install_app'' [] []) ''c2'' 0 ''s2'' ''stop_app'' [] [];
       m' = projr (resolve m True ''c1'' True False (Some ''s1'') None None ''web'')
   in map_of (pending m') ''c2'' = Some \<lparr>p_session = ''s2'', p_set = False\<rparr>"
proof -
  let ?m = "register (register mgr_init ''c1'' 0 ''s1'' ''install_app'' [] []) ''c2'' 0 ''s2'' ''stop_app'' [] []"
  let ?m' = "projr (resolve ?m True ''c1'' True False (Some ''s1'') None None ''web'')"
  have res: "resolve ?m True ''c1'' True False (Some ''s1'') None None ''web'' = Inr ?m'" by code_simp
  have p: "map_of (pending ?m) ''c2'' = Some \<lparr>p_session = ''s2'', p_set = False\<rparr>" by code_simp
  from resolve_isolated [OF res, of "''c2''"] p show ?thesis by (simp add: Let_def)
qed

end
