(* ===== verification/Task_Gate.thy ===== *)
theory Task_Gate
  imports Permissions Run_Gate
begin

text \<open>
  The pure gates of \<open>agent/tasks/driver.py\<close>, which decide from a task's preauthorisation document
  whether an unattended run may reach a host or write a path, and the two classifiers of a
  confirmation event. Arguments that the source does not trust to have the right type are
  \<open>pyval\<close>s. \<open>realpath\<close> is a parameter: what a path resolves to on the running system, \<open>None\<close> when
  it cannot be resolved.
\<close>

section \<open>Hosts\<close>

definition strip_port :: "string \<Rightarrow> string" where
  "strip_port host =
     (let h = py_strip host in
      if startswith h ''['' then (if CHR '']'' \<in> set h then before_char (CHR '']'') (tl h) else h)
      else if count_list h (CHR '':'') = 1 then before_char (CHR '':'') h
      else h)"

definition norm_host :: "string \<Rightarrow> string" where
  "norm_host host = rstrip_of (\<lambda>c. c = CHR ''.'') (py_lower (strip_port host))"

text \<open>One preauthorised domain, already normalised, against a normalised host.\<close>

definition domain_covers :: "string \<Rightarrow> string \<Rightarrow> bool" where
  "domain_covers d h =
     (if d = [] then False
      else if startswith d ''*.'' then (let suffix = tl d in endswith h suffix \<and> length h > length suffix)
      else h = d)"

text \<open>\<open>None\<close>: \<open>host.strip\<close> raises, because the host is neither empty nor a string.\<close>

definition egress_allowed :: "pyval \<Rightarrow> pyval \<Rightarrow> bool option" where
  "egress_allowed host domains = (case domains of
     PList ds \<Rightarrow> (case py_or host (PStr []) of
         PStr s \<Rightarrow> Some (norm_host s \<noteq> [] \<and>
           (\<exists>raw\<in>set ds. case raw of PStr d \<Rightarrow> domain_covers (norm_host d) (norm_host s) | _ \<Rightarrow> False))
       | _ \<Rightarrow> None)
   | _ \<Rightarrow> Some False)"

section \<open>Paths\<close>

definition root_covers :: "string \<Rightarrow> string \<Rightarrow> bool" where
  "root_covers r p \<longleftrightarrow> p = r \<or> startswith p (strip_slash r @ ''/'')"

definition fs_allowed :: "resolver \<Rightarrow> pyval \<Rightarrow> pyval \<Rightarrow> bool" where
  "fs_allowed realpath path roots = (case roots of
     PList rs \<Rightarrow> (case path of
         PStr s \<Rightarrow> s \<noteq> [] \<and> (case realpath s of None \<Rightarrow> False
           | Some p \<Rightarrow> \<exists>raw\<in>set rs. (case raw of
                 PStr q \<Rightarrow> q \<noteq> [] \<and> (case realpath q of None \<Rightarrow> False
                   | Some r \<Rightarrow> \<not> fs_root_denied r \<and> root_covers r p)
               | _ \<Rightarrow> False))
       | _ \<Rightarrow> False)
   | _ \<Rightarrow> False)"

section \<open>Events\<close>

definition KIND_EGRESS :: pyval where "KIND_EGRESS = PStr ''egress''"
definition KIND_FS :: pyval where "KIND_FS = PStr ''fs''"
definition KIND_SHELL :: pyval where "KIND_SHELL = PStr ''shell''"

definition DETAIL_FIELDS :: "string list" where
  "DETAIL_FIELDS = [''host'', ''path'', ''command'', ''title'', ''name'', ''url'', ''description'']"

definition kind_of :: "(string \<times> pyval) list \<Rightarrow> pyval" where
  "kind_of ev =
     (if pget ev ''type'' = PStr ''access_request'' then KIND_FS
      else let action = pget ev ''action'' in
        if action = PStr ''egress_confirm'' then KIND_EGRESS
        else if (case action of PStr a \<Rightarrow> startswith a ''shell'' | _ \<Rightarrow> False) then KIND_SHELL
        else py_or action (py_or (pget ev ''kind'') (py_or (pget ev ''type'') (PStr ''unknown''))))"

definition nonempty_str :: "pyval \<Rightarrow> bool" where
  "nonempty_str v = (case v of PStr s \<Rightarrow> s \<noteq> [] | _ \<Rightarrow> False)"

definition detail_of :: "(string \<times> pyval) list \<Rightarrow> string" where
  "detail_of ev =
     (if nonempty_str (pget ev ''server'') \<and> nonempty_str (pget ev ''tool'')
      then str_val (pget ev ''server'') @ ''::'' @ str_val (pget ev ''tool'')
      else case List.find (\<lambda>k. nonempty_str (pget ev k)) DETAIL_FIELDS of
        Some k \<Rightarrow> str_val (pget ev k) | None \<Rightarrow> [])"

section \<open>Domain matching by labels\<close>

text \<open>
  What a preauthorised domain stands for: itself, or with a leading \<open>*.\<close> every host that has at
  least one more label in front of the labels of the apex.
\<close>

definition host_labels :: "string \<Rightarrow> string list" where
  "host_labels h = split_on (CHR ''.'') h"

lemma wildcard_labels:
  "endswith h (CHR ''.'' # a) \<and> length h > length (CHR ''.'' # a) \<longleftrightarrow>
   (\<exists>ls. ls \<noteq> [] \<and> ls \<noteq> [[]] \<and> host_labels h = ls @ host_labels a)"
proof
  assume *: "endswith h (CHR ''.'' # a) \<and> length h > length (CHR ''.'' # a)"
  then obtain l where l: "h = l @ CHR ''.'' # a" unfolding endswith_append by blast
  then have l2: "l \<noteq> []" using * by auto
  from l have "host_labels h = host_labels l @ host_labels a"
    by (simp add: host_labels_def split_on_append)
  moreover have "host_labels l \<noteq> []" by (simp add: host_labels_def split_on_def)
  moreover have "host_labels l \<noteq> [[]]"
  proof
    assume "host_labels l = [[]]"
    then have "join_with ''.'' [[]] = l" unfolding host_labels_def by (metis join_split_on)
    with l2 show False by simp
  qed
  ultimately show "\<exists>ls. ls \<noteq> [] \<and> ls \<noteq> [[]] \<and> host_labels h = ls @ host_labels a" by blast
next
  assume "\<exists>ls. ls \<noteq> [] \<and> ls \<noteq> [[]] \<and> host_labels h = ls @ host_labels a"
  then obtain ls where ls: "ls \<noteq> []" "ls \<noteq> [[]]" "host_labels h = ls @ host_labels a" by blast
  have ne: "host_labels a \<noteq> []" by (simp add: host_labels_def split_on_def)
  have join: "join_with sep (xs @ ys) = join_with sep xs @ sep @ join_with sep ys"
    if "xs \<noteq> []" "ys \<noteq> []" for sep :: string and xs ys
    using that by (induction xs rule: induct_list012) (auto simp: join_with_Cons)
  have "h = join_with ''.'' (host_labels h)" by (simp add: host_labels_def join_split_on)
  also have "\<dots> = join_with ''.'' ls @ ''.'' @ a"
    using join [OF ls(1) ne] ls(3) by (simp add: host_labels_def join_split_on)
  finally have h: "h = join_with ''.'' ls @ CHR ''.'' # a" by simp
  have "join_with ''.'' ls \<noteq> []"
    using ls(1,2) by (cases ls rule: list.exhaust; cases "tl ls") auto
  with h show "endswith h (CHR ''.'' # a) \<and> length h > length (CHR ''.'' # a)"
    by (auto simp: endswith_append)
qed

lemma domain_covers_labels:
  "domain_covers d h \<longleftrightarrow> d \<noteq> [] \<and>
     (if startswith d ''*.'' then \<exists>ls. ls \<noteq> [] \<and> ls \<noteq> [[]] \<and> host_labels h = ls @ host_labels (drop 2 d)
      else h = d)"
proof (cases "startswith d ''*.''")
  case True
  then obtain a where d: "d = ''*.'' @ a" by (auto simp: startswith_append)
  have "domain_covers d h \<longleftrightarrow> endswith h (CHR ''.'' # a) \<and> length h > length (CHR ''.'' # a)"
    using d by (simp add: domain_covers_def)
  with wildcard_labels [of h a] d show ?thesis by simp
qed (simp add: domain_covers_def)

section \<open>Roots\<close>

lemma not_denied_not_root: "\<not> fs_root_denied r \<Longrightarrow> r \<noteq> ''/''"
  by (auto simp: fs_root_denied_def)

interpretation fs_scope: path_scope root_covers "\<lambda>r. canonical r \<and> \<not> fs_root_denied r"
  by unfold_locales (auto simp: root_covers_def strip_slash_canonical dest: not_denied_not_root)

text \<open>A root that may grant anything can still lie above a forbidden one.\<close>

lemma ancestor_of_denied:
  assumes "canonical r" "\<not> fs_root_denied r" "canonical p" "root_covers r p" "fs_root_denied p"
  shows "r = ''/var'' \<or> r = ''/var/lib''"
proof -
  have r: "path_comps r \<noteq> []" "\<not> (\<exists>d\<in>set FS_DENY_ROOTS. prefix (path_comps d) (path_comps r))"
    using assms(1,2) fs_root_denied_comps by blast+
  have pre: "prefix (path_comps r) (path_comps p)"
    using fs_scope.covers_iff_prefix [of r p] assms r(1) by blast
  obtain d where d: "d \<in> set FS_DENY_ROOTS" "prefix (path_comps d) (path_comps p)"
    using assms(3,5) fs_root_denied_comps pre r(1) by auto
  have "prefix (path_comps r) (path_comps d)"
    using prefix_same_cases [OF pre d(2)] r(2) d(1) by blast
  moreover have "path_comps d \<in> set [[''etc''], [''proc''], [''sys''], [''dev''], [''boot''], [''bin''],
      [''sbin''], [''lib''], [''lib64''], [''usr''], [''root''], [''run''], [''var'', ''lib'', ''nimoos'']]"
  proof -
    have "set (map path_comps FS_DENY_ROOTS) = set [[''etc''], [''proc''], [''sys''], [''dev''], [''boot''],
      [''bin''], [''sbin''], [''lib''], [''lib64''], [''usr''], [''root''], [''run''], [''var'', ''lib'', ''nimoos'']]"
      unfolding FS_DENY_ROOTS_def by code_simp
    with d(1) show ?thesis by auto
  qed
  moreover have "path_comps r \<noteq> path_comps d" using r(2) d(1) by auto
  ultimately have "path_comps r = [''var''] \<or> path_comps r = [''var'', ''lib'']"
    using r(1) by (auto simp: prefix_Cons)
  moreover have "r = abs_path (path_comps r)" using assms(1) by (simp add: canonical_def)
  ultimately show ?thesis by (auto simp: abs_path_def)
qed

section \<open>Properties\<close>

text \<open>
  C30. The egress gate of an unattended run, as an equivalence over domain labels: a host is let
  through exactly when, after removing port, case and trailing dots, it equals a listed domain, or
  a listed \<open>*.apex\<close> has its labels and at least one more in front. So a neighbour that only shares
  trailing characters, the bare apex and a bare \<open>*\<close> are never matched by a wildcard.
\<close>

theorem egress_by_labels:
  "egress_allowed (PStr host) (PList ds) = Some True \<longleftrightarrow>
     norm_host host \<noteq> [] \<and>
     (\<exists>d. PStr d \<in> set ds \<and>
       (if startswith (norm_host d) ''*.''
        then \<exists>ls. ls \<noteq> [] \<and> ls \<noteq> [[]] \<and>
               host_labels (norm_host host) = ls @ host_labels (drop 2 (norm_host d))
        else norm_host host = norm_host d))"
proof -
  have str: "py_or (PStr host) (PStr []) = PStr host" by (simp add: py_or_def)
  have cov: "(\<exists>raw\<in>set ds. case raw of PStr d \<Rightarrow> domain_covers (norm_host d) h | _ \<Rightarrow> False) \<longleftrightarrow>
      (\<exists>d. PStr d \<in> set ds \<and> domain_covers (norm_host d) h)" for h
    unfolding type_tests by blast
  have lab: "domain_covers d (norm_host host) \<longleftrightarrow>
      (if startswith d ''*.'' then \<exists>ls. ls \<noteq> [] \<and> ls \<noteq> [[]] \<and>
          host_labels (norm_host host) = ls @ host_labels (drop 2 d)
       else norm_host host = d)" if "norm_host host \<noteq> []" for d
    using that by (cases d) (simp_all add: domain_covers_labels)
  show ?thesis
    unfolding egress_allowed_def using lab by (cases "norm_host host = []") (simp_all add: str cov)
qed

text \<open>
  C33. The file gate of an unattended run: with a \<open>realpath\<close> that returns canonical paths, a path is
  let through only when what it resolves to lies, component for component, at or below what one of
  the listed roots resolves to, and that root is not a forbidden location. The resolved path itself
  is then not a forbidden location either, unless the root is \<open>/var\<close> or \<open>/var/lib\<close>, the two
  grantable ancestors of a forbidden root.
\<close>

theorem fs_gate_components:
  assumes "fs_allowed realpath path roots" "\<And>q r. realpath q = Some r \<Longrightarrow> canonical r"
  shows "\<exists>s p q r rs. path = PStr s \<and> roots = PList rs \<and> PStr q \<in> set rs \<and>
    realpath s = Some p \<and> realpath q = Some r \<and> \<not> fs_root_denied r \<and>
    prefix (path_comps r) (path_comps p) \<and>
    (fs_root_denied p \<longrightarrow> r = ''/var'' \<or> r = ''/var/lib'')"
proof -
  obtain s p q r rs where *: "path = PStr s" "roots = PList rs" "PStr q \<in> set rs"
    "realpath s = Some p" "realpath q = Some r" "\<not> fs_root_denied r" "root_covers r p"
    using assms(1) unfolding fs_allowed_def type_tests by blast
  have can: "canonical p" "canonical r" using *(4,5) assms(2) by blast+
  have "path_comps r \<noteq> []" using *(6) can(2) fs_root_denied_comps by blast
  then have "prefix (path_comps r) (path_comps p)"
    using fs_scope.covers_iff_prefix [of r p] * can by blast
  moreover have "fs_root_denied p \<longrightarrow> r = ''/var'' \<or> r = ''/var/lib''"
    using ancestor_of_denied * can by blast
  ultimately show ?thesis using * by blast
qed

theorem fs_gate_components_witness:
  "prefix (path_comps ''/DATA/reports'') (path_comps ''/DATA/reports/may.txt'')"
proof -
  let ?rp = "\<lambda>p. if canonical p then Some p else None"
  have "fs_allowed ?rp (PStr ''/DATA/reports/may.txt'') (PList [PStr ''/DATA/reports''])" by code_simp
  from fs_gate_components [OF this] obtain p r where
    "?rp ''/DATA/reports/may.txt'' = Some p" "?rp ''/DATA/reports'' = Some r"
    "prefix (path_comps r) (path_comps p)" by (fastforce split: if_splits)
  then show ?thesis by (simp split: if_splits)
qed

end
