(* ===== verification/Fs_Scope.thy ===== *)
theory Fs_Scope
  imports Py_Path
begin

text \<open>
  Which paths the file tools may touch: the visible resources of a session and their scope check
  (\<open>fs/paths.py\<close>), the three layers of ignored paths (\<open>fs/ignore.py\<close>), the classification the batch
  engine uses (\<open>fs/validators.py\<close>), and the read-only mounts of the shell sandbox
  (\<open>fs/sandbox_view.py\<close>). Parameters, in the record of the environment: \<open>os.path.realpath\<close>, \<open>os.path.isdir\<close>,
  the working directory, the pattern matcher of the \<open>pathspec\<close> package (lines of patterns and a path) and the
  lines of a \<open>.gitignore\<close> file, where it is a file that can be read.
\<close>

section \<open>The environment\<close>

record fs_env =
  e_realpath :: "string \<Rightarrow> string"
  e_isdir :: "string \<Rightarrow> bool"
  e_cwd :: string
  e_match :: "string list \<Rightarrow> string \<Rightarrow> bool"
  e_gitignore :: "string \<Rightarrow> string list option"
  e_tool_root :: string

text \<open>The table \<open>visible_resources\<close>; its kinds are \<open>folder\<close> and \<open>file\<close>, and a pair of session and path occurs once.\<close>

record visible_row =
  vr_session :: string
  vr_path :: string
  vr_kind :: string
  vr_added_at :: int

text \<open>\<open>INSERT ... ON CONFLICT(session_id, path) DO NOTHING\<close>\<close>

definition insert_visible :: "visible_row list \<Rightarrow> visible_row \<Rightarrow> visible_row list" where
  "insert_visible tbl r =
     (if \<exists>x\<in>set tbl. vr_session x = vr_session r \<and> vr_path x = vr_path r then tbl else tbl @ [r])"

definition load_visible :: "visible_row list \<Rightarrow> string \<Rightarrow> (string \<times> string) list" where
  "load_visible db sid = map (\<lambda>v. (vr_path v, vr_kind v)) (filter (\<lambda>v. vr_session v = sid) db)"

definition visible_roots :: "visible_row list \<Rightarrow> string \<Rightarrow> string list" where
  "visible_roots db sid = map vr_path (filter (\<lambda>v. vr_session v = sid \<and> vr_kind v = ''folder'') db)"

section \<open>paths.py\<close>

definition is_within :: "string \<Rightarrow> string \<Rightarrow> bool" where
  "is_within child parent =
     (let parent = rstrip_of (\<lambda>c. c = CHR ''/'') parent
      in child = parent \<or> startswith child (parent @ ''/''))"

datatype path_error = BadPath | NoAnchor | NoResources | OutOfScope

definition chat_dir_for_session :: "fs_env \<Rightarrow> string \<Rightarrow> string" where
  "chat_dir_for_session env sid = path_join (e_tool_root env) sid"

definition anchor :: "fs_env \<Rightarrow> string \<Rightarrow> string \<Rightarrow> visible_row list \<Rightarrow> path_error + string" where
  "anchor env raw sid db =
     (if CHR 0x00 \<in> set raw then Inl BadPath
      else if isabs raw then Inr (abspath (e_cwd env) raw)
      else let folders = filter (\<lambda>v. snd v = ''folder'') (load_visible db sid)
           in if length folders \<noteq> 1 then Inl NoAnchor
              else Inr (abspath (e_cwd env) (path_join (fst (hd folders)) raw)))"

text \<open>The implicit scope: the session's own folder of offloaded tool results.\<close>

definition own_output :: "fs_env \<Rightarrow> string \<Rightarrow> string \<Rightarrow> bool" where
  "own_output env sid real0 =
     (let root = e_realpath env (e_tool_root env); own = e_realpath env (chat_dir_for_session env sid)
      in startswith real0 (root @ ''/'') \<and> (real0 = own \<or> startswith real0 (own @ ''/'')))"

definition scope_ok :: "fs_env \<Rightarrow> string \<Rightarrow> string \<times> string \<Rightarrow> bool" where
  "scope_ok env real v =
     (let v_real = e_realpath env (fst v)
      in if snd v = ''folder'' then is_within real v_real else real = v_real)"

definition resolve_path :: "fs_env \<Rightarrow> string \<Rightarrow> string \<Rightarrow> visible_row list \<Rightarrow> path_error + string" where
  "resolve_path env raw sid db =
     (if CHR 0x00 \<in> set raw then Inl BadPath
      else if isabs raw \<and> own_output env sid (e_realpath env raw) then Inr (e_realpath env raw)
      else if load_visible db sid = [] then Inl NoResources
      else case anchor env raw sid db of
          Inl e \<Rightarrow> Inl e
        | Inr ap \<Rightarrow>
            (let real = e_realpath env ap
             in if \<exists>v\<in>set (load_visible db sid). scope_ok env real v then Inr real else Inl OutOfScope))"

section \<open>ignore.py\<close>

definition IMPLICIT_IGNORE :: "string list" where
  "IMPLICIT_IGNORE = [''.git/'', ''.hg/'', ''.svn/'', ''.nimoos-agent/'', ''.nimoos-agent-snapshots/'',
     ''agent.db'', ''agent.db-wal'', ''agent.db-shm'', ''*.swp'', ''.DS_Store'', ''Thumbs.db'']"

definition BUILTIN_HARD_BLACKLIST :: "string list" where
  "BUILTIN_HARD_BLACKLIST = [''.ssh/'', ''.gnupg/'', ''.pki/'', ''.aws/'',
     ''.config/gcloud/'', ''**/.config/gcloud/'', ''.docker/config.json'', ''**/.docker/config.json'',
     ''*.key'', ''*.pem'', ''*.p12'', ''*.pfx'', ''id_rsa*'', ''id_ed25519*'', ''id_ecdsa*'',
     ''/etc/'', ''/root/'', ''/proc/'', ''/sys/'', ''/dev/'', ''/boot/'',
     ''/usr/'', ''/bin/'', ''/sbin/'', ''/lib/'', ''/lib64/'',
     ''/var/lib/nimoos/'', ''/usr/share/nimoos/'', ''/opt/nimoos/'']"

definition ig_matches :: "fs_env \<Rightarrow> string list \<Rightarrow> string \<Rightarrow> bool" where
  "ig_matches env spec ap \<longleftrightarrow>
     e_match env spec (lstrip_of (\<lambda>c. c = CHR ''/'') ap) \<or> e_match env spec (basename ap)"

definition matches_user :: "fs_env \<Rightarrow> string list \<Rightarrow> string \<Rightarrow> bool" where
  "matches_user env user_patterns ap \<longleftrightarrow> user_patterns \<noteq> [] \<and> ig_matches env user_patterns ap"

text \<open>\<open>os.path.relpath(path, start)\<close> for a non-empty path.\<close>

definition relpath :: "string \<Rightarrow> string \<Rightarrow> string \<Rightarrow> string" where
  "relpath cwd path start =
     (let start_list = path_comps (abspath cwd start); path_list = path_comps (abspath cwd path);
          i = length (longest_common_prefix start_list path_list);
          rel_list = replicate (length start_list - i) ''..'' @ drop i path_list
      in if rel_list = [] then ''.'' else join_with ''/'' rel_list)"

text \<open>The components of a relative \<open>PurePosixPath\<close>.\<close>

definition rel_parts :: "string \<Rightarrow> string list" where
  "rel_parts rel = filter (\<lambda>c. c \<noteq> [] \<and> c \<noteq> ''.'') (split_on (CHR ''/'') rel)"

definition dirs_to_scan :: "string \<Rightarrow> string list \<Rightarrow> string list" where
  "dirs_to_scan root parts =
     root # map (\<lambda>i. foldl path_join root (take (i + 1) parts)) [0..<length parts - 1]"

definition merged_lines :: "fs_env \<Rightarrow> string list \<Rightarrow> string list" where
  "merged_lines env dirs = concat (map (\<lambda>d. case e_gitignore env (path_join d ''.gitignore'') of
       None \<Rightarrow> [] | Some ls \<Rightarrow> ls) dirs)"

fun gitignore_blocks :: "fs_env \<Rightarrow> string \<Rightarrow> string list \<Rightarrow> bool" where
  "gitignore_blocks env ap [] = False"
| "gitignore_blocks env ap (root # roots) =
     (let root_abs = rstrip_of (\<lambda>c. c = CHR ''/'') (abspath (e_cwd env) root)
      in if \<not> (ap = root_abs \<or> startswith ap (root_abs @ ''/'')) then gitignore_blocks env ap roots
         else let rel = relpath (e_cwd env) ap root_abs
              in if startswith rel ''..'' then gitignore_blocks env ap roots
                 else let ls = merged_lines env (dirs_to_scan root_abs (rel_parts rel))
                      in ls \<noteq> [] \<and> e_match env ls rel)"

datatype blocked = BlockedImplicit | BlockedHardBlacklist | BlockedUserBlacklist | BlockedGitignore

definition path_gate :: "fs_env \<Rightarrow> string \<Rightarrow> string list \<Rightarrow> string list \<Rightarrow> bool \<Rightarrow> blocked option" where
  "path_gate env ap roots user_patterns allow_gitignore_override =
     (if ig_matches env IMPLICIT_IGNORE ap then Some BlockedImplicit
      else if ig_matches env BUILTIN_HARD_BLACKLIST ap then Some BlockedHardBlacklist
      else if matches_user env user_patterns ap then Some BlockedUserBlacklist
      else if \<not> allow_gitignore_override \<and> gitignore_blocks env ap roots then Some BlockedGitignore
      else None)"

section \<open>validators.py\<close>

datatype category = CatOk | CatNeedGrant | CatBlocked

definition PROBE :: string where
  "PROBE = ''__nimoos_access_probe__''"

definition classify_path :: "fs_env \<Rightarrow> string list \<Rightarrow> string \<Rightarrow> visible_row list \<Rightarrow> string \<Rightarrow> category \<times> string" where
  "classify_path env user_patterns sid db raw =
     (case resolve_path env raw sid db of
        Inl _ \<Rightarrow>
          (case anchor env raw sid db of
             Inl _ \<Rightarrow> (CatBlocked, raw)
           | Inr a \<Rightarrow>
               (let anchored = e_realpath env a;
                    probe = (if \<not> e_isdir env anchored then anchored else path_join anchored PROBE)
                in if path_gate env probe (visible_roots db sid) user_patterns False \<noteq> None
                   then (CatBlocked, anchored) else (CatNeedGrant, anchored)))
      | Inr ap \<Rightarrow>
          if path_gate env ap (visible_roots db sid) user_patterns False \<noteq> None
          then (CatBlocked, ap) else (CatOk, ap))"

section \<open>sandbox_view.py\<close>

record sandbox_view =
  ro_binds :: "(string \<times> string) list"
  skipped :: "string list"

definition is_gated :: "fs_env \<Rightarrow> string \<Rightarrow> string list \<Rightarrow> bool" where
  "is_gated env ap user_patterns \<longleftrightarrow> path_gate env ap [] user_patterns True \<noteq> None"

definition covered :: "string list \<Rightarrow> string \<Rightarrow> bool" where
  "covered kept r \<longleftrightarrow> (\<exists>p\<in>set kept. r = p \<or> startswith r (p @ ''/''))"

fun keep_outermost :: "string list \<Rightarrow> string list \<Rightarrow> string list" where
  "keep_outermost kept [] = kept"
| "keep_outermost kept (r # rs) = keep_outermost (if covered kept r then kept else kept @ [r]) rs"

definition add_file :: "fs_env \<Rightarrow> string list \<Rightarrow> string list \<Rightarrow> string \<times> string \<Rightarrow> sandbox_view \<Rightarrow> sandbox_view" where
  "add_file env user_patterns kept v view =
     (if snd v = ''file'' \<and> \<not> covered kept (fst v) then
        (if is_gated env (fst v) user_patterns then view\<lparr>skipped := skipped view @ [fst v]\<rparr>
         else view\<lparr>ro_binds := ro_binds view @ [(fst v, fst v)]\<rparr>)
      else view)"

definition add_folder :: "fs_env \<Rightarrow> string list \<Rightarrow> string \<Rightarrow> sandbox_view \<Rightarrow> sandbox_view" where
  "add_folder env user_patterns folder view =
     (if is_gated env (folder @ ''/'') user_patterns then view\<lparr>skipped := skipped view @ [folder]\<rparr>
      else view\<lparr>ro_binds := ro_binds view @ [(folder, folder)]\<rparr>)"

definition build_view :: "fs_env \<Rightarrow> string \<Rightarrow> visible_row list \<Rightarrow> string list \<Rightarrow> sandbox_view" where
  "build_view env sid db user_patterns =
     (let resolved = map (\<lambda>(p, k). (e_realpath env p, k)) (load_visible db sid);
          folder_reals = sort_key length (map fst (filter (\<lambda>v. snd v = ''folder'') resolved));
          kept = keep_outermost [] folder_reals;
          view = fold (add_file env user_patterns kept) resolved \<lparr>ro_binds = [], skipped = []\<rparr>
      in fold (add_folder env user_patterns) kept view)"

definition to_bwrap_args :: "sandbox_view \<Rightarrow> string list" where
  "to_bwrap_args view = concat (map (\<lambda>(src, dst). [''--ro-bind'', src, dst]) (ro_binds view))"

section \<open>The scope check\<close>

lemma is_within_strip: "is_within p r \<longleftrightarrow> p = strip_slash r \<or> startswith p (strip_slash r @ ''/'')"
  by (simp add: is_within_def strip_slash_def Let_def)

interpretation within: path_scope "\<lambda>r p. is_within p r" canonical
  by unfold_locales (simp_all add: is_within_strip)

text \<open>What \<open>os.path.realpath\<close> promises: an absolute, normal path; and a path it returned is its own real path.\<close>

definition real_ok :: "fs_env \<Rightarrow> bool" where
  "real_ok env \<longleftrightarrow> (\<forall>p. plain_path (e_realpath env p) \<and> e_realpath env (e_realpath env p) = e_realpath env p)"

definition in_scope :: "fs_env \<Rightarrow> string \<Rightarrow> visible_row list \<Rightarrow> string \<Rightarrow> bool" where
  "in_scope env sid db real \<longleftrightarrow>
     (\<exists>v\<in>set db. vr_session v = sid \<and>
        (if vr_kind v = ''folder'' then prefix (path_comps (e_realpath env (vr_path v))) (path_comps real)
         else path_comps real = path_comps (e_realpath env (vr_path v))))"

lemma scope_ok_comps:
  assumes "real_ok env" "plain_path real" "path_comps real \<noteq> []"
  shows "scope_ok env real (p, k) \<longleftrightarrow> (if k = ''folder'' then prefix (path_comps (e_realpath env p)) (path_comps real)
     else path_comps real = path_comps (e_realpath env p))"
proof (cases "k = ''folder''")
  case True
  have "canonical (e_realpath env p)" "canonical real" using assms by (auto simp: real_ok_def plain_path_def)
  with within.covers_iff_prefix [of "e_realpath env p" real] assms(3) True show ?thesis
    by (simp add: scope_ok_def)
next
  case False
  have "canonical (e_realpath env p)" "canonical real" using assms by (auto simp: real_ok_def plain_path_def)
  then have "real = e_realpath env p \<longleftrightarrow> path_comps real = path_comps (e_realpath env p)"
    by (metis canonical_def)
  with False show ?thesis by (simp add: scope_ok_def)
qed

lemma in_scope_iff:
  assumes "real_ok env" "plain_path real" "path_comps real \<noteq> []"
  shows "(\<exists>v\<in>set (load_visible db sid). scope_ok env real v) \<longleftrightarrow> in_scope env sid db real"
proof -
  have "(\<exists>v\<in>set (load_visible db sid). scope_ok env real v) \<longleftrightarrow>
      (\<exists>v\<in>set db. vr_session v = sid \<and> scope_ok env real (vr_path v, vr_kind v))"
    by (auto simp: load_visible_def)
  then show ?thesis unfolding in_scope_def by (simp add: scope_ok_comps [OF assms])
qed

lemma resolve_path_real: "resolve_path env raw sid db = Inr real \<Longrightarrow> \<exists>p. real = e_realpath env p"
  by (auto simp: resolve_path_def Let_def split: if_splits sum.splits)

lemma resolve_path_cases:
  assumes "resolve_path env raw sid db = Inr real"
  obtains (own) "isabs raw" "own_output env sid real" "real = e_realpath env raw"
  | (vis) ap v where "anchor env raw sid db = Inr ap" "real = e_realpath env ap"
      "v \<in> set (load_visible db sid)" "scope_ok env real v"
  using assms by (auto simp: resolve_path_def Let_def split: if_splits sum.splits)

lemma in_scope_session:
  "(\<And>v. vr_session v = sid \<Longrightarrow> v \<in> set db \<longleftrightarrow> v \<in> set db') \<Longrightarrow> in_scope env sid db = in_scope env sid db'"
  by (auto simp: in_scope_def fun_eq_iff)

section \<open>The sandbox\<close>

lemma covered_under: "covered kept r \<longleftrightarrow> (\<exists>p\<in>set kept. under p r)"
  by (simp add: covered_def under_def)

lemma keep_prefix: "prefix kept (keep_outermost kept rs)"
  by (induction rs arbitrary: kept) (auto intro: append_prefixD)

lemma keep_set: "set (keep_outermost kept rs) \<subseteq> set kept \<union> set rs"
  by (induction rs arbitrary: kept) (auto split: if_splits, (metis Un_iff empty_iff insert_iff list.set(1,2) set_append subsetD)+)

lemma covered_mono: "set kept \<subseteq> set kept' \<Longrightarrow> covered kept r \<Longrightarrow> covered kept' r"
  by (auto simp: covered_def)

lemma keep_covers: "r \<in> set rs \<Longrightarrow> covered (keep_outermost kept rs) r"
proof (induction rs arbitrary: kept)
  case (Cons x rs)
  show ?case
  proof (cases "r = x")
    case True
    let ?k = "if covered kept x then kept else kept @ [x]"
    have "covered ?k x" by (auto simp: covered_def)
    moreover have "set ?k \<subseteq> set (keep_outermost ?k rs)" using keep_prefix by (rule set_mono_prefix)
    ultimately show ?thesis using covered_mono True by (simp add: keep_outermost.simps(2))
  next
    case False
    with Cons show ?thesis by simp
  qed
qed simp

definition apart :: "string \<Rightarrow> string \<Rightarrow> bool" where
  "apart a b \<longleftrightarrow> \<not> under a b \<and> \<not> under b a"

lemma keep_apart:
  "sorted (map length (kept @ rs)) \<Longrightarrow> sorted_wrt apart kept \<Longrightarrow> sorted_wrt apart (keep_outermost kept rs)"
proof (induction rs arbitrary: kept)
  case (Cons r rs)
  show ?case
  proof (cases "covered kept r")
    case True
    have "sorted (map length (kept @ rs))" using Cons.prems(1) by (auto simp: sorted_append)
    with True Cons show ?thesis by simp
  next
    case False
    have "apart p r" if "p \<in> set kept" for p
    proof -
      have "length p \<le> length r" using Cons.prems(1) that by (auto simp: sorted_append)
      moreover have "\<not> under p r" using False that by (auto simp: covered_under)
      ultimately show ?thesis by (auto simp: apart_def under_def startswith_append)
    qed
    then have "sorted_wrt apart (kept @ [r])" using Cons.prems(2) by (simp add: sorted_wrt_append)
    with Cons.IH [of "kept @ [r]"] Cons.prems(1) False show ?thesis by simp
  qed
qed simp

lemma apart_in: "sorted_wrt apart xs \<Longrightarrow> a \<in> set xs \<Longrightarrow> b \<in> set xs \<Longrightarrow> a \<noteq> b \<Longrightarrow> \<not> under a b"
  by (induction xs) (auto simp: apart_def)

lemma add_files:
  "fold (add_file env up kept) vs view =
   \<lparr>ro_binds = ro_binds view @ map (\<lambda>v. (fst v, fst v))
      (filter (\<lambda>v. snd v = ''file'' \<and> \<not> covered kept (fst v) \<and> \<not> is_gated env (fst v) up) vs),
    skipped = skipped view @ map fst
      (filter (\<lambda>v. snd v = ''file'' \<and> \<not> covered kept (fst v) \<and> is_gated env (fst v) up) vs)\<rparr>"
  by (induction vs arbitrary: view) (auto simp: add_file_def)

lemma add_folders:
  "fold (add_folder env up) fs view =
   \<lparr>ro_binds = ro_binds view @ map (\<lambda>f. (f, f)) (filter (\<lambda>f. \<not> is_gated env (f @ ''/'') up) fs),
    skipped = skipped view @ filter (\<lambda>f. is_gated env (f @ ''/'') up) fs\<rparr>"
  by (induction fs arbitrary: view) (auto simp: add_folder_def)

lemma classify_cases:
  assumes "real_ok env" "classify_path env up sid db raw = (cat, ap)" "ap \<noteq> ''/''"
  shows "(cat = CatOk \<longrightarrow> plain_path ap \<and> (in_scope env sid db ap \<or> isabs raw \<and> own_output env sid ap) \<and>
      path_gate env ap (visible_roots db sid) up False = None) \<and>
    (cat = CatNeedGrant \<longrightarrow> plain_path ap \<and> \<not> in_scope env sid db ap \<and>
      path_gate env (if e_isdir env ap then path_join ap PROBE else ap) (visible_roots db sid) up False = None)"
proof -
  have ne: "path_comps ap \<noteq> []" if "plain_path ap"
    using that assms(3) by (metis abs_path_def canonical_def plain_path_def)
  have "plain_path ap \<and> (in_scope env sid db ap \<or> isabs raw \<and> own_output env sid ap) \<and>
      path_gate env ap (visible_roots db sid) up False = None" if "cat = CatOk"
  proof -
    from that assms(2) have res: "resolve_path env raw sid db = Inr ap"
      and g: "path_gate env ap (visible_roots db sid) up False = None"
      by (auto simp: classify_path_def Let_def split: sum.splits if_splits)
    have pl: "plain_path ap" using resolve_path_real [OF res] assms(1) by (auto simp: real_ok_def)
    from res have "in_scope env sid db ap \<or> isabs raw \<and> own_output env sid ap"
      using in_scope_iff [OF assms(1) pl ne [OF pl]] by (cases rule: resolve_path_cases) blast+
    with pl g show ?thesis by simp
  qed
  moreover have "plain_path ap \<and> \<not> in_scope env sid db ap \<and>
      path_gate env (if e_isdir env ap then path_join ap PROBE else ap) (visible_roots db sid) up False = None"
    if "cat = CatNeedGrant"
  proof -
    from that assms(2) obtain e a where res: "resolve_path env raw sid db = Inl e"
      and a: "anchor env raw sid db = Inr a" "ap = e_realpath env a"
      and g: "path_gate env (if e_isdir env ap then path_join ap PROBE else ap) (visible_roots db sid) up False = None"
      by (auto simp: classify_path_def Let_def split: sum.splits if_splits)
    have pl: "plain_path ap" using a assms(1) by (auto simp: real_ok_def)
    have "\<not> (\<exists>v\<in>set (load_visible db sid). scope_ok env ap v)"
      using res a by (auto simp: resolve_path_def Let_def anchor_def split: if_splits)
    with in_scope_iff [OF assms(1) pl ne [OF pl]] pl g show ?thesis by blast
  qed
  ultimately show ?thesis by blast
qed

section \<open>Properties\<close>

text \<open>
  C11. A path the tools accept for a session (\<open>paths.resolve\<close>, then \<open>ignore.gate\<close>) is the real path of the
  request, lies component-wise inside a resource of this very session (or in the session's own folder of
  tool results), and no layer of ignored paths matches it. A path offered for a grant is one that was not
  accepted, and no layer matches the path asked for or, for a directory, an entry of it.
\<close>

theorem classify_sound:
  assumes "real_ok env" "classify_path env up sid db raw = (cat, ap)" "ap \<noteq> ''/''"
  shows "(cat = CatOk \<longrightarrow> plain_path ap \<and> (in_scope env sid db ap \<or> isabs raw \<and> own_output env sid ap) \<and>
      path_gate env ap (visible_roots db sid) up False = None) \<and>
    (cat = CatNeedGrant \<longrightarrow> plain_path ap \<and> \<not> in_scope env sid db ap \<and>
      path_gate env (if e_isdir env ap then path_join ap PROBE else ap) (visible_roots db sid) up False = None)"
  using assms by (rule classify_cases)

definition demo_env :: fs_env where
  "demo_env = \<lparr>e_realpath = (\<lambda>p. if p \<in> set [''/work'', ''/work/a.txt'', ''/out/b''] then p else ''/tools''),
     e_isdir = (\<lambda>p. p = ''/work''), e_cwd = ''/'', e_match = (\<lambda>ls p. p = ''secret.key''),
     e_gitignore = (\<lambda>_. None), e_tool_root = ''/tools''\<rparr>"

definition demo_rows :: "visible_row list" where
  "demo_rows = [\<lparr>vr_session = ''s'', vr_path = ''/work'', vr_kind = ''folder'', vr_added_at = 0\<rparr>]"

theorem classify_sound_witness:
  "in_scope demo_env ''s'' demo_rows ''/work/a.txt'' \<and> \<not> in_scope demo_env ''s'' demo_rows ''/out/b''"
proof
  have "plain_path ''/work/a.txt'' \<and> plain_path ''/out/b'' \<and> plain_path ''/work'' \<and> plain_path ''/tools''" by code_simp
  then have ok: "real_ok demo_env" by (simp add: real_ok_def demo_env_def)
  have own: "\<not> own_output demo_env ''s'' ''/work/a.txt''" by code_simp
  have "classify_path demo_env [] ''s'' demo_rows ''a.txt'' = (CatOk, ''/work/a.txt'')" by code_simp
  from classify_sound [OF ok this] own show "in_scope demo_env ''s'' demo_rows ''/work/a.txt''" by simp
  have "classify_path demo_env [] ''s'' demo_rows ''/out/b'' = (CatNeedGrant, ''/out/b'')" by code_simp
  from classify_sound [OF ok this] show "\<not> in_scope demo_env ''s'' demo_rows ''/out/b''" by simp
qed

text \<open>
  The shell sandbox mounts what the session was given and nothing else: a mount is the real path of a
  visible resource of the session, mounted at its own place, and its path is not in a layer that cannot be
  overridden; a resource that is neither mounted nor below a mount was skipped for such a layer, or lies below
  a folder that was; mounted folders do not contain one another.
\<close>

theorem sandbox_mounts:
  "let view = build_view env sid db up; res = (\<lambda>(p, k). (e_realpath env p, k)) ` set (load_visible db sid)
   in (\<forall>(s, d)\<in>set (ro_binds view). s = d \<and>
         ((s, ''folder'') \<in> res \<and> \<not> is_gated env (s @ ''/'') up \<or> (s, ''file'') \<in> res \<and> \<not> is_gated env s up)) \<and>
      (\<forall>(r, k)\<in>res. k \<in> {''folder'', ''file''} \<longrightarrow>
         (\<exists>s\<in>fst ` set (ro_binds view) \<union> set (skipped view). under s r)) \<and>
      (\<forall>s\<in>set (skipped view). is_gated env s up \<or> is_gated env (s @ ''/'') up) \<and>
      (\<forall>(s, _)\<in>set (ro_binds view). \<forall>(t, _)\<in>set (ro_binds view).
         s \<noteq> t \<and> under s t \<longrightarrow> (s, ''file'') \<in> res)"
proof -
  define view where "view = build_view env sid db up"
  define rv where "rv = map (\<lambda>(p, k). (e_realpath env p, k)) (load_visible db sid)"
  define kept where "kept = keep_outermost [] (sort_key length (map fst (filter (\<lambda>v. snd v = ''folder'') rv)))"
  have binds: "set (ro_binds view) = (\<lambda>s. (s, s)) `
      ({s. (s, ''file'') \<in> set rv \<and> \<not> covered kept s \<and> \<not> is_gated env s up} \<union>
       {s. s \<in> set kept \<and> \<not> is_gated env (s @ ''/'') up})"
    and skip: "set (skipped view) = {s. (s, ''file'') \<in> set rv \<and> \<not> covered kept s \<and> is_gated env s up} \<union>
       {s. s \<in> set kept \<and> is_gated env (s @ ''/'') up}"
    unfolding view_def build_view_def Let_def rv_def [symmetric] kept_def [symmetric] add_files add_folders
    by (force simp: image_iff)+
  have kept_vis: "(f, ''folder'') \<in> set rv" if "f \<in> set kept" for f
    using keep_set [of "[]" "sort_key length (map fst (filter (\<lambda>v. snd v = ''folder'') rv))"] that
    by (auto simp: kept_def)
  have cov: "covered kept f" if "(f, ''folder'') \<in> set rv" for f
    using that unfolding kept_def by (intro keep_covers) force
  have ap: "a \<noteq> b \<Longrightarrow> a \<in> set kept \<Longrightarrow> b \<in> set kept \<Longrightarrow> \<not> under a b" for a b
    using keep_apart [of "[]" "sort_key length (map fst (filter (\<lambda>v. snd v = ''folder'') rv))"]
      apart_in [of kept a b] by (simp add: kept_def)
  have covers: "\<exists>s\<in>fst ` set (ro_binds view) \<union> set (skipped view). under s r" if "(r, k) \<in> set rv" "k \<in> {''folder'', ''file''}" for r k
  proof (cases "covered kept r")
    case True
    then obtain f where "f \<in> set kept" "under f r" by (auto simp: covered_under)
    then show ?thesis unfolding binds skip by (cases "is_gated env (f @ ''/'') up") (auto simp: image_image)
  next
    case False
    with that cov have "(r, ''file'') \<in> set rv" by auto
    moreover have "under r r" by (simp add: under_def)
    ultimately show ?thesis unfolding binds skip using False by (cases "is_gated env r up") (auto simp: image_image)
  qed
  have nested: "(s, ''file'') \<in> set rv" if "(s, s) \<in> set (ro_binds view)" "(t, t) \<in> set (ro_binds view)"
    "s \<noteq> t" "under s t" for s t
  proof (rule ccontr)
    assume n: "(s, ''file'') \<notin> set rv"
    with that(1) have s: "s \<in> set kept" by (auto simp: binds)
    with that(4) have "covered kept t" by (auto simp: covered_under)
    with that(2) have "t \<in> set kept" by (auto simp: binds)
    with ap s that(3,4) show False by blast
  qed
  have diag: "d = s" if "(s, d) \<in> set (ro_binds view)" for s d using that by (auto simp: binds)
  have mount: "s = d \<and> ((s, ''folder'') \<in> set rv \<and> \<not> is_gated env (s @ ''/'') up \<or>
      (s, ''file'') \<in> set rv \<and> \<not> is_gated env s up)" if "(s, d) \<in> set (ro_binds view)" for s d
    using that kept_vis by (auto simp: binds)
  have skips: "is_gated env s up \<or> is_gated env (s @ ''/'') up" if "s \<in> set (skipped view)" for s
    using that by (auto simp: skip)
  have rv: "(\<lambda>(p, k). (e_realpath env p, k)) ` set (load_visible db sid) = set rv" by (simp add: rv_def)
  show ?thesis
    unfolding Let_def view_def [symmetric] rv
    using covers mount skips nested diag by (intro conjI ballI) blast+
qed

theorem sandbox_mounts_witness:
  "ro_binds (build_view demo_env ''s'' demo_rows []) = [(''/work'', ''/work'')] \<and>
   (''/work'', ''folder'') \<in> (\<lambda>(p, k). (e_realpath demo_env p, k)) ` set (load_visible demo_rows ''s'')"
proof -
  have b: "ro_binds (build_view demo_env ''s'' demo_rows []) = [(''/work'', ''/work'')]" by code_simp
  have n: "(''/work'', ''file'') \<notin> (\<lambda>(p, k). (e_realpath demo_env p, k)) ` set (load_visible demo_rows ''s'')"
    by (simp add: demo_env_def demo_rows_def load_visible_def)
  show ?thesis using sandbox_mounts [of demo_env "''s''" demo_rows "[]"] b n by (simp add: Let_def)
qed

end
