(* ===== verification/Preauth.thy ===== *)
theory Preauth
  imports Task_Gate Fs_Scope
begin

text \<open>
  \<open>agent/tasks/preauth.py\<close> and \<open>agent/tasks/grants.py\<close>: what a task's author allows an unattended
  run to do. \<open>parse_with_report\<close> normalises an untrusted document, \<open>fold_denied\<close> adds a denied
  action to it, \<open>grant_fs\<close> and \<open>grant_egress\<close> apply it when a run starts. A document is a list of
  buckets in the order of the source. Parameters: \<open>json.loads\<close>, \<open>os.path.isfile\<close>,
  \<open>os.path.isdir\<close>, \<open>os.path.realpath\<close> and the egress proxy's \<open>register_grant\<close>.
\<close>

section \<open>Normalisation\<close>

type_synonym preauth_doc = "(string \<times> pyval list) list"

definition STRING_LIST_FIELDS :: "string list" where
  "STRING_LIST_FIELDS = [''egress_domains'', ''mcp_tools'', ''fs_write'', ''scripts'']"

definition ABSOLUTE_PATH_FIELDS :: "string list" where
  "ABSOLUTE_PATH_FIELDS = [''scripts'']"

definition SHELL_KINDS :: "pyval list" where
  "SHELL_KINDS = [PStr ''prefix'']"

definition REJECTED_SHELL_KINDS :: "pyval list" where
  "REJECTED_SHELL_KINDS = [PStr ''regex'']"

record preauth_report =
  truncated :: "(string \<times> nat \<times> nat) list"
  rejected_rules :: "(string \<times> string \<times> string) list"

definition shell_rule :: "pyval \<Rightarrow> string \<Rightarrow> pyval" where
  "shell_rule kind v = PDict [(''kind'', kind), (''value'', PStr v)]"

text \<open>One item of the \<open>shell\<close> list: the kept rule, the reported one.\<close>

definition shell_item :: "pyval \<Rightarrow> pyval list \<times> (string \<times> string \<times> string) list" where
  "shell_item item = (case item of
     PDict d \<Rightarrow> (case pget d ''value'' of
         PStr v \<Rightarrow>
           if v = [] then ([], [])
           else if pget d ''kind'' \<in> set REJECTED_SHELL_KINDS
             then ([], [(''shell'', v, ''regex_rules_not_supported'')])
           else if pget d ''kind'' \<notin> set SHELL_KINDS then ([], [])
           else ([shell_rule (pget d ''kind'') v], [])
       | _ \<Rightarrow> ([], []))
   | _ \<Rightarrow> ([], []))"

definition string_item :: "string \<Rightarrow> pyval \<Rightarrow> pyval list \<times> (string \<times> string \<times> string) list" where
  "string_item field value = (case value of
     PStr v \<Rightarrow>
       if v = [] then ([], [])
       else if field \<in> set ABSOLUTE_PATH_FIELDS \<and> \<not> startswith v ''/''
         then ([], [(field, v, ''path_must_be_absolute'')])
       else ([value], [])
   | _ \<Rightarrow> ([], []))"

text \<open>A bucket of the raw document; a value that is not a list contributes nothing.\<close>

definition bucket_items ::
  "(pyval \<Rightarrow> pyval list \<times> (string \<times> string \<times> string) list) \<Rightarrow> pyval \<Rightarrow>
   pyval list \<times> (string \<times> string \<times> string) list" where
  "bucket_items f v = (case v of
     PList xs \<Rightarrow> (concat (map (fst \<circ> f) xs), concat (map (snd \<circ> f) xs))
   | _ \<Rightarrow> ([], []))"

definition PREAUTH_FIELDS :: "string list" where
  "PREAUTH_FIELDS = ''shell'' # STRING_LIST_FIELDS"

definition item_of :: "string \<Rightarrow> pyval \<Rightarrow> pyval list \<times> (string \<times> string \<times> string) list" where
  "item_of field = (if field = ''shell'' then shell_item else string_item field)"

definition raw_fields :: "(string \<Rightarrow> pyval option) \<Rightarrow> pyval \<Rightarrow> (string \<times> pyval) list" where
  "raw_fields loads preauth_json =
     (let v = (case preauth_json of PStr s \<Rightarrow> (case loads s of Some x \<Rightarrow> x | None \<Rightarrow> PDict []) | x \<Rightarrow> x)
      in case v of PDict d \<Rightarrow> d | _ \<Rightarrow> [])"

definition gather ::
  "(string \<times> pyval) list \<Rightarrow> (string \<times> pyval list \<times> (string \<times> string \<times> string) list) list" where
  "gather raw = map (\<lambda>f. (f, bucket_items (item_of f) (pget raw f))) PREAUTH_FIELDS"

definition parse_with_report :: "(string \<Rightarrow> pyval option) \<Rightarrow> pyval \<Rightarrow> preauth_doc \<times> preauth_report" where
  "parse_with_report loads preauth_json =
     (let got = gather (raw_fields loads preauth_json)
      in (map (\<lambda>(f, items). (f, take MAX_RULES (fst items))) got,
          \<lparr>truncated = map (\<lambda>(f, items). (f, MAX_RULES, length (fst items) - MAX_RULES))
             (filter (\<lambda>(f, items). length (fst items) > MAX_RULES) got),
           rejected_rules = concat (map (\<lambda>(f, items). snd items) got)\<rparr>))"

definition parse :: "(string \<Rightarrow> pyval option) \<Rightarrow> pyval \<Rightarrow> preauth_doc" where
  "parse loads preauth_json = fst (parse_with_report loads preauth_json)"

section \<open>Adopting a denied action\<close>

datatype fold_error = FoldError string | BucketMissing string

text \<open>\<open>if entry not in out[bucket]: out[bucket].append(entry)\<close>\<close>

definition bucket_add :: "preauth_doc \<Rightarrow> string \<Rightarrow> pyval \<Rightarrow> fold_error + (preauth_doc \<times> string \<times> pyval)" where
  "bucket_add out bucket entry = (case map_of out bucket of
     None \<Rightarrow> Inl (BucketMissing bucket)
   | Some xs \<Rightarrow> Inr (if entry \<in> set xs then out else dput bucket (xs @ [entry]) out, bucket, entry))"

definition action_detail :: "(string \<times> pyval) list \<Rightarrow> string" where
  "action_detail action = str_val (py_or (pget action ''detail'') (PStr []))"

definition fold_fs ::
  "resolver \<Rightarrow> (string \<Rightarrow> bool) \<Rightarrow> preauth_doc \<Rightarrow> string \<Rightarrow> fold_error + (preauth_doc \<times> string \<times> pyval)" where
  "fold_fs realpath isfile doc detail =
     (let entry = (if isfile detail then dirname detail else detail) in
      if \<not> startswith entry ''/'' then Inl (FoldError ''bad_fs_write'')
      else case realpath entry of
          None \<Rightarrow> Inl (FoldError ''bad_fs_write'')
        | Some real \<Rightarrow> if fs_root_denied real then Inl (FoldError ''bad_fs_write'')
                       else bucket_add doc ''fs_write'' (PStr entry))"

definition head_rule :: "string \<Rightarrow> pyval" where
  "head_rule raw_detail =
     (let parts = split_ws (py_strip raw_detail);
          lead = takeWhile py_isspace raw_detail
      in shell_rule (PStr ''prefix'') (lead @ hd parts @ (if length parts = 1 then [] else '' '')))"

definition fold_shell ::
  "resolver \<Rightarrow> preauth_doc \<Rightarrow> string \<Rightarrow> fold_error + (preauth_doc \<times> string \<times> pyval)" where
  "fold_shell realpath doc raw_detail =
     (let script = script_run_target raw_detail in
      if script \<noteq> [] then bucket_add doc ''scripts'' (PStr script)
      else let entry = head_rule raw_detail in
        if \<not> run_allowlist_would_cover realpath None raw_detail [entry]
        then Inl (FoldError ''shell_rule_would_not_apply'')
        else bucket_add doc ''shell'' entry)"

definition fold_denied ::
  "resolver \<Rightarrow> (string \<Rightarrow> bool) \<Rightarrow> preauth_doc \<Rightarrow> (string \<times> pyval) list \<Rightarrow>
   fold_error + (preauth_doc \<times> string \<times> pyval)" where
  "fold_denied realpath isfile doc action =
     (let kind = str_val (py_or (pget action ''kind'') (PStr []));
          raw_detail = action_detail action;
          detail = py_strip raw_detail in
      if detail = [] then Inl (FoldError ''empty_detail'')
      else if kind = ''egress'' then
        (if strip_port detail = [] then Inl (FoldError ''empty_detail'')
         else bucket_add doc ''egress_domains'' (PStr (strip_port detail)))
      else if kind = ''fs'' then fold_fs realpath isfile doc detail
      else if kind = ''mcp_tool'' then bucket_add doc ''mcp_tools'' (PStr detail)
      else if kind = ''shell'' then fold_shell realpath doc raw_detail
      else Inl (FoldError ''unsupported_kind''))"

section \<open>Applying a document to a run\<close>

definition grantable_dir :: "(string \<Rightarrow> bool) \<Rightarrow> pyval \<Rightarrow> bool" where
  "grantable_dir isdir path = (case path of PStr p \<Rightarrow> p \<noteq> [] \<and> isabs p \<and> isdir p | _ \<Rightarrow> False)"

definition grant_fs ::
  "(string \<Rightarrow> bool) \<Rightarrow> int \<Rightarrow> visible_row list \<Rightarrow> string \<Rightarrow> pyval list \<Rightarrow> nat \<times> visible_row list" where
  "grant_fs isdir now tbl session_id paths =
     (let good = filter (grantable_dir isdir) paths in
      (length good,
       foldl (\<lambda>rs p. insert_visible rs \<lparr>vr_session = session_id, vr_path = str_val p,
           vr_kind = ''folder'', vr_added_at = now\<rparr>) tbl good))"

text \<open>
  \<open>register\<close> is the call to the egress proxy for a host, with the byte budget and the time to live
  of the source; \<open>None\<close> when it raises.
\<close>

definition grant_egress :: "(string \<Rightarrow> bool option) \<Rightarrow> pyval list \<Rightarrow> (string \<times> bool) list" where
  "grant_egress register domains =
     foldl (\<lambda>results d. case d of
         PStr domain \<Rightarrow>
           if domain = [] then results
           else let host = (if CHR '':'' \<in> set domain then before_last (CHR '':'') domain else domain)
             in dput domain (register host = Some True) results
       | _ \<Rightarrow> results) [] domains"

section \<open>Well-formed documents\<close>

definition entry_ok :: "string \<Rightarrow> pyval \<Rightarrow> bool" where
  "entry_ok field x =
     (if field = ''shell''
      then (case x of PDict d \<Rightarrow> (case pget d ''value'' of
              PStr v \<Rightarrow> v \<noteq> [] \<and> x = shell_rule (PStr ''prefix'') v | _ \<Rightarrow> False) | _ \<Rightarrow> False)
      else (case x of PStr v \<Rightarrow> v \<noteq> [] \<and> (field = ''scripts'' \<longrightarrow> startswith v ''/'') | _ \<Rightarrow> False))"

definition preauth_ok :: "preauth_doc \<Rightarrow> bool" where
  "preauth_ok doc \<longleftrightarrow> map fst doc = PREAUTH_FIELDS \<and>
     (\<forall>(f, xs)\<in>set doc. length xs \<le> MAX_RULES \<and> (\<forall>x\<in>set xs. entry_ok f x))"

definition doc_val :: "preauth_doc \<Rightarrow> pyval" where
  "doc_val doc = PDict (map (\<lambda>(f, xs). (f, PList xs)) doc)"

lemma item_of_kept: "x \<in> set (fst (item_of f v)) \<Longrightarrow> entry_ok f x"
  by (auto simp: item_of_def shell_item_def string_item_def entry_ok_def shell_rule_def SHELL_KINDS_def
      ABSOLUTE_PATH_FIELDS_def split: if_splits pyval.splits)

lemma item_of_ok: "entry_ok f x \<Longrightarrow> item_of f x = ([x], [])"
  by (auto simp: item_of_def shell_item_def string_item_def entry_ok_def shell_rule_def SHELL_KINDS_def
      REJECTED_SHELL_KINDS_def ABSOLUTE_PATH_FIELDS_def split: if_splits pyval.splits)

lemma bucket_items_kept: "x \<in> set (fst (bucket_items (item_of f) v)) \<Longrightarrow> entry_ok f x"
  by (cases v) (auto simp: bucket_items_def dest: item_of_kept)

lemma bucket_items_ok:
  assumes "\<forall>x\<in>set xs. entry_ok f x"
  shows "bucket_items (item_of f) (PList xs) = (xs, [])"
proof -
  have "concat (map (fst \<circ> item_of f) xs) = xs" "concat (map (snd \<circ> item_of f) xs) = []"
    using assms by (induction xs) (auto simp: item_of_ok)
  then show ?thesis by (simp add: bucket_items_def)
qed

lemma preauth_fields_distinct: "distinct PREAUTH_FIELDS"
  by (simp add: PREAUTH_FIELDS_def STRING_LIST_FIELDS_def)

lemma parse_ok: "preauth_ok (parse loads v)"
  by (auto simp: parse_def parse_with_report_def preauth_ok_def gather_def Let_def comp_def
      dest!: in_set_takeD bucket_items_kept)

lemma preauth_ok_bucket:
  "preauth_ok doc \<Longrightarrow> map_of doc f = Some xs \<Longrightarrow> length xs \<le> MAX_RULES \<and> (\<forall>x\<in>set xs. entry_ok f x)"
  by (auto simp: preauth_ok_def dest!: map_of_SomeD)

lemma pget_doc: "pget (map (\<lambda>(f, xs). (f, PList xs)) doc) f =
    (case map_of doc f of None \<Rightarrow> PNone | Some xs \<Rightarrow> PList xs)"
  by (induction doc) auto

lemma parse_id:
  assumes "preauth_ok doc"
  shows "parse_with_report loads (doc_val doc) = (doc, \<lparr>truncated = [], rejected_rules = []\<rparr>)"
proof -
  have keys: "map fst doc = PREAUTH_FIELDS" using assms by (simp add: preauth_ok_def)
  have got: "gather (map (\<lambda>(f, xs). (f, PList xs)) doc) = map (\<lambda>(f, xs). (f, xs, [])) doc"
  proof -
    have "bucket_items (item_of f) (pget (map (\<lambda>(f, xs). (f, PList xs)) doc) f) = (xs, [])"
      if mem: "(f, xs) \<in> set doc" for f xs
    proof -
      have m: "map_of doc f = Some xs" using mem keys preauth_fields_distinct by (simp add: map_of_is_SomeI)
      with preauth_ok_bucket [OF assms m] show ?thesis by (simp add: pget_doc bucket_items_ok)
    qed
    then show ?thesis unfolding gather_def keys [symmetric] by auto
  qed
  have short: "length xs \<le> MAX_RULES" if "(f, xs) \<in> set doc" for f xs
    using that assms by (auto simp: preauth_ok_def)
  have raw: "raw_fields loads (doc_val doc) = map (\<lambda>(f, xs). (f, PList xs)) doc"
    by (simp add: raw_fields_def doc_val_def)
  have kept: "map (\<lambda>(f, items). (f, take MAX_RULES (fst items))) (map (\<lambda>(f, xs). (f, xs, [])) doc) = doc"
    using short by (simp add: comp_def case_prod_unfold) (auto intro!: map_idI)
  have long: "filter (\<lambda>(f, items). length (fst items) > MAX_RULES) (map (\<lambda>(f, xs). (f, xs, [])) doc) = []"
    using short by (fastforce simp: filter_empty_conv)
  have rej: "concat (map (\<lambda>(f, items). snd items) (map (\<lambda>(f, xs). (f, xs, [])) doc)) = []"
    by auto
  show ?thesis unfolding parse_with_report_def raw got Let_def kept long rej by simp
qed

section \<open>What adopting does\<close>

lemma bucket_addE:
  assumes "bucket_add doc b e = Inr (out, bucket, entry)"
  obtains xs where "map_of doc b = Some xs" "bucket = b" "entry = e"
    "out = (if e \<in> set xs then doc else dput b (xs @ [e]) doc)"
  using assms by (auto simp: bucket_add_def split: option.splits)

text \<open>Which entry can come out for which bucket.\<close>

definition adoptable :: "resolver \<Rightarrow> string \<Rightarrow> string \<Rightarrow> pyval \<Rightarrow> bool" where
  "adoptable realpath raw_detail bucket entry =
     (if bucket = ''shell'' then entry = head_rule raw_detail \<and>
        run_allowlist_would_cover realpath None raw_detail [entry]
      else if bucket = ''fs_write'' then (case entry of PStr e \<Rightarrow> startswith e ''/'' \<and>
        (case realpath e of None \<Rightarrow> False | Some r \<Rightarrow> \<not> fs_root_denied r) | _ \<Rightarrow> False)
      else if bucket = ''scripts'' then entry = PStr (script_run_target raw_detail) \<and> script_run_target raw_detail \<noteq> []
      else if bucket = ''egress_domains'' then entry = PStr (strip_port (py_strip raw_detail)) \<and>
        strip_port (py_strip raw_detail) \<noteq> []
      else bucket = ''mcp_tools'' \<and> entry = PStr (py_strip raw_detail) \<and> py_strip raw_detail \<noteq> [])"

definition adopts ::
  "resolver \<Rightarrow> preauth_doc \<Rightarrow> string \<Rightarrow> fold_error + (preauth_doc \<times> string \<times> pyval) \<Rightarrow> bool" where
  "adopts realpath doc raw_detail res = (case res of Inl _ \<Rightarrow> True
     | Inr (out, bucket, entry) \<Rightarrow> bucket_add doc bucket entry = res \<and> adoptable realpath raw_detail bucket entry)"

lemma adopts_add: "adoptable realpath raw b e \<Longrightarrow> adopts realpath doc raw (bucket_add doc b e)"
  by (auto simp: adopts_def bucket_add_def split: option.splits)

lemma adopts_Inl [simp]: "adopts realpath doc raw (Inl x)"
  by (simp add: adopts_def)

lemma adopts_fs: "adopts realpath doc raw (fold_fs realpath isfile doc detail)"
  by (auto simp: fold_fs_def Let_def adoptable_def intro!: adopts_add split: option.splits)

lemma adopts_shell: "adopts realpath doc raw (fold_shell realpath doc raw)"
  by (auto simp: fold_shell_def Let_def adoptable_def intro!: adopts_add)

lemma fold_denied_adopts: "adopts realpath doc (action_detail action) (fold_denied realpath isfile doc action)"
  unfolding fold_denied_def Let_def
  using adopts_fs adopts_shell by (auto simp: adoptable_def intro!: adopts_add)

lemma shell_match_mono:
  "shell_match [e] command \<Longrightarrow> e \<in> set (take MAX_RULES rules) \<Longrightarrow> shell_match rules command"
  by (auto simp: shell_match_def MAX_RULES_def)

lemma would_cover_mono:
  assumes "run_allowlist_would_cover realpath cwd command [e]" "e \<in> set (take MAX_RULES rules)"
  shows "run_allowlist_would_cover realpath cwd command rules"
proof -
  have ne: "rules \<noteq> []" using assms(2) by auto
  have mono: "run_allowlist_match rules command d" if m: "run_allowlist_match [e] command d" for d
  proof -
    obtain seg where seg: "segments command = Some [seg]"
      using run_rules.one_segment [OF m] by (auto simp: single_simple_def)
    with m have "shell_match [e] command" by (simp add: run_allowlist_match_def Let_def)
    then have "shell_match rules command" using assms(2) by (rule shell_match_mono)
    with m seg ne show ?thesis by (simp add: run_allowlist_match_def Let_def)
  qed
  show ?thesis
    using assms(1) mono unfolding run_allowlist_would_cover_def Let_def by presburger
qed

section \<open>Properties\<close>

text \<open>
  C32. Normalising a preauthorisation document is a retraction onto the well-formed ones: whatever
  value comes in, the result has exactly the five buckets, at most 64 entries in each, only
  non-empty prefix rules in \<open>shell\<close>, only non-empty strings elsewhere and only absolute paths in
  \<open>scripts\<close>; and a document is returned unchanged, with nothing reported, exactly when it already
  was like that.
\<close>

theorem preauth_retraction:
  "preauth_ok (parse loads v) \<and>
   (parse_with_report loads (doc_val doc) = (doc, \<lparr>truncated = [], rejected_rules = []\<rparr>) \<longleftrightarrow> preauth_ok doc)"
  using parse_ok parse_id by (metis fst_conv parse_def)

text \<open>
  Adopting a denied action grows exactly one bucket by exactly the entry returned: every other
  bucket and every earlier entry stays, the keys stay, and what is added is either a root that
  does not resolve to a forbidden location, the interpreter script that was run, a bare host, the
  tool, or a shell rule.
\<close>

theorem fold_denied_grows:
  assumes "fold_denied realpath isfile doc action = Inr (out, bucket, entry)"
  shows "map fst out = map fst doc \<and>
    (\<exists>xs. map_of doc bucket = Some xs \<and>
       map_of out = (map_of doc)(bucket \<mapsto> if entry \<in> set xs then xs else xs @ [entry])) \<and>
    adoptable realpath (action_detail action) bucket entry"
proof -
  have a: "bucket_add doc bucket entry = Inr (out, bucket, entry)"
    "adoptable realpath (action_detail action) bucket entry"
    using fold_denied_adopts [of realpath doc action isfile] assms by (simp_all add: adopts_def)
  from a(1) obtain xs where xs: "map_of doc bucket = Some xs"
    "out = (if entry \<in> set xs then doc else dput bucket (xs @ [entry]) doc)"
    by (rule bucket_addE)
  then have "map fst (dput bucket (xs @ [entry]) doc) = map fst doc"
    by (intro dput_keys_present)
  with xs a(2) show ?thesis by (auto simp: fun_upd_idem)
qed

theorem fold_denied_grows_witness:
  "let doc = parse (\<lambda>_. None) PNone;
       act = [(''kind'', PStr ''fs''), (''detail'', PStr ''/DATA/reports/may.txt'')]
   in fold_denied Some (\<lambda>p. p = ''/DATA/reports/may.txt'') doc act =
        Inr (dput ''fs_write'' [PStr ''/DATA/reports''] doc, ''fs_write'', PStr ''/DATA/reports'') \<and>
      adoptable Some (action_detail act) ''fs_write'' (PStr ''/DATA/reports'')"
proof -
  let ?doc = "parse (\<lambda>_. None) PNone"
    and ?act = "[(''kind'', PStr ''fs''), (''detail'', PStr ''/DATA/reports/may.txt'')]"
  have f: "fold_denied Some (\<lambda>p. p = ''/DATA/reports/may.txt'') ?doc ?act =
      Inr (dput ''fs_write'' [PStr ''/DATA/reports''] ?doc, ''fs_write'', PStr ''/DATA/reports'')"
    by code_simp
  with fold_denied_grows [OF f] show ?thesis by (simp add: Let_def)
qed

text \<open>
  An adopted shell rule is never a no-op: when a denied command is turned into a prefix rule
  and the bucket still has room for it, the run gate covers that very command under the new
  document.
\<close>

theorem folded_shell_rule_applies:
  assumes "fold_denied realpath isfile doc action = Inr (out, ''shell'', entry)"
    and "map_of out ''shell'' = Some rules" "length rules \<le> MAX_RULES"
  shows "run_allowlist_would_cover realpath None (action_detail action) rules"
proof -
  have a: "bucket_add doc ''shell'' entry = Inr (out, ''shell'', entry)"
    "run_allowlist_would_cover realpath None (action_detail action) [entry]"
    using fold_denied_adopts [of realpath doc action isfile] unfolding assms(1)
    by (auto simp: adopts_def adoptable_def)
  from a(1) have "entry \<in> set rules"
    by (rule bucket_addE) (use assms(2) in \<open>auto split: if_splits\<close>)
  with assms(3) have "entry \<in> set (take MAX_RULES rules)" by simp
  with a(2) show ?thesis by (rule would_cover_mono)
qed

theorem folded_shell_rule_applies_witness:
  "run_allowlist_would_cover Some None ''lark-cli mail list'' [shell_rule (PStr ''prefix'') ''lark-cli '']"
proof -
  let ?doc = "parse (\<lambda>_. None) PNone"
    and ?act = "[(''kind'', PStr ''shell''), (''detail'', PStr ''lark-cli mail list'')]"
  let ?e = "shell_rule (PStr ''prefix'') ''lark-cli ''"
  have f: "fold_denied Some (\<lambda>_. False) ?doc ?act = Inr (dput ''shell'' [?e] ?doc, ''shell'', ?e)"
    by code_simp
  have m: "map_of (dput ''shell'' [?e] ?doc) ''shell'' = Some [?e]" by simp
  from folded_shell_rule_applies [OF f m] show ?thesis
    by (simp add: action_detail_def py_or_def str_val_def MAX_RULES_def)
qed

definition visible :: "visible_row list \<Rightarrow> (string \<times> string) set" where
  "visible tbl = (\<lambda>r. (vr_session r, vr_path r)) ` set tbl"

definition dir_row :: "int \<Rightarrow> string \<Rightarrow> pyval \<Rightarrow> visible_row" where
  "dir_row now sid p = \<lparr>vr_session = sid, vr_path = str_val p, vr_kind = ''folder'', vr_added_at = now\<rparr>"

lemma insert_visible_if:
  "insert_visible tbl r = (if (vr_session r, vr_path r) \<in> visible tbl then tbl else tbl @ [r])"
proof -
  have "(\<exists>x\<in>set tbl. vr_session x = vr_session r \<and> vr_path x = vr_path r) \<longleftrightarrow>
      (vr_session r, vr_path r) \<in> visible tbl"
    unfolding visible_def image_iff by (intro bex_cong refl) auto
  then show ?thesis by (simp add: insert_visible_def)
qed

lemma insert_visible_set: "visible (insert_visible tbl r) = insert (vr_session r, vr_path r) (visible tbl)"
  by (auto simp: insert_visible_if) (simp_all add: visible_def)

lemma insert_visible_prefix: "prefix tbl (insert_visible tbl r)"
  by (simp add: insert_visible_def)

lemma insert_visible_known: "(vr_session r, vr_path r) \<in> visible tbl \<Longrightarrow> insert_visible tbl r = tbl"
  by (simp add: insert_visible_if)

lemma foldl_insert_visible:
  "visible (foldl (\<lambda>rs p. insert_visible rs (dir_row now sid p)) tbl ps) =
     visible tbl \<union> {(sid, str_val p) | p. p \<in> set ps}"
  "prefix tbl (foldl (\<lambda>rs p. insert_visible rs (dir_row now sid p)) tbl ps)"
proof (induction ps arbitrary: tbl)
  case (Cons p ps)
  {
    case 1
    then show ?case using Cons(1) [of "insert_visible tbl (dir_row now sid p)"]
      by (auto simp: insert_visible_set dir_row_def)
  next
    case 2
    then show ?case
      using Cons(2) [of "insert_visible tbl (dir_row now sid p)"] insert_visible_prefix [of tbl "dir_row now sid p"]
      by (auto intro: prefix_order.trans)
  }
qed simp_all

lemma foldl_insert_known:
  "{(sid, str_val p) | p. p \<in> set ps} \<subseteq> visible tbl \<Longrightarrow>
   foldl (\<lambda>rs p. insert_visible rs (dir_row now sid p)) tbl ps = tbl"
proof (induction ps)
  case (Cons p ps)
  then have "insert_visible tbl (dir_row now sid p) = tbl"
    by (intro insert_visible_known) (auto simp: dir_row_def)
  moreover have "{(sid, str_val p) | p. p \<in> set ps} \<subseteq> visible tbl" using Cons.prems by auto
  ultimately show ?case using Cons.IH by simp
qed simp

text \<open>
  Granting a run its directories: afterwards the session sees exactly what it saw before and
  the listed absolute existing directories; no row that was there changes or disappears, other
  sessions see what they saw, and granting again adds nothing.
\<close>

theorem grant_fs_exact:
  "visible (snd (grant_fs isdir now tbl sid paths)) =
     visible tbl \<union> {(sid, p) | p. PStr p \<in> set paths \<and> p \<noteq> [] \<and> isabs p \<and> isdir p} \<and>
   prefix tbl (snd (grant_fs isdir now tbl sid paths)) \<and>
   snd (grant_fs isdir later (snd (grant_fs isdir now tbl sid paths)) sid paths) =
     snd (grant_fs isdir now tbl sid paths)"
proof -
  let ?good = "filter (grantable_dir isdir) paths"
  have g: "snd (grant_fs isdir t tb sid paths) = foldl (\<lambda>rs p. insert_visible rs (dir_row t sid p)) tb ?good"
    for t tb by (simp add: grant_fs_def dir_row_def Let_def)
  have "{(sid, str_val p) | p. p \<in> set ?good} = {(sid, p) | p. PStr p \<in> set paths \<and> p \<noteq> [] \<and> isabs p \<and> isdir p}"
    by (force simp: grantable_dir_def str_val_def type_tests)
  then show ?thesis
    unfolding g using foldl_insert_visible [where now = now and sid = sid and tbl = tbl and ps = ?good] foldl_insert_known [where sid = sid and ps = ?good] by simp
qed

end
