(* ===== verification/Task_Driver.thy ===== *)
theory Task_Driver
  imports Preauth Confirm
begin

text \<open>
  \<open>TaskRunDriver\<close> of \<open>agent/tasks/driver.py\<close>: it answers the confirmation cards of an unattended
  run from the task's preauthorisation document and the permission policy, folds the event stream
  into a result, and at the end releases whatever is still pending. The driver's attributes are a
  record; what it is constructed with is the record \<open>drv_cfg\<close>. \<open>drive\<close> reads a feed: events, the
  deadline, and the steps of the other coroutines between two events (tools that register and
  wake up, escalations that finish). A feed that ends first means the run is still going
  (\<open>None\<close>). An exception of the source is the outcome \<open>Raised\<close>.
\<close>

section \<open>State\<close>

type_synonym event = "(string \<times> pyval) list"

record run_rec =
  r_kind :: pyval
  r_detail :: string
  r_channel :: bool
  r_persisted :: bool

record drv_cfg =
  c_session :: string
  c_preauth :: "(string \<times> pyval) list"
  c_policy :: pyval
  c_escalates :: bool
  c_realpath :: resolver
  c_audit_ok :: bool

record driver =
  d_mgr :: confirm_mgr
  d_final :: pyval
  d_delta :: string
  d_error :: pyval
  d_hard :: bool
  d_denied :: "run_rec list"
  d_auto :: "run_rec list"
  d_escalations :: "(event \<times> run_rec) list"

definition drv_init :: "confirm_mgr \<Rightarrow> driver" where
  "drv_init m = \<lparr>d_mgr = m, d_final = PStr [], d_delta = [], d_error = PStr [], d_hard = False,
     d_denied = [], d_auto = [], d_escalations = []\<rparr>"

definition CONFIRM_TYPES :: "pyval list" where
  "CONFIRM_TYPES = [PStr ''access_request'', PStr ''confirmation_required'']"

section \<open>Deciding a card\<close>

definition event_paths :: "event \<Rightarrow> pyval list" where
  "event_paths ev = (case pget ev ''paths'' of
     PList (p # ps) \<Rightarrow> p # ps | _ \<Rightarrow> [py_or (pget ev ''path'') (PStr [])])"

definition policy_allows :: "drv_cfg \<Rightarrow> event \<Rightarrow> bool" where
  "policy_allows cfg ev = (case c_policy cfg of
     PDict pol \<Rightarrow> (case gate_of_event (PDict ev) of
         None \<Rightarrow> False
       | Some (gate, level) \<Rightarrow>
           if gate = Some ''fs_access'' \<and> \<not> paths_policy_grantable (c_realpath cfg) (PList (event_paths ev))
           then False
           else decide (PDict pol) gate level ''task'')
   | _ \<Rightarrow> False)"

definition preauth_list :: "drv_cfg \<Rightarrow> string \<Rightarrow> pyval" where
  "preauth_list cfg k = py_or (pget (c_preauth cfg) k) (PList [])"

text \<open>The pair is the answer and the offending path; \<open>None\<close> is an exception.\<close>

definition decide_ev :: "drv_cfg \<Rightarrow> event \<Rightarrow> (bool \<times> string) option" where
  "decide_ev cfg ev =
     (let kind = kind_of ev in
      if kind = KIND_EGRESS then
        (case egress_allowed (py_or (pget ev ''host'') (PStr [])) (preauth_list cfg ''egress_domains'') of
           None \<Rightarrow> None
         | Some True \<Rightarrow> Some (True, [])
         | Some False \<Rightarrow> Some (policy_allows cfg ev, []))
      else if kind = KIND_FS then
        (case List.find (\<lambda>p. \<not> fs_allowed (c_realpath cfg) p (preauth_list cfg ''fs_write'')) (event_paths ev) of
           None \<Rightarrow> Some (True, [])
         | Some p \<Rightarrow>
             (let allowed = policy_allows cfg ev in
              Some (allowed, if allowed then [] else case p of PStr s \<Rightarrow> s | _ \<Rightarrow> [])))
      else Some (policy_allows cfg ev, []))"

section \<open>Handling a card\<close>

definition gateable :: "event \<Rightarrow> bool" where
  "gateable ev = (case gate_of_event (PDict ev) of Some (gate, _) \<Rightarrow> gate \<noteq> None | None \<Rightarrow> False)"

text \<open>\<open>self._mgr.resolve\<close>; an id that is not a string is never pending.\<close>

definition drv_resolve :: "drv_cfg \<Rightarrow> confirm_mgr \<Rightarrow> pyval \<Rightarrow> bool \<Rightarrow> confirm_mgr option" where
  "drv_resolve cfg m cid approve = (case cid of
     PStr c \<Rightarrow> (case Confirm.resolve m (c_audit_ok cfg) c approve False (Some (c_session cfg)) None None
                       ''task-driver'' of Inr m' \<Rightarrow> Some m' | Inl _ \<Rightarrow> None)
   | _ \<Rightarrow> None)"

definition mk_rec :: "drv_cfg \<Rightarrow> event \<Rightarrow> bool \<times> run_rec" where
  "mk_rec cfg ev = (case decide_ev cfg ev of
     None \<Rightarrow> (False, \<lparr>r_kind = kind_of ev, r_detail = [], r_channel = False, r_persisted = False\<rparr>)
   | Some (approve, offending) \<Rightarrow>
       (approve, \<lparr>r_kind = kind_of ev, r_detail = (if offending \<noteq> [] then offending else detail_of ev),
                  r_channel = False, r_persisted = False\<rparr>))"

definition handle_confirm :: "drv_cfg \<Rightarrow> driver \<Rightarrow> event \<Rightarrow> driver" where
  "handle_confirm cfg drv ev =
     (let (approve, rec) = mk_rec cfg ev; cid = pget ev ''confirm_id'' in
      if \<not> approve \<and> truthy cid \<and> c_escalates cfg \<and> gateable ev
        then drv\<lparr>d_escalations := d_escalations drv @ [(ev, rec)]\<rparr>
      else if \<not> truthy cid then drv\<lparr>d_denied := d_denied drv @ [rec]\<rparr>
      else case drv_resolve cfg (d_mgr drv) cid approve of
        None \<Rightarrow> drv\<lparr>d_denied := d_denied drv @ [rec]\<rparr>
      | Some m \<Rightarrow> if approve then drv\<lparr>d_mgr := m, d_auto := d_auto drv @ [rec]\<rparr>
                  else drv\<lparr>d_mgr := m, d_denied := d_denied drv @ [rec]\<rparr>)"

text \<open>What an escalation reports when it ends, and what happens when it crashes.\<close>

definition on_outcome :: "driver \<Rightarrow> run_rec \<Rightarrow> bool \<Rightarrow> bool \<Rightarrow> driver" where
  "on_outcome drv rec allow persist =
     (let r = rec\<lparr>r_channel := True, r_persisted := persist\<rparr> in
      if allow then drv\<lparr>d_auto := d_auto drv @ [r]\<rparr> else drv\<lparr>d_denied := d_denied drv @ [r]\<rparr>)"

definition escalation_crash :: "drv_cfg \<Rightarrow> driver \<Rightarrow> event \<times> run_rec \<Rightarrow> driver" where
  "escalation_crash cfg drv e =
     (let m = (case drv_resolve cfg (d_mgr drv) (pget (fst e) ''confirm_id'') False of
                 Some m' \<Rightarrow> m' | None \<Rightarrow> d_mgr drv)
      in on_outcome (drv\<lparr>d_mgr := m, d_escalations := remove1 e (d_escalations drv)\<rparr>) (snd e) False False)"

section \<open>The event stream\<close>

text \<open>Fold one event in; \<open>None\<close> is the \<open>TypeError\<close> of appending a content that is not text.\<close>

definition apply_ev :: "drv_cfg \<Rightarrow> driver \<Rightarrow> event \<Rightarrow> (bool \<times> driver) option" where
  "apply_ev cfg drv ev =
     (let t = pget ev ''type''; content = pget ev ''content''; fin = (t = PStr ''done'') in
      if t = PStr ''message_delta'' then
        (case py_or content (PStr []) of
           PStr s \<Rightarrow> Some (fin, drv\<lparr>d_delta := d_delta drv @ s\<rparr>) | _ \<Rightarrow> None)
      else if t = PStr ''message'' then Some (fin, drv\<lparr>d_final := py_or content (PStr [])\<rparr>)
      else if t \<in> set CONFIRM_TYPES then Some (fin, handle_confirm cfg drv ev)
      else if t = PStr ''error'' then
        Some (fin, drv\<lparr>d_error := py_or (d_error drv) (py_or content (PStr ''agent error'')), d_hard := True\<rparr>)
      else if t = PStr ''max_turns_exceeded'' then
        (let note = ''max_turns_exceeded: hit the '' @ str_val (py_or (pget ev ''max_turns'') (PInt 0)) @ ''-turn limit''
         in Some (fin, drv\<lparr>d_error := PStr (if truthy (d_error drv) then note @ ''; '' @ str_val (d_error drv) else note)\<rparr>))
      else Some (fin, drv))"

record run_result =
  rr_status :: string
  rr_summary :: pyval
  rr_error :: pyval
  rr_denied :: "run_rec list"
  rr_auto :: "run_rec list"

definition result :: "string \<Rightarrow> driver \<Rightarrow> run_result" where
  "result status drv =
     (let summary = py_or (d_final drv) (PStr (d_delta drv)) in
      \<lparr>rr_status = (if status \<noteq> ''timeout'' \<and> (d_hard drv \<or> truthy (d_error drv) \<and> \<not> truthy summary)
                     then ''failed'' else status),
       rr_summary = summary, rr_error = d_error drv, rr_denied = d_denied drv, rr_auto = d_auto drv\<rparr>)"

datatype feed = Got event | Elapsed | Outside "driver \<Rightarrow> driver"

datatype outcome = Returned run_result | Raised

definition time_out :: "driver \<Rightarrow> driver" where
  "time_out drv = drv\<lparr>d_error := py_or (d_error drv) (PStr ''timeout'')\<rparr>"

fun drive_loop :: "drv_cfg \<Rightarrow> driver \<Rightarrow> feed list \<Rightarrow> (outcome \<times> driver) option" where
  "drive_loop cfg drv [] = None"
| "drive_loop cfg drv (Elapsed # fs) =
     Some (Returned (result ''timeout'' (time_out drv)), time_out drv)"
| "drive_loop cfg drv (Outside f # fs) = drive_loop cfg (f drv) fs"
| "drive_loop cfg drv (Got ev # fs) = (case apply_ev cfg drv ev of
     None \<Rightarrow> Some (Raised, drv)
   | Some (True, d) \<Rightarrow> Some (Returned (result ''succeeded'' d), d)
   | Some (False, d) \<Rightarrow> drive_loop cfg d fs)"

definition finish :: "drv_cfg \<Rightarrow> driver \<Rightarrow> driver" where
  "finish cfg drv = drv\<lparr>d_mgr := snd (cancel_session (d_mgr drv) (c_session cfg))\<rparr>"

text \<open>The events the sink has already logged are read first; \<open>None\<close>: subscribing raises.\<close>

definition drive :: "drv_cfg \<Rightarrow> event list option \<Rightarrow> feed list \<Rightarrow> driver \<Rightarrow> (outcome \<times> driver) option" where
  "drive cfg past feed drv =
     map_option (\<lambda>(o', d). (o', finish cfg d))
       (case past of None \<Rightarrow> Some (Raised, drv)
        | Some evs \<Rightarrow> drive_loop cfg drv (map Got evs @ feed))"

section \<open>What a decision rests on\<close>

definition preauthorised :: "drv_cfg \<Rightarrow> event \<Rightarrow> bool" where
  "preauthorised cfg ev \<longleftrightarrow>
     kind_of ev = KIND_EGRESS \<and>
       egress_allowed (py_or (pget ev ''host'') (PStr [])) (preauth_list cfg ''egress_domains'') = Some True \<or>
     kind_of ev = KIND_FS \<and>
       (\<forall>p\<in>set (event_paths ev). fs_allowed (c_realpath cfg) p (preauth_list cfg ''fs_write''))"

lemma decide_ev_approves:
  assumes "decide_ev cfg ev = Some (True, x)"
  shows "preauthorised cfg ev \<or> policy_allows cfg ev"
proof -
  consider (egress) "kind_of ev = KIND_EGRESS" | (fs) "kind_of ev = KIND_FS"
    | (other) "kind_of ev \<noteq> KIND_EGRESS" "kind_of ev \<noteq> KIND_FS" by blast
  then show ?thesis
  proof cases
    case egress
    with assms show ?thesis
      by (auto simp: decide_ev_def preauthorised_def Let_def split: option.splits bool.splits)
  next
    case fs
    have "KIND_FS \<noteq> KIND_EGRESS" by (simp add: KIND_FS_def KIND_EGRESS_def)
    with fs assms show ?thesis
      by (auto simp: decide_ev_def preauthorised_def Let_def find_None_iff split: option.splits)
  next
    case other
    with assms show ?thesis by (simp add: decide_ev_def Let_def)
  qed
qed

lemma mk_rec_approves: "fst (mk_rec cfg ev) \<Longrightarrow> preauthorised cfg ev \<or> policy_allows cfg ev"
  by (auto simp: mk_rec_def dest: decide_ev_approves split: option.splits prod.splits)

lemma policy_allows_gate:
  assumes "policy_allows cfg ev"
  shows "\<exists>gate level. gate_of_event (PDict ev) = Some (Some gate, level) \<and>
    decide (c_policy cfg) (Some gate) level ''task'' \<and>
    (gate = ''shell'' \<longrightarrow> level = ''gray'') \<and>
    (gate = ''fs_access'' \<longrightarrow> paths_policy_grantable (c_realpath cfg) (PList (event_paths ev)))"
proof -
  obtain pol g level where *: "c_policy cfg = PDict pol" "gate_of_event (PDict ev) = Some (g, level)"
    "decide (PDict pol) g level ''task''"
    "g = Some ''fs_access'' \<longrightarrow> paths_policy_grantable (c_realpath cfg) (PList (event_paths ev))"
    using assms by (auto simp: policy_allows_def split: pyval.splits option.splits prod.splits if_splits)
  obtain k where k: "g = Some k" using policy.waives_gate [OF *(3)] by blast
  have "k = ''shell'' \<longrightarrow> level = ''gray''"
    using policy.unattended_cap [of "PDict pol" level "''task''"] *(3) k by auto
  with * k show ?thesis by auto
qed

section \<open>The manager under the driver\<close>

lemma drv_resolveE:
  assumes "drv_resolve cfg m cid approve = Some m'"
  obtains c where "cid = PStr c"
    "Confirm.resolve m (c_audit_ok cfg) c approve False (Some (c_session cfg)) None None ''task-driver'' = Inr m'"
  using assms by (auto simp: drv_resolve_def split: pyval.splits sum.splits)

lemma handle_confirm_mgr:
  "d_mgr (handle_confirm cfg drv ev) = d_mgr drv \<or>
   (\<exists>a. drv_resolve cfg (d_mgr drv) (pget ev ''confirm_id'') a = Some (d_mgr (handle_confirm cfg drv ev)))"
  by (auto simp: handle_confirm_def Let_def split: prod.splits option.splits)

lemma handle_confirm_inv:
  "mgr_inv (c_audit_ok cfg) (d_mgr drv) \<Longrightarrow> mgr_inv (c_audit_ok cfg) (d_mgr (handle_confirm cfg drv ev))"
  using handle_confirm_mgr [of cfg drv ev] by (auto elim!: drv_resolveE intro: resolve_inv)

lemma apply_ev_inv:
  assumes "apply_ev cfg drv ev = Some (b, d)" "mgr_inv (c_audit_ok cfg) (d_mgr drv)"
  shows "mgr_inv (c_audit_ok cfg) (d_mgr d)"
  using assms handle_confirm_inv [of cfg drv ev]
  by (auto simp: apply_ev_def Let_def split: if_splits pyval.splits)

text \<open>Steps of the other coroutines that keep the manager's invariant.\<close>

definition fair_feed :: "bool \<Rightarrow> feed list \<Rightarrow> bool" where
  "fair_feed ok fs \<longleftrightarrow> (\<forall>f. Outside f \<in> set fs \<longrightarrow>
     (\<forall>d. mgr_inv ok (d_mgr d) \<longrightarrow> mgr_inv ok (d_mgr (f d))))"

lemma fair_feed_Cons:
  "fair_feed ok (x # fs) \<Longrightarrow> fair_feed ok fs"
  "fair_feed ok (Outside f # fs) \<Longrightarrow> mgr_inv ok (d_mgr d) \<Longrightarrow> mgr_inv ok (d_mgr (f d))"
  by (auto simp: fair_feed_def)

lemma drive_loop_inv:
  "drive_loop cfg drv fs = Some (res, d) \<Longrightarrow> fair_feed (c_audit_ok cfg) fs \<Longrightarrow>
   mgr_inv (c_audit_ok cfg) (d_mgr drv) \<Longrightarrow> mgr_inv (c_audit_ok cfg) (d_mgr d)"
proof (induction cfg drv fs rule: drive_loop.induct)
  case (1 cfg drv)
  then show ?case by simp
next
  case (2 cfg drv fs)
  then show ?case by (auto simp: time_out_def)
next
  case (3 cfg drv f fs)
  then show ?case using fair_feed_Cons by simp
next
  case (4 cfg drv ev fs)
  show ?case
  proof (cases "apply_ev cfg drv ev")
    case None
    with 4 show ?thesis by simp
  next
    case (Some bd)
    obtain b d' where bd: "bd = (b, d')" by fastforce
    have inv: "mgr_inv (c_audit_ok cfg) (d_mgr d')" using apply_ev_inv Some bd 4(4) by blast
    show ?thesis
    proof (cases b)
      case True
      with "4.prems"(1) Some bd inv show ?thesis by auto
    next
      case False
      with "4.prems"(1) Some bd have "drive_loop cfg d' fs = Some (res, d)" by simp
      with 4(1) [of bd b d'] Some bd False inv fair_feed_Cons(1) [OF "4.prems"(2)] show ?thesis by blast
    qed
  qed
qed

lemma drive_loop_returns:
  "Elapsed \<in> set fs \<Longrightarrow> \<exists>res d. drive_loop cfg drv fs = Some (res, d)"
proof (induction fs arbitrary: drv)
  case (Cons x fs)
  show ?case
  proof (cases x)
    case (Got ev)
    with Cons show ?thesis by (auto split: option.splits bool.splits)
  next
    case (Outside f)
    with Cons show ?thesis by simp
  qed simp
qed simp

section \<open>What is recorded as approved\<close>

definition quiet_feed :: "feed list \<Rightarrow> bool" where
  "quiet_feed fs \<longleftrightarrow> (\<forall>f. Outside f \<in> set fs \<longrightarrow> (\<forall>d. d_auto (f d) = d_auto d))"

lemma handle_confirm_auto:
  "d_auto (handle_confirm cfg drv ev) = d_auto drv \<or>
   d_auto (handle_confirm cfg drv ev) = d_auto drv @ [snd (mk_rec cfg ev)] \<and> fst (mk_rec cfg ev) \<and>
     drv_resolve cfg (d_mgr drv) (pget ev ''confirm_id'') True = Some (d_mgr (handle_confirm cfg drv ev))"
  by (auto simp: handle_confirm_def Let_def split: prod.splits option.splits)

lemma apply_ev_auto:
  assumes "apply_ev cfg drv ev = Some (b, d)" "r \<in> set (d_auto d)"
  shows "r \<in> set (d_auto drv) \<or> fst (mk_rec cfg ev) \<and> r = snd (mk_rec cfg ev)"
  using assms handle_confirm_auto [of cfg drv ev]
  by (auto simp: apply_ev_def Let_def split: if_splits pyval.splits)

lemma drive_loop_auto:
  "drive_loop cfg drv fs = Some (res, d) \<Longrightarrow> quiet_feed fs \<Longrightarrow> r \<in> set (d_auto d) \<Longrightarrow>
   r \<in> set (d_auto drv) \<or> (\<exists>ev. Got ev \<in> set fs \<and> fst (mk_rec cfg ev) \<and> r = snd (mk_rec cfg ev))"
proof (induction cfg drv fs rule: drive_loop.induct)
  case (1 cfg drv)
  then show ?case by simp
next
  case (2 cfg drv fs)
  then show ?case by (auto simp: time_out_def)
next
  case (3 cfg drv f fs)
  then show ?case by (auto simp: quiet_feed_def)
next
  case (4 cfg drv ev fs)
  show ?case
  proof (cases "apply_ev cfg drv ev")
    case None
    with 4 show ?thesis by simp
  next
    case (Some bd)
    obtain b d' where bd: "bd = (b, d')" by fastforce
    show ?thesis
    proof (cases b)
      case True
      with "4.prems"(1,3) Some bd show ?thesis using apply_ev_auto [of cfg drv ev b d' r] by auto
    next
      case False
      with "4.prems"(1) Some bd have "drive_loop cfg d' fs = Some (res, d)" by simp
      moreover have "quiet_feed fs" using "4.prems"(2) by (auto simp: quiet_feed_def)
      ultimately have "r \<in> set (d_auto d') \<or> (\<exists>ev. Got ev \<in> set fs \<and> fst (mk_rec cfg ev) \<and> r = snd (mk_rec cfg ev))"
        using 4(1) [of bd b d'] Some bd False "4.prems"(3) by blast
      with apply_ev_auto [of cfg drv ev b d' r] Some bd show ?thesis by auto
    qed
  qed
qed

lemma driveE:
  assumes "drive cfg (Some evs) fs drv = Some (res, d)"
  obtains d' where "drive_loop cfg drv (map Got evs @ fs) = Some (res, d')" "d = finish cfg d'"
  using assms by (auto simp: drive_def)

section \<open>Properties\<close>

text \<open>
  C19. However a run ends (a result, the deadline, an exception in the middle of the stream, a sink
  that cannot be subscribed to), no tool of its session is left waiting: every confirmation still
  pending for the session is signalled, and wakes up as a denial.
\<close>

theorem drive_releases_session:
  assumes "drive cfg past fs drv = Some (res, d)"
    and "mgr_inv (c_audit_ok cfg) (d_mgr drv)" "fair_feed (c_audit_ok cfg) fs"
    and "map_of (pending (d_mgr d)) cid = Some p" "p_session p = c_session cfg"
  shows "p_set p \<and> fst (wait (d_mgr d) cid Fired) = Some False"
proof -
  obtain d' where d: "d = finish cfg d'" and inv: "mgr_inv (c_audit_ok cfg) (d_mgr d')"
  proof (cases past)
    case None
    with assms(1,2) that show ?thesis by (auto simp: drive_def)
  next
    case (Some evs)
    have "fair_feed (c_audit_ok cfg) (map Got evs @ fs)" using assms(3) by (auto simp: fair_feed_def)
    with Some assms(1,2) that show ?thesis by (auto elim!: driveE dest: drive_loop_inv)
  qed
  let ?m = "d_mgr d'" and ?m' = "snd (cancel_session (d_mgr d') (c_session cfg))"
  have m': "d_mgr d = ?m'" by (simp add: d finish_def)
  have "\<exists>q. map_of (pending ?m) cid = Some q"
    using assms(4) unfolding m'
    by (cases "map_of (pending ?m) cid") (auto simp: cancel_session_def foldl_cancel_pending split: if_splits)
  then obtain q where q: "map_of (pending ?m) cid = Some q" by blast
  have "p_session q = c_session cfg"
    using assms(4,5) cancel_session_other(1) [OF inv q] unfolding m' by fastforce
  with cancel_session_releases [OF inv q] assms(4) m' show ?thesis by (auto simp: wait_def)
qed

theorem drive_releases_session_witness:
  "let m = register mgr_init ''c1'' 0 ''s1'' ''shell_command'' [] [];
       cfg = \<lparr>c_session = ''s1'', c_preauth = [], c_policy = PNone, c_escalates = False,
              c_realpath = Some, c_audit_ok = True\<rparr>
   in fst (wait (d_mgr (snd (the (drive cfg (Some []) [Elapsed] (drv_init m))))) ''c1'' Fired) = Some False"
proof -
  let ?m = "register mgr_init ''c1'' 0 ''s1'' ''shell_command'' [] []"
  let ?cfg = "\<lparr>c_session = ''s1'', c_preauth = [], c_policy = PNone, c_escalates = False,
              c_realpath = Some, c_audit_ok = True\<rparr>"
  let ?r = "the (drive ?cfg (Some []) [Elapsed] (drv_init ?m))"
  have run: "drive ?cfg (Some []) [Elapsed] (drv_init ?m) = Some (fst ?r, snd ?r)"
    by (simp add: drive_def)
  have inv: "mgr_inv True ?m" by (rule register_inv [OF mgr_inv_init]) (simp add: fresh_id_def mgr_init_def)
  have p: "map_of (pending (d_mgr (snd ?r))) ''c1'' = Some \<lparr>p_session = ''s1'', p_set = True\<rparr>" by code_simp
  have "p_set \<lparr>p_session = ''s1'', p_set = True\<rparr> \<and> fst (wait (d_mgr (snd ?r)) ''c1'' Fired) = Some False"
    by (rule drive_releases_session [OF run _ _ p]) (use inv in \<open>simp_all add: drv_init_def fair_feed_def\<close>)
  then show ?thesis by (simp add: Let_def)
qed

lemma decide_none: "\<not> decide PNone g l c"
proof (cases g)
  case (Some k)
  have "dict_get (PDict []) x e = Some e" for x e by (simp add: dict_get_def)
  with Some show ?thesis
    by (auto simp: decide_def decide_core_def py_or_def shell_auto_def Let_def)
qed (simp add: decide_def)



text \<open>
  A confirmation card of the session is never ignored: when its confirmation is pending for this
  session, handling it either answers it at once (it is signalled with exactly the answer that is
  recorded) or hands it to the escalation, and that only when the card was not approved and has a
  known gate. In each case exactly one record is kept.
\<close>

theorem card_answered_or_escalated:
  assumes "pget ev ''confirm_id'' = PStr cid" "cid \<noteq> []"
    and "map_of (pending (d_mgr drv)) cid = Some p" "p_session p = c_session cfg"
    and "handle_confirm cfg drv ev = d"
  shows "if d_escalations d = d_escalations drv
    then map_of (pending (d_mgr d)) cid = Some (p\<lparr>p_set := True\<rparr>) \<and>
         map_of (results (d_mgr d)) cid = Some (fst (mk_rec cfg ev)) \<and>
         (d_auto d, d_denied d) =
           (if fst (mk_rec cfg ev) then (d_auto drv @ [snd (mk_rec cfg ev)], d_denied drv)
            else (d_auto drv, d_denied drv @ [snd (mk_rec cfg ev)]))
    else d_escalations d = d_escalations drv @ [(ev, snd (mk_rec cfg ev))] \<and> d_mgr d = d_mgr drv \<and>
         \<not> fst (mk_rec cfg ev) \<and> gateable ev \<and> d_auto d = d_auto drv \<and> d_denied d = d_denied drv"
proof -
  obtain a r where ar: "mk_rec cfg ev = (a, r)" by fastforce
  let ?res = "Confirm.resolve (d_mgr drv) (c_audit_ok cfg) cid a False (Some (c_session cfg)) None None ''task-driver''"
  obtain m' where m': "?res = Inr m'" using assms(3,4) by (simp add: Confirm.resolve_def Let_def)
  have res: "drv_resolve cfg (d_mgr drv) (PStr cid) a = Some m'" using m' by (simp add: drv_resolve_def)
  have pend: "map_of (pending m') cid = Some (p\<lparr>p_set := True\<rparr>)" "map_of (results m') cid = Some a"
    using m' assms(3) by (auto elim!: resolve_cases)
  show ?thesis
  proof (cases "\<not> a \<and> c_escalates cfg \<and> gateable ev")
    case True
    with assms ar show ?thesis by (auto simp: handle_confirm_def)
  next
    case False
    then have "d = (if a then drv\<lparr>d_mgr := m', d_auto := d_auto drv @ [r]\<rparr>
                    else drv\<lparr>d_mgr := m', d_denied := d_denied drv @ [r]\<rparr>)"
      using assms(1,2,5) ar res by (auto simp: handle_confirm_def)
    with pend ar show ?thesis by simp
  qed
qed

theorem card_answered_or_escalated_witness:
  "let m = register mgr_init ''c1'' 0 ''s1'' ''shell_command'' [] [];
       cfg = \<lparr>c_session = ''s1'', c_preauth = [], c_policy = PNone, c_escalates = False,
              c_realpath = Some, c_audit_ok = True\<rparr>;
       ev = [(''type'', PStr ''confirmation_required''), (''action'', PStr ''shell_command''),
             (''command'', PStr ''rm -r x''), (''confirm_id'', PStr ''c1'')]
   in map_of (results (d_mgr (handle_confirm cfg (drv_init m) ev))) ''c1'' = Some False"
proof -
  let ?m = "register mgr_init ''c1'' 0 ''s1'' ''shell_command'' [] []"
  let ?cfg = "\<lparr>c_session = ''s1'', c_preauth = [], c_policy = PNone, c_escalates = False,
              c_realpath = Some, c_audit_ok = True\<rparr>"
  let ?ev = "[(''type'', PStr ''confirmation_required''), (''action'', PStr ''shell_command''),
             (''command'', PStr ''rm -r x''), (''confirm_id'', PStr ''c1'')]"
  let ?d = "handle_confirm ?cfg (drv_init ?m) ?ev"
  have p: "map_of (pending (d_mgr (drv_init ?m))) ''c1'' = Some \<lparr>p_session = ''s1'', p_set = False\<rparr>"
    by code_simp
  have e: "d_escalations ?d = d_escalations (drv_init ?m)" "\<not> fst (mk_rec ?cfg ?ev)" by code_simp+
  have "pget ?ev ''confirm_id'' = PStr ''c1''" by simp
  from card_answered_or_escalated [OF this _ p, of ?cfg ?d] e show ?thesis by (simp add: Let_def)
qed

lemma result_succeeded: "rr_status (result st d) = ''succeeded'' \<Longrightarrow> st = ''succeeded'' \<and> \<not> d_hard d"
  by (auto simp: result_def Let_def split: if_splits)

lemma drive_loop_succeeded:
  "drive_loop cfg drv fs = Some (Returned r, d) \<Longrightarrow> rr_status r = ''succeeded'' \<Longrightarrow>
   (\<exists>ev. Got ev \<in> set fs \<and> pget ev ''type'' = PStr ''done'') \<and> \<not> d_hard d"
proof (induction cfg drv fs rule: drive_loop.induct)
  case (2 cfg drv fs)
  then show ?case by (auto dest: result_succeeded)
next
  case (4 cfg drv ev fs)
  show ?case
  proof (cases "apply_ev cfg drv ev")
    case None
    with 4 show ?thesis by simp
  next
    case (Some bd)
    obtain b d' where bd: "bd = (b, d')" by fastforce
    have fin: "b \<longleftrightarrow> pget ev ''type'' = PStr ''done''"
      using Some bd by (auto simp: apply_ev_def Let_def split: if_splits pyval.splits)
    show ?thesis
    proof (cases b)
      case True
      then have "r = result ''succeeded'' d'" "d = d'" using "4.prems"(1) Some bd by auto
      with "4.prems"(2) result_succeeded have "\<not> d_hard d" by blast
      moreover have "pget ev ''type'' = PStr ''done''" using True fin by blast
      ultimately show ?thesis by auto
    next
      case False
      with "4.prems"(1) Some bd have "drive_loop cfg d' fs = Some (Returned r, d)" by simp
      with 4(1) [of bd b d'] Some bd False "4.prems"(2) show ?thesis by auto
    qed
  qed
qed simp_all



end
