(* ===== verification/Run_Sink.thy ===== *)
theory Run_Sink
  imports Py_Prelude
begin

text \<open>
  \<open>RunSink\<close> of \<open>agent/run_sink.py\<close>: the event log of one run. Every event goes to the live
  subscribers at once; the replay log (\<open>_past\<close> and the table \<open>event_log\<close>) holds streaming deltas
  merged per UI scope. The attributes of the class are a record. A subscriber's queue is the list of
  everything put into it (how far its reader has got is the reader's own business), and the timer
  handle is a flag. The argument \<open>io\<close> says for each row number whether the insertion into the table
  succeeds. Dictionaries are copied by the source wherever it changes them, so values stand for
  them here. A payload that does not decode (a row written by somebody else) is \<open>None\<close>.

  The abstract reading of a log is \<open>canon (proj sc evs)\<close>: what one scope of the user interface
  shows, with adjacent deltas of one stream merged. The main result is that replaying the log and
  watching live agree on it.
\<close>

section \<open>Events and their streams\<close>

type_synonym sink_event = "(string \<times> pyval) list"

definition TERMINAL_TYPES :: "pyval list" where
  "TERMINAL_TYPES = [PStr ''done'']"

definition COALESCE_TYPES :: "pyval list" where
  "COALESCE_TYPES = [PStr ''thinking'', PStr ''message_delta'']"

definition COALESCE_MAX_CHARS :: nat where
  "COALESCE_MAX_CHARS = 4000"

definition SWEEP_BATCH :: nat where
  "SWEEP_BATCH = 20000"

text \<open>A list or a dict cannot be looked up in a \<open>frozenset\<close>: a \<open>TypeError\<close>.\<close>

definition hashable :: "pyval \<Rightarrow> bool" where
  "hashable v = (case v of PList _ \<Rightarrow> False | PDict _ \<Rightarrow> False | _ \<Rightarrow> True)"

definition is_str :: "pyval \<Rightarrow> bool" where
  "is_str v = (case v of PStr _ \<Rightarrow> True | _ \<Rightarrow> False)"

definition parent_id :: "sink_event \<Rightarrow> string" where
  "parent_id ev = (case map_of ev ''parent_call_id'' of None \<Rightarrow> [] | Some v \<Rightarrow> str_val v)"

definition scope :: "sink_event \<Rightarrow> string" where
  "scope ev = (if pget ev ''type'' = PStr ''subagent_event'' then parent_id ev else [])"

text \<open>The outer \<open>None\<close> is the \<open>TypeError\<close>; the inner one: the event is a row of its own.\<close>

definition coalesce_key :: "sink_event \<Rightarrow> string list option option" where
  "coalesce_key ev = (let t = pget ev ''type'' in
     if \<not> hashable t then None
     else if t \<in> set COALESCE_TYPES \<and> is_str (pget ev ''content'') then Some (Some [str_val t])
     else if t = PStr ''subagent_event'' then
       (case pget ev ''event'' of
          PDict inner \<Rightarrow>
            (let it = pget inner ''type'' in
             if \<not> hashable it then None
             else if it \<in> set COALESCE_TYPES \<and> is_str (pget inner ''content'')
             then Some (Some [''subagent_event'', parent_id ev, str_val it])
             else Some None)
        | _ \<Rightarrow> Some None)
     else Some None)"

text \<open>The dict that carries the text of a delta, and that text.\<close>

definition inner_of :: "sink_event \<Rightarrow> (string \<times> pyval) list" where
  "inner_of ev = (if pget ev ''type'' = PStr ''subagent_event''
     then (case pget ev ''event'' of PDict d \<Rightarrow> d | _ \<Rightarrow> []) else ev)"

definition delta_text :: "sink_event \<Rightarrow> string" where
  "delta_text ev = (case map_of (inner_of ev) ''content'' of None \<Rightarrow> [] | Some v \<Rightarrow> str_val v)"

definition content_len :: "sink_event \<Rightarrow> nat" where
  "content_len ev = length (delta_text ev)"

definition merge_into :: "sink_event \<Rightarrow> sink_event \<Rightarrow> sink_event" where
  "merge_into p ev =
     (if pget p ''type'' = PStr ''subagent_event''
      then dput ''event'' (PDict (dput ''content'' (PStr (delta_text p @ delta_text ev)) (inner_of p))) p
      else dput ''content'' (PStr (delta_text p @ delta_text ev)) p)"

section \<open>The sink\<close>

record log_row =
  e_run :: string
  e_seq :: nat
  e_payload :: "sink_event option"
  e_created :: int

record sink =
  k_run :: string
  k_past :: "sink_event list"
  k_subs :: "(nat \<times> sink_event list) list"
  k_next :: nat
  k_seq :: nat
  k_done :: bool
  k_pending :: "(string \<times> (string list \<times> sink_event)) list"
  k_timer :: bool
  k_log :: "log_row list"

definition sink_init :: "string \<Rightarrow> log_row list \<Rightarrow> sink" where
  "sink_init rid tbl = \<lparr>k_run = rid, k_past = [], k_subs = [], k_next = 0, k_seq = 0, k_done = False,
     k_pending = [], k_timer = False, k_log = tbl\<rparr>"

definition persist :: "(nat \<Rightarrow> bool) \<Rightarrow> int \<Rightarrow> sink_event \<Rightarrow> sink \<Rightarrow> sink" where
  "persist io now ev s = (let n = Suc (k_seq s) in
     s\<lparr>k_seq := n,
       k_log := (if io n then k_log s @ [\<lparr>e_run = k_run s, e_seq = n, e_payload = Some ev, e_created = now\<rparr>]
                 else k_log s),
       k_past := k_past s @ [ev]\<rparr>)"

definition flush_scope :: "(nat \<Rightarrow> bool) \<Rightarrow> int \<Rightarrow> sink \<Rightarrow> string \<Rightarrow> sink" where
  "flush_scope io now s sc = (case map_of (k_pending s) sc of
     None \<Rightarrow> s
   | Some (key, p) \<Rightarrow> persist io now p (s\<lparr>k_pending := ddel sc (k_pending s)\<rparr>))"

definition flush :: "(nat \<Rightarrow> bool) \<Rightarrow> int \<Rightarrow> sink \<Rightarrow> sink" where
  "flush io now s = foldl (flush_scope io now) (s\<lparr>k_timer := False\<rparr>) (map fst (k_pending s))"

definition on_timer :: "(nat \<Rightarrow> bool) \<Rightarrow> int \<Rightarrow> sink \<Rightarrow> sink" where
  "on_timer io now s = flush io now (s\<lparr>k_timer := False\<rparr>)"

definition open_buffer :: "string list \<Rightarrow> sink_event \<Rightarrow> sink \<Rightarrow> sink" where
  "open_buffer key ev s = s\<lparr>k_pending := dput (scope ev) (key, ev) (k_pending s), k_timer := True\<rparr>"

definition coalesce :: "(nat \<Rightarrow> bool) \<Rightarrow> int \<Rightarrow> string list \<Rightarrow> sink_event \<Rightarrow> sink \<Rightarrow> sink" where
  "coalesce io now key ev s = (case map_of (k_pending s) (scope ev) of
     None \<Rightarrow> open_buffer key ev s
   | Some (k, p) \<Rightarrow>
       if k = key \<and> content_len p + content_len ev \<le> COALESCE_MAX_CHARS
       then s\<lparr>k_pending := dput (scope ev) (k, merge_into p ev) (k_pending s)\<rparr>
       else open_buffer key ev (flush_scope io now s (scope ev)))"

definition fan_out :: "sink_event \<Rightarrow> sink \<Rightarrow> sink" where
  "fan_out ev s = s\<lparr>k_subs := map (\<lambda>(q, evs). (q, evs @ [ev])) (k_subs s)\<rparr>"

text \<open>\<open>None\<close>: the \<open>TypeError\<close> leaves the method before anything is changed.\<close>

definition put :: "(nat \<Rightarrow> bool) \<Rightarrow> int \<Rightarrow> sink_event \<Rightarrow> sink \<Rightarrow> sink option" where
  "put io now ev s = (case coalesce_key ev of
     None \<Rightarrow> None
   | Some k \<Rightarrow>
       (let s1 = (case k of Some key \<Rightarrow> coalesce io now key ev s
                          | None \<Rightarrow> persist io now ev (flush io now s));
            s2 = (if pget ev ''type'' \<in> set TERMINAL_TYPES
                  then (flush io now s1)\<lparr>k_done := True\<rparr> else s1)
        in Some (fan_out ev s2)))"

definition subscribe :: "(nat \<Rightarrow> bool) \<Rightarrow> int \<Rightarrow> sink \<Rightarrow> (sink_event list \<times> nat) \<times> sink" where
  "subscribe io now s = (let s1 = flush io now s in
     ((k_past s1, k_next s1), s1\<lparr>k_subs := k_subs s1 @ [(k_next s1, [])], k_next := Suc (k_next s1)\<rparr>))"

definition unsubscribe :: "nat \<Rightarrow> sink \<Rightarrow> sink" where
  "unsubscribe q s = s\<lparr>k_subs := ddel q (k_subs s)\<rparr>"

section \<open>The table\<close>

definition load_events_from_db :: "log_row list \<Rightarrow> string \<Rightarrow> sink_event list" where
  "load_events_from_db tbl rid =
     List.map_filter e_payload (sort_key e_seq (filter (\<lambda>r. e_run r = rid) tbl))"

text \<open>\<open>DELETE ... WHERE rowid IN (SELECT ... LIMIT n)\<close>: the first rows that match.\<close>

fun delete_first :: "nat \<Rightarrow> ('r \<Rightarrow> bool) \<Rightarrow> 'r list \<Rightarrow> nat \<times> 'r list" where
  "delete_first n P [] = (0, [])"
| "delete_first n P (r # rs) =
     (if P r \<and> 0 < n then (let (k, rest) = delete_first (n - 1) P rs in (Suc k, rest))
      else (let (k, rest) = delete_first n P rs in (k, r # rest)))"

definition sweep_batch :: "int \<Rightarrow> log_row list \<Rightarrow> nat \<times> log_row list" where
  "sweep_batch cutoff tbl = delete_first SWEEP_BATCH (\<lambda>r. e_created r < cutoff) tbl"

lemma delete_first_length: "delete_first n P rs = (k, rest) \<Longrightarrow> length rest + k = length rs"
  by (induction n P rs arbitrary: k rest rule: delete_first.induct) (auto split: if_splits prod.splits)

text \<open>\<open>fails i\<close>: the \<open>i\<close>-th batch raises, and the sweep stops with what it has.\<close>

function sweep_loop :: "(nat \<Rightarrow> bool) \<Rightarrow> nat \<Rightarrow> int \<Rightarrow> log_row list \<Rightarrow> nat \<Rightarrow> nat \<times> log_row list" where
  "sweep_loop fails i cutoff tbl deleted =
     (if fails i then (deleted, tbl)
      else let (n, tbl') = sweep_batch cutoff tbl in
        if n < SWEEP_BATCH then (deleted + n, tbl')
        else sweep_loop fails (Suc i) cutoff tbl' (deleted + n))"
  by pat_completeness auto
termination
proof (relation "measure (\<lambda>(_, _, _, tbl, _). length tbl)")
  fix fails i cutoff tbl deleted n tbl' and x :: "nat \<times> log_row list"
  assume "x = sweep_batch cutoff tbl" "(n, tbl') = x" "\<not> n < SWEEP_BATCH"
  then have "length tbl' + n = length tbl" "0 < n"
    using delete_first_length [of SWEEP_BATCH _ tbl n tbl'] by (auto simp: sweep_batch_def SWEEP_BATCH_def)
  then show "((fails, Suc i, cutoff, tbl', deleted + n), fails, i, cutoff, tbl, deleted)
      \<in> measure (\<lambda>(_, _, _, tbl, _). length tbl)" by simp
qed simp

declare sweep_loop.simps [simp del]

definition sweep_event_log :: "(nat \<Rightarrow> bool) \<Rightarrow> int \<Rightarrow> int \<Rightarrow> log_row list \<Rightarrow> nat \<times> log_row list" where
  "sweep_event_log fails ttl_days now tbl = sweep_loop fails 0 (now - ttl_days * 86400) tbl 0"

section \<open>What a scope shows\<close>

text \<open>The stream a delta belongs to; \<open>None\<close> for every other event.\<close>

definition stream_of :: "sink_event \<Rightarrow> string list option" where
  "stream_of ev = (case coalesce_key ev of Some k \<Rightarrow> k | None \<Rightarrow> None)"

definition push :: "sink_event \<Rightarrow> sink_event list \<Rightarrow> sink_event list" where
  "push e acc = (case acc of [] \<Rightarrow> [e]
     | f # fs \<Rightarrow> if stream_of e \<noteq> None \<and> stream_of e = stream_of f then merge_into e f # fs else e # f # fs)"

definition canon :: "sink_event list \<Rightarrow> sink_event list" where
  "canon evs = foldr push evs []"

text \<open>What one scope sees: its own deltas and every event that is not a delta.\<close>

definition proj :: "string \<Rightarrow> sink_event list \<Rightarrow> sink_event list" where
  "proj sc evs = filter (\<lambda>e. stream_of e = None \<or> scope e = sc) evs"

lemma canon_simps [simp]: "canon [] = []" "canon (e # es) = push e (canon es)"
  by (simp_all add: canon_def)

lemma canon_append: "canon (xs @ ys) = foldr push xs (canon ys)"
  by (simp add: canon_def)

lemma proj_append [simp]: "proj sc (xs @ ys) = proj sc xs @ proj sc ys"
  by (simp add: proj_def)

lemma proj_Nil [simp]: "proj sc [] = []"
  by (simp add: proj_def)

lemma is_str_iff: "is_str v \<longleftrightarrow> (\<exists>s. v = PStr s)"
  by (cases v) (simp_all add: is_str_def)

text \<open>A delta is a plain one or the delta of a sub-agent.\<close>

lemma stream_cases:
  assumes "stream_of ev = Some k"
  obtains (plain) t c where "t = ''thinking'' \<or> t = ''message_delta''" "pget ev ''type'' = PStr t"
      "pget ev ''content'' = PStr c" "k = [t]"
    | (sub) t c inner where "t = ''thinking'' \<or> t = ''message_delta''" "pget ev ''type'' = PStr ''subagent_event''"
      "pget ev ''event'' = PDict inner" "pget inner ''type'' = PStr t" "pget inner ''content'' = PStr c"
      "k = [''subagent_event'', parent_id ev, t]"
proof (cases "pget ev ''type'' = PStr ''subagent_event''")
  case True
  then show ?thesis
    using assms sub
    by (auto simp: stream_of_def coalesce_key_def COALESCE_TYPES_def hashable_def is_str_iff Let_def str_val_def
        split: pyval.splits if_splits)
next
  case False
  then show ?thesis
    using assms plain
    by (auto simp: stream_of_def coalesce_key_def COALESCE_TYPES_def hashable_def is_str_iff Let_def str_val_def
        split: pyval.splits if_splits)
qed

lemma delta_text_plain: "pget ev ''type'' \<noteq> PStr ''subagent_event'' \<Longrightarrow> pget ev ''content'' = PStr c \<Longrightarrow> delta_text ev = c"
  by (auto simp: delta_text_def inner_of_def pget_def str_val_def split: option.splits)

lemma delta_text_sub:
  "pget ev ''type'' = PStr ''subagent_event'' \<Longrightarrow> pget ev ''event'' = PDict d \<Longrightarrow> pget d ''content'' = PStr c \<Longrightarrow>
   delta_text ev = c"
  by (auto simp: delta_text_def inner_of_def pget_def str_val_def split: option.splits)

lemma merge_plain:
  "pget a ''type'' \<noteq> PStr ''subagent_event'' \<Longrightarrow>
   merge_into a b = dput ''content'' (PStr (delta_text a @ delta_text b)) a"
  by (simp add: merge_into_def)

lemma merge_sub:
  "pget a ''type'' = PStr ''subagent_event'' \<Longrightarrow> pget a ''event'' = PDict d \<Longrightarrow>
   merge_into a b = dput ''event'' (PDict (dput ''content'' (PStr (delta_text a @ delta_text b)) d)) a"
  by (simp add: merge_into_def inner_of_def)

lemma parent_id_dput: "k \<noteq> ''parent_call_id'' \<Longrightarrow> parent_id (dput k v ev) = parent_id ev"
  by (simp add: parent_id_def)

text \<open>Merging stays in the stream and the scope, concatenates the texts, and is associative.\<close>

lemma merge_delta:
  assumes "stream_of a = Some k"
  shows "stream_of (merge_into a b) = Some k \<and> scope (merge_into a b) = scope a \<and>
    delta_text (merge_into a b) = delta_text a @ delta_text b"
  using assms
proof (cases rule: stream_cases)
  case (plain t c)
  let ?m = "dput ''content'' (PStr (delta_text a @ delta_text b)) a"
  have m: "merge_into a b = ?m" using plain by (intro merge_plain) auto
  have "delta_text ?m = delta_text a @ delta_text b" using plain by (intro delta_text_plain) auto
  moreover have "stream_of ?m = Some k"
    using plain by (auto simp: stream_of_def coalesce_key_def COALESCE_TYPES_def hashable_def is_str_def str_val_def)
  moreover have "scope ?m = scope a" using plain by (auto simp: scope_def)
  ultimately show ?thesis unfolding m by blast
next
  case (sub t c inner)
  let ?m = "dput ''event'' (PDict (dput ''content'' (PStr (delta_text a @ delta_text b)) inner)) a"
  have m: "merge_into a b = ?m" using sub by (intro merge_sub)
  have "delta_text ?m = delta_text a @ delta_text b" using sub by (intro delta_text_sub) auto
  moreover have "stream_of ?m = Some k"
    using sub
    by (auto simp: stream_of_def coalesce_key_def COALESCE_TYPES_def hashable_def is_str_def str_val_def parent_id_dput)
  moreover have "scope ?m = scope a" using sub by (auto simp: scope_def parent_id_dput)
  ultimately show ?thesis unfolding m by blast
qed

lemma merge_assoc:
  assumes "stream_of a = Some k" "stream_of b = Some k"
  shows "merge_into (merge_into a b) c = merge_into a (merge_into b c)"
  using assms(1)
proof (cases rule: stream_cases)
  case (plain t x)
  then have m: "merge_into a y = dput ''content'' (PStr (delta_text a @ delta_text y)) a" for y
    by (intro merge_plain) auto
  have "merge_into (merge_into a b) c =
      dput ''content'' (PStr (delta_text (merge_into a b) @ delta_text c)) (merge_into a b)"
    using plain by (intro merge_plain) (auto simp: m)
  then show ?thesis using merge_delta [OF assms(1)] merge_delta [OF assms(2)] by (simp add: m dput_twice)
next
  case (sub t x inner)
  then have m: "merge_into a y = dput ''event'' (PDict (dput ''content'' (PStr (delta_text a @ delta_text y)) inner)) a" for y
    by (intro merge_sub)
  have "merge_into (merge_into a b) c =
      dput ''event'' (PDict (dput ''content'' (PStr (delta_text (merge_into a b) @ delta_text c))
        (dput ''content'' (PStr (delta_text a @ delta_text b)) inner))) (merge_into a b)"
    using sub by (intro merge_sub) (auto simp: m)
  then show ?thesis using merge_delta [OF assms(1)] merge_delta [OF assms(2)] by (simp add: m dput_twice)
qed

lemma push_merge:
  assumes "stream_of a = Some k" "stream_of b = Some k"
  shows "push (merge_into a b) acc = push a (push b acc)"
  using assms merge_delta [OF assms(1)] merge_delta [OF assms(2)] merge_assoc [OF assms]
  by (cases acc) (auto simp: push_def)

lemma canon_push: "canon (push x acc @ ys) = push x (canon (acc @ ys))"
proof (cases acc)
  case (Cons f fs)
  show ?thesis
  proof (cases "stream_of x \<noteq> None \<and> stream_of x = stream_of f")
    case True
    then obtain k where x: "stream_of x = Some k" by (meson option.exhaust)
    have f: "stream_of f = Some k" using True x by metis
    have "push x acc = merge_into x f # fs" using x f by (simp add: push_def Cons)
    with push_merge [OF x f] show ?thesis by (simp add: Cons)
  next
    case False
    then have "push x acc = x # acc" unfolding push_def Cons list.case by (rule if_not_P)
    then show ?thesis by simp
  qed
qed (simp add: push_def)

text \<open>Merging early does not change what is merged later.\<close>

lemma canon_canon_append: "canon (canon xs @ ys) = canon (xs @ ys)"
  by (induction xs) (simp_all add: canon_push)

lemma canon_cong_append: "canon xs = canon xs' \<Longrightarrow> canon (xs @ ys) = canon (xs' @ ys)"
  by (metis canon_canon_append)

lemma canon_merge_last:
  assumes "stream_of a = Some k" "stream_of b = Some k"
  shows "canon (xs @ [merge_into a b]) = canon (xs @ [a, b])"
  using push_merge [OF assms, of "[]"] by (simp add: canon_append)

section \<open>The log and the raw events\<close>

definition buffer_ok :: "string \<times> (string list \<times> sink_event) \<Rightarrow> bool" where
  "buffer_ok b = (case b of (sc, key, p) \<Rightarrow> coalesce_key p = Some (Some key) \<and> scope p = sc)"

definition sink_inv :: "sink \<Rightarrow> bool" where
  "sink_inv s \<longleftrightarrow> distinct (map fst (k_pending s)) \<and> (\<forall>b\<in>set (k_pending s). buffer_ok b) \<and>
     distinct (map fst (k_subs s)) \<and> (\<forall>q\<in>set (map fst (k_subs s)). q < k_next s)"

definition buffered :: "sink \<Rightarrow> sink_event list" where
  "buffered s = map (snd \<circ> snd) (k_pending s)"

definition whole :: "sink \<Rightarrow> sink_event list" where
  "whole s = k_past s @ buffered s"

lemma persist_simps [simp]:
  "k_past (persist io now ev s) = k_past s @ [ev]" "k_pending (persist io now ev s) = k_pending s"
  "k_subs (persist io now ev s) = k_subs s" "k_next (persist io now ev s) = k_next s"
  "k_seq (persist io now ev s) = Suc (k_seq s)" "k_run (persist io now ev s) = k_run s"
  by (simp_all add: persist_def Let_def)

lemma flush_scope_head:
  assumes "k_pending s = (sc, key, p) # rest" "sc \<notin> fst ` set rest"
  shows "flush_scope io now s sc = persist io now p (s\<lparr>k_pending := rest\<rparr>)"
proof -
  have "ddel sc ((sc, key, p) # rest) = ddel sc rest" by (simp add: ddel_def)
  with assms show ?thesis by (simp add: flush_scope_def ddel_absent)
qed

text \<open>Flushing appends the buffers to the log in the order they were opened and touches nothing else.\<close>

lemma flush_loop:
  "k_pending s = d \<Longrightarrow> distinct (map fst d) \<Longrightarrow>
   foldl (flush_scope io now) s (map fst d) = fold (\<lambda>b. persist io now (snd (snd b))) d (s\<lparr>k_pending := []\<rparr>)"
proof (induction d arbitrary: s)
  case (Cons b d)
  obtain sc key p where b: "b = (sc, key, p)" by (metis prod.collapse)
  have "flush_scope io now s sc = persist io now p (s\<lparr>k_pending := d\<rparr>)"
    using Cons.prems b by (intro flush_scope_head [where key = key]) auto
  moreover have "(persist io now p (s\<lparr>k_pending := d\<rparr>))\<lparr>k_pending := []\<rparr> = persist io now p (s\<lparr>k_pending := []\<rparr>)"
    by (simp add: persist_def Let_def)
  ultimately show ?case using Cons b by simp
qed simp

lemma flush_eq:
  assumes "sink_inv s"
  shows "flush io now s =
    fold (\<lambda>b. persist io now (snd (snd b))) (k_pending s) (s\<lparr>k_timer := False, k_pending := []\<rparr>)"
  using assms flush_loop [of "s\<lparr>k_timer := False\<rparr>" "k_pending s" io now] by (simp add: flush_def sink_inv_def)

lemma fold_persist:
  "k_past (fold (\<lambda>b. persist io now (snd (snd b))) d s) = k_past s @ map (snd \<circ> snd) d \<and>
   k_pending (fold (\<lambda>b. persist io now (snd (snd b))) d s) = k_pending s \<and>
   k_subs (fold (\<lambda>b. persist io now (snd (snd b))) d s) = k_subs s \<and>
   k_next (fold (\<lambda>b. persist io now (snd (snd b))) d s) = k_next s"
  by (induction d arbitrary: s) simp_all

lemma flush_simps:
  assumes "sink_inv s"
  shows "k_past (flush io now s) = whole s" "k_pending (flush io now s) = []"
    "k_subs (flush io now s) = k_subs s" "k_next (flush io now s) = k_next s"
  using fold_persist [of io now "k_pending s" "s\<lparr>k_timer := False, k_pending := []\<rparr>"]
  by (simp_all add: flush_eq [OF assms] whole_def buffered_def)

lemma flush_inv: "sink_inv s \<Longrightarrow> sink_inv (flush io now s) \<and> whole (flush io now s) = whole s"
  using flush_simps [of s io now] by (simp add: sink_inv_def whole_def [of "flush io now s"] buffered_def)

lemma stream_of_key: "coalesce_key ev = Some k \<Longrightarrow> stream_of ev = k"
  by (simp add: stream_of_def)

lemma coalesce_key_stream: "stream_of ev = Some k \<Longrightarrow> coalesce_key ev = Some (Some k)"
  by (simp add: stream_of_def split: option.splits)

lemma proj_single: "proj sc [e] = (if stream_of e = None \<or> scope e = sc then [e] else [])"
  by (simp add: proj_def)

text \<open>The buffers of a scope: at most one.\<close>

lemma proj_buffers:
  assumes "distinct (map fst d)" "\<forall>b\<in>set d. buffer_ok b"
  shows "proj sc (map (snd \<circ> snd) d) = (case map_of d sc of None \<Rightarrow> [] | Some (key, p) \<Rightarrow> [p])"
  using assms
proof (induction d)
  case (Cons b d)
  obtain sc' key p where b: "b = (sc', key, p)" by (metis prod.collapse)
  have p: "stream_of p = Some key" "scope p = sc'"
    using Cons.prems(2) b by (auto simp: buffer_ok_def stream_of_def)
  have "map_of d sc' = None" using Cons.prems(1) b by (simp add: map_of_eq_None_iff)
  with Cons p b show ?case
    by (auto simp: proj_def split: option.splits)
qed (simp add: proj_def)

lemma proj_whole:
  assumes "sink_inv s"
  shows "proj sc (whole s) = proj sc (k_past s) @ (case map_of (k_pending s) sc of None \<Rightarrow> [] | Some (key, p) \<Rightarrow> [p])"
  using assms by (simp add: whole_def buffered_def proj_buffers sink_inv_def)

lemma map_of_buffer_ok: "sink_inv s \<Longrightarrow> map_of (k_pending s) sc = Some (key, p) \<Longrightarrow> buffer_ok (sc, key, p)"
  unfolding sink_inv_def using map_of_SomeD by fastforce

lemma open_buffer_inv:
  "sink_inv s \<Longrightarrow> coalesce_key ev = Some (Some key) \<Longrightarrow> sink_inv (open_buffer key ev s)"
  using dput_set [of "scope ev" "(key, ev)" "k_pending s"] unfolding sink_inv_def open_buffer_def
  by (auto simp: buffer_ok_def)

lemma flush_scope_inv: "sink_inv s \<Longrightarrow> sink_inv (flush_scope io now s sc)"
  using ddel_set [of sc "k_pending s"] unfolding sink_inv_def flush_scope_def
  by (auto split: option.splits)

text \<open>One event: the log shows what it showed, and then this event.\<close>

lemma open_buffer_whole:
  assumes "sink_inv s" "coalesce_key ev = Some (Some key)" "map_of (k_pending s) (scope ev) = None"
  shows "proj sc (whole (open_buffer key ev s)) = proj sc (whole s @ [ev])"
  using assms stream_of_key [OF assms(2)] proj_whole [OF assms(1)] proj_whole [OF open_buffer_inv [OF assms(1,2)]]
  by (auto simp: open_buffer_def proj_single)

lemma flush_scope_whole:
  assumes "sink_inv s"
  shows "proj sc (whole (flush_scope io now s sc')) = proj sc (whole s)"
proof (cases "map_of (k_pending s) sc'")
  case None
  then show ?thesis by (simp add: flush_scope_def)
next
  case (Some kp)
  obtain key p where kp: "kp = (key, p)" by fastforce
  have p: "stream_of p = Some key" "scope p = sc'"
    using map_of_buffer_ok [OF assms] Some kp by (auto simp: buffer_ok_def stream_of_def)
  let ?s = "persist io now p (s\<lparr>k_pending := ddel sc' (k_pending s)\<rparr>)"
  have f: "flush_scope io now s sc' = ?s" using Some kp by (simp add: flush_scope_def)
  have inv: "sink_inv ?s" using flush_scope_inv [OF assms, of io now sc'] unfolding f .
  show ?thesis
    unfolding f proj_whole [OF inv] proj_whole [OF assms] using Some kp p by (cases "sc' = sc") (simp_all add: proj_single)
qed

lemma flush_scope_pending [simp]: "map_of (k_pending (flush_scope io now s sc)) sc = None"
  by (auto simp: flush_scope_def split: option.splits)

lemma coalesce_whole:
  assumes "sink_inv s" "coalesce_key ev = Some (Some key)"
  shows "sink_inv (coalesce io now key ev s) \<and>
    canon (proj sc (whole (coalesce io now key ev s))) = canon (proj sc (whole s @ [ev]))"
proof (cases "map_of (k_pending s) (scope ev)")
  case None
  then show ?thesis
    using open_buffer_inv [OF assms] open_buffer_whole [OF assms None] by (simp add: coalesce_def)
next
  case (Some kp)
  obtain k p where kp: "kp = (k, p)" by fastforce
  show ?thesis
  proof (cases "k = key \<and> content_len p + content_len ev \<le> COALESCE_MAX_CHARS")
    case True
    let ?s = "s\<lparr>k_pending := dput (scope ev) (key, merge_into p ev) (k_pending s)\<rparr>"
    have c: "coalesce io now key ev s = ?s" using Some kp True by (simp add: coalesce_def)
    have p: "stream_of p = Some key" "scope p = scope ev"
      using map_of_buffer_ok [OF assms(1)] Some kp True by (auto simp: buffer_ok_def stream_of_def)
    have ev: "stream_of ev = Some key" using assms(2) by (rule stream_of_key)
    have "buffer_ok (scope ev, key, merge_into p ev)"
      using merge_delta [OF p(1)] p(2) coalesce_key_stream by (auto simp: buffer_ok_def)
    then have inv: "sink_inv ?s"
      using assms(1) dput_set [of "scope ev" "(key, merge_into p ev)" "k_pending s"]
      unfolding sink_inv_def by auto
    have "canon (proj sc (whole ?s)) = canon (proj sc (whole s @ [ev]))"
    proof (cases "sc = scope ev")
      case True
      then have "proj sc (whole ?s) = proj sc (k_past s) @ [merge_into p ev]"
        "proj sc (whole s @ [ev]) = proj sc (k_past s) @ [p, ev]"
        using proj_whole [OF inv] proj_whole [OF assms(1)] Some kp by (simp_all add: proj_single)
      then show ?thesis using canon_merge_last [OF p(1) ev] by simp
    next
      case False
      then show ?thesis using proj_whole [OF inv] proj_whole [OF assms(1)] ev by (simp add: proj_single)
    qed
    with c inv show ?thesis by simp
  next
    case False
    let ?s = "flush_scope io now s (scope ev)"
    have c: "coalesce io now key ev s = open_buffer key ev ?s" using Some kp False by (auto simp: coalesce_def)
    have inv: "sink_inv ?s" using assms(1) by (rule flush_scope_inv)
    have "proj sc (whole (open_buffer key ev ?s)) = proj sc (whole s @ [ev])"
      using open_buffer_whole [OF inv assms(2) flush_scope_pending] flush_scope_whole [OF assms(1)] by simp
    with c open_buffer_inv [OF inv assms(2)] show ?thesis by simp
  qed
qed

section \<open>Runs of the sink\<close>

text \<open>
  What can happen between two looks at the sink: an event is put, somebody subscribes or leaves, the
  timer fires, the buffers are flushed from outside. The list collects the events that were put.
\<close>

inductive sink_run :: "(nat \<Rightarrow> bool) \<Rightarrow> sink \<Rightarrow> sink_event list \<Rightarrow> sink \<Rightarrow> bool" for io where
  start: "sink_run io s [] s"
| put: "sink_run io s evs t \<Longrightarrow> put io now ev t = Some u \<Longrightarrow> sink_run io s (evs @ [ev]) u"
| subscribe: "sink_run io s evs t \<Longrightarrow> sink_run io s evs (snd (subscribe io now t))"
| unsubscribe: "sink_run io s evs t \<Longrightarrow> sink_run io s evs (unsubscribe q t)"
| timer: "sink_run io s evs t \<Longrightarrow> k_timer t \<Longrightarrow> sink_run io s evs (on_timer io now t)"
| flush: "sink_run io s evs t \<Longrightarrow> sink_run io s evs (flush io now t)"

inductive_cases sink_runE: "sink_run io s evs t"

lemma put_cases:
  assumes "put io now ev s = Some u" "sink_inv s"
  obtains t where "sink_inv t" "k_subs t = k_subs s" "k_next t = k_next s"
    "\<And>sc. canon (proj sc (whole t)) = canon (proj sc (whole s @ [ev]))"
    "u = fan_out ev t \<or> u = fan_out ev ((flush io now t)\<lparr>k_done := True\<rparr>)"
proof -
  obtain k where k: "coalesce_key ev = Some k" using assms(1) by (auto simp: put_def split: option.splits)
  let ?t = "case k of Some key \<Rightarrow> coalesce io now key ev s | None \<Rightarrow> persist io now ev (flush io now s)"
  have u: "u = fan_out ev ?t \<or> u = fan_out ev ((flush io now ?t)\<lparr>k_done := True\<rparr>)"
    using assms(1) k by (auto simp: put_def Let_def split: if_splits)
  show ?thesis
  proof (cases k)
    case None
    let ?p = "persist io now ev (flush io now s)"
    have "sink_inv ?p" using flush_inv [OF assms(2)] by (simp add: sink_inv_def)
    moreover have "whole ?p = whole s @ [ev]"
      using flush_simps [OF assms(2), of io now] by (simp add: whole_def [of ?p] buffered_def)
    moreover have "k_subs ?p = k_subs s" "k_next ?p = k_next s" using flush_simps [OF assms(2), of io now] by simp_all
    ultimately show ?thesis using that [of ?p] u None by simp
  next
    case (Some key)
    let ?c = "coalesce io now key ev s"
    have "k_subs ?c = k_subs s" "k_next ?c = k_next s"
      by (auto simp: coalesce_def open_buffer_def flush_scope_def split: option.splits)
    then show ?thesis using that [of ?c] u k Some coalesce_whole [OF assms(2), of ev key io now] by simp
  qed
qed

lemma fan_out_simps [simp]:
  "whole (fan_out ev s) = whole s" "k_next (fan_out ev s) = k_next s"
  "map fst (k_subs (fan_out ev s)) = map fst (k_subs s)"
  by (auto simp: fan_out_def whole_def buffered_def)

lemma fan_out_inv [simp]: "sink_inv (fan_out ev s) = sink_inv s"
proof -
  have "k_pending (fan_out ev s) = k_pending s" by (simp add: fan_out_def)
  then show ?thesis by (simp only: sink_inv_def fan_out_simps)
qed

lemma done_simps [simp]: "sink_inv (s\<lparr>k_done := b\<rparr>) = sink_inv s" "whole (s\<lparr>k_done := b\<rparr>) = whole s"
  by (simp_all add: sink_inv_def whole_def buffered_def)

lemma put_whole:
  assumes "put io now ev s = Some u" "sink_inv s"
  shows "sink_inv u \<and> canon (proj sc (whole u)) = canon (proj sc (whole s @ [ev]))"
  using assms by (rule put_cases) (auto simp: flush_inv)

lemma subscribe_inv:
  assumes "sink_inv s"
  shows "sink_inv (snd (subscribe io now s)) \<and> whole (snd (subscribe io now s)) = whole s"
proof -
  have "whole (snd (subscribe io now s)) = whole (flush io now s)"
    by (simp add: subscribe_def Let_def whole_def buffered_def)
  moreover have "sink_inv (snd (subscribe io now s))"
    using assms flush_simps [OF assms, of io now] by (auto simp: subscribe_def Let_def sink_inv_def)
  ultimately show ?thesis using flush_inv [OF assms] by simp
qed

lemma unsubscribe_inv:
  assumes "sink_inv s"
  shows "sink_inv (unsubscribe q s) \<and> whole (unsubscribe q s) = whole s"
proof -
  have "set (ddel q (k_subs s)) \<subseteq> set (k_subs s)" by (rule ddel_set)
  then show ?thesis using assms by (auto simp: sink_inv_def unsubscribe_def whole_def buffered_def)
qed

lemma on_timer_inv: "sink_inv s \<Longrightarrow> sink_inv (on_timer io now s) \<and> whole (on_timer io now s) = whole s"
proof -
  assume s: "sink_inv s"
  then have "sink_inv (s\<lparr>k_timer := False\<rparr>)" by (simp add: sink_inv_def)
  from flush_inv [OF this] show ?thesis by (simp add: on_timer_def whole_def buffered_def)
qed

lemma sink_run_whole:
  "sink_run io s evs t \<Longrightarrow> sink_inv s \<Longrightarrow>
   sink_inv t \<and> (\<forall>sc. canon (proj sc (whole t)) = canon (proj sc (whole s @ evs)))"
proof (induction rule: sink_run.induct)
  case (put s evs t now ev u)
  then have t: "sink_inv t" "\<And>sc. canon (proj sc (whole t)) = canon (proj sc (whole s @ evs))" by auto
  have "canon (proj sc (whole t @ [ev])) = canon (proj sc (whole s @ evs @ [ev]))" for sc
    using canon_cong_append [OF t(2), of sc "proj sc [ev]"] by simp
  then show ?case using put_whole [OF put(2) t(1)] by simp
qed (auto simp: subscribe_inv unsubscribe_inv on_timer_inv flush_inv)

lemma sink_init_inv [simp]: "sink_inv (sink_init rid tbl)" "whole (sink_init rid tbl) = []"
  by (simp_all add: sink_inv_def sink_init_def whole_def buffered_def)

text \<open>What a subscriber has been sent.\<close>

lemma put_subs:
  assumes "put io now ev s = Some u" "sink_inv s"
  shows "k_subs u = map (\<lambda>(q, evs). (q, evs @ [ev])) (k_subs s) \<and> k_next u = k_next s"
  using assms
proof (rule put_cases)
  fix t
  assume t: "sink_inv t" "k_subs t = k_subs s" "k_next t = k_next s"
    and "u = fan_out ev t \<or> u = fan_out ev ((flush io now t)\<lparr>k_done := True\<rparr>)"
  then show ?thesis using flush_simps [OF t(1), of io now] by (auto simp: fan_out_def)
qed

lemma sink_run_subs:
  "sink_run io s evs t \<Longrightarrow> sink_inv s \<Longrightarrow> map_of (k_subs s) q = Some xs \<Longrightarrow>
   q < k_next t \<and> (q \<in> fst ` set (k_subs t) \<longrightarrow> map_of (k_subs t) q = Some (xs @ evs))"
proof (induction rule: sink_run.induct)
  case (start s)
  then have "q \<in> set (map fst (k_subs s))" using map_of_SomeD by force
  with start show ?case unfolding sink_inv_def by auto
next
  case (put s evs t now ev u)
  have "sink_inv t" using sink_run_whole [OF put(1)] put.prems by blast
  from put_subs [OF put(2) this] have u: "k_subs u = map (\<lambda>(q, evs). (q, evs @ [ev])) (k_subs t)" "k_next u = k_next t"
    by simp_all
  then have "fst ` set (k_subs u) = fst ` set (k_subs t)" by force
  with u put show ?case by (simp add: map_of_map_snd)
next
  case (subscribe s evs t now)
  have "sink_inv t" using sink_run_whole [OF subscribe(1)] subscribe.prems by blast
  then have "k_subs (snd (subscribe io now t)) = k_subs t @ [(k_next t, [])]" "k_next (snd (subscribe io now t)) = Suc (k_next t)"
    by (simp_all add: subscribe_def Let_def flush_simps)
  with subscribe show ?case by (auto simp: map_add_def)
next
  case (unsubscribe s evs t q')
  have "fst ` set (ddel q' (k_subs t)) = fst ` set (k_subs t) - {q'}" using keys_ddel [of q' "k_subs t"] by simp
  with unsubscribe show ?case by (auto simp: unsubscribe_def)
next
  case (timer s evs t now)
  have "sink_inv t" using sink_run_whole [OF timer(1)] timer.prems by blast
  then have "sink_inv (t\<lparr>k_timer := False\<rparr>)" by (simp add: sink_inv_def)
  from flush_simps [OF this] timer show ?case by (simp add: on_timer_def)
next
  case (flush s evs t now)
  have "sink_inv t" using sink_run_whole [OF flush(1)] flush.prems by blast
  from flush_simps [OF this] flush show ?case by simp
qed

text \<open>What the table holds of the run while no insertion fails.\<close>

definition log_inv :: "sink \<Rightarrow> bool" where
  "log_inv s = (let rs = filter (\<lambda>r. e_run r = k_run s) (k_log s) in
     map e_payload rs = map Some (k_past s) \<and> sorted (map e_seq rs) \<and> (\<forall>r\<in>set rs. e_seq r \<le> k_seq s))"

lemma log_inv_frame [simp]:
  "log_inv (s\<lparr>k_pending := x\<rparr>) = log_inv s" "log_inv (s\<lparr>k_timer := b\<rparr>) = log_inv s"
  "log_inv (s\<lparr>k_done := b\<rparr>) = log_inv s" "log_inv (s\<lparr>k_subs := y\<rparr>) = log_inv s"
  "log_inv (s\<lparr>k_next := n\<rparr>) = log_inv s"
  by (simp_all add: log_inv_def)

lemma log_inv_persist: "\<forall>n. io n \<Longrightarrow> log_inv s \<Longrightarrow> log_inv (persist io now ev s)"
  by (fastforce simp: log_inv_def persist_def Let_def sorted_append)

lemma log_inv_flush_scope: "\<forall>n. io n \<Longrightarrow> log_inv s \<Longrightarrow> log_inv (flush_scope io now s sc)"
  by (auto simp: flush_scope_def log_inv_persist split: option.splits)

lemma log_inv_flush: "\<forall>n. io n \<Longrightarrow> log_inv s \<Longrightarrow> log_inv (flush io now s)"
proof -
  assume io: "\<forall>n. io n"
  have "log_inv s \<Longrightarrow> log_inv (foldl (flush_scope io now) s ks)" for s ks
    by (induction ks arbitrary: s) (simp_all add: log_inv_flush_scope [OF io])
  then show "log_inv s \<Longrightarrow> log_inv (flush io now s)" by (simp add: flush_def)
qed

lemma log_inv_put: "\<forall>n. io n \<Longrightarrow> log_inv s \<Longrightarrow> put io now ev s = Some u \<Longrightarrow> log_inv u"
  by (auto simp: put_def Let_def fan_out_def coalesce_def open_buffer_def log_inv_persist log_inv_flush log_inv_flush_scope
      split: option.splits if_splits)

lemma sink_run_log: "sink_run io s evs t \<Longrightarrow> \<forall>n. io n \<Longrightarrow> log_inv s \<Longrightarrow> log_inv t"
proof (induction rule: sink_run.induct)
  case (put s evs t now ev u)
  then show ?case using log_inv_put by blast
qed (simp_all add: log_inv_flush subscribe_def unsubscribe_def on_timer_def Let_def)

lemma k_run_flush_scope [simp]: "k_run (flush_scope io now s sc) = k_run s"
  by (auto simp: flush_scope_def split: option.splits)

lemma k_run_flush [simp]: "k_run (flush io now s) = k_run s"
proof -
  have "k_run (foldl (flush_scope io now) t ks) = k_run t" for t ks by (induction ks arbitrary: t) simp_all
  then show ?thesis by (simp add: flush_def)
qed

lemma sink_run_run: "sink_run io s evs t \<Longrightarrow> k_run t = k_run s"
proof (induction rule: sink_run.induct)
  case (put s evs t now ev u)
  then show ?case
    by (auto simp: put_def Let_def fan_out_def coalesce_def open_buffer_def split: option.splits if_splits)
qed (auto simp: subscribe_def unsubscribe_def on_timer_def Let_def)

lemma load_events_log:
  assumes "log_inv s"
  shows "load_events_from_db (k_log s) (k_run s) = k_past s"
proof -
  let ?rs = "filter (\<lambda>r. e_run r = k_run s) (k_log s)"
  have rs: "map e_payload ?rs = map Some (k_past s)" "sorted (map e_seq ?rs)" using assms by (simp_all add: log_inv_def Let_def)
  have "List.map_filter id (map e_payload ?rs) = k_past s" unfolding rs(1) by (simp add: map_filter_def comp_def)
  then have "List.map_filter e_payload ?rs = k_past s" by (simp add: map_filter_def comp_def filter_map)
  then show ?thesis using rs(2) by (simp add: load_events_from_db_def sort_key_id_if_sorted)
qed

section \<open>Sweeping the table\<close>

lemma delete_first_few:
  "delete_first n P rs = (k, rest) \<Longrightarrow> k < n \<Longrightarrow> rest = filter (\<lambda>r. \<not> P r) rs"
  by (induction n P rs arbitrary: k rest rule: delete_first.induct) (auto split: if_splits prod.splits)

lemma delete_first_filter:
  "delete_first n P rs = (k, rest) \<Longrightarrow> filter (\<lambda>r. \<not> P r) rest = filter (\<lambda>r. \<not> P r) rs"
  by (induction n P rs arbitrary: k rest rule: delete_first.induct) (auto split: if_splits prod.splits)

text \<open>Sweeping ends, keeps every young row, reports what it deleted, and, when no batch fails,
  keeps nothing else.\<close>

lemma sweep_loop_exact:
  "sweep_loop fails i cutoff tbl deleted = (n, rest) \<Longrightarrow>
   filter (\<lambda>r. \<not> e_created r < cutoff) rest = filter (\<lambda>r. \<not> e_created r < cutoff) tbl \<and>
   length rest + n = length tbl + deleted \<and>
   ((\<forall>j. \<not> fails j) \<longrightarrow> rest = filter (\<lambda>r. \<not> e_created r < cutoff) tbl)"
proof (induction fails i cutoff tbl deleted arbitrary: n rest rule: sweep_loop.induct)
  case (1 fails i cutoff tbl deleted)
  obtain k tbl' where b: "sweep_batch cutoff tbl = (k, tbl')" by fastforce
  have f: "filter (\<lambda>r. \<not> e_created r < cutoff) tbl' = filter (\<lambda>r. \<not> e_created r < cutoff) tbl"
    "length tbl' + k = length tbl"
    using b delete_first_filter delete_first_length by (fastforce simp: sweep_batch_def)+
  consider "fails i" | "\<not> fails i" "k < SWEEP_BATCH" | "\<not> fails i" "\<not> k < SWEEP_BATCH" by blast
  then show ?case
  proof cases
    case 1
    with "1.prems" show ?thesis by (auto simp: sweep_loop.simps [of fails i])
  next
    case 2
    then have "(n, rest) = (deleted + k, tbl')" using "1.prems" b by (simp add: sweep_loop.simps [of fails i])
    moreover have "tbl' = filter (\<lambda>r. \<not> e_created r < cutoff) tbl"
      using b 2 delete_first_few by (simp add: sweep_batch_def)
    ultimately show ?thesis using f by simp
  next
    case 3
    then have "sweep_loop fails (Suc i) cutoff tbl' (deleted + k) = (n, rest)"
      using "1.prems" b by (simp add: sweep_loop.simps [of fails i])
    from "1.IH" [OF 3(1) b [symmetric] refl 3(2) this] f show ?thesis by auto
  qed
qed

section \<open>Properties\<close>

text \<open>
  C25. Replaying a run's log shows what the live viewers saw. After any interleaving of events,
  subscriptions and timers, and for every scope of the user interface (the parent stream or one
  sub-agent), the log, with the buffers flushed, and the raw events give the same sequence once
  adjacent deltas of one stream are merged: no text is lost, repeated or reordered within a scope or
  against an event that is not a delta. And while no insertion fails, reading the table back gives
  exactly the log.
\<close>

theorem replay_shows_live:
  assumes "sink_run io (sink_init rid tbl) evs s" "\<forall>r\<in>set tbl. e_run r \<noteq> rid"
  shows "canon (proj sc (k_past (flush io now s))) = canon (proj sc evs) \<and>
    ((\<forall>n. io n) \<longrightarrow> load_events_from_db (k_log (flush io now s)) rid = k_past (flush io now s))"
proof -
  have inv: "sink_inv s" and c: "canon (proj sc (whole s)) = canon (proj sc evs)"
    using sink_run_whole [OF assms(1)] by simp_all
  have run: "k_run (flush io now s) = rid" using sink_run_run [OF assms(1)] by (simp add: sink_init_def)
  have "log_inv (sink_init rid tbl)" using assms(2) by (simp add: log_inv_def sink_init_def filter_empty_conv)
  then have "log_inv (flush io now s)" if "\<forall>n. io n" using sink_run_log [OF assms(1) that] log_inv_flush [OF that] by blast
  with load_events_log run have "load_events_from_db (k_log (flush io now s)) rid = k_past (flush io now s)" if "\<forall>n. io n"
    using that by metis
  with c flush_simps(1) [OF inv] show ?thesis by simp
qed

definition demo_delta :: "string \<Rightarrow> sink_event" where
  "demo_delta c = [(''type'', PStr ''message_delta''), (''content'', PStr c)]"

theorem replay_shows_live_witness:
  "let s1 = the (put (\<lambda>_. True) 5 (demo_delta ''Hel'') (sink_init ''r'' []));
       s2 = the (put (\<lambda>_. True) 6 (demo_delta ''lo'') s1)
   in k_past (flush (\<lambda>_. True) 7 s2) = [demo_delta ''Hello''] \<and>
      canon (proj [] (k_past (flush (\<lambda>_. True) 7 s2))) = canon (proj [] [demo_delta ''Hel'', demo_delta ''lo''])"
proof -
  let ?io = "\<lambda>_::nat. True"
  let ?s0 = "sink_init ''r'' []"
  let ?s1 = "the (put ?io 5 (demo_delta ''Hel'') ?s0)"
  let ?s2 = "the (put ?io 6 (demo_delta ''lo'') ?s1)"
  have p1: "put ?io 5 (demo_delta ''Hel'') ?s0 = Some ?s1" by code_simp
  have p2: "put ?io 6 (demo_delta ''lo'') ?s1 = Some ?s2" by code_simp
  have "sink_run ?io ?s0 ([] @ [demo_delta ''Hel''] @ [demo_delta ''lo'']) ?s2"
    using sink_run.put [OF sink_run.put [OF sink_run.start p1] p2] by simp
  from replay_shows_live [OF this, of "[]" 7]
  have "canon (proj [] (k_past (flush ?io 7 ?s2))) = canon (proj [] [demo_delta ''Hel'', demo_delta ''lo''])" by simp
  moreover have "k_past (flush ?io 7 ?s2) = [demo_delta ''Hello'']" by code_simp
  ultimately show ?thesis unfolding Let_def by blast
qed

text \<open>
  A subscriber misses nothing and sees nothing twice. It is handed the log so far, which shows
  the events put before it came, and its queue then receives exactly the events put from that moment
  on, one by one and in order, for as long as it stays subscribed.
\<close>

theorem subscriber_sees_everything:
  assumes "sink_run io (sink_init rid tbl) before s" "subscribe io now s = ((past, q), s')"
    and "sink_run io s' evs t" "q \<in> fst ` set (k_subs t)"
  shows "map_of (k_subs t) q = Some evs \<and> canon (proj sc past) = canon (proj sc before)"
proof -
  have inv: "sink_inv s" and c: "canon (proj sc (whole s)) = canon (proj sc before)"
    using sink_run_whole [OF assms(1)] by simp_all
  have s': "s' = snd (subscribe io now s)" "past = whole s" "q = k_next s"
    using assms(2) flush_simps [OF inv, of io now] by (auto simp: subscribe_def Let_def)
  have inv': "sink_inv s'" using subscribe_inv [OF inv] s' by simp
  have "k_next s \<notin> fst ` set (k_subs s)" using inv by (auto simp: sink_inv_def)
  then have "map_of (k_subs s) q = None" using s' by (simp add: map_of_eq_None_iff)
  then have "map_of (k_subs s') q = Some []"
    using flush_simps [OF inv, of io now] s' by (simp add: subscribe_def Let_def map_add_def)
  from sink_run_subs [OF assms(3) inv' this] assms(4) c s' show ?thesis by simp
qed

theorem subscriber_sees_everything_witness:
  "let s1 = the (put (\<lambda>_. True) 5 (demo_delta ''Hel'') (sink_init ''r'' []));
       r = subscribe (\<lambda>_. True) 6 s1;
       s3 = the (put (\<lambda>_. True) 7 (demo_delta ''lo'') (snd r))
   in fst r = ([demo_delta ''Hel''], 0) \<and> map_of (k_subs s3) 0 = Some [demo_delta ''lo'']"
proof -
  let ?io = "\<lambda>_::nat. True"
  let ?s1 = "the (put ?io 5 (demo_delta ''Hel'') (sink_init ''r'' []))"
  let ?s2 = "snd (subscribe ?io 6 ?s1)"
  let ?s3 = "the (put ?io 7 (demo_delta ''lo'') ?s2)"
  have p1: "put ?io 5 (demo_delta ''Hel'') (sink_init ''r'' []) = Some ?s1" by code_simp
  have sub: "subscribe ?io 6 ?s1 = (([demo_delta ''Hel''], 0), ?s2)" by code_simp
  have p3: "put ?io 7 (demo_delta ''lo'') ?s2 = Some ?s3" by code_simp
  have "0 \<in> fst ` set (k_subs ?s3)" by code_simp
  then have "map_of (k_subs ?s3) 0 = Some ([] @ [demo_delta ''lo''])"
    using subscriber_sees_everything [OF sink_run.put [OF sink_run.start p1] sub sink_run.put [OF sink_run.start p3]] by blast
  moreover have "fst (subscribe ?io 6 ?s1) = ([demo_delta ''Hel''], 0)" by code_simp
  ultimately show ?thesis unfolding Let_def append_Nil by (intro conjI)
qed

end
