(* ===== verification/Task_Stream.thy ===== *)
theory Task_Stream
  imports Task_Driver Run_Sink
begin

text \<open>
  The driver of an unattended run reading the run's sink: what \<open>TaskRunDriver.drive\<close> gets from
  \<open>RunSink.subscribe\<close> is a log with merged deltas, followed by raw events. The merging is invisible
  to it.
\<close>

section \<open>Deltas and the driver\<close>

text \<open>The text a delta adds to the summary: only the parent stream's messages count.\<close>

definition shown :: "sink_event \<Rightarrow> string" where
  "shown ev = (if pget ev ''type'' = PStr ''message_delta'' then delta_text ev else [])"

lemma apply_delta:
  assumes "stream_of ev = Some k"
  shows "apply_ev cfg drv ev = Some (False, drv\<lparr>d_delta := d_delta drv @ shown ev\<rparr>)"
  using assms
proof (cases rule: stream_cases)
  case (plain t c)
  then have "delta_text ev = c" by (intro delta_text_plain) auto
  with plain show ?thesis
    by (cases "c = []") (auto simp: apply_ev_def shown_def py_or_def CONFIRM_TYPES_def)
next
  case (sub t c inner)
  then show ?thesis by (simp add: apply_ev_def shown_def CONFIRM_TYPES_def)
qed

lemma shown_merge:
  assumes "stream_of a = Some k" "stream_of b = Some k"
  shows "shown (merge_into a b) = shown a @ shown b"
  using assms(1)
proof (cases rule: stream_cases)
  case (plain t c)
  have "pget b ''type'' = pget a ''type''" using assms(2) plain by (cases rule: stream_cases) auto
  moreover have "pget (merge_into a b) ''type'' = pget a ''type''" using plain by (simp add: merge_into_def)
  ultimately show ?thesis using merge_delta [OF assms(1)] by (simp add: shown_def)
next
  case (sub t c inner)
  have "pget b ''type'' = PStr ''subagent_event''" using assms(2) sub by (cases rule: stream_cases) auto
  with sub show ?thesis by (simp add: shown_def merge_into_def)
qed

lemma other_scope_silent: "stream_of ev = Some k \<Longrightarrow> scope ev \<noteq> [] \<Longrightarrow> shown ev = []"
  by (simp add: shown_def scope_def split: if_splits)

lemma drive_delta:
  "stream_of ev = Some k \<Longrightarrow>
   drive_loop cfg drv (Got ev # fs) = drive_loop cfg (drv\<lparr>d_delta := d_delta drv @ shown ev\<rparr>) fs"
  by (simp add: apply_delta)

lemma drive_push:
  "drive_loop cfg drv (map Got (push e acc) @ fs) = drive_loop cfg drv (Got e # map Got acc @ fs)"
proof (cases acc)
  case (Cons f rest)
  show ?thesis
  proof (cases "stream_of e \<noteq> None \<and> stream_of e = stream_of f")
    case True
    then obtain k where e: "stream_of e = Some k" by (meson option.exhaust)
    have f: "stream_of f = Some k" using True e by metis
    have "push e acc = merge_into e f # rest" using e f by (simp add: push_def Cons)
    moreover have "stream_of (merge_into e f) = Some k" using merge_delta [OF e] by blast
    ultimately show ?thesis by (simp add: Cons drive_delta e f shown_merge [OF e f] del: drive_loop.simps(4))
  next
    case False
    then have "push e acc = e # acc" unfolding push_def Cons list.case by (rule if_not_P)
    then show ?thesis by simp
  qed
qed (simp add: push_def)

text \<open>The driver's state after an event is all that matters for the rest.\<close>

lemma drive_cong:
  assumes "\<And>d. drive_loop cfg d fs = drive_loop cfg d gs"
  shows "drive_loop cfg drv (Got e # fs) = drive_loop cfg drv (Got e # gs)"
  using assms by (simp split: option.splits bool.splits)

lemma drive_canon: "drive_loop cfg drv (map Got (canon evs) @ fs) = drive_loop cfg drv (map Got evs @ fs)"
proof (induction evs arbitrary: drv)
  case (Cons e evs)
  show ?case using drive_cong [OF Cons.IH, where e = e] by (simp add: drive_push del: drive_loop.simps(4))
qed simp

lemma drive_proj: "drive_loop cfg drv (map Got (proj [] evs) @ fs) = drive_loop cfg drv (map Got evs @ fs)"
proof (induction evs arbitrary: drv)
  case (Cons e evs)
  show ?case
  proof (cases "stream_of e = None \<or> scope e = []")
    case True
    then have "proj [] (e # evs) = e # proj [] evs" by (simp add: proj_def)
    with drive_cong [OF Cons.IH, where e = e] show ?thesis by (simp del: drive_loop.simps(4))
  next
    case False
    then obtain k where k: "stream_of e = Some k" by auto
    have "proj [] (e # evs) = proj [] evs" using False by (simp add: proj_def)
    moreover have "shown e = []" using other_scope_silent [OF k] False by simp
    ultimately show ?thesis using Cons.IH drive_delta [OF k] by (simp del: drive_loop.simps(4))
  qed
qed (simp add: proj_def)

lemma drive_same_scope:
  assumes "canon (proj [] xs) = canon (proj [] ys)"
  shows "drive_loop cfg drv (map Got xs @ fs) = drive_loop cfg drv (map Got ys @ fs)"
  by (metis assms drive_canon drive_proj)

section \<open>Properties\<close>

text \<open>
  C26. It makes no difference to an unattended run when its driver subscribes. Reading the merged log
  the sink hands over and then the live events gives the same outcome and the same final state (the
  summary, the approvals and denials, the answered confirmations, the error) as reading every raw
  event from the start.
\<close>

theorem late_driver_sees_same_run:
  assumes "sink_run io (sink_init rid tbl) evs s" "subscribe io now s = ((past, q), s')"
  shows "drive cfg (Some past) fs drv = drive cfg (Some evs) fs drv"
proof -
  have inv: "sink_inv s" and c: "canon (proj [] (whole s)) = canon (proj [] evs)"
    using sink_run_whole [OF assms(1)] by simp_all
  have "past = whole s" using assms(2) flush_simps [OF inv, of io now] by (auto simp: subscribe_def Let_def)
  then show ?thesis using drive_same_scope [OF c] by (simp add: drive_def)
qed

theorem late_driver_sees_same_run_witness:
  "let cfg = \<lparr>c_session = ''s1'', c_preauth = [], c_policy = PNone, c_escalates = False, c_realpath = Some, c_audit_ok = True\<rparr>;
       s1 = the (put (\<lambda>_. True) 5 (demo_delta ''Hel'') (sink_init ''r'' []));
       s2 = the (put (\<lambda>_. True) 6 (demo_delta ''lo'') s1)
   in drive cfg (Some [demo_delta ''Hello'']) [Elapsed] (drv_init mgr_init) =
      drive cfg (Some [demo_delta ''Hel'', demo_delta ''lo'']) [Elapsed] (drv_init mgr_init)"
proof -
  let ?io = "\<lambda>_::nat. True"
  let ?s1 = "the (put ?io 5 (demo_delta ''Hel'') (sink_init ''r'' []))"
  let ?s2 = "the (put ?io 6 (demo_delta ''lo'') ?s1)"
  have p1: "put ?io 5 (demo_delta ''Hel'') (sink_init ''r'' []) = Some ?s1" by code_simp
  have p2: "put ?io 6 (demo_delta ''lo'') ?s1 = Some ?s2" by code_simp
  have sub: "subscribe ?io 7 ?s2 = (([demo_delta ''Hello''], 0), snd (subscribe ?io 7 ?s2))" by code_simp
  show ?thesis
    unfolding Let_def
    using late_driver_sees_same_run [OF sink_run.put [OF sink_run.put [OF sink_run.start p1] p2] sub] by simp
qed

end
