(* ===== verification/Cron.thy ===== *)
theory Cron
  imports Py_Prelude "HOL-Library.Monad_Syntax"
begin

text \<open>
  \<open>agent/tasks/cron.py\<close>: the five-field cron parser and the search for the next firing time, with
  the part of \<open>datetime\<close> it uses. A naive datetime (seconds dropped) is a year, month, day and
  minute of the day; days are counted as \<open>toordinal\<close> does. The local time zone is a pair of
  parameters, \<open>fromtimestamp\<close> and \<open>timestamp\<close>; the locale \<open>zone\<close> says what a zone without clock
  changes promises, and the fixed-offset zones satisfy it. The search loop is a partial function:
  \<open>None\<close> would be a loop that never ends. The upper year limit of \<open>datetime\<close> is not modelled.
\<close>

section \<open>Fields\<close>

datatype cron_error = CronError string | ValueError string

fun error_text :: "cron_error \<Rightarrow> string" where
  "error_text (CronError m) = m"
| "error_text (ValueError m) = m"

definition RANGES :: "(int \<times> int) list" where
  "RANGES = [(0, 59), (0, 23), (1, 31), (1, 12), (0, 7)]"

definition HORIZON_DAYS :: int where
  "HORIZON_DAYS = 366 * 4"

definition str_isdigit :: "string \<Rightarrow> bool" where
  "str_isdigit s \<longleftrightarrow> s \<noteq> [] \<and> list_all py_isdigit s"

text \<open>\<open>int(s)\<close> of a string that \<open>isdigit\<close> accepts; a superscript digit is refused.\<close>

definition py_int :: "string \<Rightarrow> cron_error + int" where
  "py_int s = (if list_all ascii_digit s then Inr (int_of_digits s) 
     else Inl (ValueError (''invalid literal for int() with base 10: '' @ repr_str s)))"

definition py_range :: "int \<Rightarrow> int \<Rightarrow> int \<Rightarrow> int list" where
  "py_range start stop step = filter (\<lambda>x. (x - start) mod step = 0) [start..stop - 1]"

definition bind_err :: "'e + 'a \<Rightarrow> ('a \<Rightarrow> 'e + 'b) \<Rightarrow> 'e + 'b" where
  "bind_err x f = (case x of Inl e \<Rightarrow> Inl e | Inr a \<Rightarrow> f a)"

definition parse_step :: "string \<Rightarrow> string \<Rightarrow> cron_error + (string \<times> int)" where
  "parse_step raw part =
     (if CHR ''/'' \<in> set part then
        (let step_s = after_char (CHR ''/'') part in
         if \<not> str_isdigit step_s then Inl (CronError (''bad step in '' @ repr_str raw))
         else bind_err (py_int step_s) (\<lambda>n.
           if n < 1 then Inl (CronError (''bad step in '' @ repr_str raw))
           else Inr (before_char (CHR ''/'') part, n)))
      else Inr (part, 1))"

definition parse_bounds :: "string \<Rightarrow> string \<Rightarrow> int \<Rightarrow> int \<Rightarrow> cron_error + (int \<times> int)" where
  "parse_bounds raw part lo hi =
     (if part = ''*'' then Inr (lo, hi)
      else if CHR ''-'' \<in> set part then
        (let a = before_char (CHR ''-'') part; b = after_char (CHR ''-'') part in
         if \<not> (str_isdigit a \<and> str_isdigit b) then Inl (CronError (''bad range in '' @ repr_str raw))
         else bind_err (py_int a) (\<lambda>x. bind_err (py_int b) (\<lambda>y. Inr (x, y))))
      else if str_isdigit part then bind_err (py_int part) (\<lambda>x. Inr (x, x))
      else Inl (CronError (''bad token '' @ repr_str part)))"

definition parse_part :: "string \<Rightarrow> int \<Rightarrow> int \<Rightarrow> string \<Rightarrow> cron_error + int list" where
  "parse_part raw lo hi p =
     (let part = py_strip p in
      if part = [] then Inl (CronError (''empty field part in '' @ repr_str raw))
      else bind_err (parse_step raw part) (\<lambda>(part, step).
        bind_err (parse_bounds raw part lo hi) (\<lambda>(start, stop).
          if start < lo \<or> stop > hi \<or> start > stop
          then Inl (CronError (''value out of range in '' @ repr_str raw))
          else Inr (py_range start (stop + 1) step))))"

fun parse_parts :: "string \<Rightarrow> int \<Rightarrow> int \<Rightarrow> string list \<Rightarrow> cron_error + int list" where
  "parse_parts raw lo hi [] = Inr []"
| "parse_parts raw lo hi (p # ps) =
     bind_err (parse_part raw lo hi p) (\<lambda>xs.
       bind_err (parse_parts raw lo hi ps) (\<lambda>ys. Inr (xs @ ys)))"

definition parse_field :: "string \<Rightarrow> nat \<Rightarrow> cron_error + int list" where
  "parse_field raw idx =
     bind_err (parse_parts raw (fst (RANGES ! idx)) (snd (RANGES ! idx)) (split_on (CHR '','') raw))
       (\<lambda>out. Inr (if idx = 4 \<and> 7 \<in> set out then 0 # removeAll 7 out else out))"

fun parse_fields :: "nat \<Rightarrow> string list \<Rightarrow> cron_error + int list list" where
  "parse_fields i [] = Inr []"
| "parse_fields i (p # ps) =
     bind_err (parse_field p i) (\<lambda>f. bind_err (parse_fields (Suc i) ps) (\<lambda>fs. Inr (f # fs)))"

definition cron_fields :: "string \<Rightarrow> cron_error + int list list" where
  "cron_fields expr =
     (let parts = split_ws expr in
      if length parts \<noteq> 5 then Inl (CronError ''cron expression must have 5 fields'')
      else parse_fields 0 parts)"

definition validate :: "string \<Rightarrow> cron_error option" where
  "validate expr = (case cron_fields expr of Inl e \<Rightarrow> Some e | Inr _ \<Rightarrow> None)"

section \<open>Naive datetimes\<close>

record datetime =
  dt_y :: int
  dt_m :: int
  dt_d :: int
  dt_min :: int

definition is_leap :: "int \<Rightarrow> bool" where
  "is_leap y \<longleftrightarrow> y mod 4 = 0 \<and> (y mod 100 \<noteq> 0 \<or> y mod 400 = 0)"

definition days_in_month :: "int \<Rightarrow> int \<Rightarrow> int" where
  "days_in_month y m =
     (if m = 2 then (if is_leap y then 29 else 28) else if m \<in> set [4, 6, 9, 11] then 30 else 31)"

definition days_before_year :: "int \<Rightarrow> int" where
  "days_before_year y = (let p = y - 1 in p * 365 + p div 4 - p div 100 + p div 400)"

definition days_before_month :: "int \<Rightarrow> int \<Rightarrow> int" where
  "days_before_month y m =
     [0, 31, 59, 90, 120, 151, 181, 212, 243, 273, 304, 334] ! nat (m - 1) + (if m > 2 \<and> is_leap y then 1 else 0)"

definition toordinal :: "datetime \<Rightarrow> int" where
  "toordinal t = days_before_year (dt_y t) + days_before_month (dt_y t) (dt_m t) + dt_d t"

definition valid :: "datetime \<Rightarrow> bool" where
  "valid t \<longleftrightarrow> 1 \<le> dt_m t \<and> dt_m t \<le> 12 \<and> 1 \<le> dt_d t \<and> dt_d t \<le> days_in_month (dt_y t) (dt_m t) \<and>
     0 \<le> dt_min t \<and> dt_min t < 1440"

text \<open>Minutes since a fixed origin; comparing two datetimes is comparing these.\<close>

definition dt_idx :: "datetime \<Rightarrow> int" where
  "dt_idx t = toordinal t * 1440 + dt_min t"

definition dt_hour :: "datetime \<Rightarrow> int" where
  "dt_hour t = dt_min t div 60"

definition dt_minute :: "datetime \<Rightarrow> int" where
  "dt_minute t = dt_min t mod 60"

definition next_day :: "datetime \<Rightarrow> datetime" where
  "next_day t =
     (if dt_d t < days_in_month (dt_y t) (dt_m t) then t\<lparr>dt_d := dt_d t + 1\<rparr>
      else if dt_m t < 12 then t\<lparr>dt_m := dt_m t + 1, dt_d := 1\<rparr>
      else t\<lparr>dt_y := dt_y t + 1, dt_m := 1, dt_d := 1\<rparr>)"

definition add_days :: "nat \<Rightarrow> datetime \<Rightarrow> datetime" where
  "add_days n t = (next_day ^^ n) t"

text \<open>\<open>t + timedelta(minutes=k)\<close> for \<open>k\<close> up to a day.\<close>

definition add_minutes :: "int \<Rightarrow> datetime \<Rightarrow> datetime" where
  "add_minutes k t =
     (let n = dt_min t + k in
      if n < 1440 then t\<lparr>dt_min := n\<rparr> else (next_day t)\<lparr>dt_min := n - 1440\<rparr>)"

section \<open>The next firing time\<close>

record cron =
  mins :: "int list"
  hours :: "int list"
  doms :: "int list"
  months :: "int list"
  dows :: "int list"
  dom_restricted :: bool
  dow_restricted :: bool

definition cron_dow :: "datetime \<Rightarrow> int" where
  "cron_dow t = ((toordinal t + 6) mod 7 + 1) mod 7"

definition day_ok :: "cron \<Rightarrow> datetime \<Rightarrow> bool" where
  "day_ok c t =
     (if dom_restricted c \<and> dow_restricted c then dt_d t \<in> set (doms c) \<or> cron_dow t \<in> set (dows c)
      else dt_d t \<in> set (doms c) \<and> cron_dow t \<in> set (dows c))"

definition next_month_start :: "datetime \<Rightarrow> datetime" where
  "next_month_start t = (add_days 32 (t\<lparr>dt_d := 1, dt_min := 0\<rparr>))\<lparr>dt_d := 1, dt_min := 0\<rparr>"

definition next_day_start :: "datetime \<Rightarrow> datetime" where
  "next_day_start t = (add_days 1 t)\<lparr>dt_min := 0\<rparr>"

definition next_hour_start :: "datetime \<Rightarrow> datetime" where
  "next_hour_start t = (let u = add_minutes 60 t in u\<lparr>dt_min := dt_hour u * 60\<rparr>)"

text \<open>The loop body: where the search goes next, or that it stops here.\<close>

definition cron_step :: "cron \<Rightarrow> datetime \<Rightarrow> datetime option" where
  "cron_step c t =
     (if dt_m t \<notin> set (months c) then Some (next_month_start t)
      else if \<not> day_ok c t then Some (next_day_start t)
      else if dt_hour t \<notin> set (hours c) then Some (next_hour_start t)
      else if dt_minute t \<notin> set (mins c) then Some (add_minutes 1 t)
      else None)"

partial_function (option) search :: "cron \<Rightarrow> int \<Rightarrow> datetime \<Rightarrow> datetime option option" where
  "search c limit t =
     (if dt_idx t < limit
      then (case cron_step c t of None \<Rightarrow> Some (Some t) | Some u \<Rightarrow> search c limit u)
      else Some None)"

declare search.simps [code]

definition cron_of :: "string \<Rightarrow> cron_error + cron" where
  "cron_of expr = bind_err (cron_fields expr) (\<lambda>fs.
     let raw = split_ws expr in
     Inr \<lparr>mins = fs ! 0, hours = fs ! 1, doms = fs ! 2, months = fs ! 3, dows = fs ! 4,
          dom_restricted = (raw ! 2 \<noteq> ''*''), dow_restricted = (raw ! 4 \<noteq> ''*'')\<rparr>)"

definition next_after ::
  "(int \<Rightarrow> datetime) \<Rightarrow> (datetime \<Rightarrow> int) \<Rightarrow> string \<Rightarrow> int \<Rightarrow> (cron_error + int) option" where
  "next_after fromtimestamp timestamp expr after_ts =
     (case cron_of expr of
        Inl e \<Rightarrow> Some (Inl e)
      | Inr c \<Rightarrow>
          (let t = add_minutes 1 (fromtimestamp after_ts); limit = dt_idx t + HORIZON_DAYS * 1440 in
           case search c limit t of
             None \<Rightarrow> None
           | Some None \<Rightarrow> Some (Inl (CronError (''expression never fires within horizon: '' @ repr_str expr)))
           | Some (Some r) \<Rightarrow> Some (Inr (timestamp r))))"

section \<open>Calendar arithmetic\<close>

lemma dim_bounds: "28 \<le> days_in_month y m \<and> days_in_month y m \<le> 31"
  by (simp add: days_in_month_def)

lemma div_pred:
  assumes "0 < (k::int)"
  shows "(y - 1) div k = y div k - (if y mod k = 0 then 1 else 0)"
proof (cases "y mod k = 0")
  case True
  have "y = k * (y div k) + y mod k" by simp
  then have "y - 1 = k * (y div k - 1) + (k - 1)" using True by (simp add: algebra_simps)
  then have "(y - 1) div k = y div k - 1" by (rule int_div_pos_eq) (use assms in simp_all)
  with True show ?thesis by simp
next
  case False
  have "y = k * (y div k) + y mod k" by simp
  then have "y - 1 = k * (y div k) + (y mod k - 1)" by (simp add: algebra_simps)
  moreover have "0 \<le> y mod k" "y mod k < k" using assms by simp_all
  then have "0 \<le> y mod k - 1" "y mod k - 1 < k" using False by simp_all
  ultimately have "(y - 1) div k = y div k" by (intro int_div_pos_eq)
  with False show ?thesis by simp
qed

lemma mod_400_100_4: "(y::int) mod 100 = 0 \<Longrightarrow> y mod 4 = 0" "(y::int) mod 400 = 0 \<Longrightarrow> y mod 100 = 0"
proof -
  show "y mod 100 = 0 \<Longrightarrow> y mod 4 = 0" using mod_mod_cancel [of 4 100 y] by simp
  show "y mod 400 = 0 \<Longrightarrow> y mod 100 = 0" using mod_mod_cancel [of 100 400 y] by simp
qed

lemma leap_cases:
  "days_before_year (y + 1) = days_before_year y + (if is_leap y then 366 else 365)"
  using mod_400_100_4 [of y] by (simp add: days_before_year_def is_leap_def Let_def div_pred)

text \<open>Months in one row: the first day of a month and of the one after it.\<close>

definition month_start :: "int \<Rightarrow> int \<Rightarrow> int" where
  "month_start y m = days_before_year y + days_before_month y m"

lemma month_cases: "1 \<le> m \<Longrightarrow> m \<le> (12::int) \<Longrightarrow> m \<in> {1, 2, 3, 4, 5, 6, 7, 8, 9, 10, 11, 12}"
  by (simp, arith)

lemma month_start_next:
  assumes "1 \<le> m" "m \<le> 12"
  shows "(if m < 12 then month_start y (m + 1) else month_start (y + 1) 1) = month_start y m + days_in_month y m"
  using month_cases [OF assms]
  by (auto simp: month_start_def days_before_month_def days_in_month_def leap_cases)

lemma toordinal_month_start: "toordinal t = month_start (dt_y t) (dt_m t) + dt_d t"
  by (simp add: toordinal_def month_start_def)

lemma next_day_valid: "valid t \<Longrightarrow> valid (next_day t)"
  using dim_bounds [of "dt_y t" "dt_m t + 1"] dim_bounds [of "dt_y t + 1" 1]
  by (auto simp: valid_def next_day_def)

lemma next_day_ordinal: "valid t \<Longrightarrow> toordinal (next_day t) = toordinal t + 1"
  using month_start_next [of "dt_m t" "dt_y t"]
  by (auto simp: valid_def next_day_def toordinal_month_start split: if_splits)

lemma next_day_min [simp]: "dt_min (next_day t) = dt_min t"
  by (simp add: next_day_def)

lemma add_days_valid: "valid t \<Longrightarrow> valid (add_days n t) \<and> toordinal (add_days n t) = toordinal t + int n \<and>
    dt_min (add_days n t) = dt_min t"
  by (induction n) (auto simp: add_days_def next_day_valid next_day_ordinal)

lemma set_min_valid: "valid t \<Longrightarrow> 0 \<le> k \<Longrightarrow> k < 1440 \<Longrightarrow> valid (t\<lparr>dt_min := k\<rparr>)"
  by (simp add: valid_def)

lemma toordinal_set_min [simp]: "toordinal (t\<lparr>dt_min := k\<rparr>) = toordinal t"
  by (simp add: toordinal_def)

lemma add_minutes_valid:
  assumes "valid t" "0 \<le> k" "k \<le> 1440"
  shows "valid (add_minutes k t)" "dt_idx (add_minutes k t) = dt_idx t + k"
proof -
  have "0 \<le> dt_min t" "dt_min t < 1440" using assms(1) by (simp_all add: valid_def)
  then show "valid (add_minutes k t)" "dt_idx (add_minutes k t) = dt_idx t + k"
    using assms next_day_valid [OF assms(1)] next_day_ordinal [OF assms(1)]
    by (auto simp: add_minutes_def Let_def dt_idx_def intro!: set_min_valid)
qed

section \<open>Months as an increasing sequence\<close>

definition month_key :: "datetime \<Rightarrow> int" where
  "month_key t = 12 * dt_y t + (dt_m t - 1)"

definition key_start :: "int \<Rightarrow> int" where
  "key_start k = month_start (k div 12) (k mod 12 + 1)"

definition key_dim :: "int \<Rightarrow> int" where
  "key_dim k = days_in_month (k div 12) (k mod 12 + 1)"

lemma month_key_split:
  assumes "valid t"
  shows "month_key t div 12 = dt_y t" "month_key t mod 12 + 1 = dt_m t"
  using assms by (auto simp: month_key_def valid_def)

lemma key_start_next: "key_start (k + 1) = key_start k + key_dim k"
proof -
  have b: "0 \<le> k mod 12" "k mod 12 < 12" by simp_all
  then have m: "1 \<le> k mod 12 + 1" "k mod 12 + 1 \<le> 12" by linarith+
  have k: "k = 12 * (k div 12) + k mod 12" by simp
  have "(k + 1) div 12 = k div 12 \<and> (k + 1) mod 12 = k mod 12 + 1" if "k mod 12 + 1 < 12"
  proof -
    have e: "k + 1 = 12 * (k div 12) + (k mod 12 + 1)" using k by linarith
    show ?thesis using int_div_pos_eq [OF e] int_mod_pos_eq [OF e] b that by linarith
  qed
  moreover have "(k + 1) div 12 = k div 12 + 1 \<and> (k + 1) mod 12 = 0" if "\<not> k mod 12 + 1 < 12"
  proof -
    have "k mod 12 = 11" using b that by simp
    then have e: "k + 1 = 12 * (k div 12 + 1) + 0" using k by (simp add: distrib_left)
    show ?thesis using int_div_pos_eq [OF e] int_mod_pos_eq [OF e] by linarith
  qed
  ultimately show ?thesis using month_start_next [OF m, of "k div 12"]
    by (auto simp: key_start_def key_dim_def split: if_splits)
qed

lemma key_start_mono: "k < l \<Longrightarrow> key_start k + key_dim k \<le> key_start l"
proof -
  have step: "key_start j \<le> key_start (j + 1)" for j
    using dim_bounds [of "j div 12" "j mod 12 + 1"] by (simp add: key_start_next key_dim_def)
  have "key_start (k + 1) \<le> key_start (k + 1 + int n)" for n
  proof (induction n)
    case (Suc n)
    with step [of "k + 1 + int n"] show ?case by (simp add: algebra_simps)
  qed simp
  from this [of "nat (l - (k + 1))"] show "k < l \<Longrightarrow> key_start k + key_dim k \<le> key_start l"
    by (simp add: key_start_next)
qed

lemma ordinal_key: "valid t \<Longrightarrow> toordinal t = key_start (month_key t) + dt_d t \<and> 1 \<le> dt_d t \<and> dt_d t \<le> key_dim (month_key t)"
  by (simp add: toordinal_month_start key_start_def key_dim_def month_key_split) (simp add: valid_def)

lemma key_le_of_ordinal:
  assumes "valid t" "valid u" "toordinal t \<le> toordinal u"
  shows "month_key t \<le> month_key u"
proof (rule ccontr)
  assume "\<not> month_key t \<le> month_key u"
  then have "key_start (month_key u) + key_dim (month_key u) \<le> key_start (month_key t)"
    by (intro key_start_mono) simp
  with ordinal_key [OF assms(1)] ordinal_key [OF assms(2)] assms(3) show False by simp
qed

lemma dt_idx_ordinal:
  assumes "valid t" "valid u" "dt_idx t \<le> dt_idx u"
  shows "toordinal t \<le> toordinal u"
proof (rule ccontr)
  assume "\<not> toordinal t \<le> toordinal u"
  then have "toordinal u + 1 \<le> toordinal t" by simp
  then have "(toordinal u + 1) * 1440 \<le> toordinal t * 1440" by (intro mult_right_mono) simp_all
  with assms show False by (simp add: dt_idx_def valid_def)
qed

lemma ordinal_day: "valid t \<Longrightarrow> valid u \<Longrightarrow> toordinal t = toordinal u \<Longrightarrow>
    dt_y t = dt_y u \<and> dt_m t = dt_m u \<and> dt_d t = dt_d u"
  using key_le_of_ordinal [of t u] key_le_of_ordinal [of u t] ordinal_key [of t] ordinal_key [of u]
    month_key_split [of t] month_key_split [of u]
  by force

lemma dt_idx_inject: "valid t \<Longrightarrow> valid u \<Longrightarrow> dt_idx t = dt_idx u \<Longrightarrow> t = u"
proof -
  assume *: "valid t" "valid u" "dt_idx t = dt_idx u"
  then have o: "toordinal t = toordinal u"
    using dt_idx_ordinal [of t u] dt_idx_ordinal [of u t] by simp
  with * have "dt_min t = dt_min u" by (simp add: dt_idx_def)
  with ordinal_day [OF *(1,2) o] show "t = u" by (cases t; cases u) simp
qed

section \<open>The skips\<close>

text \<open>One skip moves forward and passes over no datetime that matches.\<close>

definition matches :: "cron \<Rightarrow> datetime \<Rightarrow> bool" where
  "matches c t \<longleftrightarrow> dt_m t \<in> set (months c) \<and> day_ok c t \<and> dt_hour t \<in> set (hours c) \<and>
     dt_minute t \<in> set (mins c)"

lemma cron_step_None: "cron_step c t = None \<longleftrightarrow> matches c t"
  by (simp add: cron_step_def matches_def)

lemma first_of_month_32:
  assumes "valid t" "dt_d t = 1" "dt_min t = 0"
  shows "month_key (add_days 32 t) = month_key t + 1"
proof -
  let ?u = "add_days 32 t"
  have u: "valid ?u" "toordinal ?u = toordinal t + 32" using add_days_valid [OF assms(1), of 32] by simp_all
  have t: "toordinal t = key_start (month_key t) + 1" using ordinal_key [OF assms(1)] assms(2) by simp
  have dim: "28 \<le> key_dim k" "key_dim k \<le> 31" for k
    using dim_bounds [of "k div 12" "k mod 12 + 1"] by (simp_all add: key_dim_def)
  have "month_key t \<le> month_key ?u" using u assms(1) by (intro key_le_of_ordinal) simp_all
  moreover have "month_key ?u \<noteq> month_key t"
    using ordinal_key [OF u(1)] t u(2) dim(2) [of "month_key t"] by auto
  moreover have "\<not> month_key t + 1 < month_key ?u"
  proof
    assume "month_key t + 1 < month_key ?u"
    then have "key_start (month_key t + 1) + key_dim (month_key t + 1) \<le> key_start (month_key ?u)"
      by (rule key_start_mono)
    with ordinal_key [OF u(1)] t u(2) dim [of "month_key t"] dim [of "month_key t + 1"]
    show False by (simp add: key_start_next)
  qed
  ultimately show ?thesis by linarith
qed

lemma next_month_start_props:
  assumes "valid t"
  shows "valid (next_month_start t)"
    "toordinal (next_month_start t) = key_start (month_key t) + key_dim (month_key t) + 1"
    "dt_min (next_month_start t) = 0"
proof -
  let ?f = "t\<lparr>dt_d := 1, dt_min := 0\<rparr>"
  have f: "valid ?f" using assms dim_bounds [of "dt_y t" "dt_m t"] by (simp add: valid_def)
  let ?u = "add_days 32 ?f"
  have u: "valid ?u" using add_days_valid [OF f] by simp
  have k: "month_key ?u = month_key t + 1" using first_of_month_32 [OF f] by (simp add: month_key_def)
  show v: "valid (next_month_start t)"
    using u dim_bounds [of "dt_y ?u" "dt_m ?u"] by (simp add: next_month_start_def valid_def)
  have "month_key (next_month_start t) = month_key t + 1"
    using k by (simp add: next_month_start_def month_key_def)
  with ordinal_key [OF v] show "toordinal (next_month_start t) = key_start (month_key t) + key_dim (month_key t) + 1"
    by (simp add: key_start_next) (simp add: next_month_start_def)
  show "dt_min (next_month_start t) = 0" by (simp add: next_month_start_def)
qed

lemma skip_month:
  assumes "valid t" "valid u" "dt_idx t \<le> dt_idx u" "dt_idx u < dt_idx (next_month_start t)"
  shows "dt_m u = dt_m t"
proof -
  have n: "toordinal (next_month_start t) = key_start (month_key t + 1) + 1" "dt_min (next_month_start t) = 0"
    using next_month_start_props [OF assms(1)] by (simp_all add: key_start_next)
  have "toordinal u * 1440 < toordinal (next_month_start t) * 1440"
    using assms(2,4) n(2) by (simp add: dt_idx_def valid_def)
  then have "toordinal u < key_start (month_key t + 1) + 1" using n(1) by simp
  then have "\<not> month_key t + 1 \<le> month_key u"
    using ordinal_key [OF assms(2)] key_start_mono [of "month_key t + 1" "month_key u"]
      dim_bounds [of "(month_key t + 1) div 12" "(month_key t + 1) mod 12 + 1"]
    by (cases "month_key t + 1 = month_key u") (auto simp: key_dim_def)
  moreover have "month_key t \<le> month_key u"
    using assms by (intro key_le_of_ordinal dt_idx_ordinal)
  ultimately have "month_key u = month_key t" by simp
  with month_key_split [OF assms(1)] month_key_split [OF assms(2)] show ?thesis by simp
qed

lemma next_day_start_props:
  assumes "valid t"
  shows "valid (next_day_start t)" "dt_idx (next_day_start t) = (toordinal t + 1) * 1440"
  using add_days_valid [OF assms, of 1] by (simp_all add: next_day_start_def set_min_valid dt_idx_def)

lemma skip_day:
  assumes "valid t" "valid u" "dt_idx t \<le> dt_idx u" "dt_idx u < (toordinal t + 1) * 1440"
  shows "toordinal u = toordinal t"
proof -
  have "toordinal t \<le> toordinal u" using assms by (intro dt_idx_ordinal)
  moreover have "toordinal u * 1440 < (toordinal t + 1) * 1440"
    using assms(2,4) by (simp add: dt_idx_def valid_def)
  ultimately show ?thesis by simp
qed

lemma idx_hours: "(n * 1440 + m) div 60 = n * 24 + m div (60::int)"
proof -
  have "n * 1440 + m = m + n * 24 * 60" by simp
  then show ?thesis by (simp only: div_mult_self1)
qed

lemma same_hour_block: "t \<le> u \<Longrightarrow> u < (t div 60 + 1) * 60 \<Longrightarrow> u div 60 = t div (60::int)"
proof -
  assume *: "t \<le> u" "u < (t div 60 + 1) * 60"
  have t: "t = 60 * (t div 60) + t mod 60" "0 \<le> t mod 60" by simp_all
  define q where "q = t div 60"
  have "u = 60 * q + (u - 60 * q)" by simp
  moreover have "0 \<le> u - 60 * q" "u - 60 * q < 60"
    using * t unfolding q_def [symmetric] by (simp_all add: distrib_right)
  ultimately show "u div 60 = t div 60" unfolding q_def [symmetric] by (rule int_div_pos_eq)
qed

lemma next_hour_start_props:
  assumes "valid t"
  shows "valid (next_hour_start t)" "dt_idx (next_hour_start t) = (dt_idx t div 60 + 1) * 60"
proof -
  let ?u = "add_minutes 60 t"
  have u: "valid ?u" "dt_idx ?u = dt_idx t + 60" using add_minutes_valid [OF assms, of 60] by simp_all
  then have b: "0 \<le> dt_min ?u" "dt_min ?u < 1440" by (simp_all add: valid_def)
  have h: "0 \<le> dt_hour ?u * 60" "dt_hour ?u * 60 < 1440" unfolding dt_hour_def using b by presburger+
  then show "valid (next_hour_start t)" using u(1) by (simp add: next_hour_start_def Let_def set_min_valid)
  have "dt_idx (next_hour_start t) = toordinal ?u * 1440 + dt_min ?u div 60 * 60"
    by (simp add: next_hour_start_def Let_def dt_idx_def dt_hour_def)
  also have "\<dots> = (toordinal ?u * 1440 + dt_min ?u) div 60 * 60" by (simp add: idx_hours)
  also have "\<dots> = (dt_idx t + 60) div 60 * 60" using u(2) by (simp add: dt_idx_def)
  also have "(dt_idx t + 60) div 60 = dt_idx t div 60 + 1" using div_mult_self1 [of 60 "dt_idx t" 1] by simp
  finally show "dt_idx (next_hour_start t) = (dt_idx t div 60 + 1) * 60" .
qed

lemma skip_hour:
  assumes "valid t" "valid u" "dt_idx t \<le> dt_idx u" "dt_idx u < (dt_idx t div 60 + 1) * 60"
  shows "dt_hour u = dt_hour t"
proof -
  have same: "dt_idx u div 60 = dt_idx t div 60" using assms(3,4) by (rule same_hour_block)
  moreover have idx: "dt_idx x div 60 = toordinal x * 24 + dt_hour x" for x
    by (simp add: dt_idx_def dt_hour_def idx_hours)
  moreover have "dt_idx u < (toordinal t + 1) * 1440"
  proof -
    have "dt_hour t < 24" using assms(1) unfolding dt_hour_def valid_def by linarith
    then have "(dt_idx t div 60 + 1) * 60 \<le> (toordinal t + 1) * 1440"
      unfolding idx [of t] by (simp add: distrib_right)
    with assms(4) show ?thesis by (rule less_le_trans)
  qed
  then have "toordinal u = toordinal t" using skip_day assms(1-3) by blast
  ultimately show ?thesis by simp
qed

lemma day_ok_ordinal: "valid t \<Longrightarrow> valid u \<Longrightarrow> toordinal u = toordinal t \<Longrightarrow> day_ok c u = day_ok c t"
  using ordinal_day [of u t] by (simp add: day_ok_def cron_dow_def)

lemma cron_step_skip:
  assumes "valid t" "cron_step c t = Some t'"
  shows "valid t' \<and> dt_idx t < dt_idx t' \<and> (\<forall>u. valid u \<longrightarrow> dt_idx t \<le> dt_idx u \<longrightarrow> dt_idx u < dt_idx t' \<longrightarrow> \<not> matches c u)"
proof -
  have m: "0 \<le> dt_min t" "dt_min t < 1440" using assms(1) by (simp_all add: valid_def)
  consider (month) "dt_m t \<notin> set (months c)" "t' = next_month_start t"
    | (day) "\<not> day_ok c t" "t' = next_day_start t"
    | (hour) "dt_hour t \<notin> set (hours c)" "t' = next_hour_start t"
    | (minute) "dt_minute t \<notin> set (mins c)" "t' = add_minutes 1 t"
    using assms(2) by (auto simp: cron_step_def split: if_splits)
  then show ?thesis
  proof cases
    case month
    have "toordinal t < toordinal (next_month_start t)"
      using next_month_start_props [OF assms(1)] ordinal_key [OF assms(1)] by simp
    then have "dt_idx t < dt_idx (next_month_start t)"
      using m next_month_start_props(3) [OF assms(1)] by (simp add: dt_idx_def)
    then show ?thesis
      using month next_month_start_props(1) [OF assms(1)] skip_month [OF assms(1)] by (auto simp: matches_def)
  next
    case day
    then show ?thesis
      using next_day_start_props [OF assms(1)] skip_day [OF assms(1)] day_ok_ordinal [OF assms(1)] m
      by (auto simp: matches_def) (simp add: dt_idx_def)
  next
    case hour
    have "dt_idx t < (dt_idx t div 60 + 1) * 60" by presburger
    then show ?thesis
      using hour next_hour_start_props [OF assms(1)] skip_hour [OF assms(1)] by (auto simp: matches_def)
  next
    case minute
    have "u = t" if "valid u" "dt_idx t \<le> dt_idx u" "dt_idx u < dt_idx t + 1" for u
      using that assms(1) by (intro dt_idx_inject) simp_all
    with minute add_minutes_valid [OF assms(1), of 1] show ?thesis by (auto simp: matches_def)
  qed
qed

section \<open>The search\<close>

definition quiet_until :: "cron \<Rightarrow> int \<Rightarrow> int \<Rightarrow> bool" where
  "quiet_until c a b \<longleftrightarrow> (\<forall>u. valid u \<longrightarrow> a \<le> dt_idx u \<longrightarrow> dt_idx u < b \<longrightarrow> \<not> matches c u)"

lemma quiet_until_trans: "quiet_until c a b \<Longrightarrow> quiet_until c b d \<Longrightarrow> quiet_until c a d"
  unfolding quiet_until_def by (meson linorder_not_le)

lemma quiet_until_Nil: "b \<le> a \<Longrightarrow> quiet_until c a b"
  by (auto simp: quiet_until_def)

text \<open>The loop ends, with the first match at or after its start, or with none before the limit.\<close>

definition search_result :: "cron \<Rightarrow> int \<Rightarrow> datetime \<Rightarrow> datetime option \<Rightarrow> bool" where
  "search_result c limit t res = (case res of
     None \<Rightarrow> quiet_until c (dt_idx t) limit
   | Some r \<Rightarrow> valid r \<and> dt_idx t \<le> dt_idx r \<and> dt_idx r < limit \<and> matches c r \<and>
              quiet_until c (dt_idx t) (dt_idx r))"

lemma search_ends:
  "valid t \<Longrightarrow> \<exists>res. search c limit t = Some res \<and> search_result c limit t res"
proof (induction "nat (limit - dt_idx t)" arbitrary: t rule: less_induct)
  case less
  show ?case
  proof (cases "dt_idx t < limit")
    case False
    then have "search c limit t = Some None" by (simp add: search.simps)
    then show ?thesis using False by (simp add: search_result_def quiet_until_Nil)
  next
    case lim: True
    show ?thesis
    proof (cases "cron_step c t")
      case None
      then have "search c limit t = Some (Some t)" using lim by (simp add: search.simps)
      with None lim less.prems show ?thesis
        by (simp add: search_result_def quiet_until_Nil cron_step_None)
    next
      case (Some u)
      have u: "valid u" "dt_idx t < dt_idx u" "quiet_until c (dt_idx t) (dt_idx u)"
        using cron_step_skip [OF less.prems Some] by (simp_all add: quiet_until_def)
      have "nat (limit - dt_idx u) < nat (limit - dt_idx t)" using u(2) lim by simp
      from less.hyps [OF this u(1)] obtain res where
        res: "search c limit u = Some res" "search_result c limit u res" by blast
      have "search c limit t = Some res" using lim Some res(1) by (simp add: search.simps)
      moreover have "search_result c limit t res"
        using res(2) u(2) quiet_until_trans [OF u(3)] by (auto simp: search_result_def split: option.splits)
      ultimately show ?thesis by blast
    qed
  qed
qed

section \<open>Time zones\<close>

text \<open>
  A zone without clock changes: converting to a timestamp is strictly increasing, and a timestamp
  lies in the minute it is converted to.
\<close>

locale zone =
  fixes fromtimestamp :: "int \<Rightarrow> datetime" and timestamp :: "datetime \<Rightarrow> int"
  assumes from_valid: "valid (fromtimestamp s)"
    and to_mono: "valid a \<Longrightarrow> valid b \<Longrightarrow> dt_idx a < dt_idx b \<Longrightarrow> timestamp a < timestamp b"
    and from_floor: "timestamp (fromtimestamp s) \<le> s"
    and from_ceil: "s < timestamp (add_minutes 1 (fromtimestamp s))"
begin

lemma idx_le_of_timestamp:
  assumes "valid a" "valid b" "timestamp a \<le> timestamp b"
  shows "dt_idx a \<le> dt_idx b"
  using to_mono [OF assms(2,1)] assms(3) by (meson linorder_not_le)

text \<open>The datetimes after a timestamp are those from the next minute on.\<close>

lemma after_iff:
  assumes "valid u"
  shows "s < timestamp u \<longleftrightarrow> dt_idx (add_minutes 1 (fromtimestamp s)) \<le> dt_idx u"
proof -
  let ?f = "fromtimestamp s"
  have f: "valid ?f" and v: "valid (add_minutes 1 ?f)" and i: "dt_idx (add_minutes 1 ?f) = dt_idx ?f + 1"
    using from_valid add_minutes_valid [OF from_valid, of 1 s] by simp_all
  show ?thesis
  proof
    assume "s < timestamp u"
    then have "\<not> dt_idx u \<le> dt_idx ?f"
      using from_floor [of s] to_mono [OF assms f] dt_idx_inject [OF assms f] by fastforce
    with i show "dt_idx (add_minutes 1 ?f) \<le> dt_idx u" by simp
  next
    assume "dt_idx (add_minutes 1 ?f) \<le> dt_idx u"
    then have "timestamp (add_minutes 1 ?f) \<le> timestamp u"
      using to_mono [OF v assms] dt_idx_inject [OF v assms] by (cases "dt_idx (add_minutes 1 ?f) = dt_idx u") auto
    with from_ceil [of s] show "s < timestamp u" by simp
  qed
qed

lemma next_after_least:
  assumes "cron_of expr = Inr c"
  shows "\<exists>res. next_after fromtimestamp timestamp expr s = Some res \<and>
    (case res of
       Inr ts \<Rightarrow> \<exists>r. valid r \<and> matches c r \<and> ts = timestamp r \<and> s < ts \<and>
         (\<forall>u. valid u \<longrightarrow> matches c u \<longrightarrow> s < timestamp u \<longrightarrow> ts \<le> timestamp u)
     | Inl _ \<Rightarrow> \<forall>u. valid u \<longrightarrow> matches c u \<longrightarrow> s < timestamp u \<longrightarrow>
         dt_idx (fromtimestamp s) + HORIZON_DAYS * 1440 < dt_idx u)"
proof -
  let ?t = "add_minutes 1 (fromtimestamp s)"
  let ?limit = "dt_idx ?t + HORIZON_DAYS * 1440"
  have t: "valid ?t" "dt_idx ?t = dt_idx (fromtimestamp s) + 1"
    using add_minutes_valid [OF from_valid, of 1 s] by simp_all
  obtain res where res: "search c ?limit ?t = Some res" "search_result c ?limit ?t res"
    using search_ends [OF t(1)] by blast
  show ?thesis
  proof (cases res)
    case None
    then have "next_after fromtimestamp timestamp expr s =
        Some (Inl (CronError (''expression never fires within horizon: '' @ repr_str expr)))"
      using res(1) by (simp add: next_after_def assms Let_def)
    moreover have "dt_idx (fromtimestamp s) + HORIZON_DAYS * 1440 < dt_idx u"
      if "valid u" "matches c u" "s < timestamp u" for u
    proof -
      have "dt_idx ?t \<le> dt_idx u" using after_iff [OF that(1)] that(3) by blast
      then have "?limit \<le> dt_idx u"
        using res(2) None that(1,2) unfolding search_result_def quiet_until_def by force
      with t(2) show ?thesis by simp
    qed
    ultimately show ?thesis by simp
  next
    case (Some r)
    then have n: "next_after fromtimestamp timestamp expr s = Some (Inr (timestamp r))"
      using res(1) by (simp add: next_after_def assms Let_def)
    have r: "valid r" "dt_idx ?t \<le> dt_idx r" "matches c r" "quiet_until c (dt_idx ?t) (dt_idx r)"
      using res(2) Some by (simp_all add: search_result_def)
    have "s < timestamp r" using after_iff [OF r(1)] r(2) by blast
    moreover have "timestamp r \<le> timestamp u" if u: "valid u" "matches c u" "s < timestamp u" for u
    proof (rule ccontr)
      assume "\<not> timestamp r \<le> timestamp u"
      then have "dt_idx u < dt_idx r"
        using idx_le_of_timestamp [OF u(1) r(1)] dt_idx_inject [OF u(1) r(1)] by fastforce
      moreover have "dt_idx ?t \<le> dt_idx u" using after_iff [OF u(1)] u(3) by blast
      ultimately show False using r(4) u(1,2) by (auto simp: quiet_until_def)
    qed
    ultimately show ?thesis using n r by auto
  qed
qed

end

text \<open>Zones at a fixed number of minutes east of UTC.\<close>

definition prev_day :: "datetime \<Rightarrow> datetime" where
  "prev_day t =
     (if dt_d t > 1 then t\<lparr>dt_d := dt_d t - 1\<rparr>
      else if dt_m t > 1 then t\<lparr>dt_m := dt_m t - 1, dt_d := days_in_month (dt_y t) (dt_m t - 1)\<rparr>
      else t\<lparr>dt_y := dt_y t - 1, dt_m := 12, dt_d := 31\<rparr>)"

definition epoch :: datetime where
  "epoch = \<lparr>dt_y = 1970, dt_m = 1, dt_d = 1, dt_min = 0\<rparr>"

definition day_of :: "int \<Rightarrow> datetime" where
  "day_of n = (if 0 \<le> n then add_days (nat n) epoch else (prev_day ^^ nat (- n)) epoch)"

definition fixed_from :: "int \<Rightarrow> int \<Rightarrow> datetime" where
  "fixed_from off s = (let m = s div 60 + off in (day_of (m div 1440))\<lparr>dt_min := m mod 1440\<rparr>)"

definition fixed_to :: "int \<Rightarrow> datetime \<Rightarrow> int" where
  "fixed_to off t = (dt_idx t - dt_idx epoch - off) * 60"

lemma prev_day_valid:
  assumes "valid t"
  shows "valid (prev_day t) \<and> toordinal (prev_day t) = toordinal t - 1 \<and> dt_min (prev_day t) = dt_min t"
proof -
  have v: "valid (prev_day t)"
    using assms dim_bounds [of "dt_y t" "dt_m t - 1"]
    by (auto simp: valid_def prev_day_def) (simp add: days_in_month_def)
  moreover have "next_day (prev_day t) = t"
    using assms dim_bounds [of "dt_y t" "dt_m t - 1"]
    by (cases t) (auto simp: valid_def prev_day_def next_day_def days_in_month_def)
  ultimately show ?thesis using next_day_ordinal [OF v] by (simp add: prev_day_def)
qed

lemma prev_days_valid:
  "valid t \<Longrightarrow> valid ((prev_day ^^ n) t) \<and> toordinal ((prev_day ^^ n) t) = toordinal t - int n"
  by (induction n) (auto simp: prev_day_valid)

lemma epoch_valid: "valid epoch"
  by (simp add: valid_def epoch_def days_in_month_def)

lemma day_of_valid: "valid (day_of n) \<and> toordinal (day_of n) = toordinal epoch + n"
  using add_days_valid [OF epoch_valid, of "nat n"] prev_days_valid [OF epoch_valid, of "nat (- n)"]
  by (simp add: day_of_def)

lemma fixed_from_idx: "valid (fixed_from off s) \<and> dt_idx (fixed_from off s) = dt_idx epoch + s div 60 + off"
proof -
  let ?m = "s div 60 + off"
  have b: "0 \<le> ?m mod 1440" "?m mod 1440 < 1440" by simp_all
  have "dt_idx (fixed_from off s) = (toordinal epoch + ?m div 1440) * 1440 + ?m mod 1440"
    using day_of_valid [of "?m div 1440"] by (simp add: fixed_from_def Let_def dt_idx_def)
  also have "\<dots> = toordinal epoch * 1440 + ?m"
    using div_mult_mod_eq [of ?m 1440] by (simp add: distrib_right)
  finally show ?thesis
    using day_of_valid b by (simp add: fixed_from_def Let_def set_min_valid dt_idx_def epoch_def)
qed

interpretation fixed: zone "fixed_from off" "fixed_to off" for off
proof
  fix s a b
  show "valid (fixed_from off s)" using fixed_from_idx by simp
  show "valid a \<Longrightarrow> valid b \<Longrightarrow> dt_idx a < dt_idx b \<Longrightarrow> fixed_to off a < fixed_to off b"
    by (simp add: fixed_to_def)
  have s: "s = 60 * (s div 60) + s mod 60" "0 \<le> s mod 60" "s mod 60 < 60" by simp_all
  show "fixed_to off (fixed_from off s) \<le> s"
    using fixed_from_idx [of off s] s by (simp add: fixed_to_def)
  have "fixed_to off (add_minutes 1 (fixed_from off s)) = (s div 60 + 1) * 60"
    using fixed_from_idx [of off s] add_minutes_valid [of "fixed_from off s" 1] by (simp add: fixed_to_def)
  then show "s < fixed_to off (add_minutes 1 (fixed_from off s))" using s by (simp add: distrib_right)
qed

section \<open>What a parsed field holds\<close>

lemma bind_err_Inr: "bind_err x f = Inr y \<longleftrightarrow> (\<exists>a. x = Inr a \<and> f a = Inr y)"
  by (cases x) (auto simp: bind_err_def)

lemma py_range_bounds: "x \<in> set (py_range a b st) \<Longrightarrow> a \<le> x \<and> x < b"
  by (auto simp: py_range_def)

lemma py_range_start: "a < b \<Longrightarrow> a \<in> set (py_range a b st)"
  by (simp add: py_range_def)

lemma parse_part_range:
  "parse_part raw lo hi p = Inr xs \<Longrightarrow> xs \<noteq> [] \<and> (\<forall>x\<in>set xs. lo \<le> x \<and> x \<le> hi)"
proof -
  assume "parse_part raw lo hi p = Inr xs"
  then have "\<exists>a b st. \<not> (a < lo \<or> hi < b \<or> b < a) \<and> xs = py_range a (b + 1) st"
    by (auto simp: parse_part_def bind_err_Inr Let_def split: if_splits prod.splits)
  then obtain a b st where ab: "lo \<le> a" "b \<le> hi" "a \<le> b" "xs = py_range a (b + 1) st"
    by (auto simp: not_less)
  then have "a \<in> set xs" by (auto intro: py_range_start)
  with ab py_range_bounds [of _ a "b + 1" st] show ?thesis by fastforce
qed

lemma parse_parts_range:
  "parse_parts raw lo hi ps = Inr xs \<Longrightarrow> (ps \<noteq> [] \<longrightarrow> xs \<noteq> []) \<and> (\<forall>x\<in>set xs. lo \<le> x \<and> x \<le> hi)"
proof (induction ps arbitrary: xs)
  case (Cons p ps)
  then obtain as bs where ab: "parse_part raw lo hi p = Inr as" "parse_parts raw lo hi ps = Inr bs" "xs = as @ bs"
    by (auto simp: bind_err_Inr)
  from parse_part_range [OF ab(1)] Cons.IH [OF ab(2)] ab(3) show ?case by auto
qed simp

definition field_ok :: "nat \<Rightarrow> int list \<Rightarrow> bool" where
  "field_ok i f \<longleftrightarrow> f \<noteq> [] \<and>
     (\<forall>x\<in>set f. fst (RANGES ! i) \<le> x \<and> x \<le> (if i = 4 then 6 else snd (RANGES ! i)))"

lemma parse_field_ok: "parse_field raw i = Inr f \<Longrightarrow> field_ok i f"
proof -
  assume "parse_field raw i = Inr f"
  then obtain out where o: "parse_parts raw (fst (RANGES ! i)) (snd (RANGES ! i)) (split_on (CHR '','') raw) = Inr out"
    "f = (if i = 4 \<and> 7 \<in> set out then 0 # removeAll 7 out else out)"
    by (auto simp: parse_field_def bind_err_Inr)
  have ne: "split_on (CHR '','') raw \<noteq> []" by (simp add: split_on_def)
  have r: "out \<noteq> []" "\<forall>x\<in>set out. fst (RANGES ! i) \<le> x \<and> x \<le> snd (RANGES ! i)"
    using parse_parts_range [OF o(1)] ne by simp_all
  have "fst (RANGES ! 4) = 0" "snd (RANGES ! 4) = 7" by (simp_all add: RANGES_def)
  moreover have "x \<le> 6" if "i = 4" "x \<in> set out" "x \<noteq> 7" for x
    using that r(2) calculation(2) by force
  ultimately show ?thesis using r o(2) by (auto simp: field_ok_def)
qed

lemma parse_fields_ok:
  "parse_fields i ps = Inr fs \<Longrightarrow> length fs = length ps \<and> (\<forall>k<length fs. field_ok (i + k) (fs ! k))"
proof (induction ps arbitrary: i fs)
  case (Cons p ps)
  then obtain f gs where fg: "parse_field p i = Inr f" "parse_fields (Suc i) ps = Inr gs" "fs = f # gs"
    by (auto simp: bind_err_Inr)
  have "field_ok (i + k) (fs ! k)" if "k < length fs" for k
    using that fg parse_field_ok [OF fg(1)] Cons.IH [OF fg(2)] by (cases k) auto
  with Cons.IH [OF fg(2)] fg(3) show ?case by simp
qed simp

section \<open>Properties\<close>

text \<open>
  C22. The search for the next firing time, in every zone with a fixed offset and for every
  expression the parser accepts: it ends; when it returns a timestamp, that is the timestamp of a
  matching minute strictly after the given moment and no matching minute lies in between, although
  the search skips whole months, days and hours; when it gives up, nothing matches within the
  horizon.
\<close>

theorem next_after_is_next:
  assumes "cron_of expr = Inr c"
  shows "\<exists>res. next_after (fixed_from off) (fixed_to off) expr s = Some res \<and>
    (case res of
       Inr ts \<Rightarrow> \<exists>r. valid r \<and> matches c r \<and> ts = fixed_to off r \<and> s < ts \<and>
         (\<forall>u. valid u \<longrightarrow> matches c u \<longrightarrow> s < fixed_to off u \<longrightarrow> ts \<le> fixed_to off u)
     | Inl _ \<Rightarrow> \<forall>u. valid u \<longrightarrow> matches c u \<longrightarrow> s < fixed_to off u \<longrightarrow>
         dt_idx (fixed_from off s) + HORIZON_DAYS * 1440 < dt_idx u)"
  using assms by (rule fixed.next_after_least)

theorem next_after_is_next_witness:
  "next_after (fixed_from 480) (fixed_to 480) ''30 9 * * 1-5'' 100000 = Some (Inr 351000) \<and>
   (\<exists>c r. cron_of ''30 9 * * 1-5'' = Inr c \<and> matches c r \<and> 351000 = fixed_to 480 r \<and> (100000::int) < 351000)"
proof -
  have n: "next_after (fixed_from 480) (fixed_to 480) ''30 9 * * 1-5'' 100000 = Some (Inr 351000)" by code_simp
  have "case cron_of ''30 9 * * 1-5'' of Inl _ \<Rightarrow> False | Inr _ \<Rightarrow> True" by code_simp
  then obtain c where c: "cron_of ''30 9 * * 1-5'' = Inr c" by (auto split: sum.splits)
  from next_after_is_next [OF c, of 480 100000] n c show ?thesis by auto
qed

text \<open>
  An expression is accepted only with five fields, each a non-empty set of values of its range,
  and Sunday written as 7 is stored as 0: so the days of the week the search compares with are
  between 0 and 6.
\<close>

theorem fields_in_range:
  assumes "cron_fields expr = Inr fs"
  shows "length fs = 5 \<and> (\<forall>i<5. field_ok i (fs ! i))"
proof -
  have "length (split_ws expr) = 5" "parse_fields 0 (split_ws expr) = Inr fs"
    using assms by (auto simp: cron_fields_def Let_def split: if_splits)
  with parse_fields_ok [of 0 "split_ws expr" fs] show ?thesis by simp
qed

theorem fields_in_range_witness:
  "\<exists>fs. cron_fields ''*/15 0 1,15 * 1-7'' = Inr fs \<and> field_ok 4 (fs ! 4)"
proof -
  have "case cron_fields ''*/15 0 1,15 * 1-7'' of Inl _ \<Rightarrow> False | Inr _ \<Rightarrow> True" by code_simp
  then obtain fs where f: "cron_fields ''*/15 0 1,15 * 1-7'' = Inr fs" by (auto split: sum.splits)
  with fields_in_range [OF f] show ?thesis by simp
qed

end
