(* ===== verification/Task_Store.thy ===== *)
theory Task_Store
  imports Cron
begin

text \<open>
  \<open>agent/tasks/store.py\<close> over the schema of \<open>agent/db.py\<close>: scheduled tasks, their runs, the prompt
  history and the sessions that runs point at. A table is the list of its rows in insertion order
  (\<open>rowid\<close> order). Columns with a \<open>CHECK\<close> constraint are datatypes. New identifiers and tokens, the
  clock and the cron search (\<open>nxt\<close>) are arguments. The coroutines that delete sessions are atomic
  between two awaits of the source; what an await does (the session is gone, the budget ran out,
  the deleter raised) is given by an environment.
\<close>

section \<open>Tables\<close>

datatype trigger_type = Cron | Interval | WebhookOnly
datatype run_trigger = ByCron | ByInterval | ByWebhook | ByHand
datatype run_status = Queued | Running | Succeeded | Failed | Timeout | Skipped
datatype overlap = OverlapSkip | OverlapQueue
datatype catchup = CatchupSkip | CatchupRunOnce

record task =
  t_id :: string
  t_user :: string
  t_name :: string
  t_prompt :: string
  t_agent_type :: string
  t_model :: string
  t_trigger :: trigger_type
  t_cron :: string
  t_interval :: int
  t_webhook :: string
  t_enabled :: bool
  t_max_turns :: int
  t_timeout :: int
  t_overlap :: overlap
  t_catchup :: catchup
  t_preauth :: pyval
  t_notify_policy :: string
  t_notify_channel :: string
  t_notify_on_start :: bool
  t_prev_prompt :: string
  t_revised_at :: int
  t_revised_by :: string
  t_allow_revision :: bool
  t_next :: int
  t_last :: int
  t_created :: int
  t_updated :: int

record run =
  run_id :: string
  run_task :: string
  run_user :: string
  run_session :: string
  run_trigger_of :: run_trigger
  run_status_of :: run_status
  run_summary :: string
  run_error :: string
  run_denied :: pyval
  run_resumed :: string
  run_message :: string
  run_started :: int
  run_finished :: int
  run_created :: int

record revision =
  rev_id :: nat
  rev_task :: string
  rev_user :: string
  rev_prompt :: string
  rev_by :: string
  rev_reason :: string
  rev_created :: int

record db =
  tasks :: "task list"
  runs :: "run list"
  revisions :: "revision list"
  rev_seq :: nat
  sessions :: "string list"

datatype store_error = Unschedulable cron_error | IntegrityError

type_synonym next_fn = "string \<Rightarrow> int \<Rightarrow> cron_error + int"

section \<open>Tasks\<close>

text \<open>The keyword arguments of \<open>create_task\<close> and \<open>update_task\<close>; \<open>FOther\<close> is any other key.\<close>

datatype field =
    FName string | FPrompt string | FAgentType string | FModel string | FTrigger trigger_type
  | FCron string | FInterval int | FMaxTurns int | FTimeout int | FOverlap overlap
  | FCatchup catchup | FPreauth pyval | FNotifyPolicy string | FNotifyChannel string
  | FEnabled bool | FNotifyOnStart bool | FAllowRevision bool | FOther string

fun set_field :: "field \<Rightarrow> task \<Rightarrow> task" where
  "set_field (FName v) t = t\<lparr>t_name := v\<rparr>"
| "set_field (FPrompt v) t = t\<lparr>t_prompt := v\<rparr>"
| "set_field (FAgentType v) t = t\<lparr>t_agent_type := v\<rparr>"
| "set_field (FModel v) t = t\<lparr>t_model := v\<rparr>"
| "set_field (FTrigger v) t = t\<lparr>t_trigger := v\<rparr>"
| "set_field (FCron v) t = t\<lparr>t_cron := v\<rparr>"
| "set_field (FInterval v) t = t\<lparr>t_interval := v\<rparr>"
| "set_field (FMaxTurns v) t = t\<lparr>t_max_turns := v\<rparr>"
| "set_field (FTimeout v) t = t\<lparr>t_timeout := v\<rparr>"
| "set_field (FOverlap v) t = t\<lparr>t_overlap := v\<rparr>"
| "set_field (FCatchup v) t = t\<lparr>t_catchup := v\<rparr>"
| "set_field (FPreauth v) t = t\<lparr>t_preauth := v\<rparr>"
| "set_field (FNotifyPolicy v) t = t\<lparr>t_notify_policy := v\<rparr>"
| "set_field (FNotifyChannel v) t = t\<lparr>t_notify_channel := v\<rparr>"
| "set_field (FEnabled v) t = t\<lparr>t_enabled := v\<rparr>"
| "set_field (FNotifyOnStart v) t = t\<lparr>t_notify_on_start := v\<rparr>"
| "set_field (FAllowRevision v) t = t\<lparr>t_allow_revision := v\<rparr>"
| "set_field (FOther k) t = t"

fun updatable :: "field \<Rightarrow> bool" where
  "updatable (FOther k) = False"
| "updatable _ = True"

fun recompute_trigger :: "field \<Rightarrow> bool" where
  "recompute_trigger (FTrigger v) = True"
| "recompute_trigger (FCron v) = True"
| "recompute_trigger (FInterval v) = True"
| "recompute_trigger (FEnabled v) = True"
| "recompute_trigger _ = False"

fun creatable :: "field \<Rightarrow> bool" where
  "creatable (FAllowRevision v) = False"
| "creatable (FOther k) = False"
| "creatable _ = True"

fun prompt_of :: "field list \<Rightarrow> string option" where
  "prompt_of [] = None"
| "prompt_of (FPrompt p # fs) = Some p"
| "prompt_of (f # fs) = prompt_of fs"

definition compute_next_run :: "next_fn \<Rightarrow> trigger_type \<Rightarrow> string \<Rightarrow> int \<Rightarrow> int \<Rightarrow> cron_error + int" where
  "compute_next_run nxt trigger cron_expr interval now = (case trigger of
     Cron \<Rightarrow> nxt cron_expr now
   | Interval \<Rightarrow> Inr (now + interval)
   | WebhookOnly \<Rightarrow> Inr 0)"

definition default_task :: "string \<Rightarrow> string \<Rightarrow> string \<Rightarrow> string \<Rightarrow> string \<Rightarrow> trigger_type \<Rightarrow> int \<Rightarrow> task" where
  "default_task tid token user_id name prompt trigger now =
     \<lparr>t_id = tid, t_user = user_id, t_name = name, t_prompt = prompt, t_agent_type = ''general'',
      t_model = [], t_trigger = trigger, t_cron = [], t_interval = 0, t_webhook = token,
      t_enabled = True, t_max_turns = 25, t_timeout = 1800, t_overlap = OverlapSkip,
      t_catchup = CatchupSkip, t_preauth = PDict [], t_notify_policy = ''failure'',
      t_notify_channel = [], t_notify_on_start = False, t_prev_prompt = [], t_revised_at = 0,
      t_revised_by = [], t_allow_revision = True, t_next = 0, t_last = 0, t_created = now,
      t_updated = now\<rparr>"

definition create_task ::
  "next_fn \<Rightarrow> db \<Rightarrow> string \<Rightarrow> string \<Rightarrow> int \<Rightarrow> string \<Rightarrow> string \<Rightarrow> string \<Rightarrow> trigger_type \<Rightarrow> field list
   \<Rightarrow> store_error + (string \<times> db)" where
  "create_task nxt d tid token now user_id name prompt trigger fs =
     (let t = fold set_field (filter creatable fs) (default_task tid token user_id name prompt trigger now) in
      case compute_next_run nxt (t_trigger t) (t_cron t) (t_interval t) now of
        Inl e \<Rightarrow> Inl (Unschedulable e)
      | Inr n \<Rightarrow>
          if \<exists>x\<in>set (tasks d). t_id x = tid \<or> t_webhook x = token then Inl IntegrityError
          else Inr (tid, d\<lparr>tasks := tasks d @ [t\<lparr>t_next := n\<rparr>]\<rparr>))"

definition get_task :: "db \<Rightarrow> string \<Rightarrow> string \<Rightarrow> task option" where
  "get_task d tid user_id = List.find (\<lambda>t. t_id t = tid \<and> t_user t = user_id) (tasks d)"

definition get_task_by_webhook_token :: "db \<Rightarrow> string \<Rightarrow> task option" where
  "get_task_by_webhook_token d token =
     (if token = [] then None else List.find (\<lambda>t. t_webhook t = token) (tasks d))"

text \<open>\<open>UPDATE scheduled_tasks SET ... WHERE ...\<close>\<close>

definition update_where :: "(task \<Rightarrow> bool) \<Rightarrow> (task \<Rightarrow> task) \<Rightarrow> db \<Rightarrow> db" where
  "update_where P f d = d\<lparr>tasks := map (\<lambda>t. if P t then f t else t) (tasks d)\<rparr>"

definition reset_webhook_token :: "db \<Rightarrow> string \<Rightarrow> string \<Rightarrow> string \<Rightarrow> store_error + (string \<times> db)" where
  "reset_webhook_token d token tid user_id =
     (if (\<exists>t\<in>set (tasks d). t_id t = tid \<and> t_user t = user_id) then
        if \<exists>x\<in>set (tasks d). t_webhook x = token \<and> \<not> (t_id x = tid \<and> t_user x = user_id) then Inl IntegrityError
        else Inr (token, update_where (\<lambda>t. t_id t = tid \<and> t_user t = user_id) (\<lambda>t. t\<lparr>t_webhook := token\<rparr>) d)
      else Inr ([], d))"

definition list_tasks :: "db \<Rightarrow> string \<Rightarrow> task list" where
  "list_tasks d user_id = sort_key (\<lambda>t. - t_created t) (filter (\<lambda>t. t_user t = user_id) (tasks d))"

definition set_next_run :: "db \<Rightarrow> string \<Rightarrow> int \<Rightarrow> int \<Rightarrow> db" where
  "set_next_run d tid n now = update_where (\<lambda>t. t_id t = tid) (\<lambda>t. t\<lparr>t_next := n, t_updated := now\<rparr>) d"

definition PROMPT_REVISIONS_KEEP :: nat where
  "PROMPT_REVISIONS_KEEP = 20"

text \<open>\<open>DELETE ... WHERE task_id=? AND id NOT IN (SELECT id ... ORDER BY id DESC LIMIT ?)\<close>\<close>

definition prune_revisions :: "nat \<Rightarrow> string \<Rightarrow> revision list \<Rightarrow> revision list" where
  "prune_revisions n tid rs =
     (let kept = map rev_id (take n (rev (sort_key rev_id (filter (\<lambda>r. rev_task r = tid) rs))))
      in filter (\<lambda>r. \<not> (rev_task r = tid \<and> rev_id r \<notin> set kept)) rs)"

definition add_prompt_revision :: "db \<Rightarrow> string \<Rightarrow> string \<Rightarrow> string \<Rightarrow> string \<Rightarrow> string \<Rightarrow> int \<Rightarrow> db" where
  "add_prompt_revision d tid user_id prompt revised_by reason now =
     d\<lparr>revisions := prune_revisions PROMPT_REVISIONS_KEEP tid
         (revisions d @ [\<lparr>rev_id = rev_seq d, rev_task = tid, rev_user = user_id, rev_prompt = prompt,
            rev_by = revised_by, rev_reason = reason, rev_created = now\<rparr>]),
       rev_seq := Suc (rev_seq d)\<rparr>"

definition list_prompt_revisions :: "db \<Rightarrow> string \<Rightarrow> string \<Rightarrow> revision list" where
  "list_prompt_revisions d tid user_id =
     rev (filter (\<lambda>r. rev_task r = tid \<and> rev_user r = user_id) (revisions d))"

text \<open>
  The update is committed before the schedule is recomputed: when the cron search raises, the new
  values stay and the exception is the first component.
\<close>

definition update_task ::
  "next_fn \<Rightarrow> db \<Rightarrow> string \<Rightarrow> string \<Rightarrow> int \<Rightarrow> field list \<Rightarrow> (store_error + bool) \<times> db" where
  "update_task nxt d tid user_id now fs = (case get_task d tid user_id of
     None \<Rightarrow> (Inr False, d)
   | Some existing \<Rightarrow>
       (let mine = (\<lambda>t. t_id t = tid \<and> t_user t = user_id);
            ups = filter updatable fs;
            revised = (case prompt_of fs of None \<Rightarrow> False | Some p \<Rightarrow> p \<noteq> t_prompt existing);
            d1 = (if revised then add_prompt_revision d tid user_id (t_prompt existing) ''user'' [] now else d) in
        if ups = [] then (Inr True, d1)
        else
          let d2 = update_where mine (\<lambda>t. (if revised then (\<lambda>x. x\<lparr>t_prev_prompt := [], t_revised_at := 0, t_revised_by := []\<rparr>)
                 else id) (fold set_field ups t)\<lparr>t_updated := now\<rparr>) d1 in
          if \<not> (\<exists>f\<in>set ups. recompute_trigger f) then (Inr True, d2)
          else case get_task d2 tid user_id of
              None \<Rightarrow> (Inr True, d2)
            | Some m \<Rightarrow> (case compute_next_run nxt (t_trigger m) (t_cron m) (t_interval m) now of
                  Inl e \<Rightarrow> (Inl (Unschedulable e), d2)
                | Inr n \<Rightarrow> (Inr True, set_next_run d2 tid n now))))"

definition due_tasks :: "db \<Rightarrow> int \<Rightarrow> task list" where
  "due_tasks d now = sort_key t_next (filter (\<lambda>t. t_enabled t \<and> t_next t > 0 \<and> t_next t \<le> now) (tasks d))"

section \<open>Runs\<close>

definition new_run :: "string \<Rightarrow> string \<Rightarrow> string \<Rightarrow> string \<Rightarrow> run_trigger \<Rightarrow> string \<Rightarrow> string \<Rightarrow> int \<Rightarrow> run" where
  "new_run rid tid user_id sid trigger resumed msg now =
     \<lparr>run_id = rid, run_task = tid, run_user = user_id, run_session = sid, run_trigger_of = trigger,
      run_status_of = Queued, run_summary = [], run_error = [], run_denied = PList [],
      run_resumed = resumed, run_message = msg, run_started = 0, run_finished = 0, run_created = now\<rparr>"

definition add_run :: "db \<Rightarrow> run \<Rightarrow> store_error + (string \<times> db)" where
  "add_run d r = (if \<exists>x\<in>set (runs d). run_id x = run_id r then Inl IntegrityError
     else Inr (run_id r, d\<lparr>runs := runs d @ [r]\<rparr>))"

definition create_run :: "db \<Rightarrow> string \<Rightarrow> int \<Rightarrow> string \<Rightarrow> string \<Rightarrow> run_trigger \<Rightarrow> store_error + (string \<times> db)" where
  "create_run d rid now tid user_id trigger = add_run d (new_run rid tid user_id [] trigger [] [] now)"

definition create_continue_run ::
  "db \<Rightarrow> string \<Rightarrow> int \<Rightarrow> string \<Rightarrow> string \<Rightarrow> string \<Rightarrow> string \<Rightarrow> string \<Rightarrow> store_error + (string \<times> db)" where
  "create_continue_run d rid now tid user_id sid resumed_from resume_message =
     add_run d (new_run rid tid user_id sid ByHand resumed_from resume_message now)"

definition active :: "run \<Rightarrow> bool" where
  "active r \<longleftrightarrow> run_status_of r = Queued \<or> run_status_of r = Running"

definition session_active_run :: "db \<Rightarrow> string \<Rightarrow> run option" where
  "session_active_run d sid =
     (if sid = [] then None else List.find (\<lambda>r. run_session r = sid \<and> active r) (runs d))"

definition session_still_referenced :: "db \<Rightarrow> string \<Rightarrow> string \<Rightarrow> bool" where
  "session_still_referenced d sid rid \<longleftrightarrow> (\<exists>r\<in>set (runs d). run_session r = sid \<and> run_id r \<noteq> rid)"

definition update_runs :: "(run \<Rightarrow> bool) \<Rightarrow> (run \<Rightarrow> run) \<Rightarrow> db \<Rightarrow> db" where
  "update_runs P f d = d\<lparr>runs := map (\<lambda>r. if P r then f r else r) (runs d)\<rparr>"

definition claim_run :: "db \<Rightarrow> int \<Rightarrow> run option \<times> db" where
  "claim_run d now = (case sort_key run_created (filter (\<lambda>r. run_status_of r = Queued) (runs d)) of
     [] \<Rightarrow> (None, d)
   | row # _ \<Rightarrow>
       (let hit = (\<lambda>r. run_id r = run_id row \<and> run_status_of r = Queued);
            d' = update_runs hit (\<lambda>r. r\<lparr>run_status_of := Running, run_started := now\<rparr>) d in
        if \<not> (\<exists>r\<in>set (runs d). hit r) then (None, d')
        else (List.find (\<lambda>r. run_id r = run_id row) (runs d'), d')))"

definition finish_run :: "db \<Rightarrow> string \<Rightarrow> int \<Rightarrow> run_status \<Rightarrow> string \<Rightarrow> string \<Rightarrow> pyval option \<Rightarrow> db" where
  "finish_run d rid now status summary error denied =
     update_runs (\<lambda>r. run_id r = rid) (\<lambda>r. r\<lparr>run_status_of := status, run_summary := summary, run_error := error,
       run_denied := (case denied of None \<Rightarrow> PList [] | Some v \<Rightarrow> v), run_finished := now\<rparr>) d"

definition attach_session :: "db \<Rightarrow> string \<Rightarrow> string \<Rightarrow> db" where
  "attach_session d rid sid = update_runs (\<lambda>r. run_id r = rid) (\<lambda>r. r\<lparr>run_session := sid\<rparr>) d"

text \<open>\<open>ORDER BY created_at DESC, rowid DESC\<close>\<close>

definition newest_first :: "run list \<Rightarrow> run list" where
  "newest_first rs = rev (sort_key run_created rs)"

definition list_runs :: "db \<Rightarrow> string \<Rightarrow> nat \<Rightarrow> run list" where
  "list_runs d tid limit = take limit (newest_first (filter (\<lambda>r. run_task r = tid) (runs d)))"

definition requeue_orphaned_runs :: "db \<Rightarrow> int \<Rightarrow> nat \<times> db" where
  "requeue_orphaned_runs d now =
     (length (filter active (runs d)),
      update_runs active (\<lambda>r. r\<lparr>run_status_of := Failed,
        run_error := ''agent restarted mid-run; not retried automatically'', run_finished := now\<rparr>) d)"

definition delete_run :: "db \<Rightarrow> string \<Rightarrow> db" where
  "delete_run d rid = d\<lparr>runs := filter (\<lambda>r. run_id r \<noteq> rid) (runs d)\<rparr>"

definition delete_session :: "db \<Rightarrow> string \<Rightarrow> db" where
  "delete_session d sid = d\<lparr>sessions := removeAll sid (sessions d)\<rparr>"

text \<open>The loop over the dropped rows: a session is handed back once, and only when no run uses it.\<close>

fun free_sessions :: "db \<Rightarrow> string list \<Rightarrow> run list \<Rightarrow> string list" where
  "free_sessions d seen [] = []"
| "free_sessions d seen (r # rs) =
     (if run_session r = [] \<or> run_session r \<in> set seen then free_sessions d seen rs
      else (if session_still_referenced d (run_session r) (run_id r) then [] else [run_session r])
           @ free_sessions d (run_session r # seen) rs)"

definition prune_runs :: "db \<Rightarrow> string \<Rightarrow> nat \<Rightarrow> string list \<times> db" where
  "prune_runs d tid keep =
     (let to_drop = drop keep (newest_first (filter (\<lambda>r. run_task r = tid) (runs d)));
          d' = foldl (\<lambda>x r. delete_run x (run_id r)) d to_drop
      in (free_sessions d' [] to_drop, d'))"

section \<open>Deleting what a task produced\<close>

datatype deletion = Gone | OutOfTime | DeleterFailed

text \<open>Per iteration: whether the deadline has passed, and how the session's deletion ends.\<close>

type_synonym purge_env = "nat \<Rightarrow> bool \<times> deletion"

definition oldest_run :: "db \<Rightarrow> string \<Rightarrow> run option" where
  "oldest_run d tid = (case sort_key run_created (filter (\<lambda>r. run_task r = tid) (runs d)) of
     [] \<Rightarrow> None | r # _ \<Rightarrow> Some r)"

definition owns_session :: "db \<Rightarrow> run \<Rightarrow> bool" where
  "owns_session d r \<longleftrightarrow> run_session r \<noteq> [] \<and> \<not> session_still_referenced d (run_session r) (run_id r)"

definition drop_run :: "db \<Rightarrow> run \<Rightarrow> deletion \<Rightarrow> db" where
  "drop_run d r how = delete_run (if owns_session d r \<and> how = Gone then delete_session d (run_session r) else d) (run_id r)"

lemma oldest_run_mem: "oldest_run d tid = Some r \<Longrightarrow> r \<in> set (runs d) \<and> run_task r = tid"
proof -
  assume "oldest_run d tid = Some r"
  then obtain rs where "sort_key run_created (filter (\<lambda>r. run_task r = tid) (runs d)) = r # rs"
    by (auto simp: oldest_run_def split: list.splits)
  then have "r \<in> set (sort_key run_created (filter (\<lambda>r. run_task r = tid) (runs d)))"
    by (metis list.set_intros(1))
  then show ?thesis by simp
qed

lemma runs_drop_run [simp]: "runs (drop_run d r how) = filter (\<lambda>x. run_id x \<noteq> run_id r) (runs d)"
  by (simp add: drop_run_def delete_run_def delete_session_def)

lemma drop_run_shorter: "r \<in> set (runs d) \<Longrightarrow> length (runs (drop_run d r how)) < length (runs d)"
  by (simp add: length_filter_less)

function purge_runs :: "purge_env \<Rightarrow> nat \<Rightarrow> db \<Rightarrow> string \<Rightarrow> bool \<times> db" where
  "purge_runs env i d tid = (case oldest_run d tid of
     None \<Rightarrow> (True, d)
   | Some r \<Rightarrow>
       if fst (env i) then (False, d)
       else if owns_session d r \<and> snd (env i) = OutOfTime then (False, d)
       else purge_runs env (Suc i) (drop_run d r (snd (env i))) tid)"
  by pat_completeness auto
termination
  by (relation "measure (\<lambda>(env, i, d, tid). length (runs d))")
     (auto simp del: runs_drop_run dest!: oldest_run_mem intro: drop_run_shorter)

declare purge_runs.simps [simp del]

definition orphan :: "db \<Rightarrow> run option" where
  "orphan d = List.find (\<lambda>r. \<not> (\<exists>t\<in>set (tasks d). t_id t = run_task r)) (runs d)"

lemma orphan_mem: "orphan d = Some r \<Longrightarrow> r \<in> set (runs d) \<and> (\<forall>t\<in>set (tasks d). t_id t \<noteq> run_task r)"
  by (auto simp: orphan_def find_Some_iff)

function reclaim_orphaned_runs :: "(nat \<Rightarrow> deletion) \<Rightarrow> nat \<Rightarrow> db \<Rightarrow> nat \<times> db" where
  "reclaim_orphaned_runs how i d = (case orphan d of
     None \<Rightarrow> (i, d)
   | Some r \<Rightarrow> reclaim_orphaned_runs how (Suc i) (drop_run d r (how i)))"
  by pat_completeness auto
termination
  by (relation "measure (\<lambda>(how, i, d). length (runs d))")
     (auto simp del: runs_drop_run dest!: orphan_mem intro: drop_run_shorter)

declare reclaim_orphaned_runs.simps [simp del]

text \<open>
  The result says whether the task row was deleted and whether a background continuation
  (another \<open>purge_runs\<close>, without a deadline) was started.
\<close>

definition delete_task :: "purge_env \<Rightarrow> db \<Rightarrow> string \<Rightarrow> string \<Rightarrow> (bool \<times> bool) \<times> db" where
  "delete_task env d tid user_id = (case get_task d tid user_id of
     None \<Rightarrow> ((False, False), d)
   | Some _ \<Rightarrow>
       (let (fin, d1) = purge_runs env 0 d tid;
            d2 = d1\<lparr>revisions := filter (\<lambda>r. rev_task r \<noteq> tid) (revisions d1)\<rparr>;
            hit = (\<lambda>t. t_id t = tid \<and> t_user t = user_id)
        in ((\<exists>t\<in>set (tasks d2). hit t, \<not> fin), d2\<lparr>tasks := filter (\<lambda>t. \<not> hit t) (tasks d2)\<rparr>)))"

section \<open>Sessions and identifiers\<close>

text \<open>Run identifiers are unique, and every session a run points at still exists.\<close>

definition db_inv :: "db \<Rightarrow> bool" where
  "db_inv d \<longleftrightarrow> distinct (map run_id (runs d)) \<and>
     (\<forall>r\<in>set (runs d). run_session r \<noteq> [] \<longrightarrow> run_session r \<in> set (sessions d))"

lemma db_inv_frame: "runs d' = runs d \<Longrightarrow> sessions d' = sessions d \<Longrightarrow> db_inv d' = db_inv d"
  by (simp add: db_inv_def)

lemma update_where_frame [store_simps, simp]:
  "runs (update_where P f d) = runs d" "sessions (update_where P f d) = sessions d"
  by (simp_all add: update_where_def)

lemma update_runs_inv:
  assumes "db_inv d" "\<And>r. run_id (f r) = run_id r"
    and "\<And>r. r \<in> set (runs d) \<Longrightarrow> P r \<Longrightarrow> run_session (f r) = run_session r \<or>
           run_session (f r) = [] \<or> run_session (f r) \<in> set (sessions d)"
  shows "db_inv (update_runs P f d)"
proof -
  have ids: "map run_id (runs (update_runs P f d)) = map run_id (runs d)"
    using assms(2) by (simp add: update_runs_def)
  have "run_session r \<in> set (sessions d)"
    if r: "r \<in> set (runs (update_runs P f d))" "run_session r \<noteq> []" for r
  proof -
    obtain x where x: "x \<in> set (runs d)" "r = (if P x then f x else x)"
      using r(1) by (auto simp: update_runs_def)
    with assms(1) r(2) have "run_session x \<noteq> [] \<Longrightarrow> run_session x \<in> set (sessions d)"
      by (simp add: db_inv_def)
    with assms(3) [of x] x r(2) show ?thesis by (cases "P x") auto
  qed
  moreover have "sessions (update_runs P f d) = sessions d" by (simp add: update_runs_def)
  ultimately show ?thesis using assms(1) ids unfolding db_inv_def by auto
qed

lemma add_run_inv:
  "db_inv d \<Longrightarrow> add_run d r = Inr (x, d') \<Longrightarrow> run_session r = [] \<or> run_session r \<in> set (sessions d) \<Longrightarrow> db_inv d'"
  by (fastforce simp: add_run_def db_inv_def split: if_splits)

lemma drop_run_inv: "db_inv d \<Longrightarrow> db_inv (drop_run d r how)"
  by (auto simp: db_inv_def drop_run_def delete_run_def delete_session_def owns_session_def
      session_still_referenced_def distinct_map_filter)

lemma purge_runs_inv: "db_inv d \<Longrightarrow> db_inv (snd (purge_runs env i d tid))"
proof (induction env i d tid rule: purge_runs.induct)
  case (1 env i d tid)
  show ?case
  proof (cases "oldest_run d tid")
    case None
    with 1 show ?thesis by (simp add: purge_runs.simps [of env i d tid])
  next
    case (Some r)
    with 1 drop_run_inv show ?thesis by (simp add: purge_runs.simps [of env i d tid])
  qed
qed

lemma reclaim_inv: "db_inv d \<Longrightarrow> db_inv (snd (reclaim_orphaned_runs how i d))"
proof (induction how i d rule: reclaim_orphaned_runs.induct)
  case (1 how i d)
  then show ?case
    using drop_run_inv by (cases "orphan d") (simp_all add: reclaim_orphaned_runs.simps [of how i d])
qed

lemma delete_task_inv: "db_inv d \<Longrightarrow> db_inv (snd (delete_task env d tid user_id))"
  using purge_runs_inv [of d env 0 tid]
  by (auto simp: delete_task_def db_inv_def Let_def split: option.splits prod.splits)

lemma foldl_delete_run:
  "runs (foldl (\<lambda>x r. delete_run x (run_id r)) d rs) = filter (\<lambda>r. run_id r \<notin> run_id ` set rs) (runs d)"
  "sessions (foldl (\<lambda>x r. delete_run x (run_id r)) d rs) = sessions d"
  "tasks (foldl (\<lambda>x r. delete_run x (run_id r)) d rs) = tasks d"
  by (induction rs arbitrary: d) (auto simp: delete_run_def filter_filter intro: filter_cong)

lemma foldl_delete_session:
  "runs (foldl delete_session d sids) = runs d"
  "set (sessions (foldl delete_session d sids)) = set (sessions d) - set sids"
  by (induction sids arbitrary: d) (auto simp: delete_session_def)

text \<open>The sessions that pruning hands back: each at most once, and none that a kept run uses.\<close>

lemma referenced_iff:
  assumes "run_id r \<notin> run_id ` set (runs d)"
  shows "session_still_referenced d sid (run_id r) \<longleftrightarrow> (\<exists>x\<in>set (runs d). run_session x = sid)"
proof -
  have "x \<in> set (runs d) \<Longrightarrow> run_id x \<noteq> run_id r" for x using assms by (metis imageI)
  then show ?thesis unfolding session_still_referenced_def by blast
qed

lemma free_sessions_mem:
  assumes "sid \<in> set (free_sessions d seen rs)" "\<forall>r\<in>set rs. run_id r \<notin> run_id ` set (runs d)"
  shows "sid \<noteq> [] \<and> sid \<notin> set seen \<and> sid \<in> run_session ` set rs \<and> (\<forall>x\<in>set (runs d). run_session x \<noteq> sid)"
  using assms
proof (induction d seen rs rule: free_sessions.induct)
  case (2 d seen r rs)
  have r: "run_id r \<notin> run_id ` set (runs d)" "\<forall>r\<in>set rs. run_id r \<notin> run_id ` set (runs d)"
    using "2.prems"(2) by simp_all
  show ?case
  proof (cases "run_session r = [] \<or> run_session r \<in> set seen")
    case True
    with "2.prems"(1) have "sid \<in> set (free_sessions d seen rs)" by auto
    from "2.IH"(1) [OF True this r(2)] show ?thesis by simp
  next
    case False
    then consider (here) "sid = run_session r" "\<not> session_still_referenced d (run_session r) (run_id r)"
      | (later) "sid \<in> set (free_sessions d (run_session r # seen) rs)"
      using "2.prems"(1) by (auto split: if_splits)
    then show ?thesis
    proof cases
      case here
      with False referenced_iff [OF r(1)] show ?thesis by simp
    next
      case later
      from "2.IH"(2) [OF False later r(2)] show ?thesis by simp
    qed
  qed
qed simp

lemma free_sessions_distinct:
  "\<forall>r\<in>set rs. run_id r \<notin> run_id ` set (runs d) \<Longrightarrow> distinct (free_sessions d seen rs)"
proof (induction d seen rs rule: free_sessions.induct)
  case (2 d seen r rs)
  then have rs: "\<forall>r\<in>set rs. run_id r \<notin> run_id ` set (runs d)" by simp
  have "run_session r \<notin> set (free_sessions d (run_session r # seen) rs)"
    using free_sessions_mem [OF _ rs, of "run_session r" "run_session r # seen"] by auto
  with 2 rs show ?case by auto
qed simp

definition dropped :: "db \<Rightarrow> string \<Rightarrow> nat \<Rightarrow> run list" where
  "dropped d tid keep = drop keep (newest_first (filter (\<lambda>r. run_task r = tid) (runs d)))"

lemma prune_runs_db:
  "runs (snd (prune_runs d tid keep)) = filter (\<lambda>r. run_id r \<notin> run_id ` set (dropped d tid keep)) (runs d)"
  "sessions (snd (prune_runs d tid keep)) = sessions d"
  by (simp_all add: prune_runs_def Let_def foldl_delete_run dropped_def)

lemma prune_runs_sessions:
  "distinct (fst (prune_runs d tid keep)) \<and>
   (\<forall>s\<in>set (fst (prune_runs d tid keep)). s \<noteq> [] \<and> (\<forall>x\<in>set (runs (snd (prune_runs d tid keep))). run_session x \<noteq> s)) \<and>
   set (fst (prune_runs d tid keep)) \<subseteq> run_session ` set (dropped d tid keep)"
proof -
  let ?d = "foldl (\<lambda>x r. delete_run x (run_id r)) d (dropped d tid keep)"
  have "\<forall>r\<in>set (dropped d tid keep). run_id r \<notin> run_id ` set (runs ?d)"
  proof (intro ballI notI)
    fix r
    assume r: "r \<in> set (dropped d tid keep)" "run_id r \<in> run_id ` set (runs ?d)"
    from r(2) obtain x where x: "run_id r = run_id x" "x \<in> set (runs ?d)" by (rule imageE)
    from x(2) have "run_id x \<notin> run_id ` set (dropped d tid keep)" unfolding foldl_delete_run(1) by simp
    with x(1) r(1) show False by (metis imageI)
  qed
  moreover have "prune_runs d tid keep = (free_sessions ?d [] (dropped d tid keep), ?d)"
    by (simp add: prune_runs_def dropped_def Let_def)
  ultimately show ?thesis
    using free_sessions_mem [of _ ?d "[]" "dropped d tid keep"] free_sessions_distinct by auto
qed

section \<open>Framing lemmas\<close>

lemma purge_runs_subset:
  "set (runs (snd (purge_runs env i d tid))) \<subseteq> set (runs d) \<and> tasks (snd (purge_runs env i d tid)) = tasks d"
proof (induction env i d tid rule: purge_runs.induct)
  case (1 env i d tid)
  have t: "tasks (drop_run d r how) = tasks d" for r how
    by (simp add: drop_run_def delete_run_def delete_session_def)
  show ?case
  proof (cases "oldest_run d tid")
    case None
    then show ?thesis by (simp add: purge_runs.simps [of env i d tid])
  next
    case (Some r)
    with 1 t show ?thesis by (auto simp: purge_runs.simps [of env i d tid])
  qed
qed

lemma reclaim_subset:
  "set (runs (snd (reclaim_orphaned_runs how i d))) \<subseteq> set (runs d) \<and>
   tasks (snd (reclaim_orphaned_runs how i d)) = tasks d"
proof (induction how i d rule: reclaim_orphaned_runs.induct)
  case (1 how i d)
  have t: "tasks (drop_run d r h) = tasks d" for r h
    by (simp add: drop_run_def delete_run_def delete_session_def)
  show ?case
  proof (cases "orphan d")
    case None
    then show ?thesis by (simp add: reclaim_orphaned_runs.simps [of how i d])
  next
    case (Some r)
    with 1 t show ?thesis by (auto simp: reclaim_orphaned_runs.simps [of how i d])
  qed
qed

lemma update_task_frame:
  "update_task nxt d tid u now fs = (res, d') \<Longrightarrow> runs d' = runs d \<and> sessions d' = sessions d"
  by (auto simp: update_task_def Let_def add_prompt_revision_def set_next_run_def
      split: option.splits if_splits sum.splits)

lemma create_task_frame:
  "create_task nxt d tid tok now u n p tr fs = Inr (x, d') \<Longrightarrow> runs d' = runs d \<and> sessions d' = sessions d"
  by (auto simp: create_task_def Let_def split: sum.splits if_splits)

lemma reset_webhook_token_frame:
  "reset_webhook_token d tok tid u = Inr (x, d') \<Longrightarrow> runs d' = runs d \<and> sessions d' = sessions d"
  by (auto simp: reset_webhook_token_def split: if_splits)

section \<open>The store as a state machine\<close>

fun status_rank :: "run_status \<Rightarrow> nat" where
  "status_rank Queued = 0"
| "status_rank Running = 1"
| "status_rank _ = 2"

text \<open>
  One step is one call of the module, by the tasks API, the scheduler, the runner or the worker
  start-up. A run is finished with a terminal status; a session that a run is attached to exists;
  the sessions that pruning hands back are deleted by its caller.
\<close>

inductive store_step :: "next_fn \<Rightarrow> db \<Rightarrow> db \<Rightarrow> bool" for nxt where
  st_create: "create_task nxt d tid tok now u n p tr fs = Inr (x, d') \<Longrightarrow> store_step nxt d d'"
| st_update: "update_task nxt d tid u now fs = (res, d') \<Longrightarrow> store_step nxt d d'"
| st_token: "reset_webhook_token d tok tid u = Inr (x, d') \<Longrightarrow> store_step nxt d d'"
| st_next: "store_step nxt d (set_next_run d tid k now)"
| st_session: "store_step nxt d (d\<lparr>sessions := sid # sessions d\<rparr>)"
| st_run: "create_run d rid now tid u tr = Inr (x, d') \<Longrightarrow> store_step nxt d d'"
| st_continue: "create_continue_run d rid now tid u sid rf msg = Inr (x, d') \<Longrightarrow> sid \<in> set (sessions d) \<Longrightarrow>
    store_step nxt d d'"
| st_claim: "claim_run d now = (r, d') \<Longrightarrow> store_step nxt d d'"
| st_finish: "status_rank st = 2 \<Longrightarrow> store_step nxt d (finish_run d rid now st summ err den)"
| st_attach: "sid \<in> set (sessions d) \<Longrightarrow> store_step nxt d (attach_session d rid sid)"
| st_requeue: "requeue_orphaned_runs d now = (k, d') \<Longrightarrow> store_step nxt d d'"
| st_prune: "prune_runs d tid keep = (sids, d1) \<Longrightarrow> store_step nxt d (foldl delete_session d1 sids)"
| st_purge: "purge_runs env 0 d tid = (b, d') \<Longrightarrow> store_step nxt d d'"
| st_delete: "delete_task env d tid u = (b, d') \<Longrightarrow> store_step nxt d d'"
| st_reclaim: "reclaim_orphaned_runs how 0 d = (k, d') \<Longrightarrow> store_step nxt d d'"

lemma claim_run_db:
  "claim_run d now = (r, d') \<Longrightarrow> d' = d \<or>
   (\<exists>rid. d' = update_runs (\<lambda>r. run_id r = rid \<and> run_status_of r = Queued)
      (\<lambda>r. r\<lparr>run_status_of := Running, run_started := now\<rparr>) d)"
  by (auto simp: claim_run_def Let_def split: list.splits if_splits)

lemma update_runs_keep_inv:
  "db_inv d \<Longrightarrow> (\<And>r. run_id (f r) = run_id r \<and> run_session (f r) = run_session r) \<Longrightarrow> db_inv (update_runs P f d)"
  by (rule update_runs_inv) auto

lemma store_step_inv: "store_step nxt d d' \<Longrightarrow> db_inv d \<Longrightarrow> db_inv d'"
proof (induction rule: store_step.induct)
  case (st_create d tid tok now u n p tr fs x d')
  then show ?case using create_task_frame db_inv_frame by metis
next
  case (st_update d tid u now fs res d')
  then show ?case using update_task_frame db_inv_frame by metis
next
  case (st_token d tok tid u x d')
  then show ?case using reset_webhook_token_frame db_inv_frame by metis
next
  case (st_next d tid k now)
  then show ?case by (simp add: set_next_run_def db_inv_def)
next
  case (st_session d sid)
  then show ?case by (auto simp: db_inv_def)
next
  case (st_run d rid now tid u tr x d')
  then show ?case by (auto simp: create_run_def new_run_def intro: add_run_inv)
next
  case (st_continue d rid now tid u sid rf msg x d')
  then show ?case by (auto simp: create_continue_run_def new_run_def intro: add_run_inv)
next
  case (st_claim d now r d')
  then show ?case using claim_run_db [of d now r d'] by (auto intro!: update_runs_keep_inv)
next
  case (st_finish st d rid now summ err den)
  then show ?case unfolding finish_run_def by (intro update_runs_keep_inv) auto
next
  case (st_attach sid d rid)
  then show ?case unfolding attach_session_def by (intro update_runs_inv) auto
next
  case (st_requeue d now k d')
  then show ?case by (auto simp: requeue_orphaned_runs_def intro!: update_runs_keep_inv)
next
  case (st_prune d tid keep sids d1)
  have d1: "d1 = snd (prune_runs d tid keep)" "sids = fst (prune_runs d tid keep)" using st_prune(1) by simp_all
  have "\<forall>x\<in>set (runs d1). run_session x \<notin> set sids" using prune_runs_sessions [of d tid keep] d1 by auto
  moreover have "distinct (map run_id (runs d1))" "set (runs d1) \<subseteq> set (runs d)" "sessions d1 = sessions d"
    using st_prune(2) d1(1) by (auto simp: db_inv_def prune_runs_db distinct_map_filter)
  ultimately show ?case using st_prune(2) by (auto simp: db_inv_def foldl_delete_session)
next
  case (st_purge env d tid b d')
  then show ?case using purge_runs_inv [of d env 0 tid] by simp
next
  case (st_delete env d tid u b d')
  then show ?case using delete_task_inv [of d env tid u] by simp
next
  case (st_reclaim how d k d')
  then show ?case using reclaim_inv [of d how 0] by simp
qed

text \<open>A run never goes back: queued, then running, then done.\<close>

definition same_run_le :: "db \<Rightarrow> db \<Rightarrow> bool" where
  "same_run_le d d' \<longleftrightarrow> (\<forall>r\<in>set (runs d). \<forall>r'\<in>set (runs d'). run_id r = run_id r' \<longrightarrow>
     status_rank (run_status_of r) \<le> status_rank (run_status_of r'))"

lemma same_id: "db_inv d \<Longrightarrow> r \<in> set (runs d) \<Longrightarrow> r' \<in> set (runs d) \<Longrightarrow> run_id r = run_id r' \<Longrightarrow> r = r'"
  unfolding db_inv_def by (auto simp: distinct_map inj_on_def)

lemma same_run_le_subset: "db_inv d \<Longrightarrow> set (runs d') \<subseteq> set (runs d) \<Longrightarrow> same_run_le d d'"
  unfolding same_run_le_def using same_id by (metis order_refl subsetD)

lemma same_run_le_add: "db_inv d \<Longrightarrow> add_run d r = Inr (x, d') \<Longrightarrow> same_run_le d d'"
proof -
  assume inv: "db_inv d" and add: "add_run d r = Inr (x, d')"
  then have "runs d' = runs d @ [r]" "\<forall>y\<in>set (runs d). run_id y \<noteq> run_id r"
    by (auto simp: add_run_def split: if_splits)
  then show ?thesis unfolding same_run_le_def using same_id [OF inv] by fastforce
qed

lemma same_run_le_update:
  assumes "db_inv d" "\<And>r. run_id (f r) = run_id r"
    and "\<And>r. r \<in> set (runs d) \<Longrightarrow> P r \<Longrightarrow> status_rank (run_status_of r) \<le> status_rank (run_status_of (f r))"
  shows "same_run_le d (update_runs P f d)"
  unfolding same_run_le_def
proof (intro ballI impI)
  fix r r'
  assume r: "r \<in> set (runs d)" "r' \<in> set (runs (update_runs P f d))" "run_id r = run_id r'"
  then obtain x where x: "x \<in> set (runs d)" "r' = (if P x then f x else x)" by (auto simp: update_runs_def)
  then have "run_id r' = run_id x" using assms(2) by simp
  with r x same_id [OF assms(1)] have "x = r" by metis
  with x assms(3) show "status_rank (run_status_of r) \<le> status_rank (run_status_of r')" by simp
qed

lemma store_step_rank: "store_step nxt d d' \<Longrightarrow> db_inv d \<Longrightarrow> same_run_le d d'"
proof (induction rule: store_step.induct)
  case (st_create d tid tok now u n p tr fs x d')
  then show ?case using create_task_frame same_run_le_subset by (metis order_refl)
next
  case (st_update d tid u now fs res d')
  then show ?case using update_task_frame same_run_le_subset by (metis order_refl)
next
  case (st_token d tok tid u x d')
  then show ?case using reset_webhook_token_frame same_run_le_subset by (metis order_refl)
next
  case (st_next d tid k now)
  then show ?case by (intro same_run_le_subset) (simp_all add: set_next_run_def)
next
  case (st_session d sid)
  then show ?case by (intro same_run_le_subset) simp_all
next
  case (st_run d rid now tid u tr x d')
  then show ?case unfolding create_run_def by (intro same_run_le_add)
next
  case (st_continue d rid now tid u sid rf msg x d')
  then show ?case unfolding create_continue_run_def by (intro same_run_le_add)
next
  case (st_claim d now r d')
  then show ?case using claim_run_db [of d now r d'] same_run_le_subset [of d d]
    by (auto intro!: same_run_le_update)
next
  case (st_finish st d rid now summ err den)
  have "status_rank s \<le> 2" for s by (cases s) simp_all
  with st_finish show ?case unfolding finish_run_def by (intro same_run_le_update) auto
next
  case (st_attach sid d rid)
  then show ?case unfolding attach_session_def by (intro same_run_le_update) auto
next
  case (st_requeue d now k d')
  then show ?case by (auto simp: requeue_orphaned_runs_def active_def intro!: same_run_le_update)
next
  case (st_prune d tid keep sids d1)
  then have "d1 = snd (prune_runs d tid keep)" by simp
  then have "set (runs d1) \<subseteq> set (runs d)" by (auto simp: prune_runs_db)
  with st_prune(2) show ?case by (intro same_run_le_subset) (simp_all add: foldl_delete_session)
next
  case (st_purge env d tid b d')
  then show ?case using purge_runs_subset [of env 0 d tid] by (intro same_run_le_subset) simp_all
next
  case (st_delete env d tid u b d')
  then show ?case
    using purge_runs_subset [of env 0 d tid]
    by (intro same_run_le_subset) (auto simp: delete_task_def Let_def split: option.splits prod.splits)
next
  case (st_reclaim how d k d')
  then show ?case using reclaim_subset [of how 0 d] by (intro same_run_le_subset) simp_all
qed

inductive store_reach :: "next_fn \<Rightarrow> db \<Rightarrow> db \<Rightarrow> bool" for nxt d0 where
  sr_start: "store_reach nxt d0 d0"
| sr_step: "store_reach nxt d0 d \<Longrightarrow> store_step nxt d d' \<Longrightarrow> store_reach nxt d0 d'"

lemma store_reach_inv: "store_reach nxt d0 d \<Longrightarrow> db_inv d0 \<Longrightarrow> db_inv d"
  by (induction rule: store_reach.induct) (auto intro: store_step_inv)

section \<open>Completeness of the deletions\<close>

lemma oldest_run_None: "oldest_run d tid = None \<longleftrightarrow> (\<forall>r\<in>set (runs d). run_task r \<noteq> tid)"
proof -
  have "oldest_run d tid = None \<longleftrightarrow> sort_key run_created (filter (\<lambda>r. run_task r = tid) (runs d)) = []"
    by (simp add: oldest_run_def split: list.splits)
  also have "\<dots> \<longleftrightarrow> filter (\<lambda>r. run_task r = tid) (runs d) = []"
    by (metis set_empty set_sort)
  finally show ?thesis by (auto simp: filter_empty_conv)
qed

lemma purge_runs_done:
  "fst (purge_runs env i d tid) \<Longrightarrow> \<forall>r\<in>set (runs (snd (purge_runs env i d tid))). run_task r \<noteq> tid"
proof (induction env i d tid rule: purge_runs.induct)
  case (1 env i d tid)
  show ?case
  proof (cases "oldest_run d tid")
    case None
    then have "purge_runs env i d tid = (True, d)" by (simp add: purge_runs.simps [of env i d tid])
    with None show ?thesis by (simp add: oldest_run_None)
  next
    case (Some r)
    note eq = purge_runs.simps [of env i d tid]
    from "1.prems" Some have go: "\<not> fst (env i)" "\<not> (owns_session d r \<and> snd (env i) = OutOfTime)"
      by (auto simp: eq split: if_splits)
    then have step: "purge_runs env i d tid = purge_runs env (Suc i) (drop_run d r (snd (env i))) tid"
      using Some unfolding eq by (auto split: if_splits)
    show ?thesis using "1.IH" [OF Some go] "1.prems" unfolding step .
  qed
qed

lemma purge_runs_total:
  "\<forall>n. \<not> fst (env n) \<and> snd (env n) \<noteq> OutOfTime \<Longrightarrow> fst (purge_runs env i d tid)"
proof (induction env i d tid rule: purge_runs.induct)
  case (1 env i d tid)
  then show ?case by (cases "oldest_run d tid") (simp_all add: purge_runs.simps [of env i d tid])
qed

lemma purge_runs_others:
  "db_inv d \<Longrightarrow> filter (\<lambda>r. run_task r \<noteq> tid) (runs (snd (purge_runs env i d tid))) = filter (\<lambda>r. run_task r \<noteq> tid) (runs d)"
proof (induction env i d tid rule: purge_runs.induct)
  case (1 env i d tid)
  show ?case
  proof (cases "oldest_run d tid")
    case None
    then show ?thesis by (simp add: purge_runs.simps [of env i d tid])
  next
    case (Some r)
    have r: "r \<in> set (runs d)" "run_task r = tid" using oldest_run_mem [OF Some] by simp_all
    have "filter (\<lambda>x. run_task x \<noteq> tid) (runs (drop_run d r how)) = filter (\<lambda>x. run_task x \<noteq> tid) (runs d)" for how
      using same_id [OF "1.prems" _ r(1)] r(2) by (auto simp: filter_filter intro!: filter_cong)
    with 1 Some drop_run_inv show ?thesis by (simp add: purge_runs.simps [of env i d tid])
  qed
qed

lemma reclaim_done: "orphan (snd (reclaim_orphaned_runs how i d)) = None"
proof (induction how i d rule: reclaim_orphaned_runs.induct)
  case (1 how i d)
  then show ?case by (cases "orphan d") (simp_all add: reclaim_orphaned_runs.simps [of how i d])
qed

lemma orphan_None: "orphan d = None \<longleftrightarrow> (\<forall>r\<in>set (runs d). \<exists>t\<in>set (tasks d). t_id t = run_task r)"
  by (auto simp: orphan_def find_None_iff)

section \<open>Claiming and pruning\<close>

lemma find_map_id:
  assumes "distinct (map key xs)" "x \<in> set xs" "\<And>y. key (g y) = key y"
  shows "List.find (\<lambda>y. key y = key x) (map g xs) = Some (g x)"
  using assms
proof (induction xs)
  case (Cons y ys)
  show ?case
  proof (cases "key y = key x")
    case True
    with Cons.prems have "y = x" by force
    with Cons.prems(3) show ?thesis by simp
  next
    case False
    with Cons show ?thesis by auto
  qed
qed simp

lemma sort_key_hd:
  assumes "sort_key f xs = y # ys"
  shows "y \<in> set xs" "\<forall>x\<in>set xs. f y \<le> f x"
proof -
  have s: "set (y # ys) = set xs" by (metis assms set_sort)
  then show "y \<in> set xs" by auto
  have "sorted (map f (y # ys))" by (metis assms sorted_sort_key)
  with s show "\<forall>x\<in>set xs. f y \<le> f x" by (auto simp: s [symmetric])
qed

lemma newest_first_filter: "newest_first (filter P rs) = filter P (newest_first rs)"
  by (simp add: newest_first_def filter_sort [symmetric] rev_filter)

lemma filter_not_dropped:
  assumes "distinct (map key xs)"
  shows "filter (\<lambda>x. key x \<notin> key ` set (drop n xs)) xs = take n xs"
proof -
  have d: "distinct (map key (take n xs @ drop n xs))" using assms by simp
  have "key x \<notin> key ` set (drop n xs)" if "x \<in> set (take n xs)" for x
    using d that unfolding map_append distinct_append by auto
  then have "filter (\<lambda>x. key x \<notin> key ` set (drop n xs)) (take n xs) = take n xs" by (intro filter_True) blast
  moreover have "filter (\<lambda>x. key x \<notin> key ` set (drop n xs)) (drop n xs) = []"
    by (simp add: filter_empty_conv)
  ultimately have "filter (\<lambda>x. key x \<notin> key ` set (drop n xs)) (take n xs @ drop n xs) = take n xs"
    by (simp only: filter_append append_Nil2)
  then show ?thesis by simp
qed

lemma newest_first_distinct: "distinct (map run_id rs) \<Longrightarrow> distinct (map run_id (newest_first rs))"
proof -
  assume d: "distinct (map run_id rs)"
  have "set (newest_first rs) = set rs" "length (newest_first rs) = length rs" by (simp_all add: newest_first_def)
  moreover have "card (run_id ` set rs) = length rs" using d distinct_card [of "map run_id rs"] by simp
  ultimately show ?thesis by (intro card_distinct) simp
qed

section \<open>Properties\<close>

text \<open>
  C21. Data integrity of runs and sessions: from a database in order, whatever sequence of calls the
  API, the scheduler, the runner and the start-up make, every run still points at an existing
  session (or at none), although continuations share sessions and three different paths delete
  them; and a run never moves back from running to queued or out of a final status.
\<close>

theorem runs_keep_their_sessions:
  assumes "db_inv d0" "store_reach nxt d0 d"
  shows "(\<forall>r\<in>set (runs d). run_session r \<noteq> [] \<longrightarrow> run_session r \<in> set (sessions d)) \<and>
    (\<forall>d'. store_step nxt d d' \<longrightarrow> same_run_le d d')"
  using store_reach_inv [OF assms(2,1)] store_step_rank unfolding db_inv_def by blast

definition empty_db :: db where
  "empty_db = \<lparr>tasks = [], runs = [], revisions = [], rev_seq = 0, sessions = []\<rparr>"

theorem runs_keep_their_sessions_witness:
  "let d1 = empty_db\<lparr>sessions := [''s'']\<rparr>;
       d2 = snd (projr (create_continue_run d1 ''r'' 1 ''t'' ''u'' ''s'' ''r0'' ''go''))
   in runs d2 \<noteq> [] \<and> (\<forall>r\<in>set (runs d2). run_session r \<noteq> [] \<longrightarrow> run_session r \<in> set (sessions d2))"
proof -
  let ?d1 = "empty_db\<lparr>sessions := [''s'']\<rparr>"
  let ?c = "create_continue_run ?d1 ''r'' 1 ''t'' ''u'' ''s'' ''r0'' ''go''"
  have c: "?c = Inr (fst (projr ?c), snd (projr ?c))"
    by (simp add: create_continue_run_def add_run_def empty_db_def)
  have "store_step (\<lambda>_ _. Inr 0) ?d1 (snd (projr ?c))"
    by (rule store_step.st_continue [OF c]) (simp add: empty_db_def)
  then have "store_reach (\<lambda>_ _. Inr 0) ?d1 (snd (projr ?c))"
    by (rule store_reach.sr_step [OF store_reach.sr_start])
  moreover have "db_inv ?d1" by (simp add: db_inv_def empty_db_def)
  moreover have "runs (snd (projr ?c)) \<noteq> []" by (simp add: create_continue_run_def add_run_def empty_db_def)
  ultimately show ?thesis using runs_keep_their_sessions by (simp add: Let_def)
qed

text \<open>
  C24. Claiming: when some run is queued, \<open>claim_run\<close> returns the oldest queued one, now running with
  its start time, and changes nothing else in the database; when none is queued it returns nothing
  and changes nothing.
\<close>

theorem claim_takes_oldest:
  assumes "db_inv d" "claim_run d now = (res, d')"
  shows "if \<exists>r\<in>set (runs d). run_status_of r = Queued
    then \<exists>q\<in>set (runs d). run_status_of q = Queued \<and>
       (\<forall>r\<in>set (runs d). run_status_of r = Queued \<longrightarrow> run_created q \<le> run_created r) \<and>
       res = Some (q\<lparr>run_status_of := Running, run_started := now\<rparr>) \<and>
       d' = d\<lparr>runs := map (\<lambda>r. if run_id r = run_id q then r\<lparr>run_status_of := Running, run_started := now\<rparr> else r) (runs d)\<rparr>
    else res = None \<and> d' = d"
proof (cases "sort_key run_created (filter (\<lambda>r. run_status_of r = Queued) (runs d))")
  case Nil
  then have "filter (\<lambda>r. run_status_of r = Queued) (runs d) = []" by (metis set_empty set_sort)
  then have "\<not> (\<exists>r\<in>set (runs d). run_status_of r = Queued)" by (auto simp: filter_empty_conv)
  with Nil assms(2) show ?thesis by (simp add: claim_run_def)
next
  case (Cons q qs)
  have q: "q \<in> set (runs d)" "run_status_of q = Queued"
    "\<forall>r\<in>set (runs d). run_status_of r = Queued \<longrightarrow> run_created q \<le> run_created r"
    using sort_key_hd [OF Cons] by auto
  let ?f = "\<lambda>r. r\<lparr>run_status_of := Running, run_started := now\<rparr>"
  let ?g = "\<lambda>r. if run_id r = run_id q \<and> run_status_of r = Queued then ?f r else r"
  let ?h = "\<lambda>r. if run_id r = run_id q then ?f r else r"
  have gh: "map ?g (runs d) = map ?h (runs d)"
    using same_id [OF assms(1) _ q(1)] q(2) by (intro map_cong) auto
  have find: "List.find (\<lambda>r. run_id r = run_id q) (map ?h (runs d)) = Some (?h q)"
    using assms(1) q(1) unfolding db_inv_def by (intro find_map_id) auto
  have hit: "\<exists>r\<in>set (runs d). run_id r = run_id q \<and> run_status_of r = Queued" using q by blast
  have "claim_run d now = (List.find (\<lambda>r. run_id r = run_id q) (map ?g (runs d)), d\<lparr>runs := map ?g (runs d)\<rparr>)"
    unfolding claim_run_def Cons using hit by (auto simp: update_runs_def Let_def)
  then have "claim_run d now = (Some (?f q), d\<lparr>runs := map ?h (runs d)\<rparr>)"
    unfolding gh find by simp
  then have "res = Some (?f q)" "d' = d\<lparr>runs := map ?h (runs d)\<rparr>" using assms(2) by simp_all
  with q show ?thesis by auto
qed

theorem claim_takes_oldest_witness:
  "let d = empty_db\<lparr>runs := [new_run ''b'' ''t'' ''u'' [] ByHand [] [] 7, new_run ''a'' ''t'' ''u'' [] ByCron [] [] 5]\<rparr>
   in \<exists>q\<in>set (runs d). fst (claim_run d 9) = Some (q\<lparr>run_status_of := Running, run_started := 9\<rparr>) \<and> run_created q \<le> 5"
proof -
  let ?d = "empty_db\<lparr>runs := [new_run ''b'' ''t'' ''u'' [] ByHand [] [] 7, new_run ''a'' ''t'' ''u'' [] ByCron [] [] 5]\<rparr>"
  have inv: "db_inv ?d" by (simp add: db_inv_def empty_db_def new_run_def)
  have "claim_run ?d 9 = (fst (claim_run ?d 9), snd (claim_run ?d 9))" by simp
  from claim_takes_oldest [OF inv this] show ?thesis
    by (auto simp: empty_db_def new_run_def Let_def)
qed

text \<open>
  C28. Pruning a task's history keeps exactly its \<open>keep\<close> newest runs and every run of the other
  tasks, and the sessions it hands back for deletion are those of dropped runs, each once, and none
  that a remaining run of any task still uses.
\<close>

theorem prune_keeps_newest:
  assumes "db_inv d" "prune_runs d tid keep = (sids, d')"
  shows "newest_first (filter (\<lambda>r. run_task r = tid) (runs d')) =
      take keep (newest_first (filter (\<lambda>r. run_task r = tid) (runs d))) \<and>
    filter (\<lambda>r. run_task r \<noteq> tid) (runs d') = filter (\<lambda>r. run_task r \<noteq> tid) (runs d) \<and>
    distinct sids \<and> (\<forall>s\<in>set sids. s \<noteq> [] \<and> (\<forall>r\<in>set (runs d'). run_session r \<noteq> s))"
proof -
  let ?mine = "filter (\<lambda>r. run_task r = tid) (runs d)"
  let ?keepP = "\<lambda>r. run_id r \<notin> run_id ` set (drop keep (newest_first ?mine))"
  have d': "d' = snd (prune_runs d tid keep)" "sids = fst (prune_runs d tid keep)" using assms(2) by simp_all
  have runs': "runs d' = filter ?keepP (runs d)" using d'(1) by (simp add: prune_runs_db dropped_def)
  have dist: "distinct (map run_id ?mine)" using assms(1) by (simp add: db_inv_def distinct_map_filter)
  have "filter (\<lambda>r. run_task r = tid) (runs d') = filter ?keepP ?mine"
    unfolding runs' by (simp add: filter_filter conj_commute)
  then have "newest_first (filter (\<lambda>r. run_task r = tid) (runs d')) = filter ?keepP (newest_first ?mine)"
    by (simp only: newest_first_filter)
  also have "\<dots> = take keep (newest_first ?mine)"
    using newest_first_distinct [OF dist] by (rule filter_not_dropped)
  finally have mine: "newest_first (filter (\<lambda>r. run_task r = tid) (runs d')) = take keep (newest_first ?mine)" .
  have "?keepP r" if r: "r \<in> set (runs d)" "run_task r \<noteq> tid" for r
  proof
    assume "run_id r \<in> run_id ` set (drop keep (newest_first ?mine))"
    then obtain x where x: "run_id r = run_id x" "x \<in> set (drop keep (newest_first ?mine))" by (rule imageE)
    from x(2) have "x \<in> set (newest_first ?mine)" by (rule in_set_dropD)
    then have "x \<in> set (runs d)" "run_task x = tid" by (simp_all add: newest_first_def)
    with same_id [OF assms(1) r(1) _ x(1)] r(2) show False by blast
  qed
  then have "filter (\<lambda>r. run_task r \<noteq> tid) (runs d') = filter (\<lambda>r. run_task r \<noteq> tid) (runs d)"
    unfolding runs' filter_filter by (intro filter_cong) auto
  with mine prune_runs_sessions [of d tid keep] d' show ?thesis by simp
qed

theorem prune_keeps_newest_witness:
  "let d = empty_db\<lparr>runs := [new_run ''b'' ''t'' ''u'' ''s'' ByHand [] [] 7, new_run ''a'' ''t'' ''u'' ''s'' ByCron [] [] 5]\<rparr>
   in fst (prune_runs d ''t'' 1) = [] \<and> length (newest_first (filter (\<lambda>r. run_task r = ''t'') (runs (snd (prune_runs d ''t'' 1))))) = 1"
proof -
  let ?d = "empty_db\<lparr>runs := [new_run ''b'' ''t'' ''u'' ''s'' ByHand [] [] 7, new_run ''a'' ''t'' ''u'' ''s'' ByCron [] [] 5]\<rparr>"
  have inv: "db_inv (?d\<lparr>sessions := [''s'']\<rparr>)" by (simp add: db_inv_def empty_db_def new_run_def)
  have pr: "prune_runs (?d\<lparr>sessions := [''s'']\<rparr>) ''t'' 1 =
      (fst (prune_runs (?d\<lparr>sessions := [''s'']\<rparr>) ''t'' 1), snd (prune_runs (?d\<lparr>sessions := [''s'']\<rparr>) ''t'' 1))" by simp
  have len: "length (take 1 (newest_first (filter (\<lambda>r. run_task r = ''t'') (runs (?d\<lparr>sessions := [''s'']\<rparr>))))) = 1"
    by (simp add: newest_first_def new_run_def)
  have "length (newest_first (filter (\<lambda>r. run_task r = ''t'') (runs (snd (prune_runs (?d\<lparr>sessions := [''s'']\<rparr>) ''t'' 1))))) = 1"
    using prune_keeps_newest [OF inv pr] len by (simp only:)
  moreover have "fst (prune_runs ?d ''t'' 1) = []" by code_simp
  moreover have "runs (snd (prune_runs ?d ''t'' 1)) = runs (snd (prune_runs (?d\<lparr>sessions := [''s'']\<rparr>) ''t'' 1))"
    by (simp add: prune_runs_db dropped_def)
  ultimately show ?thesis by (simp add: Let_def)
qed

text \<open>
  Deleting a task leaves nothing behind: only its owner can delete it; then its row and its
  prompt history are gone and the runs of other tasks are untouched; its own runs are all gone
  unless the time budget ran out, and in that case either the background continuation (which has no
  budget and always finishes) or the start-up reclaim removes every run without a task. Every one of
  these loops ends.
\<close>

theorem delete_leaves_nothing:
  assumes "db_inv d" "delete_task env d tid u = ((ok, spawned), d')"
  shows "(ok \<longleftrightarrow> get_task d tid u \<noteq> None) \<and> (\<not> ok \<longrightarrow> d' = d) \<and>
    (ok \<longrightarrow> get_task d' tid u = None \<and> (\<forall>r\<in>set (revisions d'). rev_task r \<noteq> tid) \<and>
       filter (\<lambda>r. run_task r \<noteq> tid) (runs d') = filter (\<lambda>r. run_task r \<noteq> tid) (runs d)) \<and>
    (ok \<longrightarrow> \<not> spawned \<longrightarrow> (\<forall>r\<in>set (runs d'). run_task r \<noteq> tid)) \<and>
    (\<forall>env'. (\<forall>n. \<not> fst (env' n) \<and> snd (env' n) \<noteq> OutOfTime) \<longrightarrow>
       (\<forall>r\<in>set (runs (snd (purge_runs env' 0 d' tid))). run_task r \<noteq> tid)) \<and>
    (\<forall>r\<in>set (runs (snd (reclaim_orphaned_runs how 0 d'))). \<exists>t\<in>set (tasks d'). t_id t = run_task r)"
proof -
  have cont: "\<forall>env'. (\<forall>n. \<not> fst (env' n) \<and> snd (env' n) \<noteq> OutOfTime) \<longrightarrow>
      (\<forall>r\<in>set (runs (snd (purge_runs env' 0 d' tid))). run_task r \<noteq> tid)"
    using purge_runs_total purge_runs_done by blast
  have recl: "\<forall>r\<in>set (runs (snd (reclaim_orphaned_runs how 0 d'))). \<exists>t\<in>set (tasks d'). t_id t = run_task r"
    using reclaim_done [of how 0 d'] reclaim_subset [of how 0 d'] by (simp add: orphan_None)
  show ?thesis
  proof (cases "get_task d tid u")
    case None
    with assms(2) have "\<not> ok" "d' = d" by (auto simp: delete_task_def)
    with None cont recl show ?thesis by simp
  next
    case (Some t)
    obtain fin d1 where p: "purge_runs env 0 d tid = (fin, d1)" by fastforce
    have t: "t \<in> set (tasks d1)" "t_id t = tid \<and> t_user t = u"
      using Some purge_runs_subset [of env 0 d tid] p by (auto simp: get_task_def find_Some_iff)
    have res: "ok \<longleftrightarrow> (\<exists>x\<in>set (tasks d1). t_id x = tid \<and> t_user x = u)" "spawned \<longleftrightarrow> \<not> fin"
      "runs d' = runs d1" "revisions d' = filter (\<lambda>r. rev_task r \<noteq> tid) (revisions d1)"
      "tasks d' = filter (\<lambda>x. \<not> (t_id x = tid \<and> t_user x = u)) (tasks d1)"
      using assms(2) Some p by (auto simp: delete_task_def Let_def)
    have ok: "ok" using res(1) t by blast
    have "get_task d' tid u = None" by (simp add: get_task_def find_None_iff res(5))
    moreover have "\<forall>r\<in>set (revisions d'). rev_task r \<noteq> tid" by (simp add: res(4))
    moreover have "filter (\<lambda>r. run_task r \<noteq> tid) (runs d') = filter (\<lambda>r. run_task r \<noteq> tid) (runs d)"
      using purge_runs_others [OF assms(1), of tid env 0] p res(3) by simp
    moreover have "\<not> spawned \<longrightarrow> (\<forall>r\<in>set (runs d'). run_task r \<noteq> tid)"
      using purge_runs_done [of env 0 d tid] p res(2,3) by simp
    ultimately show ?thesis using ok Some cont recl by auto
  qed
qed

theorem delete_leaves_nothing_witness:
  "let d = empty_db\<lparr>tasks := [default_task ''t'' ''w'' ''u'' ''n'' ''p'' WebhookOnly 0],
                    runs := [new_run ''a'' ''t'' ''u'' [] ByCron [] [] 5]\<rparr>
   in (\<forall>r\<in>set (runs (snd (reclaim_orphaned_runs (\<lambda>_. Gone) 0 (snd (delete_task (\<lambda>_. (True, Gone)) d ''t'' ''u''))))).
        \<exists>t\<in>set (tasks (snd (delete_task (\<lambda>_. (True, Gone)) d ''t'' ''u''))). t_id t = run_task r)"
proof -
  let ?d = "empty_db\<lparr>tasks := [default_task ''t'' ''w'' ''u'' ''n'' ''p'' WebhookOnly 0],
                    runs := [new_run ''a'' ''t'' ''u'' [] ByCron [] [] 5]\<rparr>"
  let ?r = "delete_task (\<lambda>_. (True, Gone)) ?d ''t'' ''u''"
  have "db_inv ?d" by (simp add: db_inv_def empty_db_def new_run_def)
  moreover have "?r = ((fst (fst ?r), snd (fst ?r)), snd ?r)" by simp
  ultimately show ?thesis using delete_leaves_nothing [of ?d "\<lambda>_. (True, Gone)" "''t''" "''u''"] unfolding Let_def by metis
qed

definition rev_inv :: "db \<Rightarrow> bool" where
  "rev_inv d \<longleftrightarrow> sorted_wrt (<) (map rev_id (revisions d)) \<and> (\<forall>r\<in>set (revisions d). rev_id r < rev_seq d)"

lemma sorted_key_filter: "sorted_wrt (<) (map key xs) \<Longrightarrow> sorted_wrt (<) (map key (filter P xs))" for key :: "'a \<Rightarrow> nat"
  by (induction xs) auto

lemma prune_revisions_mine:
  assumes "sorted_wrt (<) (map rev_id rs)"
  shows "filter (\<lambda>r. rev_task r = tid) (prune_revisions n tid rs) =
      rev (take n (rev (filter (\<lambda>r. rev_task r = tid) rs)))"
    "filter (\<lambda>r. rev_task r \<noteq> tid) (prune_revisions n tid rs) = filter (\<lambda>r. rev_task r \<noteq> tid) rs"
proof -
  let ?L = "filter (\<lambda>r. rev_task r = tid) rs"
  let ?k = "length ?L - n"
  have s: "sorted_wrt (<) (map rev_id ?L)" using assms by (rule sorted_key_filter)
  have dist: "distinct (map rev_id ?L)" using s strict_sorted_iff by blast
  have sort: "sort_key rev_id ?L = ?L"
    using s strict_sorted_imp_sorted by (intro sort_key_id_if_sorted) blast
  have kept: "take n (rev ?L) = rev (drop ?k ?L)" by (simp add: take_rev)
  have keep: "filter (\<lambda>r. rev_id r \<in> rev_id ` set (drop ?k ?L)) ?L = drop ?k ?L"
  proof -
    have d: "distinct (map rev_id (take ?k ?L @ drop ?k ?L))" using dist by simp
    have "rev_id x \<notin> rev_id ` set (drop ?k ?L)" if "x \<in> set (take ?k ?L)" for x
      using d that unfolding map_append distinct_append by auto
    then have "filter (\<lambda>r. rev_id r \<in> rev_id ` set (drop ?k ?L)) (take ?k ?L) = []"
      by (auto simp: filter_empty_conv)
    moreover have "filter (\<lambda>r. rev_id r \<in> rev_id ` set (drop ?k ?L)) (drop ?k ?L) = drop ?k ?L"
      by (rule filter_True) blast
    ultimately have "filter (\<lambda>r. rev_id r \<in> rev_id ` set (drop ?k ?L)) (take ?k ?L @ drop ?k ?L) = drop ?k ?L"
      by (simp only: filter_append append_Nil)
    then show ?thesis by (simp only: append_take_drop_id)
  qed
  have pr: "prune_revisions n tid rs =
      filter (\<lambda>r. \<not> (rev_task r = tid \<and> rev_id r \<notin> rev_id ` set (drop ?k ?L))) rs"
    by (simp add: prune_revisions_def sort kept Let_def)
  have "filter (\<lambda>r. rev_task r = tid) (prune_revisions n tid rs) = filter (\<lambda>r. rev_id r \<in> rev_id ` set (drop ?k ?L)) ?L"
    unfolding pr filter_filter by (rule filter_cong) auto
  then show "filter (\<lambda>r. rev_task r = tid) (prune_revisions n tid rs) = rev (take n (rev ?L))"
    unfolding keep kept by simp
  show "filter (\<lambda>r. rev_task r \<noteq> tid) (prune_revisions n tid rs) = filter (\<lambda>r. rev_task r \<noteq> tid) rs"
    unfolding pr filter_filter by (rule filter_cong) auto
qed

text \<open>
  The prompt history is a bounded stack: recording a revision puts the replaced version on top
  of the task's history, drops what lies below the twentieth entry, and leaves the histories of all
  other tasks as they were; identifiers stay increasing, so this keeps holding.
\<close>

theorem prompt_history_bounded:
  assumes "rev_inv d" "d' = add_prompt_revision d tid u prompt by_whom reason now"
  shows "rev_inv d' \<and>
    rev (filter (\<lambda>r. rev_task r = tid) (revisions d')) =
      take PROMPT_REVISIONS_KEEP (\<lparr>rev_id = rev_seq d, rev_task = tid, rev_user = u, rev_prompt = prompt,
        rev_by = by_whom, rev_reason = reason, rev_created = now\<rparr> # rev (filter (\<lambda>r. rev_task r = tid) (revisions d))) \<and>
    filter (\<lambda>r. rev_task r \<noteq> tid) (revisions d') = filter (\<lambda>r. rev_task r \<noteq> tid) (revisions d)"
proof -
  let ?new = "\<lparr>rev_id = rev_seq d, rev_task = tid, rev_user = u, rev_prompt = prompt,
        rev_by = by_whom, rev_reason = reason, rev_created = now\<rparr>"
  have s: "sorted_wrt (<) (map rev_id (revisions d @ [?new]))"
    using assms(1) by (auto simp: rev_inv_def sorted_wrt_append)
  have r': "revisions d' = prune_revisions PROMPT_REVISIONS_KEEP tid (revisions d @ [?new])" "rev_seq d' = Suc (rev_seq d)"
    using assms(2) by (simp_all add: add_prompt_revision_def)
  have "sorted_wrt (<) (map rev_id (revisions d'))"
    unfolding r' prune_revisions_def Let_def using s by (rule sorted_key_filter)
  moreover have "\<forall>r\<in>set (revisions d'). rev_id r < rev_seq d'"
    using assms(1) unfolding r' by (auto simp: prune_revisions_def rev_inv_def less_SucI Let_def)
  ultimately show ?thesis
    using prune_revisions_mine [OF s, of tid PROMPT_REVISIONS_KEEP] by (simp add: rev_inv_def r')
qed

theorem prompt_history_bounded_witness:
  "rev_inv (add_prompt_revision empty_db ''t'' ''u'' ''old'' ''user'' [] 3)"
  using prompt_history_bounded [OF _ refl, of empty_db "''t''" "''u''" "''old''" "''user''" "[]" 3]
  by (simp add: rev_inv_def empty_db_def)

end
