(* ===== verification/Scheduler.thy ===== *)
theory Scheduler
  imports Task_Store
begin

text \<open>
  \<open>agent/tasks/scheduler.py\<close>: the tick that turns due tasks into queued runs. \<open>now\<close> is the injected
  clock of the tick, \<open>clk\<close> the time that the store writes, \<open>newid\<close> the fresh run identifier for a
  task. The best-effort notification is the list of runs it is asked for. An exception of the store
  inside \<open>handle\<close> is the result \<open>None\<close>; the tick steps over it.
\<close>

section \<open>The tick\<close>

definition TICK_SECONDS :: int where
  "TICK_SECONDS = 15"

definition MISSED_AFTER_SECONDS :: int where
  "MISSED_AFTER_SECONDS = TICK_SECONDS * 4"

definition trigger_of :: "task \<Rightarrow> run_trigger" where
  "trigger_of t = (case t_trigger t of Cron \<Rightarrow> ByCron | Interval \<Rightarrow> ByInterval | WebhookOnly \<Rightarrow> ByHand)"

definition next_fire :: "next_fn \<Rightarrow> task \<Rightarrow> int \<Rightarrow> cron_error + int" where
  "next_fire nxt t now = (case t_trigger t of
     Cron \<Rightarrow> nxt (t_cron t) now
   | Interval \<Rightarrow> if t_interval t \<le> 0 then Inl (ValueError ''interval_seconds must be positive'')
                 else Inr (now + t_interval t)
   | WebhookOnly \<Rightarrow> Inl (ValueError (''trigger_type '' @ repr_str ''webhook_only'' @ '' is not schedulable'')))"

type_synonym outcome = "nat option \<times> db \<times> string list"

definition history :: "db \<Rightarrow> string \<Rightarrow> int \<Rightarrow> task \<Rightarrow> run_status \<Rightarrow> string \<Rightarrow> (db \<times> string list) option" where
  "history d rid clk t status err = (case create_run d rid clk (t_id t) (t_user t) (trigger_of t) of
     Inl _ \<Rightarrow> None
   | Inr (x, d1) \<Rightarrow> Some (finish_run d1 rid clk status [] err None, [rid]))"

definition disable :: "db \<Rightarrow> string \<Rightarrow> int \<Rightarrow> task \<Rightarrow> string \<Rightarrow> outcome" where
  "disable d rid clk t reason =
     (let d1 = update_where (\<lambda>x. t_id x = t_id t) (\<lambda>x. x\<lparr>t_enabled := False, t_next := 0, t_updated := clk\<rparr>) d
      in case history d1 rid clk t Failed reason of
           None \<Rightarrow> (None, d1, [])
         | Some (d2, sent) \<Rightarrow> (Some 0, d2, sent))"

definition has_active_run :: "db \<Rightarrow> string \<Rightarrow> bool" where
  "has_active_run d tid \<longleftrightarrow> (\<exists>r\<in>set (runs d). run_task r = tid \<and> active r)"

definition handle :: "next_fn \<Rightarrow> db \<Rightarrow> int \<Rightarrow> int \<Rightarrow> string \<Rightarrow> task \<Rightarrow> outcome" where
  "handle nxt d now clk rid t = (case next_fire nxt t now of
     Inl e \<Rightarrow> disable d rid clk t (''invalid schedule: '' @ error_text e)
   | Inr next_at \<Rightarrow>
       if now - t_next t > MISSED_AFTER_SECONDS \<and> t_catchup t = CatchupSkip
         then (Some 0, set_next_run d (t_id t) next_at clk, [])
       else if t_overlap t = OverlapSkip \<and> has_active_run d (t_id t) then
         (case history d rid clk t Skipped ''previous run still queued or running (overlap_policy=skip)'' of
            None \<Rightarrow> (None, d, [])
          | Some (d1, sent) \<Rightarrow> (Some 0, set_next_run d1 (t_id t) next_at clk, sent))
       else (case create_run d rid clk (t_id t) (t_user t) (trigger_of t) of
            Inl _ \<Rightarrow> (None, d, [])
          | Inr (x, d1) \<Rightarrow>
              (Some 1, update_where (\<lambda>x. t_id x = t_id t) (\<lambda>x. x\<lparr>t_last := now\<rparr>)
                 (set_next_run d1 (t_id t) next_at clk), [])))"

text \<open>The loop over the due rows, which were read once at the start.\<close>

fun tick_loop :: "next_fn \<Rightarrow> int \<Rightarrow> int \<Rightarrow> (string \<Rightarrow> string) \<Rightarrow> db \<Rightarrow> task list \<Rightarrow> nat \<times> db \<times> string list" where
  "tick_loop nxt now clk newid d [] = (0, d, [])"
| "tick_loop nxt now clk newid d (t # ts) =
     (let (n, d1, sent) = handle nxt d now clk (newid (t_id t)) t;
          (m, d2, sent2) = tick_loop nxt now clk newid d1 ts
      in ((case n of None \<Rightarrow> 0 | Some k \<Rightarrow> k) + m, d2, sent @ sent2))"

definition tick_once :: "next_fn \<Rightarrow> db \<Rightarrow> int \<Rightarrow> int \<Rightarrow> (string \<Rightarrow> string) \<Rightarrow> nat \<times> db \<times> string list" where
  "tick_once nxt d now clk newid = tick_loop nxt now clk newid d (due_tasks d now)"

section \<open>What one task's turn does\<close>

definition is_due :: "int \<Rightarrow> task \<Rightarrow> bool" where
  "is_due now t \<longleftrightarrow> t_enabled t \<and> t_next t > 0 \<and> t_next t \<le> now"

lemma due_tasks_set: "set (due_tasks d now) = {t \<in> set (tasks d). is_due now t}"
  by (auto simp: due_tasks_def is_due_def)

lemma create_run_eq:
  "rid \<notin> run_id ` set (runs d) \<Longrightarrow>
   create_run d rid clk tid u tr = Inr (rid, d\<lparr>runs := runs d @ [new_run rid tid u [] tr [] [] clk]\<rparr>)"
  by (force simp: create_run_def add_run_def new_run_def)

lemma finish_new_run:
  assumes "rid \<notin> run_id ` set (runs d)"
  shows "finish_run (d\<lparr>runs := runs d @ [new_run rid tid u [] tr [] [] clk]\<rparr>) rid clk st [] err None =
    d\<lparr>runs := runs d @ [(new_run rid tid u [] tr [] [] clk)\<lparr>run_status_of := st, run_error := err, run_finished := clk\<rparr>]\<rparr>"
proof -
  have "map (\<lambda>r. if run_id r = rid then f r else r) (runs d) = runs d" for f
    using assms by (intro map_idI) force
  then show ?thesis by (simp add: finish_run_def update_runs_def new_run_def)
qed

definition done_run :: "string \<Rightarrow> int \<Rightarrow> task \<Rightarrow> run_status \<Rightarrow> string \<Rightarrow> run" where
  "done_run rid clk t st err = (new_run rid (t_id t) (t_user t) [] (trigger_of t) [] [] clk)
     \<lparr>run_status_of := st, run_error := err, run_finished := clk\<rparr>"

lemma history_eq:
  "rid \<notin> run_id ` set (runs d) \<Longrightarrow>
   history d rid clk t st err = Some (d\<lparr>runs := runs d @ [done_run rid clk t st err]\<rparr>, [rid])"
  by (simp add: history_def create_run_eq finish_new_run done_run_def)

text \<open>The row a turn adds to the run history, if any.\<close>

definition turn_run :: "next_fn \<Rightarrow> db \<Rightarrow> int \<Rightarrow> int \<Rightarrow> string \<Rightarrow> task \<Rightarrow> run option" where
  "turn_run nxt d now clk rid t =
     (case next_fire nxt t now of
        Inl e \<Rightarrow> Some (done_run rid clk t Failed (''invalid schedule: '' @ error_text e))
      | Inr _ \<Rightarrow>
          if now - t_next t > MISSED_AFTER_SECONDS \<and> t_catchup t = CatchupSkip then None
          else if t_overlap t = OverlapSkip \<and> has_active_run d (t_id t)
            then Some (done_run rid clk t Skipped ''previous run still queued or running (overlap_policy=skip)'')
          else Some (new_run rid (t_id t) (t_user t) [] (trigger_of t) [] [] clk))"

text \<open>What it does to the task's own row.\<close>

definition turn_task :: "next_fn \<Rightarrow> db \<Rightarrow> int \<Rightarrow> int \<Rightarrow> task \<Rightarrow> task \<Rightarrow> task" where
  "turn_task nxt d now clk t x = (case next_fire nxt t now of
     Inl e \<Rightarrow> x\<lparr>t_enabled := False, t_next := 0, t_updated := clk\<rparr>
   | Inr n \<Rightarrow>
       if (now - t_next t > MISSED_AFTER_SECONDS \<and> t_catchup t = CatchupSkip) \<or>
          (t_overlap t = OverlapSkip \<and> has_active_run d (t_id t))
       then x\<lparr>t_next := n, t_updated := clk\<rparr> else x\<lparr>t_next := n, t_updated := clk, t_last := now\<rparr>)"

definition turn_db :: "next_fn \<Rightarrow> db \<Rightarrow> int \<Rightarrow> int \<Rightarrow> string \<Rightarrow> task \<Rightarrow> db" where
  "turn_db nxt d now clk rid t =
    d\<lparr>tasks := map (\<lambda>x. if t_id x = t_id t then turn_task nxt d now clk t x else x) (tasks d),
      runs := runs d @ (case turn_run nxt d now clk rid t of None \<Rightarrow> [] | Some r \<Rightarrow> [r])\<rparr>"

lemma run_status_new [simp]:
  "run_status_of (new_run rid tid u sid tr rf msg clk) = Queued"
  "run_status_of (done_run rid clk t st err) = st"
  by (simp_all add: new_run_def done_run_def)

lemma map_if_twice:
  "map (\<lambda>x. if P x then g x else x) (map (\<lambda>x. if P x then f x else x) xs) = map (\<lambda>x. if P x then g (f x) else x) xs"
  if "\<And>x. P (f x) = P x"
  using that by auto

lemma handle_turn:
  assumes "rid \<notin> run_id ` set (runs d)"
  shows "fst (snd (handle nxt d now clk rid t)) = turn_db nxt d now clk rid t \<and>
    fst (handle nxt d now clk rid t) =
      Some (case turn_run nxt d now clk rid t of Some r \<Rightarrow> if run_status_of r = Queued then 1 else 0 | None \<Rightarrow> 0)"
proof (cases "next_fire nxt t now")
  case (Inl e)
  let ?d = "update_where (\<lambda>x. t_id x = t_id t) (\<lambda>x. x\<lparr>t_enabled := False, t_next := 0, t_updated := clk\<rparr>) d"
  let ?r = "done_run rid clk t Failed (''invalid schedule: '' @ error_text e)"
  have "rid \<notin> run_id ` set (runs ?d)" using assms by simp
  then have h: "history ?d rid clk t Failed (''invalid schedule: '' @ error_text e) =
      Some (?d\<lparr>runs := runs ?d @ [?r]\<rparr>, [rid])" by (rule history_eq)
  have "handle nxt d now clk rid t = (Some 0, ?d\<lparr>runs := runs ?d @ [?r]\<rparr>, [rid])"
    using Inl by (simp only: handle_def disable_def Let_def h sum.case option.case prod.case)
  moreover have "turn_run nxt d now clk rid t = Some ?r" using Inl by (simp only: turn_run_def sum.case)
  moreover have "turn_task nxt d now clk t = (\<lambda>x. x\<lparr>t_enabled := False, t_next := 0, t_updated := clk\<rparr>)"
    using Inl by (intro ext) (simp add: turn_task_def)
  ultimately show ?thesis unfolding turn_db_def by (simp add: update_where_def)
next
  case (Inr n)
  consider (missed) "now - t_next t > MISSED_AFTER_SECONDS \<and> t_catchup t = CatchupSkip"
    | (overlap) "\<not> (now - t_next t > MISSED_AFTER_SECONDS \<and> t_catchup t = CatchupSkip)"
        "t_overlap t = OverlapSkip \<and> has_active_run d (t_id t)"
    | (go) "\<not> (now - t_next t > MISSED_AFTER_SECONDS \<and> t_catchup t = CatchupSkip)"
        "\<not> (t_overlap t = OverlapSkip \<and> has_active_run d (t_id t))" by blast
  then show ?thesis
  proof cases
    case missed
    then have "handle nxt d now clk rid t = (Some 0, set_next_run d (t_id t) n clk, [])"
      using Inr by (simp add: handle_def)
    then show ?thesis using missed Inr
      by (simp add: turn_db_def turn_task_def turn_run_def set_next_run_def update_where_def)
  next
    case overlap
    then have "handle nxt d now clk rid t =
        (Some 0, set_next_run (d\<lparr>runs := runs d @ [done_run rid clk t Skipped
           ''previous run still queued or running (overlap_policy=skip)'']\<rparr>) (t_id t) n clk, [rid])"
      using Inr assms unfolding handle_def by (simp add: history_eq del: not_less)
    then show ?thesis using overlap Inr
      by (simp add: turn_db_def turn_task_def turn_run_def set_next_run_def update_where_def del: not_less)
  next
    case go
    then have "handle nxt d now clk rid t =
        (Some 1, update_where (\<lambda>x. t_id x = t_id t) (\<lambda>x. x\<lparr>t_last := now\<rparr>)
           (set_next_run (d\<lparr>runs := runs d @ [new_run rid (t_id t) (t_user t) [] (trigger_of t) [] [] clk]\<rparr>) (t_id t) n clk), [])"
      using Inr assms unfolding handle_def by (auto simp add: create_run_eq simp del: not_less)
    moreover have "turn_task nxt d now clk t = (\<lambda>x. x\<lparr>t_next := n, t_updated := clk, t_last := now\<rparr>)"
      using go Inr unfolding turn_task_def by (intro ext) (auto simp del: not_less)
    moreover have "turn_run nxt d now clk rid t = Some (new_run rid (t_id t) (t_user t) [] (trigger_of t) [] [] clk)"
      using go Inr unfolding turn_run_def by (auto simp del: not_less)
    ultimately show ?thesis
      by (simp add: turn_db_def set_next_run_def update_where_def map_if_twice)
  qed
qed

section \<open>A whole tick\<close>

text \<open>What the scheduler needs from the search for the next time: it lies in the future.\<close>

locale forward_clock =
  fixes nxt :: next_fn
  assumes forward: "nxt expr now = Inr t \<Longrightarrow> now < t"
begin

lemma next_fire_forward: "next_fire nxt t now = Inr n \<Longrightarrow> now < n"
  by (auto simp: next_fire_def split: trigger_type.splits if_splits dest: forward)

text \<open>After its turn a task is not due any more.\<close>

lemma turn_not_due: "\<not> is_due now (turn_task nxt d now clk t x)"
  using next_fire_forward [of t now]
  by (auto simp: turn_task_def is_due_def split: sum.splits if_splits)

end

lemma turn_task_id: "t_id (turn_task nxt d now clk t x) = t_id x"
  by (auto simp: turn_task_def split: sum.splits)

lemma turn_run_id: "turn_run nxt d now clk rid t = Some r \<Longrightarrow> run_id r = rid \<and> run_task r = t_id t"
  by (auto simp: turn_run_def new_run_def done_run_def split: sum.splits if_splits)

text \<open>New identifiers: none in use, and different tasks get different ones.\<close>

definition fresh_ids :: "(string \<Rightarrow> string) \<Rightarrow> db \<Rightarrow> task list \<Rightarrow> bool" where
  "fresh_ids newid d ts \<longleftrightarrow> distinct (map (newid \<circ> t_id) ts) \<and>
     (\<forall>t\<in>set ts. newid (t_id t) \<notin> run_id ` set (runs d))"

lemma turn_db_run_ids:
  "run_id ` set (runs (turn_db nxt d now clk rid t)) \<subseteq> insert rid (run_id ` set (runs d))"
  using turn_run_id [of nxt d now clk rid t]
  by (cases "turn_run nxt d now clk rid t") (simp_all add: turn_db_def subset_insertI)

lemma fresh_ids_turn:
  assumes "fresh_ids newid d (t # ts)"
  shows "newid (t_id t) \<notin> run_id ` set (runs d)"
    "fresh_ids newid (turn_db nxt d now clk (newid (t_id t)) t) ts"
proof -
  show f: "newid (t_id t) \<notin> run_id ` set (runs d)" using assms by (simp add: fresh_ids_def)
  show "fresh_ids newid (turn_db nxt d now clk (newid (t_id t)) t) ts"
    unfolding fresh_ids_def
  proof (intro conjI ballI notI)
    show "distinct (map (newid \<circ> t_id) ts)" using assms by (simp add: fresh_ids_def)
    fix x
    assume x: "x \<in> set ts"
      and bad: "newid (t_id x) \<in> run_id ` set (runs (turn_db nxt d now clk (newid (t_id t)) t))"
    have "(newid \<circ> t_id) x \<in> (newid \<circ> t_id) ` set ts" using x by (rule imageI)
    then have "newid (t_id x) \<noteq> newid (t_id t)" using assms unfolding fresh_ids_def by (metis comp_apply distinct.simps(2) list.set_map list.simps(9))
    then have "newid (t_id x) \<in> run_id ` set (runs d)" using bad turn_db_run_ids by blast
    then show False using assms x by (simp add: fresh_ids_def)
  qed
qed

lemma tick_loop_Cons:
  assumes "fresh_ids newid d (t # ts)"
  shows "fst (snd (tick_loop nxt now clk newid d (t # ts))) =
    fst (snd (tick_loop nxt now clk newid (turn_db nxt d now clk (newid (t_id t)) t) ts))"
  using handle_turn [OF fresh_ids_turn(1) [OF assms], of nxt now clk t]
  by (auto simp: Let_def split: prod.splits)

lemma tick_loop_others:
  "fresh_ids newid d ts \<Longrightarrow> x \<in> set (tasks (fst (snd (tick_loop nxt now clk newid d ts)))) \<Longrightarrow>
   t_id x \<notin> t_id ` set ts \<Longrightarrow> x \<in> set (tasks d)"
proof (induction ts arbitrary: d)
  case (Cons t ts)
  let ?d = "turn_db nxt d now clk (newid (t_id t)) t"
  have "x \<in> set (tasks (fst (snd (tick_loop nxt now clk newid ?d ts))))"
    using Cons.prems(2) tick_loop_Cons [OF Cons.prems(1), of nxt now clk] by simp
  then have "x \<in> set (tasks ?d)" using Cons.IH [OF fresh_ids_turn(2) [OF Cons.prems(1)]] Cons.prems(3) by simp
  then obtain y where y: "y \<in> set (tasks d)" "x = (if t_id y = t_id t then turn_task nxt d now clk t y else y)"
    by (auto simp: turn_db_def)
  then have "t_id x = t_id y" using turn_task_id by metis
  then have "t_id y \<noteq> t_id t" using Cons.prems(3) by auto
  with y show ?case by simp
qed simp

context forward_clock
begin

lemma tick_loop_not_due:
  "fresh_ids newid d ts \<Longrightarrow> x \<in> set (tasks (fst (snd (tick_loop nxt now clk newid d ts)))) \<Longrightarrow>
   t_id x \<in> t_id ` set ts \<Longrightarrow> \<not> is_due now x"
proof (induction ts arbitrary: d)
  case (Cons t ts)
  let ?d = "turn_db nxt d now clk (newid (t_id t)) t"
  have f: "fresh_ids newid ?d ts" using Cons.prems(1) by (rule fresh_ids_turn(2))
  have x: "x \<in> set (tasks (fst (snd (tick_loop nxt now clk newid ?d ts))))"
    using Cons.prems(2) tick_loop_Cons [OF Cons.prems(1), of nxt now clk] by simp
  show ?case
  proof (cases "t_id x \<in> t_id ` set ts")
    case True
    with Cons.IH [OF f x] show ?thesis by simp
  next
    case False
    then have "x \<in> set (tasks ?d)" using tick_loop_others [OF f x] by simp
    then obtain y where y: "y \<in> set (tasks d)" "x = (if t_id y = t_id t then turn_task nxt d now clk t y else y)"
      by (auto simp: turn_db_def)
    moreover have "t_id x = t_id t" using False Cons.prems(3) by auto
    ultimately have "x = turn_task nxt d now clk t y" using turn_task_id by metis
    with turn_not_due show ?thesis by simp
  qed
qed simp

lemma tick_not_due:
  assumes "fresh_ids newid d (due_tasks d now)" "x \<in> set (tasks (fst (snd (tick_once nxt d now clk newid))))"
  shows "\<not> is_due now x"
proof (cases "t_id x \<in> t_id ` set (due_tasks d now)")
  case True
  with tick_loop_not_due [OF assms(1)] assms(2) show ?thesis by (simp add: tick_once_def)
next
  case False
  have "x \<in> set (tasks d)" using tick_loop_others [OF assms(1) _ False] assms(2) by (simp add: tick_once_def)
  moreover have "x \<notin> set (due_tasks d now)" using False by blast
  ultimately show ?thesis by (simp add: due_tasks_set)
qed

end

section \<open>Overlaps\<close>

definition active_runs :: "db \<Rightarrow> string \<Rightarrow> run list" where
  "active_runs d tid = filter (\<lambda>r. run_task r = tid \<and> active r) (runs d)"

text \<open>A turn adds an active run only when the policy allows it.\<close>

lemma turn_overlap:
  assumes "t_overlap t = OverlapSkip" "length (active_runs d (t_id t)) \<le> 1"
  shows "length (active_runs (turn_db nxt d now clk rid t) (t_id t)) \<le> 1"
proof -
  have none: "active_runs d (t_id t) = []" if "\<not> has_active_run d (t_id t)"
    using that by (auto simp: active_runs_def has_active_run_def filter_empty_conv)
  have nd: "\<not> active (done_run rid clk t Failed e)" "\<not> active (done_run rid clk t Skipped e)" for e
    by (simp_all add: active_def)
  show ?thesis
    using assms none nd
    by (auto simp: turn_db_def turn_run_def active_runs_def split: sum.splits option.splits if_splits)
qed

lemma turn_overlap_other:
  "tid \<noteq> t_id t \<Longrightarrow> active_runs (turn_db nxt d now clk rid t) tid = active_runs d tid"
  using turn_run_id [of nxt d now clk rid t] by (auto simp: turn_db_def active_runs_def split: option.splits)

lemma tick_loop_overlap:
  "fresh_ids newid d ts \<Longrightarrow> \<forall>t\<in>set ts. t_id t = tid \<longrightarrow> t_overlap t = OverlapSkip \<Longrightarrow>
   length (active_runs d tid) \<le> 1 \<Longrightarrow>
   length (active_runs (fst (snd (tick_loop nxt now clk newid d ts))) tid) \<le> 1"
proof (induction ts arbitrary: d)
  case (Cons t ts)
  let ?d = "turn_db nxt d now clk (newid (t_id t)) t"
  have "length (active_runs ?d tid) \<le> 1"
  proof (cases "t_id t = tid")
    case True
    with Cons.prems turn_overlap [of t d] show ?thesis by simp
  next
    case False
    with Cons.prems(3) turn_overlap_other [of tid t] show ?thesis by simp
  qed
  with Cons.IH [OF fresh_ids_turn(2) [OF Cons.prems(1)]] Cons.prems(2) tick_loop_Cons [OF Cons.prems(1)]
  show ?case by simp
qed simp

section \<open>The clock of the box\<close>

definition fixed_next :: "int \<Rightarrow> next_fn" where
  "fixed_next off expr now = (case next_after (fixed_from off) (fixed_to off) expr now of
     Some r \<Rightarrow> r | None \<Rightarrow> Inl (ValueError []))"

interpretation box_clock: forward_clock "fixed_next off" for off
proof
  fix expr now t
  assume t: "fixed_next off expr now = Inr t"
  show "now < t"
  proof (cases "cron_of expr")
    case (Inl e)
    with t show ?thesis by (simp add: fixed_next_def next_after_def)
  next
    case (Inr c)
    with fixed.next_after_least [of expr c off now] t show ?thesis
      by (auto simp: fixed_next_def)
  qed
qed

section \<open>Properties\<close>


definition demo_db :: db where
  "demo_db = empty_db\<lparr>tasks :=
     [(default_task ''t1'' ''w1'' ''u'' ''n'' ''p'' Cron 0)\<lparr>t_cron := ''*/5 * * * *'', t_next := 60\<rparr>,
      (default_task ''t2'' ''w2'' ''u'' ''n'' ''p'' Interval 0)\<lparr>t_next := 60\<rparr>]\<rparr>"


text \<open>
  No pile-up: a task whose overlap policy is to skip, and that has at most one queued or running
  run before a tick, has at most one after it, however often it was due.
\<close>

theorem tick_no_overlap:
  assumes "fresh_ids newid d (due_tasks d now)"
    and "\<forall>t\<in>set (tasks d). t_id t = tid \<longrightarrow> t_overlap t = OverlapSkip"
    and "length (active_runs d tid) \<le> 1"
  shows "length (active_runs (fst (snd (tick_once nxt d now clk newid))) tid) \<le> 1"
  unfolding tick_once_def using assms due_tasks_set by (intro tick_loop_overlap) auto

theorem tick_no_overlap_witness:
  "length (active_runs (fst (snd (tick_once (fixed_next 0) demo_db 100 100 (\<lambda>t. t @ ''-run'')))) ''t1'') \<le> 1"
proof -
  have "distinct (map ((\<lambda>t. t @ ''-run'') \<circ> t_id) (due_tasks demo_db 100))" by code_simp
  moreover have e: "runs demo_db = []" by (simp add: demo_db_def empty_db_def)
  ultimately have "fresh_ids (\<lambda>t. t @ ''-run'') demo_db (due_tasks demo_db 100)" by (simp add: fresh_ids_def)
  then show ?thesis
    by (rule tick_no_overlap) (simp_all add: e active_runs_def, simp add: demo_db_def empty_db_def default_task_def)
qed

text \<open>
  One task's turn, on every branch: a schedule that cannot fire disables the task and records one
  failed run; a missed window with the skip policy only reschedules; an overlap records one skipped
  run and reschedules; otherwise exactly one queued run of the task's own trigger is added, the task
  is rescheduled and its last run is stamped. Other tasks' rows are not touched.
\<close>

theorem turn_is_complete:
  assumes "rid \<notin> run_id ` set (runs d)"
  shows "fst (snd (handle nxt d now clk rid t)) =
    d\<lparr>tasks := map (\<lambda>x. if t_id x = t_id t then turn_task nxt d now clk t x else x) (tasks d),
      runs := runs d @ (case turn_run nxt d now clk rid t of None \<Rightarrow> [] | Some r \<Rightarrow> [r])\<rparr> \<and>
    (fst (handle nxt d now clk rid t) = Some 1 \<longleftrightarrow>
       (\<exists>r. turn_run nxt d now clk rid t = Some r \<and> run_status_of r = Queued))"
  using handle_turn [OF assms, of nxt now clk t] by (auto simp: turn_db_def split: option.splits)

theorem turn_is_complete_witness:
  "fst (handle (fixed_next 0) demo_db 100 100 ''r1'' (hd (tasks demo_db))) = Some 1 \<and>
   (\<exists>r. turn_run (fixed_next 0) demo_db 100 100 ''r1'' (hd (tasks demo_db)) = Some r \<and> run_status_of r = Queued)"
proof -
  have "runs demo_db = []" by (simp add: demo_db_def empty_db_def)
  then have "''r1'' \<notin> run_id ` set (runs demo_db)" by simp
  from turn_is_complete [OF this, of "fixed_next 0" 100 100 "hd (tasks demo_db)"]
  have iff: "fst (handle (fixed_next 0) demo_db 100 100 ''r1'' (hd (tasks demo_db))) = Some 1 \<longleftrightarrow>
    (\<exists>r. turn_run (fixed_next 0) demo_db 100 100 ''r1'' (hd (tasks demo_db)) = Some r \<and> run_status_of r = Queued)" by blast
  have "fst (handle (fixed_next 0) demo_db 100 100 ''r1'' (hd (tasks demo_db))) = Some 1" by code_simp
  with iff show ?thesis by blast
qed

end
