(* ===== verification/Model_Windows.thy ===== *)
theory Model_Windows
  imports Py_Prelude
begin

text \<open>
  Per-model context windows (\<open>agent/model_windows.py\<close>) and the user settings that compaction reads
  (\<open>agent/memory_store.py\<close>). The table \<open>model_windows\<close> is an association list from model keys to
  rows; clock readings are arguments. Asking a provider over the network (\<open>fetch_window\<close>) is a
  parameter of \<open>ensure_fetched\<close>: it returns a number or nothing.
\<close>

section \<open>User settings\<close>

text \<open>\<open>int(s)\<close> for any string: blanks around it, a sign, digits with single underscores between.\<close>

fun digit_groups :: "string \<Rightarrow> bool" where
  "digit_groups [] = False"
| "digit_groups [c] = ascii_digit c"
| "digit_groups (c # d # s) =
     (ascii_digit c \<and> (if d = CHR ''_'' then digit_groups s else digit_groups (d # s)))"

definition py_int_str :: "string \<Rightarrow> int option" where
  "py_int_str s = (let t = py_strip s;
      neg = startswith t ''-'';
      body = (if neg \<or> startswith t ''+'' then tl t else t) in
    if digit_groups body
    then Some ((if neg then - 1 else 1) * int_of_digits (filter (\<lambda>c. c \<noteq> CHR ''_'') body))
    else None)"

type_synonym settings = "((string \<times> string) \<times> pyval) list"

definition is_memory_enabled :: "settings \<Rightarrow> string \<Rightarrow> bool" where
  "is_memory_enabled st u = (case map_of st (u, ''memory_enabled'') of
     None \<Rightarrow> True | Some v \<Rightarrow> v \<noteq> PStr ''0'')"

definition is_compaction_enabled :: "settings \<Rightarrow> string \<Rightarrow> bool" where
  "is_compaction_enabled st u = (case map_of st (u, ''compaction_enabled'') of
     None \<Rightarrow> True
   | Some v \<Rightarrow> v = PNone \<or> v = PStr [] \<or> str_val v \<notin> set [''0'', ''false'', ''False''])"

definition get_context_window :: "settings \<Rightarrow> string \<Rightarrow> int option" where
  "get_context_window st u = (case map_of st (u, ''context_window'') of
     None \<Rightarrow> None
   | Some v \<Rightarrow> (case py_int_str (py_strip (str_val v)) of
        None \<Rightarrow> None | Some n \<Rightarrow> if n > 0 then Some n else None))"

definition get_bool_setting :: "settings \<Rightarrow> string \<Rightarrow> string \<Rightarrow> bool \<Rightarrow> bool" where
  "get_bool_setting st u key dflt = (case map_of st (u, key) of
     None \<Rightarrow> dflt
   | Some v \<Rightarrow> py_lower (py_strip (str_val v)) \<in> set [''1'', ''true'', ''yes''])"

section \<open>Model windows\<close>

definition MIN_CONTEXT_WINDOW :: int where
  "MIN_CONTEXT_WINDOW = 1024"

definition MAX_CONTEXT_WINDOW :: int where
  "MAX_CONTEXT_WINDOW = 2000000"

definition SOURCES :: "string list" where
  "SOURCES = [''manual'', ''fetched'', ''learned'']"

record mw_row =
  mw_window :: int
  mw_source :: string
  mw_updated :: int

type_synonym mw_table = "(string \<times> mw_row) list"

datatype mw_error = BadSource string | TooSmall int | TooLarge int

definition bare_name :: "string \<Rightarrow> string" where
  "bare_name model = (let name = py_strip model; low = py_lower name in
     if startswith low ''local:'' then drop 6 name
     else if startswith low ''cloud:'' then
       (let rest = drop 6 name in if CHR '':'' \<in> set rest then after_char CHR '':'' rest else rest)
     else name)"

definition model_key :: "string \<Rightarrow> string \<Rightarrow> string" where
  "model_key model provider = (let raw = py_strip model;
      local = (provider = ''ollama'' \<or> startswith (py_lower raw) ''local:'') in
    (if local then ''local:'' else ''cloud:'') @ py_lower (bare_name raw))"

definition upsert :: "int \<Rightarrow> mw_table \<Rightarrow> string \<Rightarrow> int \<Rightarrow> string \<Rightarrow> mw_error + mw_table" where
  "upsert now tbl key window source =
     (if source \<notin> set SOURCES then Inl (BadSource source)
      else if window < MIN_CONTEXT_WINDOW then Inl (TooSmall window)
      else if window > MAX_CONTEXT_WINDOW then Inl (TooLarge window)
      else let new = dput key \<lparr>mw_window = window, mw_source = source, mw_updated = now\<rparr> tbl in
        case map_of tbl key of
          None \<Rightarrow> Inr new
        | Some cur \<Rightarrow>
            if mw_source cur = ''manual'' \<and> source \<noteq> ''manual'' then Inr tbl
            else if source = ''learned'' \<and> mw_source cur = ''learned'' \<and> window \<ge> mw_window cur then Inr tbl
            else if source = ''learned'' \<and> mw_source cur = ''fetched'' \<and> window \<ge> mw_window cur then Inr tbl
            else Inr new)"

definition delete_manual :: "mw_table \<Rightarrow> string \<Rightarrow> mw_table" where
  "delete_manual tbl key = filter (\<lambda>(k, r). \<not> (k = key \<and> mw_source r = ''manual'')) tbl"

definition resolve_stored :: "mw_table \<Rightarrow> string \<Rightarrow> (int \<times> string) option" where
  "resolve_stored tbl key = map_option (\<lambda>r. (mw_window r, mw_source r)) (map_of tbl key)"

text \<open>The state is the table and \<open>_TRIED\<close>; a failure of \<open>upsert\<close> is swallowed.\<close>

definition ensure_fetched ::
    "int \<Rightarrow> int option \<Rightarrow> mw_table \<times> string list \<Rightarrow> string \<Rightarrow> string \<Rightarrow> mw_table \<times> string list" where
  "ensure_fetched now fetched st provider model = (let (tbl, tried) = st; key = model_key model provider in
     if key \<in> set tried then st
     else if map_of tbl key \<noteq> None then st
     else case fetched of
       None \<Rightarrow> (tbl, key # tried)
     | Some w \<Rightarrow>
         (if w \<noteq> 0 \<and> w \<ge> MIN_CONTEXT_WINDOW
          then (case upsert now tbl key w ''fetched'' of Inr tbl' \<Rightarrow> tbl' | Inl _ \<Rightarrow> tbl)
          else tbl, key # tried))"

definition learn :: "int \<Rightarrow> mw_table \<Rightarrow> string \<Rightarrow> int \<Rightarrow> mw_error + (int \<times> mw_table)" where
  "learn now tbl key window =
     (let cur = map_of tbl key in
      case cur of
        Some r \<Rightarrow>
          if mw_source r = ''manual'' then Inr (mw_window r, tbl)
          else let target = max (min window (mw_window r)) MIN_CONTEXT_WINDOW in
            (case upsert now tbl key target ''learned'' of Inl e \<Rightarrow> Inl e | Inr t \<Rightarrow> Inr (target, t))
      | None \<Rightarrow>
          let target = max window MIN_CONTEXT_WINDOW in
            (case upsert now tbl key target ''learned'' of Inl e \<Rightarrow> Inl e | Inr t \<Rightarrow> Inr (target, t)))"

section \<open>The table stays in order\<close>

definition row_ok :: "mw_row \<Rightarrow> bool" where
  "row_ok r \<longleftrightarrow> MIN_CONTEXT_WINDOW \<le> mw_window r \<and> mw_window r \<le> MAX_CONTEXT_WINDOW \<and> mw_source r \<in> set SOURCES"

definition mw_inv :: "mw_table \<Rightarrow> bool" where
  "mw_inv tbl \<longleftrightarrow> distinct (map fst tbl) \<and> (\<forall>k r. map_of tbl k = Some r \<longrightarrow> row_ok r)"

lemma upsert_row:
  assumes "upsert now tbl key window source = Inr tbl'"
  shows "tbl' = tbl \<or> (row_ok \<lparr>mw_window = window, mw_source = source, mw_updated = now\<rparr> \<and>
    tbl' = dput key \<lparr>mw_window = window, mw_source = source, mw_updated = now\<rparr> tbl)"
  using assms by (auto simp: upsert_def row_ok_def Let_def split: if_splits option.splits)

lemma upsert_inv: "mw_inv tbl \<Longrightarrow> upsert now tbl key window source = Inr tbl' \<Longrightarrow> mw_inv tbl'"
  using upsert_row [of now tbl key window source tbl'] by (auto simp: mw_inv_def split: if_splits)

inductive mw_reach :: "mw_table \<Rightarrow> bool" where
  empty: "mw_reach []"
| upsert: "mw_reach t \<Longrightarrow> upsert now t k w src = Inr t' \<Longrightarrow> mw_reach t'"
| delete: "mw_reach t \<Longrightarrow> mw_reach (delete_manual t k)"
| learn: "mw_reach t \<Longrightarrow> learn now t k w = Inr (v, t') \<Longrightarrow> mw_reach t'"
| fetch: "mw_reach t \<Longrightarrow> mw_reach (fst (ensure_fetched now f (t, tried) p m))"

lemma learn_upsert: "learn now t k w = Inr (v, t') \<Longrightarrow> t' = t \<or> (\<exists>x. upsert now t k x ''learned'' = Inr t')"
  by (auto simp: learn_def Let_def split: option.splits if_splits sum.splits)

lemma ensure_fetched_upsert:
  "fst (ensure_fetched now f (t, tried) p m) = t \<or>
   (\<exists>x. upsert now t (model_key m p) x ''fetched'' = Inr (fst (ensure_fetched now f (t, tried) p m)))"
  by (auto simp: ensure_fetched_def Let_def split: option.splits if_splits sum.splits)

lemma map_of_delete_manual:
  "distinct (map fst tbl) \<Longrightarrow> map_of (delete_manual tbl key) k =
     (case map_of tbl k of Some r \<Rightarrow> if k = key \<and> mw_source r = ''manual'' then None else Some r | None \<Rightarrow> None)"
proof (induction tbl)
  case (Cons x tbl)
  obtain k' r where x: "x = (k', r)" by fastforce
  have "map_of tbl k' = None" using Cons.prems x by (simp add: map_of_eq_None_iff)
  with Cons x show ?case by (auto simp: delete_manual_def split: option.splits if_splits)
qed (simp add: delete_manual_def)

lemma delete_manual_inv: "mw_inv tbl \<Longrightarrow> mw_inv (delete_manual tbl key)"
proof -
  assume inv: "mw_inv tbl"
  then have "distinct (map fst (delete_manual tbl key))"
    unfolding mw_inv_def delete_manual_def by (auto intro: distinct_map_filter)
  with inv show ?thesis by (auto simp: mw_inv_def map_of_delete_manual split: option.splits if_splits)
qed

lemma mw_reach_inv: "mw_reach t \<Longrightarrow> mw_inv t"
proof (induction rule: mw_reach.induct)
  case (upsert t now k w src t')
  then show ?case by (blast intro: upsert_inv)
next
  case (learn t now k w v t')
  with learn_upsert upsert_inv show ?case by blast
next
  case (fetch t now f tried p m)
  with ensure_fetched_upsert [of now f t tried p m] upsert_inv show ?case by metis
qed (auto simp: mw_inv_def [of "[]"] delete_manual_inv)

section \<open>Properties\<close>

text \<open>
  C40. Learning from a rejected request: in every reachable table, when \<open>learn\<close> returns, the number it
  returns is the window the table now holds for the model, it lies within the allowed bounds, it is not
  larger than what was stored before, a row set by a person is left alone, and other models keep theirs.
  It raises exactly when the model has no row yet and the reported window is above the ceiling.
\<close>

theorem learn_shrinks:
  assumes "mw_reach tbl"
  shows "case learn now tbl key window of
     Inl e \<Rightarrow> map_of tbl key = None \<and> window > MAX_CONTEXT_WINDOW
   | Inr (w, tbl') \<Rightarrow>
       (\<exists>src. resolve_stored tbl' key = Some (w, src)) \<and>
       MIN_CONTEXT_WINDOW \<le> w \<and> w \<le> MAX_CONTEXT_WINDOW \<and>
       (\<forall>r. map_of tbl key = Some r \<longrightarrow> w \<le> mw_window r \<and> (mw_source r = ''manual'' \<longrightarrow> tbl' = tbl)) \<and>
       (\<forall>k. k \<noteq> key \<longrightarrow> map_of tbl' k = map_of tbl k) \<and>
       (map_of tbl key = None \<longrightarrow> window \<le> MAX_CONTEXT_WINDOW)"
proof (cases "map_of tbl key")
  case None
  then show ?thesis
    by (auto simp: learn_def upsert_def Let_def SOURCES_def resolve_stored_def MIN_CONTEXT_WINDOW_def MAX_CONTEXT_WINDOW_def)
next
  case (Some r)
  with mw_reach_inv [OF assms] have r: "row_ok r" by (auto simp: mw_inv_def)
  show ?thesis
  proof (cases "mw_source r = ''manual''")
    case True
    with Some r show ?thesis by (auto simp: learn_def resolve_stored_def row_ok_def)
  next
    case False
    let ?t = "max (min window (mw_window r)) MIN_CONTEXT_WINDOW"
    have src: "mw_source r = ''fetched'' \<or> mw_source r = ''learned''" using r False by (auto simp: row_ok_def SOURCES_def)
    have t: "MIN_CONTEXT_WINDOW \<le> ?t" "?t \<le> mw_window r" "mw_window r \<le> MAX_CONTEXT_WINDOW" "?t \<le> MAX_CONTEXT_WINDOW"
      using r by (auto simp: row_ok_def)
    have l: "learn now tbl key window =
        Inr (?t, if ?t \<ge> mw_window r then tbl else dput key \<lparr>mw_window = ?t, mw_source = ''learned'', mw_updated = now\<rparr> tbl)"
      using Some False src t by (auto simp: learn_def upsert_def Let_def SOURCES_def)
    show ?thesis unfolding l using Some t False by (auto simp: resolve_stored_def)
  qed
qed

theorem learn_shrinks_witness:
  "learn 9 [(''cloud:m'', \<lparr>mw_window = 8192, mw_source = ''fetched'', mw_updated = 1\<rparr>)] ''cloud:m'' 4096 =
     Inr (4096, [(''cloud:m'', \<lparr>mw_window = 4096, mw_source = ''learned'', mw_updated = 9\<rparr>)]) \<and>
   (4096::int) \<le> MAX_CONTEXT_WINDOW"
proof -
  let ?t = "[(''cloud:m'', \<lparr>mw_window = 8192, mw_source = ''fetched'', mw_updated = 1\<rparr>)]"
  have "upsert 1 [] ''cloud:m'' 8192 ''fetched'' = Inr ?t" by code_simp
  then have reach: "mw_reach ?t" by (rule mw_reach.upsert [OF mw_reach.empty])
  have l: "learn 9 ?t ''cloud:m'' 4096 = Inr (4096, [(''cloud:m'', \<lparr>mw_window = 4096, mw_source = ''learned'', mw_updated = 9\<rparr>)])"
    by code_simp
  from learn_shrinks [OF reach, where now = 9 and key = "''cloud:m''" and window = 4096] show ?thesis unfolding l by simp
qed

end
