(* ===== verification/Py_Text.thy ===== *)
theory Py_Text
  imports Py_Prelude
begin

text \<open>
  Python text as lists of code points, where characters beyond 255 or their bytes matter: white space, the UTF-8
  codec with the \<open>replace\<close> error handler on reading, universal newlines, and the string methods the components
  use on it.
\<close>

section \<open>Text\<close>

type_synonym codes = "int list"

definition utext :: "string \<Rightarrow> codes" where
  "utext s = map of_char s"

definition u_isspace :: "int \<Rightarrow> bool" where
  "u_isspace n \<longleftrightarrow> 9 \<le> n \<and> n \<le> 13 \<or> 28 \<le> n \<and> n \<le> 32 \<or> n = 0x85 \<or> n = 0xA0 \<or> n = 0x1680 \<or>
     0x2000 \<le> n \<and> n \<le> 0x200A \<or> n \<in> set [0x2028, 0x2029, 0x202F, 0x205F, 0x3000]"

definition u_strip :: "codes \<Rightarrow> codes" where
  "u_strip t = rstrip_of u_isspace (lstrip_of u_isspace t)"

text \<open>The zeros of the decimal digit blocks of Unicode 14; \<open>\\d\<close> matches ten code points from each.\<close>

definition ND_ZEROS :: "int list" where
  "ND_ZEROS = [0x30, 0x660, 0x6f0, 0x7c0, 0x966, 0x9e6, 0xa66, 0xae6, 0xb66, 0xbe6, 0xc66, 0xce6, 0xd66, 0xde6,
     0xe50, 0xed0, 0xf20, 0x1040, 0x1090, 0x17e0, 0x1810, 0x1946, 0x19d0, 0x1a80, 0x1a90, 0x1b50, 0x1bb0, 0x1c40,
     0x1c50, 0xa620, 0xa8d0, 0xa900, 0xa9d0, 0xa9f0, 0xaa50, 0xabf0, 0xff10, 0x104a0, 0x10d30, 0x11066, 0x110f0,
     0x11136, 0x111d0, 0x112f0, 0x11450, 0x114d0, 0x11650, 0x116c0, 0x11730, 0x118e0, 0x11950, 0x11c50, 0x11d50,
     0x11da0, 0x16a60, 0x16ac0, 0x16b50, 0x1d7ce, 0x1d7d8, 0x1d7e2, 0x1d7ec, 0x1d7f6, 0x1e140, 0x1e2f0, 0x1e950,
     0x1fbf0]"

definition u_digit :: "int \<Rightarrow> bool" where
  "u_digit n \<longleftrightarrow> list_ex (\<lambda>z. z \<le> n \<and> n < z + 10) ND_ZEROS"

text \<open>\<open>pattern.search(text)\<close> for a test of what starts here.\<close>

fun re_search :: "(codes \<Rightarrow> bool) \<Rightarrow> codes \<Rightarrow> bool" where
  "re_search P [] = P []"
| "re_search P (c # cs) = (P (c # cs) \<or> re_search P cs)"

section \<open>UTF-8\<close>

definition scalar :: "int \<Rightarrow> bool" where
  "scalar n \<longleftrightarrow> 0 \<le> n \<and> n < 0xD800 \<or> 0xE000 \<le> n \<and> n < 0x110000"

definition enc1 :: "int \<Rightarrow> int list" where
  "enc1 n =
     (if n < 0x80 then [n]
      else if n < 0x800 then [0xC0 + n div 64, 0x80 + n mod 64]
      else if n < 0x10000 then [0xE0 + n div 4096, 0x80 + n div 64 mod 64, 0x80 + n mod 64]
      else [0xF0 + n div 262144, 0x80 + n div 4096 mod 64, 0x80 + n div 64 mod 64, 0x80 + n mod 64])"

text \<open>Encoding is strict: \<open>None\<close> is the exception a surrogate raises.\<close>

definition utf8_encode :: "codes \<Rightarrow> string option" where
  "utf8_encode t = (if list_all scalar t then Some (map char_of (concat (map enc1 t))) else None)"

text \<open>
  Decoding: what a lead byte wants, how many continuation bytes and in which range the first of them has to be. An
  ill-formed sequence becomes one replacement character for its longest well-formed start.
\<close>

definition second_range :: "int \<Rightarrow> (nat \<times> int \<times> int) option" where
  "second_range b =
     (if 0xC2 \<le> b \<and> b \<le> 0xDF then Some (1, 0x80, 0xBF)
      else if b = 0xE0 then Some (2, 0xA0, 0xBF)
      else if b = 0xED then Some (2, 0x80, 0x9F)
      else if 0xE1 \<le> b \<and> b \<le> 0xEF then Some (2, 0x80, 0xBF)
      else if b = 0xF0 then Some (3, 0x90, 0xBF)
      else if b = 0xF4 then Some (3, 0x80, 0x8F)
      else if 0xF1 \<le> b \<and> b \<le> 0xF3 then Some (3, 0x80, 0xBF)
      else None)"

text \<open>Up to so many bytes, the first in the given range and the others plain continuation bytes.\<close>

fun conts :: "nat \<Rightarrow> int \<Rightarrow> int \<Rightarrow> int list \<Rightarrow> int list" where
  "conts (Suc n) lo hi (b # bs) = (if lo \<le> b \<and> b \<le> hi then b # conts n 0x80 0xBF bs else [])"
| "conts _ _ _ _ = []"

definition lead_bits :: "nat \<Rightarrow> int \<Rightarrow> int" where
  "lead_bits n b = (if n = 1 then b - 0xC0 else if n = 2 then b - 0xE0 else b - 0xF0)"

definition decode_first :: "int \<Rightarrow> int list \<Rightarrow> int \<times> nat" where
  "decode_first b bs =
     (if b < 0x80 then (b, 0)
      else case second_range b of
        None \<Rightarrow> (0xFFFD, 0)
      | Some (n, lo, hi) \<Rightarrow>
          (let cs = conts n lo hi bs
           in if length cs = n then (foldl (\<lambda>a c. a * 64 + (c - 0x80)) (lead_bits n b) cs, n)
              else (0xFFFD, length cs)))"

function decode_bytes :: "int list \<Rightarrow> codes" where
  "decode_bytes [] = []"
| "decode_bytes (b # bs) = (case decode_first b bs of (c, k) \<Rightarrow> c # decode_bytes (drop k bs))"
  by pat_completeness auto
termination by (relation "measure length") auto

definition utf8_decode :: "string \<Rightarrow> codes" where
  "utf8_decode s = decode_bytes (map of_char s)"

lemma conts_append:
  "cs \<noteq> [] \<Longrightarrow> lo \<le> hd cs \<Longrightarrow> hd cs \<le> hi \<Longrightarrow> list_all (\<lambda>c. 0x80 \<le> c \<and> c \<le> 0xBF) (tl cs) \<Longrightarrow>
   conts (length cs) lo hi (cs @ bs) = cs"
proof (induction cs arbitrary: lo hi)
  case (Cons c cs)
  then show ?case by (cases cs) auto
qed simp

lemma decode_first_seq:
  assumes "0x80 \<le> b" "second_range b = Some (length cs, lo, hi)" "cs \<noteq> []" "lo \<le> hd cs" "hd cs \<le> hi"
    "list_all (\<lambda>c. 0x80 \<le> c \<and> c \<le> 0xBF) (tl cs)"
  shows "decode_bytes (b # cs @ bs) = foldl (\<lambda>a c. a * 64 + (c - 0x80)) (lead_bits (length cs) b) cs # decode_bytes bs"
  using assms conts_append [OF assms(3-6), of bs] by (simp add: decode_first_def)

lemma split64:
  fixes n :: int
  shows "n = 4096 * (n div 4096) + 64 * (n div 64 mod 64) + n mod 64" "0 \<le> n div 64 mod 64" "n div 64 mod 64 < 64"
    "0 \<le> n mod 64" "n mod 64 < 64"
proof -
  have "n div 64 = 64 * (n div 64 div 64) + n div 64 mod 64" "n = 64 * (n div 64) + n mod 64" by simp_all
  moreover have "n div 64 div 64 = n div 4096" using zdiv_zmult2_eq [of 64 n 64] by simp
  ultimately show "n = 4096 * (n div 4096) + 64 * (n div 64 mod 64) + n mod 64" by linarith
qed simp_all

lemma decode_enc1:
  assumes "scalar n"
  shows "decode_bytes (enc1 n @ bs) = n # decode_bytes bs"
proof -
  consider "n < 0x80" | "0x80 \<le> n" "n < 0x800" | "0x800 \<le> n" "n < 0x10000" | "0x10000 \<le> n" by linarith
  then show ?thesis
  proof cases
    case 1
    with assms show ?thesis by (simp add: enc1_def decode_first_def)
  next
    case 2
    have "second_range (0xC0 + n div 64) = Some (1, 0x80, 0xBF)" using 2 by (simp add: second_range_def) presburger
    with decode_first_seq [of "0xC0 + n div 64" "[0x80 + n mod 64]" "0x80" "0xBF" bs] 2 show ?thesis
      by (simp add: enc1_def lead_bits_def)
  next
    case 3
    define q r m where "q = n div 4096" "r = n div 64 mod 64" "m = n mod 64"
    note n = split64 [of n, folded q_r_m_def]
    have q: "0 \<le> q" "q \<le> 15" using 3 n by linarith+
    have lo: "q = 0 \<Longrightarrow> 32 \<le> r" using 3 n by linarith
    have hi: "q = 13 \<Longrightarrow> r < 32" using assms n unfolding scalar_def by linarith
    consider (a) "q = 0" | (b) "q = 13" | (c) "q \<noteq> 0" "q \<noteq> 13" by blast
    then have "\<exists>l h. second_range (0xE0 + q) = Some (2, l, h) \<and> l \<le> 0x80 + r \<and> 0x80 + r \<le> h"
    proof cases
      case c
      then show ?thesis using q n by (auto simp: second_range_def)
    qed (use lo hi n in \<open>auto simp: second_range_def\<close>)
    then obtain l h where sr: "second_range (0xE0 + q) = Some (2, l, h)" "l \<le> 0x80 + r" "0x80 + r \<le> h" by blast
    from 3 have "enc1 n = [0xE0 + q, 0x80 + r, 0x80 + m]" by (simp add: enc1_def q_r_m_def)
    moreover have "(q * 64 + r) * 64 + m = n" using n(1) by (simp add: algebra_simps)
    ultimately show ?thesis
      using decode_first_seq [of "0xE0 + q" "[0x80 + r, 0x80 + m]" l h bs] sr n q by (simp add: lead_bits_def)
  next
    case 4
    define p q r m where "p = n div 262144" "q = n div 4096 mod 64" "r = n div 64 mod 64" "m = n mod 64"
    note n = split64 [of n, folded p_q_r_m_def]
    have q: "n div 4096 = 64 * p + q" "0 \<le> q" "q < 64"
      using zdiv_zmult2_eq [of 64 n 4096] by (simp_all add: p_q_r_m_def)
    have p: "0 \<le> p" "p \<le> 4" using 4 n q assms unfolding scalar_def by linarith+
    have lo: "p = 0 \<Longrightarrow> 16 \<le> q" using 4 n q by linarith
    have hi: "p = 4 \<Longrightarrow> q < 16" using assms n q unfolding scalar_def by linarith
    consider (a) "p = 0" | (b) "p = 4" | (c) "p \<noteq> 0" "p \<noteq> 4" by blast
    then have "\<exists>l h. second_range (0xF0 + p) = Some (3, l, h) \<and> l \<le> 0x80 + q \<and> 0x80 + q \<le> h"
    proof cases
      case c
      then show ?thesis using p q by (auto simp: second_range_def)
    qed (use lo hi q in \<open>auto simp: second_range_def\<close>)
    then obtain l h where sr: "second_range (0xF0 + p) = Some (3, l, h)" "l \<le> 0x80 + q" "0x80 + q \<le> h" by blast
    from 4 have "enc1 n = [0xF0 + p, 0x80 + q, 0x80 + r, 0x80 + m]" by (simp add: enc1_def p_q_r_m_def)
    moreover have "((p * 64 + q) * 64 + r) * 64 + m = n" using n(1) q(1) by (simp add: algebra_simps)
    ultimately show ?thesis
      using decode_first_seq [of "0xF0 + p" "[0x80 + q, 0x80 + r, 0x80 + m]" l h bs] sr n p by (simp add: lead_bits_def)
  qed
qed

lemma enc1_bytes: "scalar n \<Longrightarrow> b \<in> set (enc1 n) \<Longrightarrow> 0 \<le> b \<and> b < 256"
  by (auto simp: enc1_def scalar_def split: if_splits; presburger)

lemma of_char_of_byte: "0 \<le> b \<Longrightarrow> b < 256 \<Longrightarrow> of_char (char_of b :: char) = (b :: int)"
  by simp

theorem utf8_roundtrip: "utf8_encode t = Some s \<Longrightarrow> utf8_decode s = t"
proof -
  assume enc: "utf8_encode t = Some s"
  then have sc: "list_all scalar t" and s: "s = map char_of (concat (map enc1 t))"
    by (auto simp: utf8_encode_def split: if_splits)
  have "map of_char s = concat (map enc1 t)"
    unfolding s map_map comp_def using sc enc1_bytes
    by (intro map_idI of_char_of_byte) (auto simp: list_all_iff)
  moreover have "decode_bytes (concat (map enc1 t)) = t"
    using sc by (induction t) (simp_all add: decode_enc1)
  ultimately show ?thesis by (simp add: utf8_decode_def)
qed

section \<open>Lines\<close>

fun universal_newlines :: "codes \<Rightarrow> codes" where
  "universal_newlines [] = []"
| "universal_newlines (c # cs) =
     (if c = 13 then 10 # (if cs \<noteq> [] \<and> hd cs = 10 then universal_newlines (tl cs) else universal_newlines cs)
      else c # universal_newlines cs)"

text \<open>Reading a file in text mode, with \<open>errors="replace"\<close>.\<close>

definition read_text :: "string \<Rightarrow> codes" where
  "read_text b = universal_newlines (utf8_decode b)"

lemma universal_newlines_id: "13 \<notin> set t \<Longrightarrow> universal_newlines t = t"
  by (induction t) auto

lemma universal_newlines_no_cr: "13 \<notin> set (universal_newlines t)"
  by (induction t rule: universal_newlines.induct) auto

end
