(* ===== verification/Compaction.thy ===== *)
theory Compaction
  imports Model_Windows Py_Text
begin

text \<open>
  Single-session context compaction (\<open>agent/context_compaction.py\<close>): token estimates, turn
  boundaries, the rolling summary, and the plan the model keeps.

  A text that is estimated or sent is a list of code points, because the estimate depends on code
  points above 255; the strings inside a history item are the strings of \<^typ>\<open>pyval\<close>. The two
  products with a float constant (\<open>int(raw * 1.15)\<close>, \<open>int(0.7 * W)\<close>) are computed on the exact
  binary values of the constants, rounded to 53 bits half to even, as IEEE doubles are. The
  summarising model is a parameter; \<open>None\<close> stands for a failure, a timeout or no answer. Which
  database accesses raise is a parameter too.
\<close>

section \<open>Doubles\<close>

function bit_len :: "int \<Rightarrow> nat" where
  "bit_len n = (if n \<le> 0 then 0 else Suc (bit_len (n div 2)))"
  by pat_completeness auto
termination by (relation "measure nat") auto

declare bit_len.simps [simp del]

definition round_half_even :: "int \<Rightarrow> int \<Rightarrow> int" where
  "round_half_even n d = (let q = n div d; r = n mod d in
     if 2 * r < d then q else if 2 * r > d then q + 1 else if even q then q else q + 1)"

text \<open>The double nearest to a natural number.\<close>

definition to_double :: "int \<Rightarrow> int" where
  "to_double n = (let b = bit_len n in
     if b \<le> 53 then n else round_half_even n (2 ^ (b - 53)) * 2 ^ (b - 53))"

text \<open>\<open>int(n * c)\<close> for the double \<open>c = m / 2 ^ e\<close> and \<open>n \<ge> 0\<close>.\<close>

definition scale_double :: "int \<times> nat \<Rightarrow> int \<Rightarrow> int" where
  "scale_double c n = to_double (to_double n * fst c) div 2 ^ snd c"

section \<open>Token estimates\<close>

definition is_cjk :: "int \<Rightarrow> bool" where
  "is_cjk o' \<longleftrightarrow> 0x4E00 \<le> o' \<and> o' \<le> 0x9FFF \<or> 0x3400 \<le> o' \<and> o' \<le> 0x4DBF \<or>
     0x3040 \<le> o' \<and> o' \<le> 0x30FF \<or> 0xAC00 \<le> o' \<and> o' \<le> 0xD7AF"

text \<open>\<open>SAFETY_MARGIN = 1.15\<close> and \<open>THRESHOLD = 0.70\<close> as doubles.\<close>

definition SAFETY_MARGIN :: "int \<times> nat" where
  "SAFETY_MARGIN = (2589569785738035, 51)"

definition THRESHOLD :: "int \<times> nat" where
  "THRESHOLD = (3152519739159347, 52)"

definition estimate_tokens :: "codes \<Rightarrow> int" where
  "estimate_tokens t =
     (if t = [] then 0
      else let cjk = length (filter is_cjk t); other = length t - cjk; raw = cjk + (other + 3) div 4
        in scale_double SAFETY_MARGIN (int raw))"

text \<open>\<open>json.dumps(v, ensure_ascii=False)\<close>\<close>

definition json_char :: "char \<Rightarrow> string" where
  "json_char c = (let n = (of_char c :: nat) in
     if c = CHR 0x22 \<or> c = CHR 0x5C then [CHR 0x5C, c]
     else if n = 10 then [CHR 0x5C, CHR ''n''] else if n = 13 then [CHR 0x5C, CHR ''r'']
     else if n = 9 then [CHR 0x5C, CHR ''t''] else if n = 12 then [CHR 0x5C, CHR ''f'']
     else if n = 8 then [CHR 0x5C, CHR ''b'']
     else if n < 32 then [CHR 0x5C, CHR ''u'', CHR ''0'', CHR ''0'', hex_digit (n div 16), hex_digit (n mod 16)]
     else [c])"

definition json_str :: "string \<Rightarrow> string" where
  "json_str s = CHR 0x22 # concat (map json_char s) @ [CHR 0x22]"

fun json_dumps :: "pyval \<Rightarrow> string" where
  "json_dumps PNone = ''null''"
| "json_dumps (PBool b) = (if b then ''true'' else ''false'')"
| "json_dumps (PInt i) = str_of_int i"
| "json_dumps (PFloat s) = s"
| "json_dumps (PStr s) = json_str s"
| "json_dumps (PList xs) = ''['' @ join_with '', '' (map json_dumps xs) @ '']''"
| "json_dumps (PDict d) =
     ''{'' @ join_with '', '' (map (\<lambda>(k, v). json_str k @ '': '' @ json_dumps v) d) @ ''}''"

text \<open>\<open>m.get(k, e)\<close>\<close>

definition pget_or :: "(string \<times> pyval) list \<Rightarrow> string \<Rightarrow> pyval \<Rightarrow> pyval" where
  "pget_or d k e = (case map_of d k of None \<Rightarrow> e | Some v \<Rightarrow> v)"

definition block_text :: "pyval \<Rightarrow> string" where
  "block_text b = (case b of
     PDict d \<Rightarrow> str_val (py_or (pget d ''text'') (py_or (pget d ''content'') (PStr [])))
   | _ \<Rightarrow> str_val b)"

definition content_body :: "pyval \<Rightarrow> string" where
  "content_body content = (case content of
     PStr s \<Rightarrow> s
   | PList bs \<Rightarrow> join_with '' '' (filter (\<lambda>p. p \<noteq> []) (map block_text bs))
   | _ \<Rightarrow> str_val content)"

definition output_text :: "nat option \<Rightarrow> pyval \<Rightarrow> codes" where
  "output_text cap out =
     (let s = utext (case out of PStr s \<Rightarrow> s | PNone \<Rightarrow> [] | _ \<Rightarrow> json_dumps out) in
      case cap of
        Some n \<Rightarrow> if length s > n
          then take n s @ 0x2026 # utext (''[+'' @ str_of_nat (length s - n) @ '' chars]'') else s
      | None \<Rightarrow> s)"

definition reasoning_text :: "pyval \<Rightarrow> string" where
  "reasoning_text summ = (case summ of
     PList bs \<Rightarrow> join_with '' '' (List.map_filter
        (\<lambda>b. case b of PDict d \<Rightarrow> Some (str_val (pget_or d ''text'' (PStr []))) | _ \<Rightarrow> None) bs)
   | _ \<Rightarrow> str_val (py_or summ (PStr [])))"

definition message_text :: "nat option \<Rightarrow> pyval \<Rightarrow> codes" where
  "message_text cap m = (case m of
     PDict d \<Rightarrow>
       (let content = pget d ''content''; t = pget d ''type'' in
        if truthy content
          then utext (str_val (pget_or d ''role'' (PStr [])) @ '': '' @ content_body content)
        else if t = PStr ''function_call'' then
          utext (str_val (pget_or d ''name'' (PStr [])) @ '': '' @
                 str_val (py_or (pget_or d ''arguments'' (PStr [])) (PStr [])))
        else if t = PStr ''function_call_output'' then output_text cap (pget d ''output'')
        else if t = PStr ''reasoning'' then utext (reasoning_text (pget d ''summary''))
        else [])
   | _ \<Rightarrow> utext (str_val m))"

definition estimate_messages_tokens :: "pyval list \<Rightarrow> int" where
  "estimate_messages_tokens ms = sum_list (map (\<lambda>m. estimate_tokens (message_text None m)) ms)"

text \<open>
  A tool as far as the estimate reads it: its \<open>is_enabled\<close> attribute (a bool, a callback that raises,
  gives a bool or something else, or another value), and its specification; \<open>None\<close> for parameters
  that do not serialise.
\<close>

datatype enabled = Fixed bool | Raises | Gives bool | Odd

record tool =
  tl_enabled :: enabled
  tl_name :: pyval
  tl_desc :: pyval
  tl_params :: "pyval option"

definition tool_is_sent :: "tool \<Rightarrow> bool" where
  "tool_is_sent t = (case tl_enabled t of Fixed b \<Rightarrow> b | Gives b \<Rightarrow> b | Raises \<Rightarrow> True | Odd \<Rightarrow> True)"

definition TOOLS_BASE_OVERHEAD :: int where
  "TOOLS_BASE_OVERHEAD = 80"

definition tool_tokens :: "tool \<Rightarrow> int" where
  "tool_tokens t = (case tl_params t of
     None \<Rightarrow> 0
   | Some p \<Rightarrow> estimate_tokens (utext (json_dumps (PDict
       [(''name'', py_or (tl_name t) (PStr [])), (''description'', py_or (tl_desc t) (PStr [])),
        (''parameters'', py_or p (PDict []))]))))"

definition estimate_tools_tokens :: "tool list \<Rightarrow> int" where
  "estimate_tools_tokens tools = (let items = filter tool_is_sent tools in
     if items = [] then 0 else TOOLS_BASE_OVERHEAD + sum_list (map tool_tokens items))"

section \<open>The window\<close>

definition CLOUD_CONTEXT_WINDOW :: int where
  "CLOUD_CONTEXT_WINDOW = 131072"

definition LOCAL_CONTEXT_WINDOW :: int where
  "LOCAL_CONTEXT_WINDOW = 8192"

text \<open>\<open>None\<close> for the table of model windows: reading it raises.\<close>

definition resolve_window_with_source ::
    "settings \<Rightarrow> mw_table option \<Rightarrow> string \<Rightarrow> string \<Rightarrow> string \<Rightarrow> int \<times> string" where
  "resolve_window_with_source st mws u model provider = (case get_context_window st u of
     Some w \<Rightarrow> (w, ''user'')
   | None \<Rightarrow>
       (case Option.bind mws (\<lambda>tbl. resolve_stored tbl (model_key model provider)) of
          Some r \<Rightarrow> r
        | None \<Rightarrow>
            if provider = ''ollama'' \<or> startswith (py_lower model) ''local:''
            then (LOCAL_CONTEXT_WINDOW, ''default'') else (CLOUD_CONTEXT_WINDOW, ''default'')))"

definition resolve_window :: "settings \<Rightarrow> mw_table option \<Rightarrow> string \<Rightarrow> string \<Rightarrow> string \<Rightarrow> int" where
  "resolve_window st mws u model provider = fst (resolve_window_with_source st mws u model provider)"

section \<open>Boundaries\<close>

definition role_is :: "string \<Rightarrow> pyval \<Rightarrow> bool" where
  "role_is r m = (case m of PDict d \<Rightarrow> pget d ''role'' = PStr r | _ \<Rightarrow> False)"

definition user_indices :: "pyval list \<Rightarrow> nat list" where
  "user_indices h = filter (\<lambda>i. role_is ''user'' (h ! i)) [0..<length h]"

definition is_assistant_message :: "pyval \<Rightarrow> bool" where
  "is_assistant_message m = (case m of
     PDict d \<Rightarrow> pget d ''type'' = PStr ''message'' \<and> pget d ''role'' = PStr ''assistant'' | _ \<Rightarrow> False)"

definition TURN_KINDS :: "pyval list" where
  "TURN_KINDS = [PStr ''function_call'', PStr ''reasoning'']"

definition is_turn_item :: "pyval \<Rightarrow> bool" where
  "is_turn_item m = (case m of
     PDict d \<Rightarrow> pget d ''type'' \<in> set TURN_KINDS \<or> is_assistant_message m | _ \<Rightarrow> False)"

definition turn_start :: "pyval list \<Rightarrow> nat \<Rightarrow> bool" where
  "turn_start items i \<longleftrightarrow> is_turn_item (items ! i) \<and> (i = 0 \<or> \<not> is_turn_item (items ! (i - 1)))"

definition turn_starts :: "pyval list \<Rightarrow> nat list" where
  "turn_starts items = filter (turn_start items) [0..<length items]"

definition RECENT_TURNS :: nat where
  "RECENT_TURNS = 6"

definition RECENT_TOOL_TURNS :: nat where
  "RECENT_TOOL_TURNS = 6"

definition cut_keep_recent_turns :: "pyval list \<Rightarrow> nat \<Rightarrow> nat" where
  "cut_keep_recent_turns items k = (let starts = turn_starts items in
     if k = 0 \<or> length starts < k then 0 else starts ! (length starts - k))"

text \<open>Only called with a positive number of turns; with none the source indexes past the end.\<close>

definition keepk_cut :: "pyval list \<Rightarrow> nat \<Rightarrow> nat" where
  "keepk_cut h keep = (let us = user_indices h in
     if length us > keep then us ! (length us - keep)
     else cut_keep_recent_turns h RECENT_TOOL_TURNS)"

text \<open>The boundaries every cut uses: user messages when there are two or more of them.\<close>

definition boundaries :: "pyval list \<Rightarrow> nat list" where
  "boundaries h = (let us = user_indices h in if length us \<ge> 2 then us else turn_starts h)"

definition prev_user_boundary :: "pyval list \<Rightarrow> nat \<Rightarrow> nat" where
  "prev_user_boundary h c = (let bs = filter (\<lambda>i. i < c) (boundaries h) in if bs = [] then 0 else last bs)"

section \<open>Folding and truncating\<close>

record sess =
  ss_user :: string
  ss_summary :: codes
  ss_folded :: int
  ss_overhead :: int
  ss_real :: int

type_synonym sessions = "(string \<times> sess) list"

definition read_summary_state :: "sessions \<Rightarrow> string \<Rightarrow> codes \<times> int" where
  "read_summary_state db sid = (case map_of db sid of None \<Rightarrow> ([], 0) | Some r \<Rightarrow> (ss_summary r, ss_folded r))"

definition write_summary_state :: "sessions \<Rightarrow> string \<Rightarrow> codes \<Rightarrow> nat \<Rightarrow> sessions" where
  "write_summary_state db sid summary folded =
     map (\<lambda>(k, r). (k, if k = sid then r\<lparr>ss_summary := summary, ss_folded := int folded\<rparr> else r)) db"

definition SUMMARY_HEADER :: string where
  "SUMMARY_HEADER = ''[Conversation history summary (earlier content compacted)]''"

definition RECALL_HINT :: string where
  "RECALL_HINT = ''(full earlier conversation text can be retrieved on demand via the recall tool)''"

definition summary_block :: "codes \<Rightarrow> bool \<Rightarrow> codes" where
  "summary_block summary hint = (let s = u_strip summary in
     if s = [] then []
     else let block = utext SUMMARY_HEADER @ 10 # s in
       if hint then block @ 10 # utext RECALL_HINT else block)"

definition SUMMARIZE_INSTRUCTION :: codes where
  "SUMMARIZE_INSTRUCTION = utext (''You are a conversation-history compactor. Merge the [Existing summary] and the [Earlier conversation excerpts] '' @
    ''into one tighter, information-lossless rolling summary: keep key facts, user preferences, decisions made, '' @
    ''open questions, entities and conclusions; drop pleasantries and redundancy. Write the summary in the '' @
    ''conversation's language. Output only the summary text '') @ 0x2014 # utext '' no explanations, no prefix or suffix.''"

definition SUMMARY_OUTPUT_MAX_CHARS :: nat where
  "SUMMARY_OUTPUT_MAX_CHARS = 500"

definition fold_text :: "pyval list \<Rightarrow> nat \<Rightarrow> nat \<Rightarrow> codes" where
  "fold_text h f c = join_with [10] (map (message_text (Some SUMMARY_OUTPUT_MAX_CHARS)) (take (c - f) (drop f h)))"

lemma prev_user_boundary_less: "0 < c \<Longrightarrow> prev_user_boundary h c < c"
proof -
  assume "0 < c"
  let ?bs = "filter (\<lambda>i. i < c) (boundaries h)"
  show ?thesis
  proof (cases "?bs = []")
    case False
    then have "last ?bs \<in> set ?bs" by (rule last_in_set)
    with False show ?thesis by (simp add: prev_user_boundary_def Let_def)
  qed (use \<open>0 < c\<close> in \<open>simp add: prev_user_boundary_def\<close>)
qed

text \<open>The shrinking loop: the cut that is used and the text to fold (empty when nothing fits).\<close>

function fold_search :: "int \<Rightarrow> int \<Rightarrow> pyval list \<Rightarrow> nat \<Rightarrow> nat \<Rightarrow> nat \<times> codes" where
  "fold_search instr w h f c =
     (if c > f then
        (if instr + estimate_tokens (fold_text h f c) \<le> w then (c, fold_text h f c)
         else fold_search instr w h f (max (prev_user_boundary h c) f))
      else (c, []))"
  by pat_completeness auto
termination
proof (relation "measure (\<lambda>(_, _, _, _, c). c)")
  fix instr w h and f c :: nat
  assume "f < c"
  with prev_user_boundary_less [of c h]
  show "((instr, w, h, f, max (prev_user_boundary h c) f), instr, w, h, f, c) \<in> measure (\<lambda>(_, _, _, _, c). c)"
    by simp
qed simp

declare fold_search.simps [simp del]

definition window_line :: "int \<Rightarrow> int" where
  "window_line w = (if w \<ge> 0 then scale_double THRESHOLD w else - scale_double THRESHOLD (- w))"

definition input_tokens :: "int \<Rightarrow> codes \<Rightarrow> pyval list \<Rightarrow> codes \<Rightarrow> int" where
  "input_tokens overhead summary h current =
     overhead + estimate_tokens summary + estimate_messages_tokens h + estimate_tokens current"

definition truncate_to_fit :: "pyval list \<Rightarrow> codes \<Rightarrow> codes \<Rightarrow> int \<Rightarrow> int \<Rightarrow> pyval list" where
  "truncate_to_fit send summary current line overhead = (let bs = boundaries send in
     if bs = [] then send
     else case List.find (\<lambda>c. input_tokens overhead summary (drop c send) current \<le> line) bs of
       Some c \<Rightarrow> drop c send
     | None \<Rightarrow> drop (last bs) send)"

record comp_in =
  ci_settings :: settings
  ci_windows :: "mw_table option"
  ci_session :: string
  ci_user :: string
  ci_model :: string
  ci_provider :: string
  ci_overhead :: int
  ci_history :: "pyval list"
  ci_current :: codes
  ci_summarize :: "codes \<Rightarrow> codes \<Rightarrow> codes option"
  ci_readable :: bool
  ci_writable :: bool

text \<open>The stored cursor, or 0 when it is stale.\<close>

definition fold_cursor :: "comp_in \<Rightarrow> sessions \<Rightarrow> nat" where
  "fold_cursor inp db = (let f = snd (read_summary_state db (ci_session inp)) in
     if f < 0 \<or> f > int (length (ci_history inp)) then 0 else nat f)"

definition try_fold :: "comp_in \<Rightarrow> codes \<Rightarrow> nat \<Rightarrow> int \<Rightarrow> (codes \<times> nat) option" where
  "try_fold inp s f w =
     (let h = ci_history inp; c = keepk_cut h RECENT_TURNS in
      if c > f then
        (let (fc, ft) = fold_search (estimate_tokens SUMMARIZE_INSTRUCTION + estimate_tokens s) w h f c in
         if fc > f \<and> ft \<noteq> [] then
           (case ci_summarize inp s ft of
              None \<Rightarrow> None
            | Some out \<Rightarrow>
                if out \<noteq> [] \<and> u_strip out \<noteq> [] \<and> estimate_tokens out < estimate_tokens ft
                then Some (u_strip out, fc) else None)
         else None)
      else None)"

text \<open>The result: the summary block, the history to send, and whether the recall index is asked to
  take in what left the context.\<close>

definition finish_compaction :: "comp_in \<Rightarrow> bool \<Rightarrow> int \<Rightarrow> nat \<Rightarrow> codes \<Rightarrow> nat \<Rightarrow> codes \<times> pyval list \<times> bool" where
  "finish_compaction inp hint line f s' f' =
     (let send = drop f' (ci_history inp);
          send' = (if input_tokens (ci_overhead inp) s' send (ci_current inp) > line
                   then truncate_to_fit send s' (ci_current inp) line (ci_overhead inp) else send);
          dropped = (f' > f \<or> length send' < length (ci_history inp) - f')
      in (summary_block s' hint, send', dropped))"

definition compact_for_run :: "comp_in \<Rightarrow> sessions \<Rightarrow> (codes \<times> pyval list \<times> bool) \<times> sessions" where
  "compact_for_run inp db =
     (let h = ci_history inp in
      if \<not> ci_readable inp \<or> \<not> is_compaction_enabled (ci_settings inp) (ci_user inp) then (([], h, False), db)
      else
        let s = fst (read_summary_state db (ci_session inp)); f = fold_cursor inp db;
            hint = is_memory_enabled (ci_settings inp) (ci_user inp);
            w = resolve_window (ci_settings inp) (ci_windows inp) (ci_user inp) (ci_model inp) (ci_provider inp);
            line = window_line w
        in if input_tokens (ci_overhead inp) s (drop f h) (ci_current inp) \<le> line
           then ((summary_block s hint, drop f h, False), db)
           else case try_fold inp s f w of
             None \<Rightarrow> (finish_compaction inp hint line f s f, db)
           | Some (s', f') \<Rightarrow>
               if ci_writable inp
               then (finish_compaction inp hint line f s' f', write_summary_state db (ci_session inp) s' f')
               else (([], h, False), db))"

section \<open>Usage\<close>

text \<open>The token count and its source in \<open>compute_usage\<close>; the snapshot history is an argument.\<close>

definition usage_tokens :: "sessions \<Rightarrow> string \<Rightarrow> string \<Rightarrow> pyval list \<Rightarrow> int \<times> string" where
  "usage_tokens db sid u snapshot = (case map_of db sid of
     None \<Rightarrow> (0, ''estimate'')
   | Some r \<Rightarrow>
       if ss_user r \<noteq> u then (0, ''estimate'')
       else if ss_real r > 0 then (ss_real r, ''provider'')
       else let f = (if ss_folded r < 0 \<or> ss_folded r > int (length snapshot) then 0 else nat (ss_folded r))
         in (ss_overhead r + estimate_tokens (ss_summary r) + estimate_messages_tokens (drop f snapshot), ''estimate''))"

section \<open>The plan\<close>

definition PLAN_MAX_STEPS :: nat where
  "PLAN_MAX_STEPS = 30"

definition PLAN_MAX_CHARS :: nat where
  "PLAN_MAX_CHARS = 200"

definition PLAN_STATUSES :: "string list" where
  "PLAN_STATUSES = [''pending'', ''in_progress'', ''done'', ''skipped'']"

definition PLAN_HEADER :: string where
  "PLAN_HEADER = ''<plan>''"

definition PLAN_MARK :: "(string \<times> string) list" where
  "PLAN_MARK = [(''pending'', ''[ ]''), (''in_progress'', ''[>]''), (''done'', ''[x]''), (''skipped'', ''[-]'')]"

record step =
  st_id :: string
  st_title :: string
  st_status :: string
  st_note :: string

datatype plan_error =
    NotAList | TooManySteps nat | NotAnObject nat | BadId nat | NoTitle string | BadStatus string
  | MarkupIn string string | FieldTooLong string

definition clean_plan_field :: "string \<Rightarrow> string" where
  "clean_plan_field v = join_with '' '' (split_ws v)"

definition has_plan_markup :: "string \<Rightarrow> bool" where
  "has_plan_markup v = (let low = py_lower v in contains low ''<plan>'' \<or> contains low ''</plan>'')"

definition field_text :: "(string \<times> pyval) list \<Rightarrow> string \<Rightarrow> string" where
  "field_text s k = str_val (py_or (pget s k) (PStr []))"

definition validate_step :: "nat \<Rightarrow> string list \<Rightarrow> pyval \<Rightarrow> plan_error + step" where
  "validate_step i seen v = (case v of
     PDict s \<Rightarrow>
       (let sid = clean_plan_field (field_text s ''id''); title = clean_plan_field (field_text s ''title'');
            status = py_strip (field_text s ''status''); note = clean_plan_field (field_text s ''note'') in
        if sid = [] \<or> sid \<in> set seen then Inl (BadId i)
        else if title = [] then Inl (NoTitle sid)
        else if status \<notin> set PLAN_STATUSES then Inl (BadStatus sid)
        else if has_plan_markup sid then Inl (MarkupIn sid ''id'')
        else if has_plan_markup title then Inl (MarkupIn sid ''title'')
        else if has_plan_markup note then Inl (MarkupIn sid ''note'')
        else if length title > PLAN_MAX_CHARS \<or> length note > PLAN_MAX_CHARS \<or> length sid > PLAN_MAX_CHARS
          then Inl (FieldTooLong sid)
        else Inr \<lparr>st_id = sid, st_title = title, st_status = status, st_note = note\<rparr>)
   | _ \<Rightarrow> Inl (NotAnObject i))"

fun validate_steps :: "nat \<Rightarrow> string list \<Rightarrow> pyval list \<Rightarrow> plan_error + step list" where
  "validate_steps i seen [] = Inr []"
| "validate_steps i seen (v # vs) = (case validate_step i seen v of
     Inl e \<Rightarrow> Inl e
   | Inr s \<Rightarrow> (case validate_steps (Suc i) (st_id s # seen) vs of Inl e \<Rightarrow> Inl e | Inr ss \<Rightarrow> Inr (s # ss)))"

definition validate_plan :: "pyval \<Rightarrow> plan_error + step list" where
  "validate_plan raw = (case raw of
     PList vs \<Rightarrow> if length vs > PLAN_MAX_STEPS then Inl (TooManySteps (length vs)) else validate_steps 0 [] vs
   | _ \<Rightarrow> Inl NotAList)"

definition plan_line :: "step \<Rightarrow> codes" where
  "plan_line s = (let mark = (case map_of PLAN_MARK (st_status s) of Some m \<Rightarrow> m | None \<Rightarrow> ''[ ]'') in
     utext (mark @ '' '' @ st_id s @ ''. '' @ st_title s) @
     (if st_note s \<noteq> [] then 32 # 0x2014 # 32 # utext (st_note s) else []))"

definition plan_block :: "step list \<Rightarrow> codes" where
  "plan_block steps =
     (if steps = [] then []
      else join_with [10] ([utext PLAN_HEADER,
        utext ''Your current plan (update it with update_plan as you progress; mark a step done before starting the next):'']
        @ map plan_line steps @ [utext ''</plan>'']))"

section \<open>What is cut off\<close>

lemma boundaries_less: "b \<in> set (boundaries h) \<Longrightarrow> b < length h"
  by (auto simp: boundaries_def user_indices_def turn_starts_def Let_def split: if_splits)

text \<open>A cut never separates a tool call from its output: it stands before a user message or before
  the first item of a turn.\<close>

lemma boundaries_clean:
  "b \<in> set (boundaries h) \<Longrightarrow> role_is ''user'' (h ! b) \<or> turn_start h b"
  by (auto simp: boundaries_def user_indices_def turn_starts_def Let_def split: if_splits)

lemma sorted_boundaries: "sorted (boundaries h)"
  unfolding boundaries_def Let_def user_indices_def turn_starts_def by (simp add: sorted_wrt_filter)

text \<open>What truncation keeps: from the first boundary that fits, or the last turn.\<close>

definition kept_from :: "pyval list \<Rightarrow> (nat \<Rightarrow> bool) \<Rightarrow> nat \<Rightarrow> bool" where
  "kept_from send fits c \<longleftrightarrow>
     (boundaries send = [] \<and> c = 0) \<or>
     (c \<in> set (boundaries send) \<and> (fits c \<or> c = last (boundaries send)) \<and>
      (\<forall>b\<in>set (boundaries send). b < c \<longrightarrow> \<not> fits b))"

lemma truncate_kept:
  obtains c where "truncate_to_fit send summary current line overhead = drop c send"
    "kept_from send (\<lambda>b. input_tokens overhead summary (drop b send) current \<le> line) c"
proof (cases "boundaries send = []")
  case True
  with that [of 0] show ?thesis by (simp add: truncate_to_fit_def kept_from_def)
next
  case False
  let ?fits = "\<lambda>b. input_tokens overhead summary (drop b send) current \<le> line"
  show ?thesis
  proof (cases "List.find ?fits (boundaries send)")
    case None
    then have "\<forall>b\<in>set (boundaries send). \<not> ?fits b" by (simp add: find_None_all)
    with None False that [of "last (boundaries send)"] show ?thesis
      by (simp add: truncate_to_fit_def kept_from_def Let_def)
  next
    case (Some c)
    with find_sorted [OF sorted_boundaries Some] False that [of c] show ?thesis
      by (simp add: truncate_to_fit_def kept_from_def Let_def)
  qed
qed

lemma kept_from_le: "kept_from send fits c \<Longrightarrow> c \<le> length send"
  unfolding kept_from_def using boundaries_less by fastforce

lemma fold_search_bounds:
  "fold_search instr w h f c = (fc, ft) \<Longrightarrow> ft \<noteq> [] \<Longrightarrow>
   f < fc \<and> fc \<le> c \<and> ft = fold_text h f fc \<and> instr + estimate_tokens ft \<le> w"
proof (induction instr w h f c rule: fold_search.induct)
  case (1 instr w h f c)
  show ?case
  proof (cases "f < c \<and> \<not> instr + estimate_tokens (fold_text h f c) \<le> w")
    case True
    then have "fold_search instr w h f (max (prev_user_boundary h c) f) = (fc, ft)"
      using "1.prems"(1) by (simp add: fold_search.simps [of instr w h f c])
    moreover have "prev_user_boundary h c < c" using True prev_user_boundary_less by simp
    ultimately show ?thesis using "1.IH" True "1.prems"(2) by fastforce
  next
    case False
    with "1.prems" show ?thesis by (auto simp: fold_search.simps [of instr w h f c] split: if_splits)
  qed
qed

lemma keepk_cut_le: "keepk_cut h RECENT_TURNS \<le> length h"
proof -
  have nth: "xs ! (length xs - k) < n" if "\<forall>x\<in>set xs. x < n" "0 < k" "k \<le> length xs" for xs k and n :: nat
    using that by (metis Suc_pred diff_less leD le_zero_eq linorder_not_less nth_mem zero_less_diff not_gr_zero length_pos_if_in_set list.size(3))
  have u: "\<forall>x\<in>set (user_indices h). x < length h" by (auto simp: user_indices_def)
  have t: "\<forall>x\<in>set (turn_starts h). x < length h" by (auto simp: turn_starts_def)
  show ?thesis
  proof (cases "length (user_indices h) > RECENT_TURNS")
    case True
    then have "user_indices h ! (length (user_indices h) - RECENT_TURNS) < length h"
      using u by (intro nth) (auto simp: RECENT_TURNS_def)
    with True show ?thesis by (simp add: keepk_cut_def Let_def)
  next
    case False
    then have "keepk_cut h RECENT_TURNS = cut_keep_recent_turns h RECENT_TOOL_TURNS" by (simp add: keepk_cut_def Let_def)
    moreover have "cut_keep_recent_turns h RECENT_TOOL_TURNS \<le> length h"
    proof (cases "length (turn_starts h) < RECENT_TOOL_TURNS")
      case False
      then have "turn_starts h ! (length (turn_starts h) - RECENT_TOOL_TURNS) < length h"
        using t by (intro nth) (auto simp: RECENT_TOOL_TURNS_def)
      then show ?thesis by (simp add: cut_keep_recent_turns_def Let_def)
    qed (simp add: cut_keep_recent_turns_def Let_def)
    ultimately show ?thesis by simp
  qed
qed

text \<open>An accepted fold: it moves the cursor forward, and the new summary is what the model made of
  exactly the messages between the cursors, and is shorter than they are.\<close>

definition folds :: "comp_in \<Rightarrow> codes \<Rightarrow> nat \<Rightarrow> codes \<Rightarrow> nat \<Rightarrow> bool" where
  "folds inp s f s' f' \<longleftrightarrow> f < f' \<and> f' \<le> length (ci_history inp) \<and>
     (\<exists>out. ci_summarize inp s (fold_text (ci_history inp) f f') = Some out \<and> s' = u_strip out \<and> s' \<noteq> [] \<and>
       estimate_tokens out < estimate_tokens (fold_text (ci_history inp) f f'))"

lemma try_fold_folds: "try_fold inp s f w = Some (s', f') \<Longrightarrow> folds inp s f s' f'"
  using keepk_cut_le [of "ci_history inp"]
  by (auto simp: try_fold_def folds_def Let_def dest!: fold_search_bounds split: if_splits prod.splits option.splits)

lemma fold_cursor_le: "fold_cursor inp db \<le> length (ci_history inp)"
  by (auto simp: fold_cursor_def Let_def)

lemma finish_cases:
  assumes "finish_compaction inp hint line f s' f' = (block, sent, enq)" "f \<le> f'" "f' \<le> length (ci_history inp)"
  obtains c where "sent = drop (f' + c) (ci_history inp)" "block = summary_block s' hint" "f' + c \<le> length (ci_history inp)"
    "enq \<longleftrightarrow> f < f' \<or> 0 < c"
    "c = 0 \<and> input_tokens (ci_overhead inp) s' sent (ci_current inp) \<le> line \<or>
     kept_from (drop f' (ci_history inp)) (\<lambda>b. input_tokens (ci_overhead inp) s' (drop (f' + b) (ci_history inp)) (ci_current inp) \<le> line) c"
proof (cases "input_tokens (ci_overhead inp) s' (drop f' (ci_history inp)) (ci_current inp) \<le> line")
  case True
  with assms that [of 0] show ?thesis by (auto simp: finish_compaction_def Let_def)
next
  case False
  let ?send = "drop f' (ci_history inp)"
  obtain c where c: "truncate_to_fit ?send s' (ci_current inp) line (ci_overhead inp) = drop c ?send"
    "kept_from ?send (\<lambda>b. input_tokens (ci_overhead inp) s' (drop b ?send) (ci_current inp) \<le> line) c"
    by (rule truncate_kept)
  have le: "c \<le> length ?send" using kept_from_le [OF c(2)] .
  show ?thesis
  proof (rule that [of c])
    show "sent = drop (f' + c) (ci_history inp)" "block = summary_block s' hint"
      using assms(1) False c(1) by (simp_all add: finish_compaction_def Let_def add.commute)
    show "f' + c \<le> length (ci_history inp)" using le assms(3) by simp
    show "enq \<longleftrightarrow> f < f' \<or> 0 < c" using assms(1) False c(1) le by (auto simp: finish_compaction_def Let_def)
    show "c = 0 \<and> input_tokens (ci_overhead inp) s' sent (ci_current inp) \<le> line \<or>
      kept_from ?send (\<lambda>b. input_tokens (ci_overhead inp) s' (drop (f' + b) (ci_history inp)) (ci_current inp) \<le> line) c"
      using c(2) by (simp add: add.commute)
  qed
qed

section \<open>Plans\<close>

lemma clean_idem: "clean_plan_field (clean_plan_field v) = clean_plan_field v"
proof -
  have "\<forall>w\<in>set (split_ws v). w \<noteq> [] \<and> (\<forall>x\<in>set w. \<not> py_isspace x)"
    using split_ws_nonempty split_ws_no_space by blast
  then show ?thesis unfolding clean_plan_field_def by (simp only: split_ws_join)
qed

lemma clean_no_newline: "CHR 0x0A \<notin> set (clean_plan_field v)"
proof
  assume "CHR 0x0A \<in> set (clean_plan_field v)"
  then have "CHR 0x0A \<in> set '' '' \<or> (\<exists>w\<in>set (split_ws v). CHR 0x0A \<in> set w)"
    unfolding clean_plan_field_def by (rule set_join_with)
  then obtain w where "w \<in> set (split_ws v)" "CHR 0x0A \<in> set w" by auto
  then have "\<not> py_isspace (CHR 0x0A)" by (rule split_ws_no_space)
  then show False by (simp add: py_isspace_def)
qed

definition step_ok :: "step \<Rightarrow> bool" where
  "step_ok s \<longleftrightarrow> st_id s \<noteq> [] \<and> st_title s \<noteq> [] \<and> st_status s \<in> set PLAN_STATUSES \<and>
     (\<forall>v\<in>{st_id s, st_title s, st_note s}.
        clean_plan_field v = v \<and> \<not> has_plan_markup v \<and> length v \<le> PLAN_MAX_CHARS)"

definition plan_ok :: "step list \<Rightarrow> bool" where
  "plan_ok steps \<longleftrightarrow> length steps \<le> PLAN_MAX_STEPS \<and> distinct (map st_id steps) \<and> (\<forall>s\<in>set steps. step_ok s)"

definition step_val :: "step \<Rightarrow> pyval" where
  "step_val s = PDict [(''id'', PStr (st_id s)), (''title'', PStr (st_title s)),
     (''status'', PStr (st_status s)), (''note'', PStr (st_note s))]"

lemma validate_step_ok:
  "validate_step i seen v = Inr s \<Longrightarrow> step_ok s \<and> st_id s \<notin> set seen"
  by (auto simp: validate_step_def step_ok_def Let_def clean_idem split: pyval.splits if_splits)

lemma field_text_val:
  "field_text [(''id'', PStr a), (''title'', PStr b), (''status'', PStr c), (''note'', PStr d)] ''id'' = a"
  "field_text [(''id'', PStr a), (''title'', PStr b), (''status'', PStr c), (''note'', PStr d)] ''title'' = b"
  "field_text [(''id'', PStr a), (''title'', PStr b), (''status'', PStr c), (''note'', PStr d)] ''status'' = c"
  "field_text [(''id'', PStr a), (''title'', PStr b), (''status'', PStr c), (''note'', PStr d)] ''note'' = d"
  by (simp_all add: field_text_def pget_def py_or_def str_val_def)

lemma strip_status: "st \<in> set PLAN_STATUSES \<Longrightarrow> py_strip st = st"
  by (auto simp: PLAN_STATUSES_def py_strip_def lstrip_of_def rstrip_of_def py_isspace_def)

lemma validate_step_val:
  "step_ok s \<Longrightarrow> st_id s \<notin> set seen \<Longrightarrow> validate_step i seen (step_val s) = Inr s"
  by (cases s) (auto simp: validate_step_def step_val_def step_ok_def field_text_val strip_status)

lemma validate_steps_ok:
  "validate_steps i seen vs = Inr ss \<Longrightarrow> length ss = length vs \<and> distinct (map st_id ss) \<and>
     (\<forall>s\<in>set ss. step_ok s \<and> st_id s \<notin> set seen)"
proof (induction i seen vs arbitrary: ss rule: validate_steps.induct)
  case (2 i seen v vs)
  from "2.prems" obtain s rest where s: "validate_step i seen v = Inr s" "ss = s # rest"
    "validate_steps (Suc i) (st_id s # seen) vs = Inr rest" by (auto split: sum.splits)
  with "2.IH" [OF s(1) s(3)] validate_step_ok [OF s(1)] show ?case by auto
qed simp

lemma validate_steps_val:
  "distinct (map st_id ss) \<Longrightarrow> \<forall>s\<in>set ss. step_ok s \<and> st_id s \<notin> set seen \<Longrightarrow>
   validate_steps i seen (map step_val ss) = Inr ss"
proof (induction ss arbitrary: i seen)
  case (Cons s ss)
  have "validate_steps (Suc i) (st_id s # seen) (map step_val ss) = Inr ss"
  proof (rule Cons.IH)
    show "distinct (map st_id ss)" using Cons.prems(1) by simp
    have "st_id x \<noteq> st_id s" if "x \<in> set ss" for x using that Cons.prems(1) by (metis distinct.simps(2) imageI list.set_map list.simps(9))
    then show "\<forall>x\<in>set ss. step_ok x \<and> st_id x \<notin> set (st_id s # seen)" using Cons.prems(2) by simp
  qed
  with Cons.prems validate_step_val [of s seen i] show ?case by simp
qed simp

lemma utext_newline: "10 \<in> set (utext s) \<longleftrightarrow> CHR 0x0A \<in> set s"
proof -
  have n: "of_char (CHR 0x0A) = (10::int)" by simp
  have "10 \<in> set (utext s) \<longleftrightarrow> (of_char (CHR 0x0A) :: int) \<in> of_char ` set s" unfolding n utext_def by simp
  then show ?thesis by (metis imageE imageI of_char_eq_iff)
qed

lemma mark_no_newline: "CHR 0x0A \<notin> set (case map_of PLAN_MARK st of Some m \<Rightarrow> m | None \<Rightarrow> ''[ ]'')"
  by (simp add: PLAN_MARK_def)

lemma plan_line_no_newline: "step_ok s \<Longrightarrow> 10 \<notin> set (plan_line s)"
proof -
  assume ok: "step_ok s"
  then have c: "clean_plan_field (st_id s) = st_id s" "clean_plan_field (st_title s) = st_title s"
    "clean_plan_field (st_note s) = st_note s" by (simp_all add: step_ok_def)
  have "CHR 0x0A \<notin> set (st_id s)" "CHR 0x0A \<notin> set (st_title s)" "CHR 0x0A \<notin> set (st_note s)"
    using clean_no_newline [of "st_id s"] clean_no_newline [of "st_title s"] clean_no_newline [of "st_note s"]
    unfolding c .
  then show ?thesis
    using mark_no_newline [of "st_status s"] by (simp add: plan_line_def Let_def utext_newline)
qed

lemma plan_block_lines:
  assumes "\<forall>s\<in>set steps. step_ok s" "steps \<noteq> []"
  shows "split_on 10 (plan_block steps) = [utext PLAN_HEADER,
     utext ''Your current plan (update it with update_plan as you progress; mark a step done before starting the next):'']
     @ map plan_line steps @ [utext ''</plan>'']"
  unfolding plan_block_def using assms plan_line_no_newline
  by (simp only: if_False) (rule split_on_join, auto simp: utext_newline PLAN_HEADER_def)

section \<open>The outcome of a compaction\<close>

definition run_line :: "comp_in \<Rightarrow> int" where
  "run_line inp = window_line
     (resolve_window (ci_settings inp) (ci_windows inp) (ci_user inp) (ci_model inp) (ci_provider inp))"

definition same_or_folded :: "comp_in \<Rightarrow> sessions \<Rightarrow> codes \<Rightarrow> nat \<Rightarrow> sessions \<Rightarrow> bool" where
  "same_or_folded inp db s' f' db' \<longleftrightarrow>
     (let s = fst (read_summary_state db (ci_session inp)); f = fold_cursor inp db in
      f' = f \<and> s' = s \<and> db' = db \<or> folds inp s f s' f' \<and> db' = write_summary_state db (ci_session inp) s' f')"

lemma compact_cases:
  assumes "compact_for_run inp db = ((block, sent, enq), db')"
    and "ci_readable inp" "is_compaction_enabled (ci_settings inp) (ci_user inp)"
  obtains (unsaved) "\<not> ci_writable inp" "block = []" "sent = ci_history inp" "db' = db"
  | (sent) s' f' c where "same_or_folded inp db s' f' db'" "fold_cursor inp db \<le> f'"
      "sent = drop (f' + c) (ci_history inp)"
      "block = summary_block s' (is_memory_enabled (ci_settings inp) (ci_user inp))"
      "f' + c \<le> length (ci_history inp)" "enq \<longleftrightarrow> fold_cursor inp db < f' \<or> 0 < c"
      "c = 0 \<and> input_tokens (ci_overhead inp) s' sent (ci_current inp) \<le> run_line inp \<or>
       kept_from (drop f' (ci_history inp))
         (\<lambda>b. input_tokens (ci_overhead inp) s' (drop (f' + b) (ci_history inp)) (ci_current inp) \<le> run_line inp) c"
proof -
  let ?s = "fst (read_summary_state db (ci_session inp))" and ?f = "fold_cursor inp db"
  let ?hint = "is_memory_enabled (ci_settings inp) (ci_user inp)"
  let ?w = "resolve_window (ci_settings inp) (ci_windows inp) (ci_user inp) (ci_model inp) (ci_provider inp)"
  have fle: "?f \<le> length (ci_history inp)" by (rule fold_cursor_le)
  have same: "same_or_folded inp db ?s ?f db" by (simp add: same_or_folded_def)
  consider (fits) "input_tokens (ci_overhead inp) ?s (drop ?f (ci_history inp)) (ci_current inp) \<le> run_line inp"
    | (none) "\<not> input_tokens (ci_overhead inp) ?s (drop ?f (ci_history inp)) (ci_current inp) \<le> run_line inp"
        "try_fold inp ?s ?f ?w = None"
    | (folded) s' f' where "\<not> input_tokens (ci_overhead inp) ?s (drop ?f (ci_history inp)) (ci_current inp) \<le> run_line inp"
        "try_fold inp ?s ?f ?w = Some (s', f')" by (metis not_None_eq prod.collapse)
  then show thesis
  proof cases
    case fits
    then have r: "((block, sent, enq), db') = ((summary_block ?s ?hint, drop ?f (ci_history inp), False), db)"
      unfolding assms(1) [symmetric] using assms(2,3) by (simp add: compact_for_run_def Let_def run_line_def)
    show thesis by (rule sent [of ?s ?f 0]) (use r fits fle same in simp_all)
  next
    case none
    then have "((block, sent, enq), db') = (finish_compaction inp ?hint (run_line inp) ?f ?s ?f, db)"
      unfolding assms(1) [symmetric] using assms(2,3) by (simp add: compact_for_run_def Let_def run_line_def)
    then have fin: "finish_compaction inp ?hint (run_line inp) ?f ?s ?f = (block, sent, enq)" and db: "db' = db"
      by simp_all
    show thesis using fin le_refl fle by (rule finish_cases) (use sent [of ?s ?f] same db in simp)
  next
    case (folded s' f')
    have folds: "folds inp ?s ?f s' f'" using folded(2) by (rule try_fold_folds)
    then have le: "?f \<le> f'" "f' \<le> length (ci_history inp)" by (simp_all add: folds_def)
    show thesis
    proof (cases "ci_writable inp")
      case True
      then have fin: "finish_compaction inp ?hint (run_line inp) ?f s' f' = (block, sent, enq)"
        and db: "db' = write_summary_state db (ci_session inp) s' f'"
        using assms folded by (simp_all add: compact_for_run_def Let_def run_line_def)
      have sof: "same_or_folded inp db s' f' db'" using folds db by (simp add: same_or_folded_def)
      show thesis using fin le by (rule finish_cases) (rule sent [OF sof le(1)]; assumption)
    next
      case False
      have "((block, sent, enq), db') = (([], ci_history inp, False), db)"
        using assms folded False by (simp add: compact_for_run_def Let_def run_line_def)
      with False show thesis by (intro unsaved) simp_all
    qed
  qed
qed

section \<open>Properties\<close>

text \<open>
  C27. Nothing leaves the conversation unaccounted for. When compaction is on and the database can be
  read, what is sent is a tail of the history, and for some cursor between the old one and its start:
  either the cursor, the summary and the database are as before, or the messages between the old and
  the new cursor, exactly these, were given to the summarising model together with the old summary,
  its shorter answer is the summary that is stored and sent, and the cursor is stored with it. The
  recall index is asked to take over exactly when some message left the context. If the summary
  cannot be stored, the whole history is sent and nothing has changed.
\<close>

theorem compaction_accounts:
  assumes "compact_for_run inp db = ((block, sent, enq), db')"
    and "ci_readable inp" "is_compaction_enabled (ci_settings inp) (ci_user inp)"
  shows "(\<not> ci_writable inp \<and> block = [] \<and> sent = ci_history inp \<and> db' = db) \<or>
    (\<exists>s' f' c. fold_cursor inp db \<le> f' \<and> f' \<le> c \<and> c \<le> length (ci_history inp) \<and>
       sent = drop c (ci_history inp) \<and>
       block = summary_block s' (is_memory_enabled (ci_settings inp) (ci_user inp)) \<and>
       (f' = fold_cursor inp db \<and> s' = fst (read_summary_state db (ci_session inp)) \<and> db' = db \<or>
        folds inp (fst (read_summary_state db (ci_session inp))) (fold_cursor inp db) s' f' \<and>
        db' = write_summary_state db (ci_session inp) s' f') \<and>
       (enq \<longleftrightarrow> fold_cursor inp db < f' \<or> f' < c))"
  using assms
proof (cases rule: compact_cases)
  case (sent s' f' c)
  then show ?thesis
    by (intro disjI2 exI [of _ s'] exI [of _ f'] exI [of _ "f' + c"]) (simp add: same_or_folded_def Let_def)
qed simp

text \<open>
  What is sent fits the window, or is as little as the source ever sends. When compaction is on
  and a summary that was made could be stored: either the overhead, the summary, the tail and the
  current message stay within the line, or nothing in the unfolded history is a place to cut, or only
  the last turn is sent. And a cut is clean and no larger than needed: the tail starts at a user message
  or at the first item of a turn, and starting at an earlier such place would not have fitted.
\<close>

theorem compaction_fits:
  assumes "compact_for_run inp db = ((block, sent, enq), db')"
    and "ci_readable inp" "is_compaction_enabled (ci_settings inp) (ci_user inp)" "ci_writable inp"
  shows "\<exists>s' f' c. same_or_folded inp db s' f' db' \<and> sent = drop c (drop f' (ci_history inp)) \<and>
    (input_tokens (ci_overhead inp) s' sent (ci_current inp) \<le> run_line inp \<or>
     boundaries (drop f' (ci_history inp)) = [] \<or> c = last (boundaries (drop f' (ci_history inp)))) \<and>
    (0 < c \<longrightarrow>
      (role_is ''user'' (drop f' (ci_history inp) ! c) \<or> turn_start (drop f' (ci_history inp)) c) \<and>
      (\<forall>b\<in>set (boundaries (drop f' (ci_history inp))). b < c \<longrightarrow>
         input_tokens (ci_overhead inp) s' (drop b (drop f' (ci_history inp))) (ci_current inp) > run_line inp))"
  using assms(1-3)
proof (cases rule: compact_cases)
  case unsaved
  with assms(4) show ?thesis by simp
next
  case (sent s' f' c)
  have dd: "drop b (drop f' (ci_history inp)) = drop (f' + b) (ci_history inp)" for b by (simp add: add.commute)
  show ?thesis
  proof (intro exI conjI impI ballI)
    show "same_or_folded inp db s' f' db'" by (rule sent(1))
    show "sent = drop c (drop f' (ci_history inp))" unfolding dd by (rule sent(3))
    show "input_tokens (ci_overhead inp) s' sent (ci_current inp) \<le> run_line inp \<or>
        boundaries (drop f' (ci_history inp)) = [] \<or> c = last (boundaries (drop f' (ci_history inp)))"
      using sent(7) unfolding kept_from_def sent(3) by blast
    assume "0 < c"
    then have k: "c \<in> set (boundaries (drop f' (ci_history inp)))"
      "\<And>b. b \<in> set (boundaries (drop f' (ci_history inp))) \<Longrightarrow> b < c \<Longrightarrow>
         \<not> input_tokens (ci_overhead inp) s' (drop (f' + b) (ci_history inp)) (ci_current inp) \<le> run_line inp"
      using sent(7) unfolding kept_from_def by blast+
    show "role_is ''user'' (drop f' (ci_history inp) ! c) \<or> turn_start (drop f' (ci_history inp)) c"
      using k(1) by (rule boundaries_clean)
    fix b
    assume "b \<in> set (boundaries (drop f' (ci_history inp)))" "b < c"
    then show "input_tokens (ci_overhead inp) s' (drop b (drop f' (ci_history inp))) (ci_current inp) > run_line inp"
      unfolding dd using k(2) by (meson not_le)
  qed
qed

text \<open>
  The plan the model hands in is normalised once and for all: an accepted plan has at most 30 steps
  with distinct non-empty ids, non-empty titles and known statuses, no field longer than 200 characters
  or with plan markup in it; handing it in again gives the same plan; and the block it is rendered to in
  the system prompt is exactly the two heading lines, one line per step and the closing line, so
  no field can add a line of its own.
\<close>

theorem plan_normalised:
  assumes "validate_plan raw = Inr steps"
  shows "plan_ok steps \<and> validate_plan (PList (map step_val steps)) = Inr steps \<and>
    (if steps = [] then plan_block steps = []
     else \<exists>intro. split_on 10 (plan_block steps) = [utext PLAN_HEADER, intro] @ map plan_line steps @ [utext ''</plan>''])"
proof -
  obtain vs where vs: "raw = PList vs" "length vs \<le> PLAN_MAX_STEPS" "validate_steps 0 [] vs = Inr steps"
    using assms by (auto simp: validate_plan_def split: pyval.splits if_splits)
  note ok = validate_steps_ok [OF vs(3)]
  have "validate_plan (PList (map step_val steps)) = Inr steps"
    using ok vs(2) validate_steps_val [of steps "[]" 0] by (simp add: validate_plan_def)
  moreover have "plan_ok steps" using ok vs(2) by (simp add: plan_ok_def)
  ultimately show ?thesis using plan_block_lines [of steps] ok by (auto simp: plan_block_def)
qed

definition demo_msg :: "string \<Rightarrow> string \<Rightarrow> pyval" where
  "demo_msg role c = PDict [(''role'', PStr role), (''content'', PStr c)]"

definition demo_in :: comp_in where
  "demo_in = \<lparr>ci_settings = [((''u'', ''context_window''), PStr ''10'')], ci_windows = Some [], ci_session = ''s'',
     ci_user = ''u'', ci_model = ''m'', ci_provider = [], ci_overhead = 0,
     ci_history = [demo_msg ''user'' ''first question'', demo_msg ''assistant'' ''an answer'', demo_msg ''user'' ''second''],
     ci_current = [], ci_summarize = (\<lambda>_ _. None), ci_readable = True, ci_writable = True\<rparr>"

lemma demo_in_facts:
  "compact_for_run demo_in [] = (([], [demo_msg ''user'' ''second''], True), [])"
  "ci_readable demo_in" "is_compaction_enabled (ci_settings demo_in) (ci_user demo_in)" "ci_writable demo_in"
  by code_simp+

theorem compaction_accounts_witness:
  "compact_for_run demo_in [] = (([], [demo_msg ''user'' ''second''], True), []) \<and>
   (\<exists>f' c. f' \<le> c \<and> c \<le> 3 \<and> [demo_msg ''user'' ''second''] = drop c (ci_history demo_in) \<and>
      (fold_cursor demo_in [] < f' \<or> f' < c))"
proof -
  have "length (ci_history demo_in) = 3" by (simp add: demo_in_def)
  with compaction_accounts [OF demo_in_facts(1-3)] demo_in_facts(1,4) show ?thesis by auto
qed

theorem compaction_fits_witness:
  "compact_for_run demo_in [] = (([], [demo_msg ''user'' ''second''], True), []) \<and>
   (\<exists>s' f' c. same_or_folded demo_in [] s' f' [] \<and>
      [demo_msg ''user'' ''second''] = drop c (drop f' (ci_history demo_in)))"
  using compaction_fits [OF demo_in_facts] demo_in_facts(1) by blast

theorem plan_normalised_witness:
  "\<exists>steps. validate_plan (PList [PDict [(''id'', PStr ''1''), (''title'', PStr '' read  the log ''), (''status'', PStr ''done'')]]) = Inr steps \<and>
     plan_ok steps \<and> map st_title steps = [''read the log'']"
proof -
  let ?r = "PList [PDict [(''id'', PStr ''1''), (''title'', PStr '' read  the log ''), (''status'', PStr ''done'')]]"
  let ?s = "[\<lparr>st_id = ''1'', st_title = ''read the log'', st_status = ''done'', st_note = []\<rparr>]"
  have v: "validate_plan ?r = Inr ?s" by code_simp
  from plan_normalised [OF v] v show ?thesis by (intro exI [of _ ?s]) simp
qed

end
