(* ===== verification/Fs_Access.thy ===== *)
theory Fs_Access
  imports Fs_Scope Permissions Confirm
begin

text \<open>
  \<open>fs/access_request.py\<close>: a file tool that meets a path outside the session's scope asks for it. The module's
  dictionaries, the table \<open>access_requests\<close>, the visible resources, the confirmation manager and the policy
  cache are the state. A coroutine that waits, for the answer of its card or for the future of somebody else's,
  is an entry of a list of parked coroutines; what happens between two of its steps is a step relation.
  Identifiers, the clock, \<open>realpath\<close> and \<open>isfile\<close> are arguments.
\<close>

section \<open>State\<close>

text \<open>The column \<open>path\<close> holds one path, or the JSON list of the paths of a batch.\<close>

datatype access_path = OnePath string | ManyPaths "string list"

record access_row =
  aq_confirm :: string
  aq_session :: string
  aq_run :: string
  aq_path :: access_path
  aq_kind :: string
  aq_reason :: string
  aq_reason_key :: string
  aq_decision :: "string option"

record access_card =
  cd_confirm :: string
  cd_path :: string
  cd_paths :: "string list option"
  cd_kind :: string
  cd_reason :: string
  cd_reason_key :: string

record acc_ctx =
  a_session :: string
  a_run :: string
  a_conn :: conn_id
  a_run_ctx :: string
  a_realpath :: "string \<Rightarrow> string option"
  a_isfile :: "string \<Rightarrow> bool"

text \<open>
  A pending request is its key and whether its future was cancelled: a task that is cancelled while it awaits the
  future cancels the future itself.
\<close>

record acc_state =
  ac_mgr :: confirm_mgr
  ac_visible :: "visible_row list"
  ac_requests :: "access_row list"
  ac_pending :: "((string \<times> string) \<times> bool) list"
  ac_denied :: "(string \<times> string) list"
  ac_perm :: perm_state
  ac_cards :: "access_card list"
  ac_audit :: "(string \<times> string list) list"

section \<open>Operations\<close>

definition REASON :: "(string \<times> string) list" where
  "REASON = [(''list'', ''Needs to browse this folder''), (''read'', ''Needs to read files inside''),
     (''write'', ''Needs to create or modify files inside''), (''search'', ''Needs to search its contents'')]"

definition DEFAULT_REASON :: string where
  "DEFAULT_REASON = ''Needs access to this path to complete your request''"

definition reason_of :: "string \<Rightarrow> string \<times> string" where
  "reason_of op = (case map_of REASON op of Some r \<Rightarrow> (r, op) | None \<Rightarrow> (DEFAULT_REASON, ''default''))"

definition reset_state :: "acc_state \<Rightarrow> acc_state" where
  "reset_state st = st\<lparr>ac_pending := [], ac_denied := []\<rparr>"

definition clear_denied_for_session :: "string \<Rightarrow> acc_state \<Rightarrow> acc_state" where
  "clear_denied_for_session sid st = st\<lparr>ac_denied := filter (\<lambda>k. fst k \<noteq> sid) (ac_denied st)\<rparr>"

definition insert_visible_resource :: "acc_ctx \<Rightarrow> int \<Rightarrow> string \<Rightarrow> string \<Rightarrow> acc_state \<Rightarrow> acc_state" where
  "insert_visible_resource ctx now path kind st =
     st\<lparr>ac_visible := insert_visible (ac_visible st)
        \<lparr>vr_session = a_session ctx, vr_path = path, vr_kind = kind, vr_added_at = now\<rparr>\<rparr>"

definition record_request :: "acc_ctx \<Rightarrow> string \<Rightarrow> access_path \<Rightarrow> string \<Rightarrow> string \<Rightarrow> string \<Rightarrow> acc_state \<Rightarrow> acc_state" where
  "record_request ctx cid path kind reason reason_key st =
     st\<lparr>ac_requests := ac_requests st @ [\<lparr>aq_confirm = cid, aq_session = a_session ctx, aq_run = a_run ctx,
        aq_path = path, aq_kind = kind, aq_reason = reason, aq_reason_key = reason_key, aq_decision = None\<rparr>]\<rparr>"

definition record_decision :: "string \<Rightarrow> string \<Rightarrow> acc_state \<Rightarrow> acc_state" where
  "record_decision cid decision st =
     st\<lparr>ac_requests := map (\<lambda>r. if aq_confirm r = cid then r\<lparr>aq_decision := Some decision\<rparr> else r) (ac_requests st)\<rparr>"

definition infer_kind :: "acc_ctx \<Rightarrow> string \<Rightarrow> string" where
  "infer_kind ctx path = (if a_isfile ctx path then ''file'' else ''folder'')"

definition policy_auto_grants :: "acc_ctx \<Rightarrow> string list \<Rightarrow> acc_state \<Rightarrow> bool \<times> acc_state" where
  "policy_auto_grants ctx paths st =
     (case auto_approve (a_conn ctx) ''grant_access'' [] None (a_run_ctx ctx) (ac_perm st) of
        (ok, p) \<Rightarrow> (ok \<and> paths_policy_grantable (a_realpath ctx) (PList (map PStr paths)), st\<lparr>ac_perm := p\<rparr>))"

definition insert_all :: "acc_ctx \<Rightarrow> int \<Rightarrow> string list \<Rightarrow> acc_state \<Rightarrow> acc_state" where
  "insert_all ctx now paths st = fold (\<lambda>p. insert_visible_resource ctx now p (infer_kind ctx p)) paths st"

definition auto_grant :: "acc_ctx \<Rightarrow> string \<Rightarrow> int \<Rightarrow> string list \<Rightarrow> string \<Rightarrow> string \<times> string \<Rightarrow> acc_state \<Rightarrow> acc_state" where
  "auto_grant ctx cid now paths kind_hint reason st =
     (let field = (case paths of [p] \<Rightarrow> OnePath p | _ \<Rightarrow> ManyPaths paths);
          st1 = record_decision cid ''granted''
                  (record_request ctx cid field kind_hint (fst reason) (snd reason) st);
          st2 = insert_all ctx now paths st1
      in st2\<lparr>ac_audit := ac_audit st2 @ [(a_session ctx, paths)]\<rparr>)"

text \<open>
  \<open>request_access\<close> up to its first suspension: it returns, awaits the future of the request in flight (and raises
  at once when that was cancelled), or has shown a card and waits for the answer.
\<close>

datatype begun = Returned bool | Joined | BrokenFuture | Asked

definition show_card :: "acc_ctx \<Rightarrow> string \<Rightarrow> int \<Rightarrow> string \<Rightarrow> access_path \<Rightarrow> string list option \<Rightarrow> string \<Rightarrow> string \<times> string \<Rightarrow>
    acc_state \<Rightarrow> acc_state" where
  "show_card ctx cid now path field paths kind reason st =
     (let st1 = record_request ctx cid field kind (fst reason) (snd reason)
                  (st\<lparr>ac_mgr := register (ac_mgr st) cid now (a_session ctx) ''grant_access'' path []\<rparr>)
      in st1\<lparr>ac_cards := ac_cards st1 @ [\<lparr>cd_confirm = cid, cd_path = path, cd_paths = paths, cd_kind = kind,
           cd_reason = fst reason, cd_reason_key = snd reason\<rparr>]\<rparr>)"

definition request_access :: "acc_ctx \<Rightarrow> string \<Rightarrow> int \<Rightarrow> string \<Rightarrow> string \<Rightarrow> string \<Rightarrow> acc_state \<Rightarrow> begun \<times> acc_state" where
  "request_access ctx cid now path kind op st =
     (let key = (a_session ctx, path)
      in if key \<in> set (ac_denied st) then (Returned False, st)
         else case map_of (ac_pending st) key of
             Some broken \<Rightarrow> (if broken then BrokenFuture else Joined, st)
           | None \<Rightarrow> (case policy_auto_grants ctx [path] st of
               (True, st1) \<Rightarrow> (Returned True, auto_grant ctx cid now [path] kind (reason_of op) st1)
             | (False, st1) \<Rightarrow>
                 (Asked, show_card ctx cid now path (OnePath path) None kind (reason_of op)
                           (st1\<lparr>ac_pending := (key, False) # ac_pending st1\<rparr>))))"

text \<open>
  The rest of it, once the manager's \<open>wait\<close> ends; \<open>None\<close> is the exception that propagates. The future is
  resolved in every case, so whoever awaits it goes on.
\<close>

definition request_done :: "acc_ctx \<Rightarrow> string \<Rightarrow> int \<Rightarrow> string \<Rightarrow> string \<Rightarrow> wake \<Rightarrow> acc_state \<Rightarrow> bool option \<times> acc_state" where
  "request_done ctx cid now path kind w st =
     (case wait (ac_mgr st) cid w of (granted, m) \<Rightarrow>
        let key = (a_session ctx, path);
            st1 = st\<lparr>ac_mgr := m\<rparr>;
            st2 = (case granted of
                None \<Rightarrow> record_decision cid ''cancelled'' st1
              | Some True \<Rightarrow> insert_visible_resource ctx now path kind (record_decision cid ''granted'' st1)
              | Some False \<Rightarrow> (let s = record_decision cid ''denied'' st1 in s\<lparr>ac_denied := key # ac_denied s\<rparr>))
        in (granted, st2\<lparr>ac_pending := ddel key (ac_pending st2)\<rparr>))"

text \<open>\<open>request_access_batch\<close>; without a confirmation manager (\<open>interactive\<close>) nothing is granted.\<close>

definition request_access_batch ::
  "bool \<Rightarrow> acc_ctx \<Rightarrow> string \<Rightarrow> int \<Rightarrow> string list \<Rightarrow> string \<Rightarrow> acc_state \<Rightarrow> begun \<times> acc_state" where
  "request_access_batch interactive ctx cid now paths op st =
     (if paths = [] then (Returned True, st)
      else if \<not> interactive then (Returned False, st)
      else case policy_auto_grants ctx paths st of
          (True, st1) \<Rightarrow> (Returned True, auto_grant ctx cid now paths ''folder'' (reason_of op) st1)
        | (False, st1) \<Rightarrow> (Asked, show_card ctx cid now (hd paths) (ManyPaths paths) (Some paths) ''folder'' (reason_of op) st1))"

definition batch_done :: "acc_ctx \<Rightarrow> string \<Rightarrow> int \<Rightarrow> string list \<Rightarrow> wake \<Rightarrow> acc_state \<Rightarrow> bool option \<times> acc_state" where
  "batch_done ctx cid now paths w st =
     (case wait (ac_mgr st) cid w of (granted, m) \<Rightarrow>
        let st1 = st\<lparr>ac_mgr := m\<rparr>
        in (granted, case granted of
             None \<Rightarrow> record_decision cid ''cancelled'' st1
           | Some True \<Rightarrow> insert_all ctx now paths (record_decision cid ''granted'' st1)
           | Some False \<Rightarrow> record_decision cid ''denied'' st1))"

section \<open>The requests as a state machine\<close>

text \<open>
  A parked coroutine waits for its own card, alone or for a batch, or for the future of a request in flight.
\<close>

datatype parked =
    Single string acc_ctx string string
  | Batch string acc_ctx "string list"
  | Joiner string string

fun owner_key :: "parked \<Rightarrow> (string \<times> string) list" where
  "owner_key (Single _ ctx path _) = [(a_session ctx, path)]"
| "owner_key _ = []"

fun card_id :: "parked \<Rightarrow> string list" where
  "card_id (Single cid _ _ _) = [cid]"
| "card_id (Batch cid _ _) = [cid]"
| "card_id (Joiner _ _) = []"

fun parked_session :: "parked \<Rightarrow> string" where
  "parked_session (Single _ ctx _ _) = a_session ctx"
| "parked_session (Batch _ ctx _) = a_session ctx"
| "parked_session (Joiner sid _) = sid"

definition owner_keys :: "parked list \<Rightarrow> (string \<times> string) list" where
  "owner_keys ps = concat (map owner_key ps)"

definition card_ids :: "parked list \<Rightarrow> string list" where
  "card_ids ps = concat (map card_id ps)"

definition unused_id :: "string \<Rightarrow> acc_state \<Rightarrow> bool" where
  "unused_id cid st \<longleftrightarrow> fresh_id (ac_mgr st) cid \<and> cid \<notin> aq_confirm ` set (ac_requests st)"

definition can_wake :: "acc_state \<Rightarrow> string \<Rightarrow> wake \<Rightarrow> bool" where
  "can_wake st cid w \<longleftrightarrow> (\<exists>p. map_of (pending (ac_mgr st)) cid = Some p \<and>
     (w = Fired \<longrightarrow> p_set p) \<and> (w = TimedOut \<longrightarrow> \<not> p_set p))"

definition leave :: "parked \<Rightarrow> parked list \<Rightarrow> parked list" where
  "leave x ps = filter (\<lambda>y. y \<noteq> x \<and> (\<forall>k\<in>set (owner_key x). y \<noteq> Joiner (fst k) (snd k))) ps"

datatype acc_label = LRequest | LWake | LClear string | LOther

type_synonym machine = "acc_state \<times> parked list"

inductive acc_step :: "acc_label \<Rightarrow> machine \<Rightarrow> machine \<Rightarrow> bool" where
  ask: "unused_id cid st \<Longrightarrow> request_access ctx cid now path kind op st = (r, st') \<Longrightarrow>
     ps' = (case r of Asked \<Rightarrow> Single cid ctx path kind # ps | Joined \<Rightarrow> Joiner (a_session ctx) path # ps | _ \<Rightarrow> ps) \<Longrightarrow>
     acc_step LRequest (st, ps) (st', ps')"
| ask_batch: "unused_id cid st \<Longrightarrow> request_access_batch interactive ctx cid now paths op st = (r, st') \<Longrightarrow>
     ps' = (if r = Asked then Batch cid ctx paths # ps else ps) \<Longrightarrow>
     acc_step LRequest (st, ps) (st', ps')"
| woken: "Single cid ctx path kind \<in> set ps \<Longrightarrow> can_wake st cid w \<Longrightarrow>
     request_done ctx cid now path kind w st = (r, st') \<Longrightarrow>
     acc_step LWake (st, ps) (st', leave (Single cid ctx path kind) ps)"
| batch_woken: "Batch cid ctx paths \<in> set ps \<Longrightarrow> can_wake st cid w \<Longrightarrow>
     batch_done ctx cid now paths w st = (r, st') \<Longrightarrow>
     acc_step LWake (st, ps) (st', leave (Batch cid ctx paths) ps)"
| joiner_cancelled: "Joiner sid path \<in> set ps \<Longrightarrow>
     acc_step LOther (st, ps) (st\<lparr>ac_pending := dput (sid, path) True (ac_pending st)\<rparr>, filter (\<lambda>y. y \<noteq> Joiner sid path) ps)"
| new_turn: "acc_step (LClear sid) (st, ps) (clear_denied_for_session sid st, ps)"
| manager: "confirm_step True (ac_mgr st) m \<Longrightarrow> (\<forall>cid\<in>set (card_ids ps). map_of (pending m) cid \<noteq> None) \<Longrightarrow>
     acc_step LOther (st, ps) (st\<lparr>ac_mgr := m\<rparr>, ps)"
| settings: "acc_step LOther (st, ps) (st\<lparr>ac_perm := q\<rparr>, ps)"

inductive acc_steps :: "acc_label list \<Rightarrow> machine \<Rightarrow> machine \<Rightarrow> bool" where
  stay: "acc_steps [] x x"
| more: "acc_step l x y \<Longrightarrow> acc_steps ls y z \<Longrightarrow> acc_steps (l # ls) x z"

definition acc_init :: "visible_row list \<Rightarrow> perm_state \<Rightarrow> acc_state" where
  "acc_init vis perm = \<lparr>ac_mgr = mgr_init, ac_visible = vis, ac_requests = [], ac_pending = [], ac_denied = [],
     ac_perm = perm, ac_cards = [], ac_audit = []\<rparr>"

definition acc_reach :: "machine \<Rightarrow> bool" where
  "acc_reach x \<longleftrightarrow> (\<exists>ls vis perm. acc_steps ls (acc_init vis perm, []) x)"

section \<open>What each operation touches\<close>

lemma clear_denied_simps [simp]:
  "ac_mgr (clear_denied_for_session sid st) = ac_mgr st" "ac_visible (clear_denied_for_session sid st) = ac_visible st"
  "ac_requests (clear_denied_for_session sid st) = ac_requests st"
  "ac_pending (clear_denied_for_session sid st) = ac_pending st"
  "k \<in> set (ac_denied (clear_denied_for_session sid st)) \<longleftrightarrow> k \<in> set (ac_denied st) \<and> fst k \<noteq> sid"
  by (auto simp: clear_denied_for_session_def)

lemma insert_resource_simps [simp]:
  "ac_mgr (insert_visible_resource ctx now path kind st) = ac_mgr st"
  "ac_requests (insert_visible_resource ctx now path kind st) = ac_requests st"
  "ac_pending (insert_visible_resource ctx now path kind st) = ac_pending st"
  "ac_denied (insert_visible_resource ctx now path kind st) = ac_denied st"
  by (simp_all add: insert_visible_resource_def)

lemma insert_resource_visible:
  "v \<in> set (ac_visible (insert_visible_resource ctx now path kind st)) \<Longrightarrow>
   v \<in> set (ac_visible st) \<or> vr_session v = a_session ctx \<and> vr_path v = path"
  by (auto simp: insert_visible_resource_def insert_visible_def split: if_splits)

lemma insert_all_simps [simp]:
  "ac_mgr (insert_all ctx now paths st) = ac_mgr st" "ac_requests (insert_all ctx now paths st) = ac_requests st"
  "ac_pending (insert_all ctx now paths st) = ac_pending st" "ac_denied (insert_all ctx now paths st) = ac_denied st"
  unfolding insert_all_def by (induction paths arbitrary: st) simp_all

lemma insert_all_visible:
  "v \<in> set (ac_visible (insert_all ctx now paths st)) \<Longrightarrow>
   v \<in> set (ac_visible st) \<or> vr_session v = a_session ctx \<and> vr_path v \<in> set paths"
  unfolding insert_all_def
proof (induction paths arbitrary: st)
  case (Cons p ps)
  then show ?case using insert_resource_visible by fastforce
qed simp

lemma record_request_simps [simp]:
  "ac_mgr (record_request ctx cid fld kind r k st) = ac_mgr st"
  "ac_visible (record_request ctx cid fld kind r k st) = ac_visible st"
  "ac_pending (record_request ctx cid fld kind r k st) = ac_pending st"
  "ac_denied (record_request ctx cid fld kind r k st) = ac_denied st"
  "map aq_confirm (ac_requests (record_request ctx cid fld kind r k st)) = map aq_confirm (ac_requests st) @ [cid]"
  by (simp_all add: record_request_def)

lemma record_decision_simps [simp]:
  "ac_mgr (record_decision cid d st) = ac_mgr st" "ac_visible (record_decision cid d st) = ac_visible st"
  "ac_pending (record_decision cid d st) = ac_pending st" "ac_denied (record_decision cid d st) = ac_denied st"
  "map aq_confirm (ac_requests (record_decision cid d st)) = map aq_confirm (ac_requests st)"
  by (simp_all add: record_decision_def comp_def if_distrib [of aq_confirm] cong: if_cong)

lemma policy_auto_grants_simps:
  assumes "policy_auto_grants ctx paths st = (ok, st1)"
  shows "\<exists>p. st1 = st\<lparr>ac_perm := p\<rparr>"
    and "ok \<longleftrightarrow> fst (auto_approve (a_conn ctx) ''grant_access'' [] None (a_run_ctx ctx) (ac_perm st)) \<and>
      paths_policy_grantable (a_realpath ctx) (PList (map PStr paths))"
  using assms by (auto simp: policy_auto_grants_def split: prod.splits)

text \<open>The table of requests: the confirmations it names, and which of them are open.\<close>

definition row_ids :: "acc_state \<Rightarrow> string list" where
  "row_ids st = map aq_confirm (ac_requests st)"

definition open_ids :: "acc_state \<Rightarrow> string set" where
  "open_ids st = set (map aq_confirm (filter (\<lambda>r. aq_decision r = None) (ac_requests st)))"

lemma row_ids_simps [simp]:
  "row_ids (record_request ctx cid fld kind r k st) = row_ids st @ [cid]"
  "row_ids (record_decision cid d st) = row_ids st"
  "row_ids (insert_visible_resource ctx now path kind st) = row_ids st" "row_ids (insert_all ctx now paths st) = row_ids st"
  by (simp_all add: row_ids_def)

lemma open_ids_simps [simp]:
  "open_ids (record_request ctx cid fld kind r k st) = insert cid (open_ids st)"
  "open_ids (record_decision cid d st) = open_ids st - {cid}"
  "open_ids (insert_visible_resource ctx now path kind st) = open_ids st" "open_ids (insert_all ctx now paths st) = open_ids st"
proof -
  show "open_ids (record_request ctx cid fld kind r k st) = insert cid (open_ids st)"
    by (simp add: open_ids_def record_request_def)
  have "aq_confirm ` {x \<in> set (map (\<lambda>r. if aq_confirm r = cid then r\<lparr>aq_decision := Some d\<rparr> else r) rs). aq_decision x = None} =
      aq_confirm ` {x \<in> set rs. aq_decision x = None} - {cid}" for rs
    by (induction rs) (auto simp: image_iff)
  then show "open_ids (record_decision cid d st) = open_ids st - {cid}"
    by (simp add: open_ids_def record_decision_def)
qed (simp_all add: open_ids_def)

section \<open>The invariant\<close>

text \<open>
  The invariant: the parked owners of single requests are exactly the pending keys, once each; the requests without a
  decision are exactly those whose card is out; and every card is pending in the manager for its own session.
\<close>

definition acc_inv :: "machine \<Rightarrow> bool" where
  "acc_inv x \<longleftrightarrow> (case x of (st, ps) \<Rightarrow>
     mgr_inv True (ac_mgr st) \<and>
     distinct (map fst (ac_pending st)) \<and> distinct (owner_keys ps) \<and> distinct (card_ids ps) \<and>
     fst ` set (ac_pending st) = set (owner_keys ps) \<and>
     (\<forall>s p. Joiner s p \<in> set ps \<longrightarrow> (s, p) \<in> set (owner_keys ps)) \<and>
     open_ids st = set (card_ids ps) \<and> distinct (row_ids st) \<and>
     (\<forall>y\<in>set ps. \<forall>cid\<in>set (card_id y).
        \<exists>p. map_of (pending (ac_mgr st)) cid = Some p \<and> p_session p = parked_session y))"

lemma concat_map_disjoint:
  assumes "distinct (concat (map f xs))" "x \<in> set xs" "y \<in> set xs" "x \<noteq> y" "k \<in> set (f x)"
  shows "k \<notin> set (f y)"
  using assms by (induction xs) auto

lemma distinct_concat_filter: "distinct (concat (map f xs)) \<Longrightarrow> distinct (concat (map f (filter P xs)))"
  by (induction xs) auto

lemma keys_simps [simp]:
  "owner_keys [] = []" "owner_keys (x # ps) = owner_key x @ owner_keys ps"
  "card_ids [] = []" "card_ids (x # ps) = card_id x @ card_ids ps"
  by (simp_all add: owner_keys_def card_ids_def)

lemma in_owner_keys: "k \<in> set (owner_keys ps) \<longleftrightarrow> (\<exists>y\<in>set ps. k \<in> set (owner_key y))"
  by (simp add: owner_keys_def)

lemma owner_key_single: "k \<in> set (owner_key x) \<longleftrightarrow> owner_key x = [k]"
  by (cases x) auto

lemma card_id_single: "i \<in> set (card_id x) \<longleftrightarrow> card_id x = [i]"
  by (cases x) auto

lemma in_card_ids: "c \<in> set (card_ids ps) \<longleftrightarrow> (\<exists>y\<in>set ps. c \<in> set (card_id y))"
  by (simp add: card_ids_def)

lemma leave_set: "set (leave x ps) \<subseteq> set ps"
  by (auto simp: leave_def)

lemma leave_distinct:
  "distinct (owner_keys ps) \<Longrightarrow> distinct (owner_keys (leave x ps))"
  "distinct (card_ids ps) \<Longrightarrow> distinct (card_ids (leave x ps))"
  unfolding owner_keys_def card_ids_def leave_def by (rule distinct_concat_filter, assumption)+

lemma leave_owner_keys:
  assumes "distinct (owner_keys ps)" "x \<in> set ps"
  shows "set (owner_keys (leave x ps)) = set (owner_keys ps) - set (owner_key x)"
proof (intro set_eqI)
  fix k
  have "y \<in> set (leave x ps)" if "y \<in> set ps" "y \<noteq> x" "k \<in> set (owner_key y)" for y
    using that by (cases y) (auto simp: leave_def)
  moreover have "k \<notin> set (owner_key x)" if "y \<in> set ps" "y \<noteq> x" "k \<in> set (owner_key y)" for y
    using concat_map_disjoint [OF assms(1) [unfolded owner_keys_def] that(1) assms(2) that(2,3)] .
  moreover have "x \<notin> set (leave x ps)" by (simp add: leave_def)
  ultimately show "k \<in> set (owner_keys (leave x ps)) \<longleftrightarrow> k \<in> set (owner_keys ps) - set (owner_key x)"
    using leave_set [of x ps] unfolding in_owner_keys Diff_iff by (metis subset_iff)
qed

lemma leave_card_ids:
  assumes "distinct (card_ids ps)" "x \<in> set ps"
  shows "set (card_ids (leave x ps)) = set (card_ids ps) - set (card_id x)"
proof (intro set_eqI)
  fix k
  have "y \<in> set (leave x ps)" if "y \<in> set ps" "y \<noteq> x" "k \<in> set (card_id y)" for y
    using that by (cases y) (auto simp: leave_def)
  moreover have "k \<notin> set (card_id x)" if "y \<in> set ps" "y \<noteq> x" "k \<in> set (card_id y)" for y
    using concat_map_disjoint [OF assms(1) [unfolded card_ids_def] that(1) assms(2) that(2,3)] .
  moreover have "x \<notin> set (leave x ps)" by (simp add: leave_def)
  ultimately show "k \<in> set (card_ids (leave x ps)) \<longleftrightarrow> k \<in> set (card_ids ps) - set (card_id x)"
    using leave_set [of x ps] unfolding in_card_ids Diff_iff by (metis subset_iff)
qed

lemma acc_invI:
  assumes "mgr_inv True (ac_mgr st)" "distinct (map fst (ac_pending st))" "distinct (owner_keys ps)"
    "distinct (card_ids ps)" "fst ` set (ac_pending st) = set (owner_keys ps)"
    "\<And>s p. Joiner s p \<in> set ps \<Longrightarrow> (s, p) \<in> set (owner_keys ps)"
    "open_ids st = set (card_ids ps)" "distinct (row_ids st)"
    "\<And>y cid. y \<in> set ps \<Longrightarrow> cid \<in> set (card_id y) \<Longrightarrow>
       \<exists>p. map_of (pending (ac_mgr st)) cid = Some p \<and> p_session p = parked_session y"
  shows "acc_inv (st, ps)"
  unfolding acc_inv_def using assms by simp

lemma acc_invD:
  assumes "acc_inv (st, ps)"
  shows "mgr_inv True (ac_mgr st)" "distinct (map fst (ac_pending st))" "distinct (owner_keys ps)"
    "distinct (card_ids ps)" "fst ` set (ac_pending st) = set (owner_keys ps)"
    "Joiner s p \<in> set ps \<Longrightarrow> (s, p) \<in> set (owner_keys ps)"
    "open_ids st = set (card_ids ps)" "distinct (row_ids st)"
    "y \<in> set ps \<Longrightarrow> cid \<in> set (card_id y) \<Longrightarrow>
       \<exists>p. map_of (pending (ac_mgr st)) cid = Some p \<and> p_session p = parked_session y"
  using assms unfolding acc_inv_def by auto

text \<open>A waker leaves the manager without its own confirmation and with all others.\<close>

lemma wait_pending:
  assumes "wait m cid w = (r, m')" "map_of (pending m) cid \<noteq> None"
  shows "map_of (pending m') = (map_of (pending m))(cid := None)"
  using assms by (auto simp: wait_def cleanup_def split: wake.splits)

lemma wait_answered:
  assumes "mgr_inv True m" "wait m cid w = (Some True, m')" "map_of (pending m) cid = Some p"
  shows "answered m cid (p_session p)"
  using assms by (auto simp: wait_def mgr_inv_def split: wake.splits)

text \<open>The manager's own steps keep the session of what stays pending.\<close>

lemma confirm_step_session:
  assumes "confirm_step True m m'" "map_of (pending m) cid = Some p" "map_of (pending m') cid = Some q"
  shows "p_session q = p_session p"
  using assms
proof (induction rule: confirm_step.induct)
  case (reg m i now sid a d c)
  then show ?case by (auto simp: register_def fresh_id_def split: if_splits)
next
  case (ans m i confirmed remember expected action content source m')
  from ans(1) obtain p' where "map_of (pending m) i = Some p'" "pending m' = dput i (p'\<lparr>p_set := True\<rparr>) (pending m)"
    by (rule resolve_cases)
  with ans show ?case by (auto split: if_splits)
next
  case (stop m sid n m')
  then have "map_of (pending m') cid = (if cid \<in> set (session_ids m sid)
      then map_option (\<lambda>p. p\<lparr>p_set := True\<rparr>) (map_of (pending m) cid) else map_of (pending m) cid)"
    by (auto simp: cancel_session_def foldl_cancel_pending)
  with stop show ?case by (auto split: if_splits)
next
  case (woken m i p' r m')
  then show ?case using wait_pending [OF woken(3)] by (auto split: if_splits)
next
  case (expired m i p' r m')
  then show ?case using wait_pending [OF expired(3)] by (auto split: if_splits)
next
  case (elicited m i p' w t a m')
  then show ?case by (auto simp: wait_elicit_def Let_def forget_answer_def cleanup_def split: if_splits)
next
  case (elicit_expired m i p' t a m')
  then show ?case by (auto simp: wait_elicit_def Let_def forget_answer_def cleanup_def split: if_splits)
next
  case (tick m i b m')
  then show ?case by (auto simp: consume_remember_def)
qed

text \<open>How a request begins: it answers from memory, joins, is granted by policy, or shows its card.\<close>

definition policy_grants :: "acc_ctx \<Rightarrow> string list \<Rightarrow> perm_state \<Rightarrow> bool" where
  "policy_grants ctx paths p \<longleftrightarrow> fst (auto_approve (a_conn ctx) ''grant_access'' [] None (a_run_ctx ctx) p) \<and>
     paths_policy_grantable (a_realpath ctx) (PList (map PStr paths))"

lemma policy_auto_grants_cases:
  obtains q where "policy_auto_grants ctx paths st = (policy_grants ctx paths (ac_perm st), st\<lparr>ac_perm := q\<rparr>)"
  using that by (cases "auto_approve (a_conn ctx) ''grant_access'' [] None (a_run_ctx ctx) (ac_perm st)")
    (auto simp: policy_auto_grants_def policy_grants_def)

lemma request_access_cases:
  assumes "request_access ctx cid now path kind op st = (r, st')"
  obtains (memory) "st' = st" "r = Returned False" "(a_session ctx, path) \<in> set (ac_denied st)"
  | (join) "st' = st" "r \<in> {Joined, BrokenFuture}" "(a_session ctx, path) \<in> fst ` set (ac_pending st)"
  | (policy) q where "r = Returned True" "policy_grants ctx [path] (ac_perm st)"
      "st' = auto_grant ctx cid now [path] kind (reason_of op) (st\<lparr>ac_perm := q\<rparr>)"
  | (card) q where "r = Asked" "(a_session ctx, path) \<notin> fst ` set (ac_pending st)"
      "(a_session ctx, path) \<notin> set (ac_denied st)"
      "st' = show_card ctx cid now path (OnePath path) None kind (reason_of op)
         (st\<lparr>ac_perm := q, ac_pending := ((a_session ctx, path), False) # ac_pending st\<rparr>)"
proof (cases "(a_session ctx, path) \<in> set (ac_denied st)")
  case True
  with assms memory show ?thesis by (simp add: request_access_def)
next
  case nd: False
  show ?thesis
  proof (cases "map_of (ac_pending st) (a_session ctx, path)")
    case None
    then have np: "(a_session ctx, path) \<notin> fst ` set (ac_pending st)" by (simp add: map_of_eq_None_iff)
    obtain q where q: "policy_auto_grants ctx [path] st = (policy_grants ctx [path] (ac_perm st), st\<lparr>ac_perm := q\<rparr>)"
      by (rule policy_auto_grants_cases)
    show ?thesis
    proof (cases "policy_grants ctx [path] (ac_perm st)")
      case True
      with assms nd None q policy show ?thesis by (auto simp: request_access_def)
    next
      case False
      with assms nd None q np card [of q] show ?thesis by (auto simp: request_access_def)
    qed
  next
    case (Some b)
    then have "(a_session ctx, path) \<in> fst ` set (ac_pending st)" by (metis fst_conv image_eqI map_of_SomeD)
    with assms nd Some join show ?thesis by (auto simp: request_access_def split: if_splits)
  qed
qed

lemma request_access_batch_cases:
  assumes "request_access_batch interactive ctx cid now paths op st = (r, st')"
  obtains (plain) "st' = st" "r \<noteq> Asked"
  | (policy) q where "r = Returned True" "policy_grants ctx paths (ac_perm st)"
      "st' = auto_grant ctx cid now paths ''folder'' (reason_of op) (st\<lparr>ac_perm := q\<rparr>)"
  | (card) q where "r = Asked"
      "st' = show_card ctx cid now (hd paths) (ManyPaths paths) (Some paths) ''folder'' (reason_of op) (st\<lparr>ac_perm := q\<rparr>)"
proof -
  obtain q where q: "policy_auto_grants ctx paths st = (policy_grants ctx paths (ac_perm st), st\<lparr>ac_perm := q\<rparr>)"
    by (rule policy_auto_grants_cases)
  show ?thesis
  proof (cases "paths = [] \<or> \<not> interactive")
    case True
    with assms plain show ?thesis by (auto simp: request_access_batch_def split: if_splits)
  next
    case False
    with assms q policy [of q] card [of q] show ?thesis
      by (cases "policy_grants ctx paths (ac_perm st)") (auto simp: request_access_batch_def)
  qed
qed

lemma ids_update [simp]:
  "row_ids (st\<lparr>ac_perm := q\<rparr>) = row_ids st" "open_ids (st\<lparr>ac_perm := q\<rparr>) = open_ids st"
  "row_ids (st\<lparr>ac_pending := d\<rparr>) = row_ids st" "open_ids (st\<lparr>ac_pending := d\<rparr>) = open_ids st"
  "row_ids (st\<lparr>ac_mgr := m\<rparr>) = row_ids st" "open_ids (st\<lparr>ac_mgr := m\<rparr>) = open_ids st"
  "row_ids (st\<lparr>ac_denied := e\<rparr>) = row_ids st" "open_ids (st\<lparr>ac_denied := e\<rparr>) = open_ids st"
  "row_ids (st\<lparr>ac_cards := cs\<rparr>) = row_ids st" "open_ids (st\<lparr>ac_cards := cs\<rparr>) = open_ids st"
  "row_ids (st\<lparr>ac_audit := au\<rparr>) = row_ids st" "open_ids (st\<lparr>ac_audit := au\<rparr>) = open_ids st"
  "row_ids (clear_denied_for_session sid st) = row_ids st" "open_ids (clear_denied_for_session sid st) = open_ids st"
  by (simp_all add: row_ids_def open_ids_def)

lemma auto_grant_simps [simp]:
  "ac_mgr (auto_grant ctx cid now paths k r st) = ac_mgr st"
  "ac_pending (auto_grant ctx cid now paths k r st) = ac_pending st"
  "ac_denied (auto_grant ctx cid now paths k r st) = ac_denied st"
  "row_ids (auto_grant ctx cid now paths k r st) = row_ids st @ [cid]"
  "open_ids (auto_grant ctx cid now paths k r st) = open_ids st - {cid}"
  by (simp_all add: auto_grant_def Let_def insert_Diff_if)

lemma show_card_simps [simp]:
  "ac_mgr (show_card ctx cid now path f ps k r st) = register (ac_mgr st) cid now (a_session ctx) ''grant_access'' path []"
  "ac_visible (show_card ctx cid now path f ps k r st) = ac_visible st"
  "ac_pending (show_card ctx cid now path f ps k r st) = ac_pending st"
  "ac_denied (show_card ctx cid now path f ps k r st) = ac_denied st"
  "row_ids (show_card ctx cid now path f ps k r st) = row_ids st @ [cid]"
  "open_ids (show_card ctx cid now path f ps k r st) = insert cid (open_ids st)"
  by (simp_all add: show_card_def Let_def)

lemma open_ids_rows: "open_ids st \<subseteq> set (row_ids st)"
  by (auto simp: open_ids_def row_ids_def)

lemma unused_idD:
  assumes "unused_id cid st" "acc_inv (st, ps)"
  shows "cid \<notin> set (row_ids st)" "cid \<notin> open_ids st" "cid \<notin> set (card_ids ps)" "map_of (pending (ac_mgr st)) cid = None"
proof -
  show r: "cid \<notin> set (row_ids st)" "map_of (pending (ac_mgr st)) cid = None"
    using assms(1) by (simp_all add: unused_id_def row_ids_def fresh_id_def)
  then show "cid \<notin> open_ids st" using open_ids_rows by blast
  then show "cid \<notin> set (card_ids ps)" using acc_invD(7) [OF assms(2)] by simp
qed

lemma register_session:
  "map_of (pending (register m cid now sid a d c)) i = (if i = cid then Some \<lparr>p_session = sid, p_set = False\<rparr> else map_of (pending m) i)"
  by (simp add: register_def)

lemma card_inv:
  assumes "acc_inv (st, ps)" "unused_id cid st" "distinct (owner_key x @ owner_keys ps)" "card_id x = [cid]"
    "parked_session x = a_session ctx" "\<And>s p. x \<noteq> Joiner s p" "ac_mgr st1 = ac_mgr st" "row_ids st1 = row_ids st"
    "open_ids st1 = open_ids st" "distinct (map fst (ac_pending st1))"
    "fst ` set (ac_pending st1) = set (owner_key x) \<union> fst ` set (ac_pending st)"
  shows "acc_inv (show_card ctx cid now path f bs k r st1, x # ps)"
proof (rule acc_invI)
  note D = acc_invD [OF assms(1)] and u = unused_idD [OF assms(2,1)]
  show "mgr_inv True (ac_mgr (show_card ctx cid now path f bs k r st1))"
    using D(1) assms(2) by (simp add: assms(7) register_inv unused_id_def)
  show "fst ` set (ac_pending (show_card ctx cid now path f bs k r st1)) = set (owner_keys (x # ps))"
    using assms(11) D(5) by simp
  show "(s, p) \<in> set (owner_keys (x # ps))" if "Joiner s p \<in> set (x # ps)" for s p
    using that D(6) assms(6) by auto
  fix y i assume y: "y \<in> set (x # ps)" "i \<in> set (card_id y)"
  show "\<exists>p. map_of (pending (ac_mgr (show_card ctx cid now path f bs k r st1))) i = Some p \<and> p_session p = parked_session y"
  proof (cases "y = x")
    case True
    with y(2) show ?thesis using assms(4,5) by (simp add: register_session)
  next
    case False
    with y D(9) have "\<exists>p. map_of (pending (ac_mgr st)) i = Some p \<and> p_session p = parked_session y" by simp
    with u(4) show ?thesis by (auto simp: assms(7) register_session)
  qed
qed (use acc_invD [OF assms(1)] unused_idD [OF assms(2,1)] assms in simp_all)

lemma auto_grant_inv:
  assumes "acc_inv (st, ps)" "unused_id cid st"
  shows "acc_inv (auto_grant ctx cid now paths k r (st\<lparr>ac_perm := q\<rparr>), ps)"
  using acc_invD [OF assms(1)] unused_idD [OF assms(2,1)] by (intro acc_invI) simp_all

lemma request_done_facts:
  assumes "request_done ctx cid now path kind w st = (r, st')" "map_of (pending (ac_mgr st)) cid \<noteq> None"
  shows "\<exists>m. wait (ac_mgr st) cid w = (r, m) \<and> ac_mgr st' = m"
    and "map_of (pending (ac_mgr st')) = (map_of (pending (ac_mgr st)))(cid := None)"
    and "ac_pending st' = ddel (a_session ctx, path) (ac_pending st)"
    and "row_ids st' = row_ids st" "open_ids st' = open_ids st - {cid}"
    and "v \<in> set (ac_visible st') \<Longrightarrow> v \<in> set (ac_visible st) \<or>
      r = Some True \<and> vr_session v = a_session ctx \<and> vr_path v = path"
    and "set (ac_denied st) \<subseteq> set (ac_denied st')"
    and "r = Some False \<Longrightarrow> (a_session ctx, path) \<in> set (ac_denied st')"
proof -
  obtain r' m where w: "wait (ac_mgr st) cid w = (r', m)" by fastforce
  define st1 where "st1 = st\<lparr>ac_mgr := m\<rparr>"
  define st2 where "st2 = (case r' of
                None \<Rightarrow> record_decision cid ''cancelled'' st1
              | Some True \<Rightarrow> insert_visible_resource ctx now path kind (record_decision cid ''granted'' st1)
              | Some False \<Rightarrow> (let s = record_decision cid ''denied'' st1 in s\<lparr>ac_denied := (a_session ctx, path) # ac_denied s\<rparr>))"
  have st': "r' = r" "st' = st2\<lparr>ac_pending := ddel (a_session ctx, path) (ac_pending st2)\<rparr>"
    using assms(1) w unfolding request_done_def st2_def st1_def Let_def by auto
  have 2: "ac_mgr st2 = m" "ac_pending st2 = ac_pending st" "row_ids st2 = row_ids st" "open_ids st2 = open_ids st - {cid}"
    "set (ac_denied st) \<subseteq> set (ac_denied st2)" "r' = Some False \<Longrightarrow> (a_session ctx, path) \<in> set (ac_denied st2)"
    by (auto simp: st2_def st1_def Let_def split: option.split bool.split)
  show "\<exists>m. wait (ac_mgr st) cid w = (r, m) \<and> ac_mgr st' = m" using w st' 2 by simp
  show "map_of (pending (ac_mgr st')) = (map_of (pending (ac_mgr st)))(cid := None)"
    using wait_pending [OF w assms(2)] st' 2 by simp
  show "v \<in> set (ac_visible st) \<or> r = Some True \<and> vr_session v = a_session ctx \<and> vr_path v = path"
    if "v \<in> set (ac_visible st')"
    using that insert_resource_visible [of v ctx now path kind "record_decision cid ''granted'' st1"]
    by (auto simp: st' st2_def st1_def Let_def split: option.splits bool.splits)
qed (use assms in \<open>auto simp: request_done_def Let_def split: prod.splits option.splits bool.splits\<close>)

lemma batch_done_facts:
  assumes "batch_done ctx cid now paths w st = (r, st')" "map_of (pending (ac_mgr st)) cid \<noteq> None"
  shows "\<exists>m. wait (ac_mgr st) cid w = (r, m) \<and> ac_mgr st' = m"
    and "map_of (pending (ac_mgr st')) = (map_of (pending (ac_mgr st)))(cid := None)"
    and "ac_pending st' = ac_pending st" "row_ids st' = row_ids st" "open_ids st' = open_ids st - {cid}"
    and "v \<in> set (ac_visible st') \<Longrightarrow> v \<in> set (ac_visible st) \<or>
      r = Some True \<and> vr_session v = a_session ctx \<and> vr_path v \<in> set paths"
    and "ac_denied st' = ac_denied st"
proof -
  obtain r' m where w: "wait (ac_mgr st) cid w = (r', m)" by fastforce
  have st': "r' = r" "st' = (case r' of
             None \<Rightarrow> record_decision cid ''cancelled'' (st\<lparr>ac_mgr := m\<rparr>)
           | Some True \<Rightarrow> insert_all ctx now paths (record_decision cid ''granted'' (st\<lparr>ac_mgr := m\<rparr>))
           | Some False \<Rightarrow> record_decision cid ''denied'' (st\<lparr>ac_mgr := m\<rparr>))"
    using assms(1) w unfolding batch_done_def Let_def by auto
  then have m: "ac_mgr st' = m" by (auto split: option.split bool.split)
  show "\<exists>m. wait (ac_mgr st) cid w = (r, m) \<and> ac_mgr st' = m" using w st' m by simp
  show "map_of (pending (ac_mgr st')) = (map_of (pending (ac_mgr st)))(cid := None)"
    using wait_pending [OF w assms(2)] m by simp
  show "v \<in> set (ac_visible st) \<or> r = Some True \<and> vr_session v = a_session ctx \<and> vr_path v \<in> set paths"
    if "v \<in> set (ac_visible st')"
    using that insert_all_visible [of v ctx now paths "record_decision cid ''granted'' (st\<lparr>ac_mgr := m\<rparr>)"]
    by (auto simp: st' split: option.splits bool.splits)
  show "ac_pending st' = ac_pending st" "row_ids st' = row_ids st" "open_ids st' = open_ids st - {cid}" "ac_denied st' = ac_denied st"
    unfolding st'(2) by (auto split: option.split bool.split)
qed

lemma leave_inv:
  assumes "acc_inv (st, ps)" "x \<in> set ps" "card_id x = [cid]" "ac_mgr st' = m"
    "wait (ac_mgr st) cid w = (r, m)" "map_of (pending m) = (map_of (pending (ac_mgr st)))(cid := None)"
    "row_ids st' = row_ids st" "open_ids st' = open_ids st - {cid}"
    "distinct (map fst (ac_pending st'))" "fst ` set (ac_pending st') = fst ` set (ac_pending st) - set (owner_key x)"
  shows "acc_inv (st', leave x ps)"
proof (rule acc_invI)
  note D = acc_invD [OF assms(1)]
  show "mgr_inv True (ac_mgr st')" using wait_inv [OF D(1) assms(5)] assms(4) by simp
  show "fst ` set (ac_pending st') = set (owner_keys (leave x ps))"
    using assms(10) D(5) leave_owner_keys [OF D(3) assms(2)] by simp
  show "(s, p) \<in> set (owner_keys (leave x ps))" if j: "Joiner s p \<in> set (leave x ps)" for s p
  proof -
    have "Joiner s p \<in> set ps" "(s, p) \<notin> set (owner_key x)" using j by (auto simp: leave_def)
    with D(6) leave_owner_keys [OF D(3) assms(2)] show ?thesis by simp
  qed
  show "open_ids st' = set (card_ids (leave x ps))"
    using assms(3,8) D(7) leave_card_ids [OF D(4) assms(2)] by simp
  show "\<exists>p. map_of (pending (ac_mgr st')) i = Some p \<and> p_session p = parked_session y"
    if y: "y \<in> set (leave x ps)" "i \<in> set (card_id y)" for y i
  proof -
    have yp: "y \<in> set ps" "y \<noteq> x" using y(1) by (auto simp: leave_def)
    then have "i \<noteq> cid"
      using concat_map_disjoint [OF D(4) [unfolded card_ids_def] yp(1) assms(2) yp(2) y(2)] assms(3) by simp
    with D(9) [OF yp(1) y(2)] assms(4,6) show ?thesis by simp
  qed
qed (use leave_distinct acc_invD [OF assms(1)] assms in simp_all)

theorem acc_step_inv:
  assumes "acc_step l x x'" "acc_inv x"
  shows "acc_inv x'"
  using assms
proof (induction rule: acc_step.induct)
  case (ask cid st ctx now path kind op r st' ps' ps)
  note D = acc_invD [OF ask.prems]
  from ask.hyps(2) show ?case
  proof (cases rule: request_access_cases)
    case memory
    with ask show ?thesis by simp
  next
    case join
    with D(5) ask.prems ask.hyps(3) show ?thesis by (auto simp: acc_inv_def)
  next
    case (policy q)
    with ask auto_grant_inv [OF ask.prems ask.hyps(1)] show ?thesis by simp
  next
    case (card q)
    then have "(a_session ctx, path) \<notin> set (owner_keys ps)" using D(5) by simp
    with card ask card_inv [OF ask.prems ask.hyps(1), of "Single cid ctx path kind" ctx] D(2,3) show ?thesis by simp
  qed
next
  case (ask_batch cid st interactive ctx now paths op r st' ps' ps)
  note D = acc_invD [OF ask_batch.prems]
  from ask_batch.hyps(2) show ?case
  proof (cases rule: request_access_batch_cases)
    case plain
    with ask_batch show ?thesis by simp
  next
    case (policy q)
    with ask_batch auto_grant_inv [OF ask_batch.prems ask_batch.hyps(1)] show ?thesis by simp
  next
    case (card q)
    with ask_batch card_inv [OF ask_batch.prems ask_batch.hyps(1), of "Batch cid ctx paths" ctx] D(2,3)
    show ?thesis by simp
  qed
next
  case (woken cid ctx path kind ps st w now r st')
  have p: "map_of (pending (ac_mgr st)) cid \<noteq> None" using woken.hyps(2) by (auto simp: can_wake_def)
  note f = request_done_facts [OF woken.hyps(3) p]
  obtain m where "wait (ac_mgr st) cid w = (r, m)" "ac_mgr st' = m" using f(1) by blast
  then show ?case
    using leave_inv [OF woken.prems woken.hyps(1), of cid st' m w r] f acc_invD(2) [OF woken.prems] keys_ddel
    by (simp add: keys_ddel [unfolded set_map])
next
  case (batch_woken cid ctx paths ps st w now r st')
  have p: "map_of (pending (ac_mgr st)) cid \<noteq> None" using batch_woken.hyps(2) by (auto simp: can_wake_def)
  note f = batch_done_facts [OF batch_woken.hyps(3) p]
  obtain m where "wait (ac_mgr st) cid w = (r, m)" "ac_mgr st' = m" using f(1) by blast
  then show ?case
    using leave_inv [OF batch_woken.prems batch_woken.hyps(1), of cid st' m w r] f acc_invD(2) [OF batch_woken.prems] by simp
next
  case (joiner_cancelled sid path ps st)
  let ?ps = "filter (\<lambda>y. y \<noteq> Joiner sid path) ps"
  have same: "owner_keys ?ps = owner_keys ps" "card_ids ?ps = card_ids ps"
    by (induction ps) auto
  note D = acc_invD [OF joiner_cancelled.prems]
  have "(sid, path) \<in> fst ` set (ac_pending st)" using D(5,6) joiner_cancelled.hyps by simp
  then show ?case using D same keys_dput [of "(sid, path)" True "ac_pending st"]
    by (intro acc_invI) (auto simp: insert_absorb)
next
  case (new_turn sid st ps)
  then show ?case by (simp add: acc_inv_def)
next
  case (manager st m ps)
  note D = acc_invD [OF manager.prems]
  show ?case
  proof (rule acc_invI)
    fix y cid assume y: "y \<in> set ps" "cid \<in> set (card_id y)"
    obtain p q where "map_of (pending (ac_mgr st)) cid = Some p" "p_session p = parked_session y" "map_of (pending m) cid = Some q"
      using D(9) [OF y] manager.hyps(2) y in_card_ids by blast
    from confirm_step_session [OF manager.hyps(1) this(1,3)]
    have "p_session q = p_session p" by blast
    then show "\<exists>p. map_of (pending (ac_mgr (st\<lparr>ac_mgr := m\<rparr>))) cid = Some p \<and> p_session p = parked_session y"
      using \<open>p_session p = parked_session y\<close> \<open>map_of (pending m) cid = Some q\<close> by simp
  qed (use D(1-8) confirm_step_inv [OF manager.hyps(1) D(1)] in simp_all)
next
  case (settings st ps q)
  then show ?case by (simp add: acc_inv_def)
qed

lemma acc_steps_inv: "acc_steps ls x y \<Longrightarrow> acc_inv x \<Longrightarrow> acc_inv y"
  by (induction rule: acc_steps.induct) (auto intro: acc_step_inv)

lemma acc_init_inv: "acc_inv (acc_init vis perm, [])"
  by (simp add: acc_inv_def acc_init_def mgr_inv_init open_ids_def row_ids_def)

lemma acc_reach_inv: "acc_reach x \<Longrightarrow> acc_inv x"
  unfolding acc_reach_def using acc_steps_inv acc_init_inv by blast

section \<open>Properties\<close>

fun parked_paths :: "parked \<Rightarrow> string list" where
  "parked_paths (Single _ _ path _) = [path]"
| "parked_paths (Batch _ _ paths) = paths"
| "parked_paths (Joiner _ path) = [path]"

lemma policy_grants_paths:
  assumes "policy_grants ctx paths p" "path \<in> set paths"
  shows "\<exists>real. a_realpath ctx path = Some real \<and> \<not> fs_root_denied real"
  using assms by (auto simp: policy_grants_def paths_policy_grantable_def split: option.splits)

lemma auto_grant_visible:
  "v \<in> set (ac_visible (auto_grant ctx cid now paths k r st)) \<Longrightarrow>
   v \<in> set (ac_visible st) \<or> vr_session v = a_session ctx \<and> vr_path v \<in> set paths"
  by (auto simp: auto_grant_def Let_def dest!: insert_all_visible)

lemma visible_step:
  assumes "acc_step l y y'" "acc_inv y" "v \<in> set (ac_visible (fst y'))" "v \<notin> set (ac_visible (fst y))"
  shows "(\<exists>x\<in>set (snd y). \<exists>cid w m. card_id x = [cid] \<and> parked_session x = vr_session v \<and>
       vr_path v \<in> set (parked_paths x) \<and> wait (ac_mgr (fst y)) cid w = (Some True, m)) \<or>
     (\<exists>(ctx :: acc_ctx) paths. policy_grants ctx paths (ac_perm (fst y)) \<and> vr_session v = a_session ctx \<and> vr_path v \<in> set paths)"
  using assms
proof (induction rule: acc_step.induct)
  case (ask cid st ctx now path kind op r st' ps' ps)
  note new = ask.prems(2,3) [unfolded fst_conv]
  from ask.hyps(2) show ?case
  proof (cases rule: request_access_cases)
    case (policy q)
    then have "vr_session v = a_session ctx \<and> vr_path v \<in> set [path]"
      using auto_grant_visible [OF new(1) [unfolded policy(3)]] new(2) by auto
    with policy(2) show ?thesis by (intro disjI2 exI [of _ ctx] exI [of _ "[path]"]) simp
  qed (use new in simp_all)
next
  case (ask_batch cid st interactive ctx now paths op r st' ps' ps)
  note new = ask_batch.prems(2,3) [unfolded fst_conv]
  from ask_batch.hyps(2) show ?case
  proof (cases rule: request_access_batch_cases)
    case (policy q)
    then have "vr_session v = a_session ctx \<and> vr_path v \<in> set paths"
      using auto_grant_visible [OF new(1) [unfolded policy(3)]] new(2) by auto
    with policy(2) show ?thesis by auto
  qed (use new in simp_all)
next
  case (woken cid ctx path kind ps st w now r st')
  then have "map_of (pending (ac_mgr st)) cid \<noteq> None" by (auto simp: can_wake_def)
  note f = request_done_facts [OF woken.hyps(3) this]
  have "r = Some True \<and> vr_session v = a_session ctx \<and> vr_path v = path"
    using f(6) [of v] woken.prems(2,3) by auto
  with f(1) woken.hyps(1) show ?case by force
next
  case (batch_woken cid ctx paths ps st w now r st')
  then have "map_of (pending (ac_mgr st)) cid \<noteq> None" by (auto simp: can_wake_def)
  note f = batch_done_facts [OF batch_woken.hyps(3) this]
  have "r = Some True \<and> vr_session v = a_session ctx \<and> vr_path v \<in> set paths"
    using f(6) [of v] batch_woken.prems(2,3) by auto
  with f(1) batch_woken.hyps(1) show ?case by force
qed simp_all



lemma denied_step:
  assumes "acc_step l x x'" "k \<in> set (ac_denied (fst x))" "l \<noteq> LClear (fst k)"
  shows "k \<in> set (ac_denied (fst x'))"
  using assms
proof (induction rule: acc_step.induct)
  case (ask cid st ctx now path kind op r st' ps' ps)
  from ask.hyps(2) show ?case by (cases rule: request_access_cases) (use ask.prems in simp_all)
next
  case (ask_batch cid st interactive ctx now paths op r st' ps' ps)
  from ask_batch.hyps(2) show ?case by (cases rule: request_access_batch_cases) (use ask_batch.prems in simp_all)
next
  case (woken cid ctx path kind ps st w now r st')
  then have "map_of (pending (ac_mgr st)) cid \<noteq> None" by (auto simp: can_wake_def)
  from request_done_facts(7) [OF woken.hyps(3) this] woken.prems show ?case by auto
next
  case (batch_woken cid ctx paths ps st w now r st')
  then have "map_of (pending (ac_mgr st)) cid \<noteq> None" by (auto simp: can_wake_def)
  from batch_done_facts(7) [OF batch_woken.hyps(3) this] batch_woken.prems show ?case by simp
qed auto

lemma denied_steps:
  "acc_steps ls x y \<Longrightarrow> k \<in> set (ac_denied (fst x)) \<Longrightarrow> LClear (fst k) \<notin> set ls \<Longrightarrow> k \<in> set (ac_denied (fst y))"
proof (induction rule: acc_steps.induct)
  case (more l x y ls z)
  then have "l \<noteq> LClear (fst k)" "LClear (fst k) \<notin> set ls" by auto
  with more.IH denied_step [OF more.hyps(1) more.prems(1)] show ?case by blast
qed simp

text \<open>
  A denial is remembered: when the user turned a request down, then, whatever happens short of the next turn of
  that session, every further request for the path is answered with no at once, shows no card and changes nothing.
\<close>

theorem denied_stays_denied:
  assumes "acc_reach (st, ps)" "Single cid ctx path kind \<in> set ps" "can_wake st cid w"
    "request_done ctx cid now path kind w st = (Some False, st1)"
    "acc_steps ls (st1, leave (Single cid ctx path kind) ps) (st2, ps2)" "LClear (a_session ctx) \<notin> set ls"
    "a_session ctx2 = a_session ctx"
  shows "request_access ctx2 cid2 now2 path kind2 op2 st2 = (Returned False, st2)"
proof -
  have "map_of (pending (ac_mgr st)) cid \<noteq> None" using assms(3) by (auto simp: can_wake_def)
  from request_done_facts(8) [OF assms(4) this] have "(a_session ctx, path) \<in> set (ac_denied st1)" by simp
  with denied_steps [OF assms(5), of "(a_session ctx, path)"] assms(6) have "(a_session ctx2, path) \<in> set (ac_denied st2)"
    by (simp add: assms(7))
  then show ?thesis by (simp add: request_access_def)
qed

section \<open>Witnesses\<close>

definition demo_acc :: acc_ctx where
  "demo_acc = \<lparr>a_session = ''s'', a_run = ''r'', a_conn = (0, 0), a_run_ctx = ''interactive'',
     a_realpath = Some, a_isfile = (\<lambda>_. False)\<rparr>"

definition demo_start :: acc_state where
  "demo_start = acc_init [] (perm_init (\<lambda>_. NoRow))"

definition demo_asked :: acc_state where
  "demo_asked = snd (request_access demo_acc ''c'' 0 ''/m'' ''folder'' ''read'' demo_start)"

definition demo_answer :: "bool \<Rightarrow> acc_state" where
  "demo_answer yes = demo_asked\<lparr>ac_mgr :=
     projr (resolve (ac_mgr demo_asked) True ''c'' yes False None None None ''web'')\<rparr>"

abbreviation "demo_parked \<equiv> Single ''c'' demo_acc ''/m'' ''folder''"

lemma demo_ask:
  "request_access demo_acc ''c'' 0 ''/m'' ''folder'' ''read'' demo_start = (Asked, demo_asked)"
proof -
  have "fst (request_access demo_acc ''c'' 0 ''/m'' ''folder'' ''read'' demo_start) = Asked" by code_simp
  then show ?thesis unfolding demo_asked_def by (metis prod.collapse)
qed

lemma demo_asked_reach: "acc_steps [LRequest] (demo_start, []) (demo_asked, [demo_parked])"
proof -
  have "unused_id ''c'' demo_start"
    by (simp add: unused_id_def fresh_id_def demo_start_def acc_init_def mgr_init_def)
  from acc_step.ask [OF this demo_ask refl] show ?thesis by (auto intro: acc_steps.intros)
qed

lemma demo_reach: "acc_steps [LRequest, LOther] (demo_start, []) (demo_answer yes, [demo_parked])"
proof -
  have "resolve (ac_mgr demo_asked) True ''c'' yes False None None None ''web'' =
      Inr (projr (resolve (ac_mgr demo_asked) True ''c'' yes False None None None ''web''))"
    by (cases yes) code_simp+
  moreover have "map_of (pending (projr (resolve (ac_mgr demo_asked) True ''c'' yes False None None None ''web''))) ''c'' \<noteq> None"
    by (cases yes) code_simp+
  ultimately have "acc_step LOther (demo_asked, [demo_parked]) (demo_answer yes, [demo_parked])"
    unfolding demo_answer_def by (intro acc_step.manager confirm_step.ans) simp_all
  with demo_asked_reach show ?thesis
    by (auto intro: acc_steps.intros elim!: acc_steps.cases)
qed

lemma demo_acc_reach: "acc_reach (demo_answer yes, [demo_parked])"
  unfolding acc_reach_def using demo_reach [of yes] unfolding demo_start_def by blast

lemma demo_wakes: "can_wake (demo_answer yes) ''c'' Fired"
proof -
  have "map_of (pending (ac_mgr (demo_answer yes))) ''c'' = Some \<lparr>p_session = ''s'', p_set = True\<rparr>"
    by (cases yes) code_simp+
  then show ?thesis by (simp add: can_wake_def)
qed



theorem denied_stays_denied_witness:
  "let st = snd (request_done demo_acc ''c'' 7 ''/m'' ''folder'' Fired (demo_answer False))
   in request_access demo_acc ''c2'' 8 ''/m'' ''folder'' ''write'' st = (Returned False, st)"
proof -
  obtain r st' where d: "request_done demo_acc ''c'' 7 ''/m'' ''folder'' Fired (demo_answer False) = (r, st')" by fastforce
  have "fst (request_done demo_acc ''c'' 7 ''/m'' ''folder'' Fired (demo_answer False)) = Some False" by code_simp
  with d have d': "request_done demo_acc ''c'' 7 ''/m'' ''folder'' Fired (demo_answer False) = (Some False, st')" by simp
  have "demo_parked \<in> set [demo_parked]" by simp
  from denied_stays_denied [OF demo_acc_reach this demo_wakes d' acc_steps.stay] d' show ?thesis by simp
qed

end
