(* ===== verification/Vtree.thy ===== *)
theory Vtree
  imports Py_Path
begin

text \<open>
  The virtual tree of \<open>fs/vtree.py\<close>: the state of the disk after a sequence of structural operations,
  kept in memory on top of the real disk and filled in lazily. The real disk is a parameter, the
  listing \<open>os.scandir\<close> gives of a directory (\<^term>\<open>None\<close> when it raises). The abstract specification is a
  namespace, a partial function from component lists to ``is a directory''; the view of a tree is the
  namespace it stands for. Lookups change the tree but not its view, and every operation either
  changes the view as the specification says or reports the error the specification gives.

  A lookup returns a node of the tree by reference. Here it returns the node and the tree with
  what the lookup filled in, and a change through a reference is a change at the path it was
  found at.
\<close>

section \<open>Nodes and hydration\<close>

datatype vnode = VNode (n_is_dir: bool) (n_loaded: bool) (n_origin: "string option")
  (n_children: "(string \<times> vnode) list")

type_synonym scan = "string \<Rightarrow> (string \<times> bool) list option"

definition vt_init :: vnode where
  "vt_init = VNode True False (Some ''/'') []"

fun add_entries :: "string \<Rightarrow> (string \<times> bool) list \<Rightarrow> (string \<times> vnode) list \<Rightarrow> (string \<times> vnode) list"
where
  "add_entries org [] ch = ch"
| "add_entries org ((name, d) # es) ch =
     add_entries org es
       (if name \<in> fst ` set ch then ch else ch @ [(name, VNode d False (Some (path_join org name)) [])])"

fun hydrate :: "scan \<Rightarrow> vnode \<Rightarrow> vnode" where
  "hydrate sd (VNode d l org ch) =
     (if l \<or> \<not> d then VNode d True org ch
      else VNode d True org
        (case org of None \<Rightarrow> ch
         | Some path \<Rightarrow> (case sd path of None \<Rightarrow> ch | Some es \<Rightarrow> add_entries path es ch)))"

text \<open>\<open>_split\<close> and the path \<open>_parent_dir_node\<close> looks up.\<close>

definition vt_norm :: "string \<Rightarrow> string \<Rightarrow> string" where
  "vt_norm cwd path = normpath (abspath cwd path)"

definition vt_split :: "string \<Rightarrow> string \<Rightarrow> string list" where
  "vt_split cwd path =
     (let norm = vt_norm cwd path
      in if norm = ''/'' then []
         else filter (\<lambda>p. p \<noteq> []) (split_on (CHR ''/'')
                (lstrip_of (\<lambda>c. c = CHR ''/'') (rstrip_of (\<lambda>c. c = CHR ''/'') norm))))"

definition set_children :: "(string \<times> vnode) list \<Rightarrow> vnode \<Rightarrow> vnode" where
  "set_children ch t = VNode (n_is_dir t) (n_loaded t) (n_origin t) ch"

definition vt_pop :: "string \<Rightarrow> vnode \<Rightarrow> vnode" where
  "vt_pop name t = set_children (ddel name (n_children t)) t"

definition vt_put :: "string \<Rightarrow> vnode \<Rightarrow> vnode \<Rightarrow> vnode" where
  "vt_put name c t = set_children (dput name c (n_children t)) t"

fun vt_find :: "scan \<Rightarrow> string list \<Rightarrow> vnode \<Rightarrow> vnode option \<times> vnode" where
  "vt_find sd [] t = (Some t, t)"
| "vt_find sd (name # names) t =
     (let h = hydrate sd t
      in case map_of (n_children h) name of
           None \<Rightarrow> (None, h)
         | Some c \<Rightarrow> (let (r, c') = vt_find sd names c
                      in (r, vt_put name c' h)))"

text \<open>The node of the parent directory, where there is one.\<close>

definition vt_parent_dir_node :: "scan \<Rightarrow> string \<Rightarrow> string \<Rightarrow> vnode \<Rightarrow> vnode option \<times> vnode" where
  "vt_parent_dir_node sd cwd path t =
     (case vt_find sd (vt_split cwd (dirname (vt_norm cwd path))) t of
        (None, t') \<Rightarrow> (None, t')
      | (Some node, t') \<Rightarrow> ((if n_is_dir node then Some node else None), t'))"

text \<open>A change to the node a lookup found at the given path.\<close>

fun vt_at :: "string list \<Rightarrow> (vnode \<Rightarrow> vnode) \<Rightarrow> vnode \<Rightarrow> vnode" where
  "vt_at [] f t = f t"
| "vt_at (name # names) f t =
     (case map_of (n_children t) name of
        None \<Rightarrow> t
      | Some c \<Rightarrow> vt_put name (vt_at names f c) t)"

section \<open>Queries\<close>

definition vt_exists :: "scan \<Rightarrow> string \<Rightarrow> string \<Rightarrow> vnode \<Rightarrow> bool \<times> vnode" where
  "vt_exists sd cwd path t = (case vt_find sd (vt_split cwd path) t of (n, t') \<Rightarrow> (n \<noteq> None, t'))"

definition vt_is_dir :: "scan \<Rightarrow> string \<Rightarrow> string \<Rightarrow> vnode \<Rightarrow> bool \<times> vnode" where
  "vt_is_dir sd cwd path t =
     (case vt_find sd (vt_split cwd path) t of
        (None, t') \<Rightarrow> (False, t') | (Some n, t') \<Rightarrow> (n_is_dir n, t'))"

definition vt_is_empty_dir :: "scan \<Rightarrow> string \<Rightarrow> string \<Rightarrow> vnode \<Rightarrow> bool \<times> vnode" where
  "vt_is_empty_dir sd cwd path t =
     (case vt_find sd (vt_split cwd path) t of
        (None, t') \<Rightarrow> (False, t')
      | (Some n, t') \<Rightarrow>
          if \<not> n_is_dir n then (False, t')
          else (n_children (hydrate sd n) = [], vt_at (vt_split cwd path) (hydrate sd) t'))"

section \<open>Mutations\<close>

datatype vt_error = AlreadyExists | MkRoot | NoParent | NotDirComp | IntoItself | SrcMissing | DstExists
  | NoDstParent | CannotMove | DelRoot | Missing | NotEmpty | CannotDelete

text \<open>
  A mutation succeeds, raises \<open>VTreeError\<close> with a message, or, in \<open>rename\<close>, links a node below itself so
  that the objects no longer form a tree (\<open>VCycle\<close>).
\<close>

datatype vt_result = VOk | VErr vt_error string | VCycle

fun mkdir_loop :: "scan \<Rightarrow> bool \<Rightarrow> string list \<Rightarrow> vnode \<Rightarrow> vt_result \<times> vnode" where
  "mkdir_loop sd parents [] t = (VOk, t)"
| "mkdir_loop sd parents (name # names) t =
     (let h = hydrate sd t
      in case map_of (n_children h) name of
           None \<Rightarrow>
             if names \<noteq> [] \<and> \<not> parents then (VErr NoParent (''parent does not exist: '' @ name), h)
             else (let (r, c') = mkdir_loop sd parents names (VNode True True None [])
                   in (r, vt_put name c' h))
         | Some c \<Rightarrow>
             if \<not> n_is_dir c then (VErr NotDirComp (''path component is not a dir: '' @ name), h)
             else (let (r, c') = mkdir_loop sd parents names c
                   in (r, vt_put name c' h)))"

definition vt_mkdir :: "scan \<Rightarrow> string \<Rightarrow> string \<Rightarrow> bool \<Rightarrow> vnode \<Rightarrow> vt_result \<times> vnode" where
  "vt_mkdir sd cwd path parents t =
     (let abs_path = vt_norm cwd path; (e, t1) = vt_exists sd cwd abs_path t
      in if e then (VErr AlreadyExists (''already exists: '' @ abs_path), t1)
         else let parts = vt_split cwd abs_path
              in if parts = [] then (VErr MkRoot ''cannot mkdir filesystem root'', t1)
                 else mkdir_loop sd parents parts t1)"

text \<open>
  In \<open>rename\<close> the node found first is linked after the other lookups; looking it up again reads it in the state
  they left it in. It is not reached through the destination unless it contains it.
\<close>

definition vt_rename :: "scan \<Rightarrow> string \<Rightarrow> string \<Rightarrow> string \<Rightarrow> vnode \<Rightarrow> vt_result \<times> vnode" where
  "vt_rename sd cwd src dst t =
     (let src_abs = vt_norm cwd src; dst_abs = vt_norm cwd dst
      in if dst_abs = src_abs \<or> startswith dst_abs (src_abs @ ''/'')
         then (VErr IntoItself (''cannot move a directory into itself: '' @ src_abs @ '' -> '' @ dst_abs), t)
         else case vt_find sd (vt_split cwd src_abs) t of
           (None, t1) \<Rightarrow> (VErr SrcMissing (''src does not exist: '' @ src_abs), t1)
         | (Some _, t1) \<Rightarrow>
             (case vt_exists sd cwd dst_abs t1 of
                (True, t2) \<Rightarrow> (VErr DstExists (''dst already exists: '' @ dst_abs), t2)
              | (False, t2) \<Rightarrow>
                  (case vt_parent_dir_node sd cwd dst_abs t2 of
                     (None, t3) \<Rightarrow>
                       (VErr NoDstParent (''dst parent dir does not exist: '' @ dirname dst_abs), t3)
                   | (Some _, t3) \<Rightarrow>
                       (case vt_parent_dir_node sd cwd src_abs t3 of
                          (None, t4) \<Rightarrow> (VErr CannotMove (''cannot move: '' @ src_abs), t4)
                        | (Some _, t4) \<Rightarrow>
                            if prefix (vt_split cwd src_abs) (vt_split cwd dst_abs) then (VCycle, t4)
                            else case vt_find sd (vt_split cwd src_abs) t4 of
                              (None, t5) \<Rightarrow> (VErr CannotMove (''cannot move: '' @ src_abs), t5)
                            | (Some src_node, t5) \<Rightarrow>
                                (VOk, vt_at (vt_split cwd (dirname dst_abs)) (vt_put (basename dst_abs) src_node)
                                   (vt_at (vt_split cwd (dirname src_abs)) (vt_pop (basename src_abs)) t5))))))"

definition vt_delete :: "scan \<Rightarrow> string \<Rightarrow> string \<Rightarrow> bool \<Rightarrow> vnode \<Rightarrow> vt_result \<times> vnode" where
  "vt_delete sd cwd path recursive t =
     (let abs_path = vt_norm cwd path
      in if vt_split cwd abs_path = [] then (VErr DelRoot ''cannot delete filesystem root'', t)
         else case vt_find sd (vt_split cwd abs_path) t of
           (None, t1) \<Rightarrow> (VErr Missing (''does not exist: '' @ abs_path), t1)
         | (Some node, t1) \<Rightarrow>
             (let (full, t2) = (if n_is_dir node \<and> \<not> recursive
                                then (case vt_is_empty_dir sd cwd abs_path t1 of (e, t') \<Rightarrow> (\<not> e, t'))
                                else (False, t1))
              in if full then (VErr NotEmpty (''directory not empty: '' @ abs_path), t2)
                 else case vt_parent_dir_node sd cwd abs_path t2 of
                   (None, t3) \<Rightarrow> (VErr CannotDelete (''cannot delete: '' @ abs_path), t3)
                 | (Some _, t3) \<Rightarrow>
                     (VOk, vt_at (vt_split cwd (dirname abs_path)) (vt_pop (basename abs_path)) t3)))"

section \<open>The specification: namespaces\<close>

type_synonym namespace = "string list \<Rightarrow> bool option"

definition eff_mkdir :: "'a \<Rightarrow> string list \<Rightarrow> (string list \<Rightarrow> 'a option) \<Rightarrow> string list \<Rightarrow> 'a option" where
  "eff_mkdir d p m = (\<lambda>q. if prefix q p \<and> m q = None then Some d else m q)"

definition eff_rename ::
  "string list \<Rightarrow> string list \<Rightarrow> (string list \<Rightarrow> 'a option) \<Rightarrow> string list \<Rightarrow> 'a option" where
  "eff_rename src dst m =
     (\<lambda>q. if prefix dst q then m (src @ drop (length dst) q) else if prefix src q then None else m q)"

definition eff_delete :: "string list \<Rightarrow> (string list \<Rightarrow> 'a option) \<Rightarrow> string list \<Rightarrow> 'a option" where
  "eff_delete p m = (\<lambda>q. if prefix p q then None else m q)"

text \<open>Why an operation is refused; \<^term>\<open>None\<close> when it is not.\<close>

definition mkdir_error :: "bool \<Rightarrow> string list \<Rightarrow> namespace \<Rightarrow> vt_error option" where
  "mkdir_error parents p m =
     (if m p \<noteq> None then Some AlreadyExists
      else if p = [] then Some MkRoot
      else if \<exists>q\<in>set (prefixes p). m q = Some False then Some NotDirComp
      else if \<not> parents \<and> m (butlast p) = None then Some NoParent else None)"

lemma mkdir_error_None:
  "mkdir_error parents p m = None \<longleftrightarrow>
     m p = None \<and> p \<noteq> [] \<and> (\<forall>q. prefix q p \<longrightarrow> m q \<noteq> Some False) \<and> (parents \<or> m (butlast p) \<noteq> None)"
  by (auto simp: mkdir_error_def)

definition rename_error :: "string list \<Rightarrow> string list \<Rightarrow> namespace \<Rightarrow> vt_error option" where
  "rename_error src dst m =
     (if prefix src dst then Some IntoItself
      else if m src = None then Some SrcMissing
      else if m dst \<noteq> None then Some DstExists
      else if m (butlast dst) \<noteq> Some True then Some NoDstParent else None)"

definition delete_error :: "bool \<Rightarrow> string list \<Rightarrow> namespace \<Rightarrow> vt_error option" where
  "delete_error recursive p m =
     (if p = [] then Some DelRoot
      else if m p = None then Some Missing
      else if m p = Some True \<and> \<not> recursive \<and> (\<exists>n. m (p @ [n]) \<noteq> None) then Some NotEmpty else None)"

section \<open>The view of a tree\<close>

fun vt_lookup :: "scan \<Rightarrow> string list \<Rightarrow> vnode \<Rightarrow> vnode option" where
  "vt_lookup sd [] t = Some t"
| "vt_lookup sd (name # names) t =
     (case map_of (n_children (hydrate sd t)) name of None \<Rightarrow> None | Some c \<Rightarrow> vt_lookup sd names c)"

definition vt_view :: "scan \<Rightarrow> vnode \<Rightarrow> namespace" where
  "vt_view sd t p = map_option n_is_dir (vt_lookup sd p t)"

lemma set_children_sel [simp]:
  "n_children (set_children ch t) = ch" "n_is_dir (set_children ch t) = n_is_dir t"
  "n_loaded (set_children ch t) = n_loaded t"
  by (simp_all add: set_children_def)

lemma put_pop_sel [simp]:
  "n_is_dir (vt_put n c t) = n_is_dir t" "n_is_dir (vt_pop n t) = n_is_dir t"
  "n_loaded (vt_put n c t) = n_loaded t" "n_loaded (vt_pop n t) = n_loaded t"
  "map_of (n_children (vt_put n c t)) = (map_of (n_children t))(n \<mapsto> c)"
  "map_of (n_children (vt_pop n t)) = (map_of (n_children t))(n := None)"
  by (simp_all add: vt_put_def vt_pop_def)

lemma hydrate_sel [simp]: "n_is_dir (hydrate sd t) = n_is_dir t" "n_loaded (hydrate sd t)"
  by (cases t; simp)+

lemma hydrate_loaded [simp]: "n_loaded t \<Longrightarrow> hydrate sd t = t"
  by (cases t) simp

lemma view_Nil [simp]: "vt_view sd t [] = Some (n_is_dir t)"
  by (simp add: vt_view_def)

lemma view_Cons:
  "vt_view sd t (n # p) =
     (case map_of (n_children (hydrate sd t)) n of None \<Rightarrow> None | Some c \<Rightarrow> vt_view sd c p)"
  by (simp add: vt_view_def split: option.split)

lemma view_hydrate [simp]: "vt_view sd (hydrate sd t) = vt_view sd t"
proof
  fix p show "vt_view sd (hydrate sd t) p = vt_view sd t p" by (cases p) (simp_all add: view_Cons)
qed

lemma view_put:
  assumes "n_loaded t"
  shows "vt_view sd (vt_put n c t) p =
    (if prefix [n] p then vt_view sd c (tl p) else vt_view sd t p)"
  using assms by (cases p) (auto simp: view_Cons)

lemma view_pop:
  assumes "n_loaded t"
  shows "vt_view sd (vt_pop n t) p = (if prefix [n] p then None else vt_view sd t p)"
  using assms by (cases p) (auto simp: view_Cons)

lemma lookup_append:
  "vt_lookup sd (p @ q) t = (case vt_lookup sd p t of None \<Rightarrow> None | Some c \<Rightarrow> vt_lookup sd q c)"
  by (induction p arbitrary: t) (auto split: option.split)

lemma view_append:
  "vt_view sd t (p @ q) = (case vt_lookup sd p t of None \<Rightarrow> None | Some c \<Rightarrow> vt_view sd c q)"
  by (auto simp: vt_view_def lookup_append split: option.split)

lemma view_None_below: "vt_view sd t p = None \<Longrightarrow> vt_view sd t (p @ q) = None"
  by (simp add: view_append) (simp add: vt_view_def)

subsection \<open>Lookups keep the view\<close>

lemma find_Cons:
  "vt_find sd (n # p) t = (case map_of (n_children (hydrate sd t)) n of
     None \<Rightarrow> (None, hydrate sd t)
   | Some c \<Rightarrow> (fst (vt_find sd p c), vt_put n (snd (vt_find sd p c)) (hydrate sd t)))"
  by (simp add: Let_def case_prod_unfold split: option.split)

declare vt_find.simps(2) [simp del]

lemma find_node: "fst (vt_find sd p t) = vt_lookup sd p t"
  by (induction p arbitrary: t) (auto simp: find_Cons split: option.split)

lemma find_view: "vt_view sd (snd (vt_find sd p t)) = vt_view sd t"
proof (induction p arbitrary: t)
  case (Cons n p)
  show ?case
  proof (cases "map_of (n_children (hydrate sd t)) n")
    case None
    then show ?thesis by (simp add: find_Cons)
  next
    case (Some c)
    have "vt_view sd (vt_put n (snd (vt_find sd p c)) (hydrate sd t)) q = vt_view sd t q" for q
    proof (cases q)
      case (Cons m r)
      then show ?thesis using Some Cons.IH [of c] by (auto simp: view_Cons)
    qed simp
    with Some show ?thesis by (auto simp: find_Cons)
  qed
qed simp

text \<open>The nodes above a path are filled in once it has been looked up, and stay so.\<close>

fun reached :: "string list \<Rightarrow> vnode \<Rightarrow> bool" where
  "reached [] t = True"
| "reached (n # p) t \<longleftrightarrow> n_loaded t \<and> (\<forall>c. map_of (n_children t) n = Some c \<longrightarrow> reached p c)"

lemma find_reached: "reached p (snd (vt_find sd p t))"
  by (induction p arbitrary: t) (auto simp: find_Cons split: option.split)

lemma find_keeps_reached: "reached q t \<Longrightarrow> reached q (snd (vt_find sd p t))"
proof (induction p arbitrary: q t)
  case (Cons n p)
  show ?case
  proof (cases q)
    case (Cons m r)
    with Cons.prems have h: "hydrate sd t = t" by simp
    show ?thesis
    proof (cases "map_of (n_children t) n")
      case (Some c)
      then have "snd (vt_find sd (n # p) t) = vt_put n (snd (vt_find sd p c)) t"
        by (simp add: h find_Cons)
      with Cons Cons.prems Some Cons.IH [of r c] show ?thesis by auto
    qed (use h Cons.prems in \<open>simp add: find_Cons\<close>)
  qed simp
qed simp

subsection \<open>Changes at a path\<close>

lemma at_view:
  assumes "reached (q @ [n]) t" "vt_view sd t q \<noteq> None"
    and f: "\<And>x. n_loaded x \<Longrightarrow> n_is_dir (f x) = n_is_dir x"
    and sub: "\<And>x p. n_loaded x \<Longrightarrow> vt_view sd (f x) p = (if prefix [n] p then g (tl p) else vt_view sd x p)"
  shows "vt_view sd (vt_at q f t) p =
    (if prefix (q @ [n]) p then g (drop (Suc (length q)) p) else vt_view sd t p)"
  using assms(1,2)
proof (induction q arbitrary: t p)
  case Nil
  then show ?case by (auto simp: sub drop_Suc)
next
  case (Cons m q)
  then have l: "n_loaded t" by simp
  with Cons.prems obtain c where c: "map_of (n_children t) m = Some c" "reached (q @ [n]) c"
    "vt_view sd c q \<noteq> None"
    by (auto simp: view_Cons split: option.splits)
  show ?case
  proof (cases p)
    case (Cons k r)
    show ?thesis
    proof (cases "k = m")
      case True
      with Cons l c Cons.IH [OF c(2,3), of r] show ?thesis by (simp add: view_put view_Cons)
    next
      case False
      with Cons l c show ?thesis by (simp add: view_put)
    qed
  qed (use l c in simp)
qed

lemma at_pop_view:
  "reached (q @ [n]) t \<Longrightarrow> vt_view sd t q \<noteq> None \<Longrightarrow>
   vt_view sd (vt_at q (vt_pop n) t) = eff_delete (q @ [n]) (vt_view sd t)"
  by (rule ext, subst at_view [where n = n and g = "\<lambda>_. None"])
    (auto simp: view_pop eff_delete_def)

lemma at_put_view:
  "reached (q @ [n]) t \<Longrightarrow> vt_view sd t q \<noteq> None \<Longrightarrow>
   vt_view sd (vt_at q (vt_put n c) t) p =
     (if prefix (q @ [n]) p then vt_view sd c (drop (Suc (length q)) p) else vt_view sd t p)"
  by (rule at_view) (auto simp: view_put)

lemma at_pop_reached: "reached p t \<Longrightarrow> reached p (vt_at q (vt_pop n) t)"
proof (induction q arbitrary: p t)
  case Nil
  then show ?case by (cases p) auto
next
  case (Cons m q)
  then show ?case by (cases p) (auto split: option.split)
qed

lemma at_hydrate_view: "reached q t \<Longrightarrow> vt_view sd (vt_at q (hydrate sd) t) = vt_view sd t"
proof (induction q arbitrary: t)
  case (Cons m q)
  show ?case
  proof (cases "map_of (n_children t) m")
    case (Some c)
    have "vt_view sd (vt_put m (vt_at q (hydrate sd) c) t) p = vt_view sd t p" for p
      using Some Cons.prems Cons.IH [of c] by (cases p) (auto simp: view_Cons)
    with Some show ?thesis by auto
  qed simp
qed simp

lemma at_hydrate_reached: "reached p t \<Longrightarrow> reached p (vt_at q (hydrate sd) t)"
proof (induction q arbitrary: p t)
  case Nil
  then show ?case by (cases p) auto
next
  case (Cons m q)
  then show ?case by (cases p) (auto split: option.split)
qed

section \<open>Paths\<close>

lemma lstrip_slash_raw: "filter (\<lambda>p. p \<noteq> []) (split_on (CHR ''/'') (lstrip_of (\<lambda>c. c = CHR ''/'') s)) =
    filter (\<lambda>p. p \<noteq> []) (split_on (CHR ''/'') s)"
proof (induction s)
  case (Cons x s)
  then show ?case using split_on_append [of "CHR ''/''" "[]" s]
    by (cases "x = CHR ''/''") (simp_all add: lstrip_of_def split_on_single)
qed (simp add: lstrip_of_def)

lemma split_plain:
  assumes "plain_path p"
  shows "vt_norm cwd p = p" "vt_split cwd p = path_comps p"
proof -
  show n: "vt_norm cwd p = p" using assms by (simp add: vt_norm_def abspath_plain normpath_plain)
  obtain cs where cs: "\<forall>c\<in>set cs. dotless c" "p = abs_path cs" "path_comps p = cs"
    using assms by (rule plain_pathE)
  then have ok: "\<forall>c\<in>set cs. comp_ok c" by (simp add: dotless_def)
  show "vt_split cwd p = path_comps p"
  proof (cases "cs = []")
    case True
    with cs n show ?thesis by (simp add: vt_split_def abs_path_def)
  next
    case False
    then have ne: "p \<noteq> ''/''" using cs ok
      by (cases cs) (auto simp: abs_path_def comp_ok_def)
    have "rstrip_of (\<lambda>c. c = CHR ''/'') p = raw_path cs"
      using strip_slash_abs_path [OF ok] cs(2) by (simp add: strip_slash_def)
    with n ne have "vt_split cwd p = filter (\<lambda>p. p \<noteq> []) (split_on (CHR ''/'') (raw_path cs))"
      by (simp add: vt_split_def lstrip_slash_raw)
    also have "\<dots> = cs" using path_comps_raw [OF ok] by (simp add: path_comps_def)
    finally show ?thesis using cs(3) by simp
  qed
qed

lemma plain_parent:
  assumes "plain_path p" "path_comps p = cs @ [c]"
  shows "plain_path (dirname p)" "path_comps (dirname p) = cs" "basename p = c"
proof -
  obtain ds where "\<forall>c\<in>set ds. dotless c" "p = abs_path ds" "path_comps p = ds"
    using assms(1) by (rule plain_pathE)
  with assms(2) have p: "p = abs_path (cs @ [c])" and ok: "\<forall>c\<in>set cs. dotless c" "dotless c" by auto
  then have d: "dirname p = abs_path cs" by (simp add: dirname_abs_path dotless_def)
  with ok show "plain_path (dirname p)" by (simp add: plain_abs_path)
  show "path_comps (dirname p) = cs" unfolding d using ok by (simp add: dotless_def)
  show "basename p = c" unfolding p using ok by (simp add: basename_abs_path dotless_def)
qed

section \<open>Every operation implements the specification\<close>

text \<open>What the queries return, and that they change nothing.\<close>

lemma exists_spec:
  assumes "plain_path p" "vt_exists sd cwd p t = (e, t')"
  shows "e \<longleftrightarrow> vt_view sd t (path_comps p) \<noteq> None" "vt_view sd t' = vt_view sd t"
    "reached (path_comps p) t'" "reached q t \<Longrightarrow> reached q t'"
  using assms find_node [of sd "path_comps p" t] find_view [of sd "path_comps p" t]
    find_reached [of "path_comps p" sd t] find_keeps_reached [of q t sd "path_comps p"]
  by (auto simp: vt_exists_def split_plain vt_view_def split: prod.splits)

lemma parent_spec:
  assumes "plain_path p" "vt_parent_dir_node sd cwd p t = (r, t')"
  shows "r \<noteq> None \<longleftrightarrow> vt_view sd t (butlast (path_comps p)) = Some True" "vt_view sd t' = vt_view sd t"
    "reached q t \<Longrightarrow> reached q t'"
proof -
  have "plain_path (dirname p) \<and> path_comps (dirname p) = butlast (path_comps p)"
  proof (cases "path_comps p" rule: rev_cases)
    case Nil
    with assms(1) have "p = ''/''" by (metis abs_path_def canonical_def plain_path_def)
    with assms(1) Nil show ?thesis by simp
  next
    case (snoc cs c)
    with plain_parent [OF assms(1) snoc] show ?thesis by simp
  qed
  then have sp: "vt_split cwd (dirname (vt_norm cwd p)) = butlast (path_comps p)"
    using assms(1) by (simp add: split_plain)
  let ?q = "butlast (path_comps p)"
  define t2 where "t2 = snd (vt_find sd ?q t)"
  have fd: "vt_find sd ?q t = (vt_lookup sd ?q t, t2)" by (simp add: prod_eq_iff find_node t2_def)
  have t2: "vt_view sd t2 = vt_view sd t" "reached q t \<Longrightarrow> reached q t2"
    by (simp_all add: t2_def find_view find_keeps_reached)
  show "r \<noteq> None \<longleftrightarrow> vt_view sd t ?q = Some True" "vt_view sd t' = vt_view sd t"
    "reached q t \<Longrightarrow> reached q t'"
    using assms(2) fd t2 unfolding vt_parent_dir_node_def sp
    by (cases "vt_lookup sd ?q t"; auto simp: vt_view_def split: if_splits)+
qed

subsection \<open>mkdir\<close>

lemma mkdir_loop_Cons:
  "mkdir_loop sd parents (n # p) t = (case map_of (n_children (hydrate sd t)) n of
     None \<Rightarrow> if p \<noteq> [] \<and> \<not> parents then (VErr NoParent (''parent does not exist: '' @ n), hydrate sd t)
       else (fst (mkdir_loop sd parents p (VNode True True None [])),
             vt_put n (snd (mkdir_loop sd parents p (VNode True True None []))) (hydrate sd t))
   | Some c \<Rightarrow> if \<not> n_is_dir c then (VErr NotDirComp (''path component is not a dir: '' @ n), hydrate sd t)
       else (fst (mkdir_loop sd parents p c),
             vt_put n (snd (mkdir_loop sd parents p c)) (hydrate sd t)))"
  by (simp add: Let_def case_prod_unfold split: option.split)

declare mkdir_loop.simps(2) [simp del]

lemma new_dir_view: "vt_view sd (VNode True True None []) = (\<lambda>p. if p = [] then Some True else None)"
proof
  fix p show "vt_view sd (VNode True True None []) p = (\<lambda>p. if p = [] then Some True else None) p"
    by (cases p) (simp_all add: view_Cons)
qed

definition loop_error :: "bool \<Rightarrow> string list \<Rightarrow> namespace \<Rightarrow> vt_error option" where
  "loop_error parents p m =
     (if \<exists>q\<in>set (prefixes p). m q = Some False then Some NotDirComp
      else if \<not> parents \<and> p \<noteq> [] \<and> m (butlast p) = None then Some NoParent else None)"

definition result_kind :: "vt_result \<Rightarrow> vt_error option" where
  "result_kind r = (case r of VErr e _ \<Rightarrow> Some e | _ \<Rightarrow> None)"

lemma loop_error_Cons:
  assumes "m [] = Some True"
  shows "loop_error parents (n # p) m =
    (if \<not> parents \<and> p \<noteq> [] \<and> m [n] = None \<and> (\<forall>q. m (n # q) = None) then Some NoParent
     else loop_error parents p (\<lambda>q. m (n # q)))"
  using assms by (cases p) (auto simp: loop_error_def)

definition implements :: "scan \<Rightarrow> vnode \<Rightarrow> vt_error option \<Rightarrow> namespace \<Rightarrow> vt_result \<times> vnode \<Rightarrow> bool" where
  "implements sd t err m' rt \<longleftrightarrow>
     fst rt \<noteq> VCycle \<and> result_kind (fst rt) = err \<and>
     vt_view sd (snd rt) = (if err = None then m' else vt_view sd t)"

lemma mkdir_loop_spec:
  "n_is_dir t \<Longrightarrow>
   implements sd t (loop_error parents p (vt_view sd t)) (eff_mkdir True p (vt_view sd t))
     (mkdir_loop sd parents p t)"
proof (induction p arbitrary: t)
  case Nil
  then show ?case by (auto simp: implements_def result_kind_def loop_error_def eff_mkdir_def)
next
  case (Cons n p)
  let ?m = "vt_view sd t"
  have root: "?m [] = Some True" using Cons.prems by simp
  show ?case
  proof (cases "map_of (n_children (hydrate sd t)) n")
    case None
    then have m: "?m (n # q) = None" for q by (simp add: view_Cons)
    show ?thesis
    proof (cases "p \<noteq> [] \<and> \<not> parents")
      case True
      with None m loop_error_Cons [of ?m parents n p, OF root] show ?thesis
        by (simp add: mkdir_loop_Cons implements_def result_kind_def)
    next
      case False
      let ?r = "mkdir_loop sd parents p (VNode True True None [])"
      have e: "loop_error parents p (\<lambda>p. if p = [] then Some True else None) = None" "loop_error parents (n # p) ?m = None"
        using False m root by (auto simp: loop_error_def)
      with Cons.IH [of "VNode True True None []"]
      have r: "fst ?r \<noteq> VCycle" "result_kind (fst ?r) = None"
        "vt_view sd (snd ?r) = eff_mkdir True p (\<lambda>p. if p = [] then Some True else None)"
        by (simp_all add: implements_def new_dir_view)
      have "vt_view sd (vt_put n (snd ?r) (hydrate sd t)) q = eff_mkdir True (n # p) ?m q" for q
        using r(3) m root by (cases q) (auto simp: view_put eff_mkdir_def)
      with None False r e show ?thesis by (auto simp: mkdir_loop_Cons implements_def)
    qed
  next
    case (Some c)
    then have m: "?m (n # q) = vt_view sd c q" for q by (simp add: view_Cons)
    show ?thesis
    proof (cases "n_is_dir c")
      case False
      then have "loop_error parents (n # p) ?m = Some NotDirComp"
        using m [of "[]"] by (auto simp: loop_error_def)
      with Some False show ?thesis by (simp add: mkdir_loop_Cons implements_def result_kind_def)
    next
      case True
      let ?r = "mkdir_loop sd parents p c"
      have e: "loop_error parents (n # p) ?m = loop_error parents p (vt_view sd c)"
        using loop_error_Cons [of ?m parents n p, OF root] m m [of "[]"] by (simp add: True)
      from Cons.IH [OF True] have r: "fst ?r \<noteq> VCycle" "result_kind (fst ?r) = loop_error parents p (vt_view sd c)"
        "vt_view sd (snd ?r) = (if loop_error parents p (vt_view sd c) = None
           then eff_mkdir True p (vt_view sd c) else vt_view sd c)"
        by (simp_all add: implements_def)
      have "vt_view sd (vt_put n (snd ?r) (hydrate sd t)) q =
          (if loop_error parents p (vt_view sd c) = None then eff_mkdir True (n # p) ?m q else ?m q)" for q
        using r(3) m root by (cases q) (auto simp: view_put eff_mkdir_def)
      with Some True r e show ?thesis by (auto simp: mkdir_loop_Cons implements_def)
    qed
  qed
qed

lemma mkdir_spec:
  assumes "plain_path p" "n_is_dir t"
  shows "implements sd t (mkdir_error parents (path_comps p) (vt_view sd t))
    (eff_mkdir True (path_comps p) (vt_view sd t)) (vt_mkdir sd cwd p parents t)"
proof -
  obtain e t1 where ex: "vt_exists sd cwd p t = (e, t1)" by fastforce
  note ex_spec = exists_spec [OF assms(1) ex]
  have ne: "path_comps p \<noteq> [] \<or> e" using ex_spec(1) assms(2) by auto
  have d: "n_is_dir t1" using ex_spec(2) assms(2) view_Nil by (metis option.inject)
  have err: "mkdir_error parents (path_comps p) (vt_view sd t) =
    (if e then Some AlreadyExists else loop_error parents (path_comps p) (vt_view sd t))"
    using ne ex_spec(1) by (auto simp: mkdir_error_def loop_error_def)
  show ?thesis
  proof (cases e)
    case True
    with ex err ex_spec(2) assms(1) show ?thesis
      by (simp add: vt_mkdir_def split_plain implements_def result_kind_def)
  next
    case False
    with ex ne assms(1) have "vt_mkdir sd cwd p parents t = mkdir_loop sd parents (path_comps p) t1"
      by (simp add: vt_mkdir_def split_plain)
    with mkdir_loop_spec [OF d, of sd parents "path_comps p"] err False ex_spec(2) show ?thesis
      by (simp add: implements_def)
  qed
qed

subsection \<open>rename and delete\<close>

text \<open>The invariant of a namespace: there is a root, and only directories have entries.\<close>

definition ns_inv :: "namespace \<Rightarrow> bool" where
  "ns_inv m \<longleftrightarrow> m [] = Some True \<and> (\<forall>q n. m (q @ [n]) \<noteq> None \<longrightarrow> m q = Some True)"

lemma ns_inv_parent: "ns_inv m \<Longrightarrow> m p \<noteq> None \<Longrightarrow> p \<noteq> [] \<Longrightarrow> m (butlast p) = Some True"
  by (cases p rule: rev_cases) (auto simp: ns_inv_def)

lemma ns_inv_mkdir:
  assumes "ns_inv m" "mkdir_error parents p m = None"
  shows "ns_inv (eff_mkdir True p m)"
proof -
  have e: "m q \<noteq> Some False" if "prefix q p" for q
    using assms(2) that by (simp add: mkdir_error_def split: if_splits)
  have "eff_mkdir True p m q = Some True" if ex: "eff_mkdir True p m (q @ [n]) \<noteq> None" for q n
  proof (cases "m (q @ [n])")
    case None
    with ex have "prefix q p" by (auto simp: eff_mkdir_def split: if_splits dest: append_prefixD)
    with e [OF this] show ?thesis by (cases "m q") (auto simp: eff_mkdir_def)
  next
    case (Some b)
    with assms(1) have "m q = Some True" by (auto simp: ns_inv_def)
    then show ?thesis by (simp add: eff_mkdir_def)
  qed
  moreover have "eff_mkdir True p m [] = Some True" using assms(1) by (simp add: ns_inv_def eff_mkdir_def)
  ultimately show ?thesis by (simp add: ns_inv_def)
qed

lemma ns_inv_delete:
  assumes "ns_inv m" "delete_error r p m = None"
  shows "ns_inv (eff_delete p m)"
proof -
  have "p \<noteq> []" using assms(2) by (simp add: delete_error_def split: if_splits)
  moreover have "m q = Some True" if "m (q @ [n]) \<noteq> None" for q n
    using assms(1) that by (auto simp: ns_inv_def)
  moreover have "m [] = Some True" using assms(1) by (simp add: ns_inv_def)
  ultimately show ?thesis unfolding ns_inv_def eff_delete_def by (metis prefix_Nil prefix_snoc)
qed

lemma ns_inv_rename: "ns_inv m \<Longrightarrow> rename_error src dst m = None \<Longrightarrow> ns_inv (eff_rename src dst m)"
proof -
  assume inv: "ns_inv m" and err: "rename_error src dst m = None"
  from err have e: "\<not> prefix src dst" "m dst = None" "m (butlast dst) = Some True"
    by (simp_all add: rename_error_def split: if_splits)
  with inv have ne: "dst \<noteq> []" "src \<noteq> []" by (auto simp: ns_inv_def)
  have "eff_rename src dst m q = Some True" if ex: "eff_rename src dst m (q @ [n]) \<noteq> None" for q n
  proof (cases "prefix dst (q @ [n])")
    case True
    show ?thesis
    proof (cases "dst = q @ [n]")
      case True
      with e show ?thesis by (auto simp: eff_rename_def prefix_def)
    next
      case False
      with True have q: "prefix dst q" by simp
      then obtain r where "q = dst @ r" by (auto simp: prefix_def)
      with True ex inv show ?thesis by (auto simp: eff_rename_def ns_inv_def simp flip: append_assoc)
    qed
  next
    case False
    with ex inv show ?thesis by (auto simp: eff_rename_def ns_inv_def split: if_splits)
  qed
  moreover have "eff_rename src dst m [] = Some True" using ne inv by (simp add: eff_rename_def ns_inv_def)
  ultimately show ?thesis by (simp add: ns_inv_def)
qed

lemma find_full:
  obtains t' where "vt_find sd p t = (vt_lookup sd p t, t')" "vt_view sd t' = vt_view sd t"
    "reached p t'" "\<And>q. reached q t \<Longrightarrow> reached q t'"
proof
  show "vt_find sd p t = (vt_lookup sd p t, snd (vt_find sd p t))" by (simp add: prod_eq_iff find_node)
qed (simp_all add: find_view find_reached find_keeps_reached)

lemma is_empty_dir_spec:
  assumes "plain_path p" "vt_view sd t (path_comps p) = Some True" "vt_is_empty_dir sd cwd p t = (e, t')"
  shows "e \<longleftrightarrow> (\<forall>n. vt_view sd t (path_comps p @ [n]) = None)" "vt_view sd t' = vt_view sd t"
    "reached q t \<Longrightarrow> reached q t'"
proof -
  let ?p = "path_comps p"
  obtain t1 where t1: "vt_find sd ?p t = (vt_lookup sd ?p t, t1)" "vt_view sd t1 = vt_view sd t"
    "reached ?p t1" "reached q t \<Longrightarrow> reached q t1"
    by (metis find_full)
  obtain n where n: "vt_lookup sd ?p t = Some n" "n_is_dir n"
    using assms(2) by (auto simp: vt_view_def)
  then have et: "e = (n_children (hydrate sd n) = [])" "t' = vt_at ?p (hydrate sd) t1"
    using assms(1,3) t1(1) by (auto simp: vt_is_empty_dir_def split_plain)
  have "(n_children (hydrate sd n) = []) \<longleftrightarrow> (\<forall>k. map_of (n_children (hydrate sd n)) k = None)"
    by (metis ext map_of_eq_empty_iff)
  also have "\<dots> \<longleftrightarrow> (\<forall>k. vt_view sd t (?p @ [k]) = None)"
    by (auto simp: view_append n view_Cons split: option.splits)
  finally show "e \<longleftrightarrow> (\<forall>k. vt_view sd t (?p @ [k]) = None)" using et by simp
  show "vt_view sd t' = vt_view sd t" using et t1 by (simp add: at_hydrate_view)
  show "reached q t \<Longrightarrow> reached q t'" using et t1 by (simp add: at_hydrate_reached)
qed

lemma delete_spec:
  assumes "plain_path p" "ns_inv (vt_view sd t)"
  shows "implements sd t (delete_error recursive (path_comps p) (vt_view sd t))
    (eff_delete (path_comps p) (vt_view sd t)) (vt_delete sd cwd p recursive t)"
proof (cases "path_comps p" rule: rev_cases)
  case Nil
  with assms(1) show ?thesis
    by (simp add: vt_delete_def split_plain delete_error_def implements_def result_kind_def)
next
  case (snoc cs c)
  let ?p = "path_comps p"
  let ?m = "vt_view sd t"
  obtain t1 where t1: "vt_find sd ?p t = (vt_lookup sd ?p t, t1)" "vt_view sd t1 = ?m" "reached ?p t1"
    by (metis find_full)
  show ?thesis
  proof (cases "vt_lookup sd ?p t")
    case None
    then have "?m ?p = None" by (simp add: vt_view_def)
    with t1 None assms(1) snoc show ?thesis
      by (simp add: vt_delete_def split_plain delete_error_def implements_def result_kind_def)
  next
    case (Some node)
    then have mp: "?m ?p = Some (n_is_dir node)" by (simp add: vt_view_def)
    define ft where "ft = (if n_is_dir node \<and> \<not> recursive
      then (case vt_is_empty_dir sd cwd p t1 of (e, t') \<Rightarrow> (\<not> e, t')) else (False, t1))"
    obtain full t2 where ft: "ft = (full, t2)" by fastforce
    have full: "(full \<longleftrightarrow> n_is_dir node \<and> \<not> recursive \<and> (\<exists>n. ?m (?p @ [n]) \<noteq> None)) \<and>
        vt_view sd t2 = ?m \<and> reached ?p t2"
    proof (cases "n_is_dir node \<and> \<not> recursive")
      case True
      obtain e where e: "vt_is_empty_dir sd cwd p t1 = (e, t2)" "full = (\<not> e)"
        using ft True by (auto simp: ft_def split: prod.splits)
      have d: "vt_view sd t1 ?p = Some True" using mp True t1(2) by simp
      from is_empty_dir_spec [OF assms(1) d e(1)] e(2) True t1(2,3) show ?thesis by simp
    next
      case False
      with ft t1 show ?thesis by (auto simp: ft_def)
    qed
    obtain r t3 where t3: "vt_parent_dir_node sd cwd p t2 = (r, t3)" by fastforce
    note par = parent_spec [OF assms(1) t3]
    have pd: "?m cs = Some True" using ns_inv_parent [OF assms(2), of ?p] mp snoc by simp
    have r: "r \<noteq> None" "vt_view sd t3 = ?m" "reached ?p t3" using par(1,2) par(3) [of ?p] full pd snoc by auto
    have unf: "vt_delete sd cwd p recursive t = (if full then (VErr NotEmpty (''directory not empty: '' @ p), t2)
        else (VOk, vt_at cs (vt_pop c) t3))"
      using t1(1) Some ft t3 r(1) snoc assms(1) plain_parent [OF assms(1) snoc]
      by (auto simp: vt_delete_def split_plain ft_def)
    have "vt_view sd (vt_at cs (vt_pop c) t3) = eff_delete ?p ?m"
      using at_pop_view [of cs c t3 sd] r pd snoc by simp
    with unf full mp snoc show ?thesis
      by (auto simp: implements_def result_kind_def delete_error_def)
  qed
qed

lemma under_prefix:
  assumes "plain_path s" "plain_path d" "path_comps s \<noteq> []"
  shows "d = s \<or> startswith d (s @ ''/'') \<longleftrightarrow> prefix (path_comps s) (path_comps d)"
proof -
  have "canonical s" "canonical d" "s \<noteq> ''/''" using assms
    by (auto simp: plain_path_def path_comps_def split_on_def)
  with under_scope.covers_iff_prefix [of s d] assms(3) show ?thesis by (simp add: under_def)
qed

lemma rename_link_view:
  assumes src: "S = ss @ [sn]" and dst: "D = ds @ [dn]" and np: "\<not> prefix S D"
    and t: "reached S t" "reached D t" "vt_view sd t ss = Some True" "vt_view sd t ds = Some True"
    and node: "\<And>q. vt_view sd node q = vt_view sd t (S @ q)"
  shows "vt_view sd (vt_at ds (vt_put dn node) (vt_at ss (vt_pop sn) t)) = eff_rename S D (vt_view sd t)"
proof
  fix p
  let ?t' = "vt_at ss (vt_pop sn) t"
  have del: "vt_view sd ?t' = eff_delete S (vt_view sd t)"
    using at_pop_view [of ss sn t sd] t src by simp
  have "\<not> prefix S ds" using np dst by auto
  then have "vt_view sd ?t' ds \<noteq> None" using del t(4) by (simp add: eff_delete_def)
  moreover have "reached (ds @ [dn]) ?t'" using at_pop_reached t(2) dst by simp
  ultimately have "vt_view sd (vt_at ds (vt_put dn node) ?t') p =
      (if prefix D p then vt_view sd node (drop (length D) p) else vt_view sd ?t' p)"
    using at_put_view [of ds dn ?t' sd node p] dst by simp
  then show "vt_view sd (vt_at ds (vt_put dn node) ?t') p = eff_rename S D (vt_view sd t) p"
    using del node by (simp add: eff_rename_def eff_delete_def)
qed

lemma rename_spec:
  assumes "plain_path src" "plain_path dst" "path_comps src \<noteq> []" and inv: "ns_inv (vt_view sd t)"
  shows "implements sd t (rename_error (path_comps src) (path_comps dst) (vt_view sd t))
    (eff_rename (path_comps src) (path_comps dst) (vt_view sd t)) (vt_rename sd cwd src dst t)"
proof -
  let ?S = "path_comps src" and ?D = "path_comps dst" and ?m = "vt_view sd t"
  note sp = split_plain [OF assms(1)] split_plain [OF assms(2)]
  note under = under_prefix [OF assms(1-3)]
  show ?thesis
  proof (cases "prefix ?S ?D")
    case True
    with under sp show ?thesis
      by (simp add: vt_rename_def implements_def rename_error_def result_kind_def Let_def)
  next
    case np: False
    obtain t1 where t1: "vt_find sd ?S t = (vt_lookup sd ?S t, t1)" "vt_view sd t1 = ?m" "reached ?S t1"
      by (metis find_full)
    obtain e t2 where t2: "vt_exists sd cwd dst t1 = (e, t2)" by fastforce
    note ex = exists_spec [OF assms(2) t2]
    obtain r3 t3 where t3: "vt_parent_dir_node sd cwd dst t2 = (r3, t3)" by fastforce
    note p3 = parent_spec [OF assms(2) t3]
    obtain r4 t4 where t4: "vt_parent_dir_node sd cwd src t3 = (r4, t4)" by fastforce
    note p4 = parent_spec [OF assms(1) t4]
    obtain t5 where t5: "vt_find sd ?S t4 = (vt_lookup sd ?S t4, t5)" "vt_view sd t5 = vt_view sd t4"
      "\<And>q. reached q t4 \<Longrightarrow> reached q t5"
      by (metis find_full)
    have v: "vt_view sd t2 = ?m" "vt_view sd t3 = ?m" "vt_view sd t4 = ?m" "vt_view sd t5 = ?m"
      using ex(2) t1(2) p3(2) p4(2) t5(2) by simp_all
    have S: "vt_lookup sd ?S t = None \<longleftrightarrow> ?m ?S = None" by (simp add: vt_view_def)
    have head: "vt_rename sd cwd src dst t = (if ?m ?S = None then (VErr SrcMissing (''src does not exist: '' @ src), t1)
        else if e then (VErr DstExists (''dst already exists: '' @ dst), t2)
        else if r3 = None then (VErr NoDstParent (''dst parent dir does not exist: '' @ dirname dst), t3)
        else if r4 = None then (VErr CannotMove (''cannot move: '' @ src), t4)
        else if vt_lookup sd ?S t4 = None then (VErr CannotMove (''cannot move: '' @ src), t5)
        else (VOk, vt_at (vt_split cwd (dirname dst)) (vt_put (basename dst) (the (vt_lookup sd ?S t4)))
             (vt_at (vt_split cwd (dirname src)) (vt_pop (basename src)) t5)))"
      unfolding S [symmetric] using np under t1(1) t2 t3 t4 t5(1) sp
      by (auto simp: vt_rename_def Let_def split: option.split)
    show ?thesis
    proof (cases "rename_error ?S ?D ?m")
      case (Some err)
      have "e \<longleftrightarrow> ?m ?D \<noteq> None" using ex(1) t1(2) by simp
      moreover have "r3 = None \<longleftrightarrow> ?m (butlast ?D) \<noteq> Some True" using p3(1) v by (cases r3) simp_all
      ultimately show ?thesis using Some np head v t1(2)
        by (auto simp: rename_error_def implements_def result_kind_def split: if_splits)
    next
      case None
      then have ok: "?m ?S \<noteq> None" "?m ?D = None" "?m (butlast ?D) = Some True"
        by (simp_all add: rename_error_def split: if_splits)
      from assms(3) obtain ss sn where ss: "?S = ss @ [sn]" by (metis append_butlast_last_id)
      from ok(2) inv have "?D \<noteq> []" by (auto simp: ns_inv_def)
      then obtain ds dn where ds: "?D = ds @ [dn]" by (metis append_butlast_last_id)
      have sd': "?m ss = Some True" using ns_inv_parent [OF inv ok(1) assms(3)] ss by simp
      obtain node where node: "vt_lookup sd ?S t4 = Some node"
        using v(3) ok(1) by (cases "vt_lookup sd ?S t4") (auto simp: vt_view_def dest: fun_cong [of _ _ ?S])
      have nv: "vt_view sd node q = vt_view sd t5 (?S @ q)" for q
        using v node view_append [of sd t4 ?S q] by simp
      have re: "reached ?S t5" "reached ?D t5" using t1(3) ex(3) ex(4) [of ?S] p3(3) p4(3) t5(3) by blast+
      have "vt_rename sd cwd src dst t = (VOk, vt_at ds (vt_put dn node) (vt_at ss (vt_pop sn) t5))"
        using head ok node ex(1) p3(1) p4(1) v t1(2) sd' ss plain_parent [OF assms(1) ss]
          plain_parent [OF assms(2) ds] by (simp add: split_plain)
      with rename_link_view [OF ss ds np re, of sd node] nv v sd' ok(3) ds None show ?thesis
        by (simp add: implements_def result_kind_def)
    qed
  qed
qed

lemma rename_refused_view:
  assumes "plain_path src" "plain_path dst" "vt_rename sd cwd src dst t = (VErr e msg, t')"
  shows "vt_view sd t' = vt_view sd t"
proof -
  obtain t1 where t1: "vt_find sd (path_comps src) t = (vt_lookup sd (path_comps src) t, t1)"
    "vt_view sd t1 = vt_view sd t" by (metis find_full)
  obtain e2 t2 where t2: "vt_exists sd cwd dst t1 = (e2, t2)" by fastforce
  obtain r3 t3 where t3: "vt_parent_dir_node sd cwd dst t2 = (r3, t3)" by fastforce
  obtain r4 t4 where t4: "vt_parent_dir_node sd cwd src t3 = (r4, t4)" by fastforce
  obtain t5 where t5: "vt_find sd (path_comps src) t4 = (vt_lookup sd (path_comps src) t4, t5)"
    "vt_view sd t5 = vt_view sd t4" by (metis find_full)
  have "vt_view sd t2 = vt_view sd t" "vt_view sd t3 = vt_view sd t" "vt_view sd t4 = vt_view sd t"
    "vt_view sd t5 = vt_view sd t"
    using exists_spec(2) [OF assms(2) t2] parent_spec(2) [OF assms(2) t3] parent_spec(2) [OF assms(1) t4] t1 t5
    by simp_all
  then show ?thesis using assms(3) t1 t2 t3 t4 t5 split_plain [OF assms(1)] split_plain [OF assms(2)]
    by (auto simp: vt_rename_def Let_def split: if_splits option.splits bool.splits)
qed

section \<open>The tree of an untouched disk\<close>

text \<open>
  What the listing gives of a disk whose namespace is \<open>m\<close>: the entries of every directory, under names
  that are path components.
\<close>

definition lists :: "scan \<Rightarrow> namespace \<Rightarrow> bool" where
  "lists sd m \<longleftrightarrow> (\<forall>cs. m cs = Some True \<longrightarrow>
     (case sd (abs_path cs) of None \<Rightarrow> False
      | Some es \<Rightarrow> (\<forall>n. map_of es n = m (cs @ [n])) \<and> (\<forall>n\<in>fst ` set es. comp_ok n)))"

lemma map_of_add_entries:
  "map_of (add_entries org es ch) n = (case map_of ch n of Some c \<Rightarrow> Some c
     | None \<Rightarrow> map_option (\<lambda>d. VNode d False (Some (path_join org n)) []) (map_of es n))"
proof (induction org es ch rule: add_entries.induct)
  case (2 org name d es ch)
  have "name \<in> fst ` set ch \<longleftrightarrow> map_of ch name \<noteq> None" by (simp add: map_of_eq_None_iff)
  with 2 show ?case by (auto split: option.split)
qed (auto split: option.split)

lemma path_join_abs_path: "comp_ok n \<Longrightarrow> \<forall>c\<in>set cs. comp_ok c \<Longrightarrow> path_join (abs_path cs) n = abs_path (cs @ [n])"
proof -
  assume n: "comp_ok n" and cs: "\<forall>c\<in>set cs. comp_ok c"
  have "\<not> startswith n ''/''" using n by (auto simp: comp_ok_def startswith_append)
  moreover have "\<not> endswith (abs_path cs) ''/''" if "cs \<noteq> []"
  proof -
    from that obtain ds d where d: "cs = ds @ [d]" by (cases cs rule: rev_cases) auto
    with cs have "d \<noteq> []" "last d \<noteq> CHR ''/''" by (auto simp: comp_ok_def dest: last_in_set)
    then have "last (abs_path cs) \<noteq> CHR ''/''" using d by (simp add: abs_path_def)
    then show ?thesis by (auto simp: endswith_append)
  qed
  ultimately show ?thesis
    by (cases cs) (auto simp: path_join_def abs_path_def endswith_append)
qed

lemma ns_invD: "ns_inv m \<Longrightarrow> m (q @ [n]) \<noteq> None \<Longrightarrow> m q = Some True"
  by (auto simp: ns_inv_def)

lemma ns_inv_below: "ns_inv m \<Longrightarrow> m q \<noteq> Some True \<Longrightarrow> m (q @ n # p) = None"
proof (induction p rule: rev_induct)
  case Nil
  then show ?case using ns_invD by blast
next
  case (snoc x p)
  then have "m ((q @ n # p) @ [x]) = None" using ns_invD by (metis option.discI)
  then show ?case by simp
qed

lemma ns_inv_strict: "ns_inv m \<Longrightarrow> m p \<noteq> None \<Longrightarrow> strict_prefix q p \<Longrightarrow> m q = Some True"
  using ns_inv_below by (metis strict_prefixE')

lemma disk_view:
  assumes "ns_inv m" "lists sd m"
  shows "m cs = Some d \<Longrightarrow> \<forall>c\<in>set cs. comp_ok c \<Longrightarrow>
    vt_view sd (VNode d False (Some (abs_path cs)) []) p = m (cs @ p)"
proof (induction p arbitrary: cs d)
  case (Cons n p)
  show ?case
  proof (cases d)
    case False
    with Cons.prems ns_inv_below [OF assms(1), of cs n p] show ?thesis by (simp add: view_Cons)
  next
    case True
    with Cons.prems(1) have "m cs = Some True" by simp
    with assms(2) have "case sd (abs_path cs) of None \<Rightarrow> False
      | Some es \<Rightarrow> (\<forall>n. map_of es n = m (cs @ [n])) \<and> (\<forall>n\<in>fst ` set es. comp_ok n)"
      unfolding lists_def by blast
    then obtain es where es: "sd (abs_path cs) = Some es"
      "map_of es n = m (cs @ [n])" "\<And>n. n \<in> fst ` set es \<Longrightarrow> comp_ok n"
      by (cases "sd (abs_path cs)") auto
    show ?thesis
    proof (cases "m (cs @ [n])")
      case None
      then have "m (cs @ n # p) = None"
        using ns_inv_below [OF assms(1), of "cs @ [n]"] by (cases p) auto
      with None True es show ?thesis by (simp add: view_Cons map_of_add_entries)
    next
      case (Some b)
      with es(2) have n: "comp_ok n" using es(3) by (metis map_of_SomeD fst_conv image_eqI)
      then have "\<forall>c\<in>set (cs @ [n]). comp_ok c" using Cons.prems(2) by simp
      with Cons.IH [OF Some] Some True es n Cons.prems(2) show ?thesis
        by (simp add: view_Cons map_of_add_entries path_join_abs_path)
    qed
  qed
qed simp

lemma init_view: "ns_inv m \<Longrightarrow> lists sd m \<Longrightarrow> vt_view sd vt_init = m"
  using disk_view [of m sd "[]" True] by (simp add: vt_init_def abs_path_def ns_inv_def fun_eq_iff)

end
