(* ===== verification/Fs_Disk.thy ===== *)
theory Fs_Disk
  imports Vtree
begin

text \<open>
  The disk as the file tools see it, and the calls of \<open>os\<close> and \<open>shutil\<close> they make on it: a list of paths (as
  component lists) with what is there, a directory or a file with its contents. Paths are real paths, as
  \<open>os.path.realpath\<close> returns them, so there are no symbolic links on the way; ownership, modes and
  times are left out. A call returns the error of the system call or the new disk.
\<close>

section \<open>The disk\<close>

datatype dentry = DDir | DFile string

type_synonym disk = "(string list \<times> dentry) list"

datatype os_error = ENOENT | ENOTDIR | EEXIST | EISDIR | ENOTEMPTY | EINVAL

definition os_at :: "disk \<Rightarrow> string \<Rightarrow> dentry option" where
  "os_at d path = map_of d (path_comps path)"

definition os_exists :: "disk \<Rightarrow> string \<Rightarrow> bool" where
  "os_exists d path \<longleftrightarrow> os_at d path \<noteq> None"

definition os_isdir :: "disk \<Rightarrow> string \<Rightarrow> bool" where
  "os_isdir d path \<longleftrightarrow> os_at d path = Some DDir"

definition os_isfile :: "disk \<Rightarrow> string \<Rightarrow> bool" where
  "os_isfile d path \<longleftrightarrow> (case os_at d path of Some (DFile _) \<Rightarrow> True | _ \<Rightarrow> False)"

fun is_ddir :: "dentry \<Rightarrow> bool" where
  "is_ddir DDir = True"
| "is_ddir (DFile _) = False"

text \<open>The entries of a directory, and a directory with everything below it.\<close>

definition entries :: "disk \<Rightarrow> string list \<Rightarrow> (string \<times> dentry) list" where
  "entries d p = map (\<lambda>(q, e). (last q, e)) (filter (\<lambda>(q, e). q \<noteq> [] \<and> butlast q = p) d)"

definition subtree :: "disk \<Rightarrow> string list \<Rightarrow> disk" where
  "subtree d p = map (\<lambda>(q, e). (drop (length p) q, e)) (filter (\<lambda>(q, e). prefix p q) d)"

definition graft :: "string list \<Rightarrow> disk \<Rightarrow> disk \<Rightarrow> disk" where
  "graft p s d = map (\<lambda>(q, e). (p @ q, e)) s @ d"

definition prune :: "string list \<Rightarrow> disk \<Rightarrow> disk" where
  "prune p d = filter (\<lambda>(q, e). \<not> prefix p q) d"

definition os_scandir :: "disk \<Rightarrow> scan" where
  "os_scandir d path = (if os_isdir d path
     then Some (map (\<lambda>(n, e). (n, is_ddir e)) (entries d (path_comps path))) else None)"

section \<open>Calls\<close>

text \<open>What stands in the way of creating an entry at a path: its parent.\<close>

definition parent_error :: "disk \<Rightarrow> string list \<Rightarrow> os_error option" where
  "parent_error d p = (case map_of d (butlast p) of
     None \<Rightarrow> Some (if list_ex (\<lambda>q. map_of d q \<notin> {None, Some DDir}) (prefixes p) then ENOTDIR else ENOENT)
   | Some DDir \<Rightarrow> None
   | Some (DFile _) \<Rightarrow> Some ENOTDIR)"

definition mkdir_at :: "disk \<Rightarrow> string list \<Rightarrow> os_error + disk" where
  "mkdir_at d p =
     (if map_of d p \<noteq> None then Inl EEXIST
      else case parent_error d p of Some e \<Rightarrow> Inl e | None \<Rightarrow> Inr ((p, DDir) # d))"

definition os_mkdir :: "disk \<Rightarrow> string \<Rightarrow> os_error + disk" where
  "os_mkdir d path = mkdir_at d (path_comps path)"

text \<open>\<open>os.makedirs\<close>: the missing parents first (an existing one is tolerated there), then the directory.\<close>

fun makedirs_at :: "bool \<Rightarrow> disk \<Rightarrow> string list \<Rightarrow> os_error + disk" where
  "makedirs_at exist_ok d [] = (if exist_ok then Inr d else Inl EEXIST)"
| "makedirs_at exist_ok d (c # cs) =
     (let p = c # cs;
          pre = (if map_of d (butlast p) \<noteq> None then Inr d else makedirs_at exist_ok d (butlast p))
      in case pre of
           Inl e \<Rightarrow> Inl e
         | Inr d' \<Rightarrow> (case mkdir_at d' p of
               Inl e \<Rightarrow> if exist_ok \<and> map_of d' p = Some DDir then Inr d' else Inl e
             | Inr d'' \<Rightarrow> Inr d''))"

definition os_makedirs :: "bool \<Rightarrow> disk \<Rightarrow> string \<Rightarrow> os_error + disk" where
  "os_makedirs exist_ok d path = makedirs_at exist_ok d (path_comps path)"

definition move :: "string list \<Rightarrow> string list \<Rightarrow> disk \<Rightarrow> disk" where
  "move s t d = graft t (subtree d s) (prune t (prune s d))"

text \<open>\<open>rename(2)\<close>: what it replaces is a file by a file or an empty directory by a directory.\<close>

definition rename_at :: "disk \<Rightarrow> string list \<Rightarrow> string list \<Rightarrow> os_error + disk" where
  "rename_at d s t = (case map_of d s of
     None \<Rightarrow> Inl ENOENT
   | Some e \<Rightarrow>
       if s = t then Inr d
       else if prefix s t then Inl EINVAL
       else if t = [] then Inl EINVAL
       else case parent_error d t of
           Some err \<Rightarrow> Inl err
         | None \<Rightarrow> (case map_of d t of
               None \<Rightarrow> Inr (move s t d)
             | Some (DFile _) \<Rightarrow> if e = DDir then Inl ENOTDIR else Inr (move s t d)
             | Some DDir \<Rightarrow>
                 if e \<noteq> DDir then Inl EISDIR
                 else if entries d t \<noteq> [] then Inl ENOTEMPTY else Inr (move s t d)))"

definition os_rename :: "disk \<Rightarrow> string \<Rightarrow> string \<Rightarrow> os_error + disk" where
  "os_rename d src dst = rename_at d (path_comps src) (path_comps dst)"

definition os_remove :: "disk \<Rightarrow> string \<Rightarrow> os_error + disk" where
  "os_remove d path = (case os_at d path of
     None \<Rightarrow> Inl ENOENT
   | Some DDir \<Rightarrow> Inl EISDIR
   | Some (DFile _) \<Rightarrow> Inr (prune (path_comps path) d))"

definition os_rmdir :: "disk \<Rightarrow> string \<Rightarrow> os_error + disk" where
  "os_rmdir d path = (case os_at d path of
     None \<Rightarrow> Inl ENOENT
   | Some (DFile _) \<Rightarrow> Inl ENOTDIR
   | Some DDir \<Rightarrow> if entries d (path_comps path) \<noteq> [] then Inl ENOTEMPTY
       else Inr (prune (path_comps path) d))"

definition os_rmtree :: "disk \<Rightarrow> string \<Rightarrow> os_error + disk" where
  "os_rmtree d path = (case os_at d path of
     None \<Rightarrow> Inl ENOENT
   | Some (DFile _) \<Rightarrow> Inl ENOTDIR
   | Some DDir \<Rightarrow> Inr (prune (path_comps path) d))"

text \<open>Writing a whole file.\<close>

definition os_write :: "disk \<Rightarrow> string \<Rightarrow> string \<Rightarrow> os_error + disk" where
  "os_write d path content =
     (case os_at d path of
        Some DDir \<Rightarrow> Inl EISDIR
      | Some (DFile _) \<Rightarrow> Inr (dput (path_comps path) (DFile content) d)
      | None \<Rightarrow> (case parent_error d (path_comps path) of
            Some e \<Rightarrow> Inl e | None \<Rightarrow> Inr ((path_comps path, DFile content) # d)))"

section \<open>What the calls do to the map of the disk\<close>

lemma map_of_prune [simp]: "map_of (prune p d) = eff_delete p (map_of d)"
proof
  fix q show "map_of (prune p d) q = eff_delete p (map_of d) q"
    by (induction d) (auto simp: prune_def eff_delete_def)
qed

lemma map_of_subtree: "map_of (subtree d p) q = map_of d (p @ q)"
proof (induction d)
  case (Cons x d)
  obtain r e where x: "x = (r, e)" by fastforce
  show ?case
  proof (cases "prefix p r")
    case True
    then obtain zs where "r = p @ zs" by (auto simp: prefix_def)
    with Cons x show ?thesis by (simp add: subtree_def)
  next
    case False
    then have "r \<noteq> p @ q" by auto
    with Cons False x show ?thesis by (simp add: subtree_def)
  qed
qed (simp add: subtree_def)

lemma map_of_graft: "map_of (graft p s d) q =
  (case (if prefix p q then map_of s (drop (length p) q) else None) of None \<Rightarrow> map_of d q | Some e \<Rightarrow> Some e)"
proof -
  have "map_of (map (\<lambda>(q, e). (p @ q, e)) s) q = (if prefix p q then map_of s (drop (length p) q) else None)"
    by (induction s) (auto simp: prefix_def)
  then show ?thesis by (simp add: graft_def map_add_def)
qed

lemma map_of_move: "map_of (move s t d) = eff_rename s t (map_of d)"
proof
  fix q show "map_of (move s t d) q = eff_rename s t (map_of d) q"
    by (auto simp: move_def map_of_graft map_of_subtree eff_delete_def eff_rename_def split: option.split)
qed

lemma map_of_entries: "map_of (entries d p) n = map_of d (p @ [n])"
proof (induction d)
  case (Cons x d)
  obtain q e where x: "x = (q, e)" by fastforce
  show ?case
  proof (cases "q \<noteq> [] \<and> butlast q = p")
    case True
    then obtain k where "q = p @ [k]" by (metis append_butlast_last_id)
    then show ?thesis using Cons x by (auto simp: entries_def)
  next
    case False
    then have "q \<noteq> p @ [n]" by auto
    with Cons False x show ?thesis by (auto simp: entries_def)
  qed
qed (simp add: entries_def)

lemma entries_Nil_iff: "entries d p = [] \<longleftrightarrow> (\<forall>n. map_of d (p @ [n]) = None)"
  by (metis ext map_of_entries map_of_eq_empty_iff)

section \<open>The disk as a namespace\<close>

definition disk_ns :: "disk \<Rightarrow> namespace" where
  "disk_ns d p = map_option is_ddir (map_of d p)"

definition disk_ok :: "disk \<Rightarrow> bool" where
  "disk_ok d \<longleftrightarrow> ns_inv (disk_ns d) \<and> (\<forall>p. map_of d p \<noteq> None \<longrightarrow> (\<forall>c\<in>set p. dotless c))"

lemma is_ddir_iff: "is_ddir e \<longleftrightarrow> e = DDir"
  by (cases e) simp_all

lemma disk_ns_simps:
  "disk_ns d p = None \<longleftrightarrow> map_of d p = None" "disk_ns d p = Some True \<longleftrightarrow> map_of d p = Some DDir"
  "disk_ns d p = Some False \<longleftrightarrow> (\<exists>c. map_of d p = Some (DFile c))"
  by (auto simp: disk_ns_def is_ddir_iff) (metis dentry.exhaust)

lemma ns_eff:
  "map_of d' = eff_mkdir DDir p (map_of d) \<Longrightarrow> disk_ns d' = eff_mkdir True p (disk_ns d)"
  "map_of d' = eff_rename s t (map_of d) \<Longrightarrow> disk_ns d' = eff_rename s t (disk_ns d)"
  "map_of d' = eff_delete p (map_of d) \<Longrightarrow> disk_ns d' = eff_delete p (disk_ns d)"
  by (auto simp: fun_eq_iff disk_ns_def eff_mkdir_def eff_rename_def eff_delete_def)

lemma disk_comps: "disk_ok d \<Longrightarrow> map_of d p = Some e \<Longrightarrow> \<forall>c\<in>set p. dotless c"
  by (auto simp: disk_ok_def)

lemma scandir_lists:
  assumes "disk_ok d"
  shows "lists (os_scandir d) (disk_ns d)"
proof -
  have "case os_scandir d (abs_path cs) of None \<Rightarrow> False
      | Some es \<Rightarrow> (\<forall>n. map_of es n = disk_ns d (cs @ [n])) \<and> (\<forall>n\<in>fst ` set es. comp_ok n)"
    if dir: "disk_ns d cs = Some True" for cs
  proof -
    have m: "map_of d cs = Some DDir" using dir by (simp add: disk_ns_simps)
    then have "path_comps (abs_path cs) = cs"
      using disk_comps [OF assms m] by (simp add: dotless_def)
    then have sc: "os_scandir d (abs_path cs) = Some (map (\<lambda>(n, e). (n, is_ddir e)) (entries d cs))"
      using m by (simp add: os_scandir_def os_isdir_def os_at_def)
    have "comp_ok n" if "n \<in> fst ` set (entries d cs)" for n
    proof -
      from that have "map_of (entries d cs) n \<noteq> None" by (simp add: map_of_eq_None_iff)
      then obtain e where "map_of d (cs @ [n]) = Some e" by (auto simp: map_of_entries)
      from disk_comps [OF assms this] show ?thesis by (simp add: dotless_def)
    qed
    moreover have "fst ` set (map (\<lambda>(n, e). (n, is_ddir e)) (entries d cs)) = fst ` set (entries d cs)" by force
    ultimately show ?thesis using sc by (simp add: map_of_map_snd map_of_entries disk_ns_def)
  qed
  then show ?thesis by (simp add: lists_def)
qed

lemma disk_tree_view: "disk_ok d \<Longrightarrow> vt_view (os_scandir d) vt_init = disk_ns d"
  by (intro init_view scandir_lists) (simp_all add: disk_ok_def)

section \<open>The calls meet the specification\<close>

lemma parent_error_None: "parent_error d p = None \<longleftrightarrow> disk_ns d (butlast p) = Some True"
  by (auto simp: parent_error_def disk_ns_simps split: option.splits dentry.splits)

lemma mkdir_eff:
  assumes "ns_inv (disk_ns d)" "map_of d p = None" "disk_ns d (butlast p) = Some True"
  shows "map_of ((p, DDir) # d) = eff_mkdir DDir p (map_of d)"
proof
  fix q
  have "map_of d q \<noteq> None" if "prefix q p" "q \<noteq> p"
  proof -
    from that have "prefix q (butlast p)"
      by (metis append_butlast_last_id butlast.simps(1) prefix_snoc)
    then have "disk_ns d q \<noteq> None"
      using ns_inv_strict [OF assms(1), of "butlast p" q] assms(3) by (cases "q = butlast p") auto
    then show ?thesis by (simp add: disk_ns_simps)
  qed
  with assms(2) show "map_of ((p, DDir) # d) q = eff_mkdir DDir p (map_of d) q"
    by (auto simp: eff_mkdir_def)
qed

lemma mkdir_at_ok:
  assumes "ns_inv (disk_ns d)" "mkdir_error False p (disk_ns d) = None"
  shows "\<exists>d'. mkdir_at d p = Inr d' \<and> map_of d' = eff_mkdir DDir p (map_of d)"
proof -
  have e: "map_of d p = None" "p \<noteq> []" "disk_ns d (butlast p) \<noteq> None" "disk_ns d (butlast p) \<noteq> Some False"
    using assms(2) prefixeq_butlast [of p] unfolding mkdir_error_None disk_ns_simps(1) by blast+
  then have "disk_ns d (butlast p) = Some True" by auto
  with mkdir_eff [OF assms(1) e(1) this] e(1) parent_error_None [of d p] show ?thesis
    by (simp add: mkdir_at_def)
qed

lemma makedirs_ok:
  "ns_inv (disk_ns d) \<Longrightarrow> mkdir_error True p (disk_ns d) = None \<Longrightarrow>
   \<exists>d'. makedirs_at exist_ok d p = Inr d' \<and> map_of d' = eff_mkdir DDir p (map_of d)"
proof (induction exist_ok d p rule: makedirs_at.induct)
  case (1 exist_ok d)
  then show ?case by (simp add: mkdir_error_None)
next
  case (2 exist_ok d c cs)
  define p where "p = c # cs"
  have p: "p \<noteq> []" "disk_ns d p = None" "\<And>q. prefix q p \<Longrightarrow> disk_ns d q \<noteq> Some False"
    using 2 by (auto simp: mkdir_error_None p_def)
  show ?case
  proof (cases "map_of d (butlast p)")
    case (Some e)
    then have "mkdir_error False p (disk_ns d) = None"
      using p by (auto simp: mkdir_error_None disk_ns_simps)
    from mkdir_at_ok [OF 2(2) this] Some show ?thesis by (auto simp: p_def Let_def)
  next
    case None
    with 2(2) have ne: "butlast p \<noteq> []" by (auto simp: ns_inv_def disk_ns_simps)
    have err: "mkdir_error True (butlast p) (disk_ns d) = None"
      unfolding mkdir_error_None using None ne p(3) prefixeq_butlast [of p]
      by (auto simp: disk_ns_simps intro: prefix_order.trans)
    with 2(1) [of p] 2(2) None obtain d' where d': "makedirs_at exist_ok d (butlast p) = Inr d'"
      "map_of d' = eff_mkdir DDir (butlast p) (map_of d)" by (auto simp: p_def)
    note ns = ns_eff(1) [OF d'(2)]
    have inv: "ns_inv (disk_ns d')" unfolding ns by (rule ns_inv_mkdir [OF 2(2) err])
    have "\<not> prefix p (butlast p)" using p(1) by (metis append_butlast_last_id not_Cons_self2 prefix_order.antisym prefixeq_butlast append_self_conv)
    then have "mkdir_error False p (disk_ns d') = None"
      unfolding mkdir_error_None ns using p by (auto simp: eff_mkdir_def)
    from mkdir_at_ok [OF inv this] obtain d'' where d'': "mkdir_at d' p = Inr d''"
      "map_of d'' = eff_mkdir DDir p (map_of d')" by blast
    have "eff_mkdir DDir p (map_of d') = eff_mkdir DDir p (map_of d)"
      unfolding d'(2) using prefixeq_butlast [of p]
      by (auto simp: eff_mkdir_def fun_eq_iff intro: prefix_order.trans)
    with None d' d'' show ?thesis by (simp add: p_def Let_def)
  qed
qed

lemma rename_at_ok:
  assumes "rename_error s t (disk_ns d) = None" "ns_inv (disk_ns d)"
  shows "rename_at d s t = Inr (move s t d)"
proof -
  have e: "\<not> prefix s t" "disk_ns d s \<noteq> None" "disk_ns d t = None" "disk_ns d (butlast t) = Some True"
    using assms(1) by (simp_all add: rename_error_def split: if_splits)
  then have "t \<noteq> []" "s \<noteq> t" using assms(2) by (auto simp: ns_inv_def)
  moreover have "parent_error d t = None" using e(4) by (simp add: parent_error_None)
  moreover obtain x where "map_of d s = Some x" using e(2) by (auto simp: disk_ns_simps)
  ultimately show ?thesis using e(1,3) by (simp add: rename_at_def disk_ns_simps)
qed

lemma disk_ok_cong: "map_of d = map_of d' \<Longrightarrow> disk_ok d = disk_ok d'"
proof -
  assume eq: "map_of d = map_of d'"
  then have "disk_ns d = disk_ns d'" by (simp add: disk_ns_def fun_eq_iff)
  with eq show ?thesis by (simp add: disk_ok_def)
qed

lemma disk_ok_mkdir:
  assumes "disk_ok d" "mkdir_error parents p (disk_ns d) = None" "\<forall>c\<in>set p. dotless c"
    "map_of d' = eff_mkdir DDir p (map_of d)"
  shows "disk_ok d'"
proof -
  have "ns_inv (disk_ns d')"
    unfolding ns_eff(1) [OF assms(4)] using assms(1,2) ns_inv_mkdir by (auto simp: disk_ok_def)
  moreover have "\<forall>c\<in>set q. dotless c" if "map_of d' q \<noteq> None" for q
  proof (cases "map_of d q")
    case None
    with that assms(4) have "prefix q p" by (auto simp: eff_mkdir_def split: if_splits)
    with assms(3) show ?thesis using set_mono_prefix by fastforce
  qed (use disk_comps [OF assms(1)] in auto)
  ultimately show ?thesis by (simp add: disk_ok_def)
qed

lemma disk_ok_delete:
  assumes "disk_ok d" "delete_error r p (disk_ns d) = None" "map_of d' = eff_delete p (map_of d)"
  shows "disk_ok d'"
  using assms ns_inv_delete ns_eff(3) [OF assms(3)]
  by (auto simp: disk_ok_def eff_delete_def split: if_splits)

lemma disk_ok_rename:
  assumes "disk_ok d" "rename_error s t (disk_ns d) = None" "\<forall>c\<in>set t. dotless c"
    "map_of d' = eff_rename s t (map_of d)"
  shows "disk_ok d'"
proof -
  have "ns_inv (disk_ns d')"
    unfolding ns_eff(2) [OF assms(4)] using assms(1,2) ns_inv_rename by (auto simp: disk_ok_def)
  moreover have "\<forall>c\<in>set q. dotless c" if "map_of d' q \<noteq> None" for q
  proof (cases "prefix t q")
    case True
    then obtain r where q: "q = t @ r" by (auto simp: prefix_def)
    with that assms(4) obtain e where "map_of d (s @ r) = Some e" by (auto simp: eff_rename_def)
    from disk_comps [OF assms(1) this] assms(3) q show ?thesis by auto
  next
    case False
    with that assms(4) show ?thesis using disk_comps [OF assms(1)] by (auto simp: eff_rename_def split: if_splits)
  qed
  ultimately show ?thesis by (simp add: disk_ok_def)
qed

text \<open>A check on the entries that implies the invariant.\<close>

lemma disk_okI:
  assumes "\<forall>(p, e)\<in>set d. (\<forall>c\<in>set p. dotless c) \<and> (p \<noteq> [] \<longrightarrow> map_of d (butlast p) = Some DDir)"
    "map_of d [] = Some DDir"
  shows "disk_ok d"
proof -
  have "map_of d q = Some DDir" if "map_of d (q @ [n]) \<noteq> None" for q n
  proof -
    from that obtain e where "(q @ [n], e) \<in> set d" by (auto dest: map_of_SomeD)
    with assms(1) show ?thesis by fastforce
  qed
  moreover have "\<forall>c\<in>set p. dotless c" if "map_of d p \<noteq> None" for p
  proof -
    from that obtain e where "(p, e) \<in> set d" by (auto dest: map_of_SomeD)
    with assms(1) show ?thesis by fastforce
  qed
  ultimately show ?thesis using assms(2) unfolding disk_ok_def ns_inv_def disk_ns_simps by blast
qed

end
