(* ===== verification/Fs_Staging.thy ===== *)
theory Fs_Staging
  imports Fs_Disk
begin

text \<open>
  The staging area: the table \<open>staged_changes\<close> with the operations of \<open>fs/staging.py\<close>, and the snapshots of
  \<open>fs/snapshots.py\<close>. Snapshots live under a directory of their own that the tools cannot reach, so they are a
  map from the path of a snapshot to what it holds. The shortened SHA-1 of a path is a parameter.
\<close>

section \<open>State\<close>

datatype staged_op = OpWrite | OpEdit | OpDeleteFile | OpDeleteDir | OpMkdir | OpRename

datatype snap_kind = KindFile | KindTar

datatype staged_status = Pending | Committed | Reverted | Orphan

record staged =
  sg_id :: nat
  sg_session :: string
  sg_run :: string
  sg_seq :: nat
  sg_op :: staged_op
  sg_path :: string
  sg_dst :: "string option"
  sg_snap :: "string option"
  sg_kind :: "snap_kind option"
  sg_status :: staged_status
  sg_batch :: "string option"

text \<open>A snapshot is the contents of a file, or an archive: each path below the directory once, parents first.\<close>

datatype snapshot = SnapFile string | SnapTar disk

datatype fs_audit = AuditChange staged_op string "string option" "string option"
  | AuditCommit string nat
  | AuditRevert staged_op string "string option"

record fs_state =
  st_disk :: disk
  st_snaps :: "(string \<times> snapshot) list"
  st_staged :: "staged list"
  st_rowid :: nat
  st_audit :: "fs_audit list"

record snap_store =
  ss_root :: string
  ss_max :: int
  ss_sha :: "string \<Rightarrow> string"

section \<open>snapshots.py\<close>

definition run_dir :: "snap_store \<Rightarrow> string \<Rightarrow> string \<Rightarrow> string" where
  "run_dir ss sid rid = path_join (path_join (ss_root ss) sid) rid"

definition snap_name :: "snap_store \<Rightarrow> nat \<Rightarrow> string \<Rightarrow> string \<Rightarrow> string" where
  "snap_name ss seq path ext = str_of_nat seq @ ''-'' @ ss_sha ss path @ ext"

text \<open>\<open>SnapshotTooLarge\<close>, and the error of copying what is not a file.\<close>

datatype snap_error = SnapshotTooLarge | NotAFile

definition take_file :: "snap_store \<Rightarrow> string \<Rightarrow> string \<Rightarrow> nat \<Rightarrow> string \<Rightarrow> fs_state \<Rightarrow>
    snap_error + string \<times> fs_state" where
  "take_file ss sid rid seq path st = (case os_at (st_disk st) path of
     Some (DFile c) \<Rightarrow>
       if int (length c) > ss_max ss then Inl SnapshotTooLarge
       else let out = path_join (run_dir ss sid rid) (snap_name ss seq path ''.bin'')
            in Inr (out, st\<lparr>st_snaps := dput out (SnapFile c) (st_snaps st)\<rparr>)
   | _ \<Rightarrow> Inl NotAFile)"

definition file_bytes :: "disk \<Rightarrow> int" where
  "file_bytes d = sum_list (map (\<lambda>(q, e). case e of DDir \<Rightarrow> 0 | DFile c \<Rightarrow> int (length c)) d)"

definition archive :: "disk \<Rightarrow> disk" where
  "archive d = sort_key (\<lambda>x. length (fst x)) (map (\<lambda>q. (q, the (map_of d q))) (remdups (map fst d)))"

definition take_tar :: "snap_store \<Rightarrow> string \<Rightarrow> string \<Rightarrow> nat \<Rightarrow> string \<Rightarrow> fs_state \<Rightarrow>
    snap_error + string \<times> fs_state" where
  "take_tar ss sid rid seq path st =
     (let a = archive (subtree (st_disk st) (path_comps path))
      in if file_bytes a > ss_max ss then Inl SnapshotTooLarge
         else let out = path_join (run_dir ss sid rid) (snap_name ss seq path ''.tar.gz'')
              in Inr (out, st\<lparr>st_snaps := dput out (SnapTar a) (st_snaps st)\<rparr>))"

text \<open>
  \<open>restore_file\<close>: the parents, then \<open>shutil.copy2\<close>, which copies into the destination where it is a directory.
  A failing call leaves what the earlier calls did.
\<close>

definition restore_file :: "string \<Rightarrow> string \<Rightarrow> string \<Rightarrow> disk \<Rightarrow> os_error option \<times> disk" where
  "restore_file snap_path content dest d =
     (case os_makedirs True d (dirname dest) of
        Inl e \<Rightarrow> (Some e, d)
      | Inr d1 \<Rightarrow>
          (let target = (if os_isdir d1 dest then path_join dest (basename snap_path) else dest)
           in case os_write d1 target content of Inl e \<Rightarrow> (Some e, d1) | Inr d2 \<Rightarrow> (None, d2)))"

text \<open>\<open>extractall\<close>: an existing directory is kept, a file is overwritten.\<close>

definition untar_entry :: "string list \<Rightarrow> string list \<times> dentry \<Rightarrow> disk \<Rightarrow> os_error + disk" where
  "untar_entry p x d = (case snd x of
     DDir \<Rightarrow> (case map_of d (p @ fst x) of
         Some DDir \<Rightarrow> Inr d | Some (DFile _) \<Rightarrow> Inl EEXIST | None \<Rightarrow> mkdir_at d (p @ fst x))
   | DFile c \<Rightarrow> (case map_of d (p @ fst x) of
         Some DDir \<Rightarrow> Inl EISDIR
       | Some (DFile _) \<Rightarrow> Inr (dput (p @ fst x) (DFile c) d)
       | None \<Rightarrow> (case parent_error d (p @ fst x) of
             Some e \<Rightarrow> Inl e | None \<Rightarrow> Inr ((p @ fst x, DFile c) # d))))"

fun untar :: "string list \<Rightarrow> disk \<Rightarrow> disk \<Rightarrow> os_error option \<times> disk" where
  "untar p [] d = (None, d)"
| "untar p (x # xs) d = (case untar_entry p x d of Inl e \<Rightarrow> (Some e, d) | Inr d' \<Rightarrow> untar p xs d')"

definition restore_tar :: "disk \<Rightarrow> string \<Rightarrow> disk \<Rightarrow> os_error option \<times> disk" where
  "restore_tar a dest d =
     (let parent = dirname (strip_slash dest)
      in case os_makedirs True d parent of
           Inl e \<Rightarrow> (Some e, d)
         | Inr d1 \<Rightarrow> untar (path_comps parent @ [basename (strip_slash dest)]) a d1)"

definition prune_run :: "snap_store \<Rightarrow> string \<Rightarrow> string \<Rightarrow> fs_state \<Rightarrow> fs_state" where
  "prune_run ss sid rid st = st\<lparr>st_snaps := filter (\<lambda>(k, _). \<not> under (run_dir ss sid rid) k) (st_snaps st)\<rparr>"

definition prune_session :: "snap_store \<Rightarrow> string \<Rightarrow> fs_state \<Rightarrow> fs_state" where
  "prune_session ss sid st =
     st\<lparr>st_snaps := filter (\<lambda>(k, _). \<not> under (path_join (ss_root ss) sid) k) (st_snaps st)\<rparr>"

section \<open>staging.py\<close>

definition stage :: "string \<Rightarrow> string \<Rightarrow> nat \<Rightarrow> staged_op \<Rightarrow> string \<Rightarrow> string option \<Rightarrow> string option \<Rightarrow>
    snap_kind option \<Rightarrow> string option \<Rightarrow> fs_state \<Rightarrow> nat \<times> fs_state" where
  "stage sid rid seq op path dst snap kind batch st =
     (let row = \<lparr>sg_id = Suc (st_rowid st), sg_session = sid, sg_run = rid, sg_seq = seq, sg_op = op, sg_path = path,
          sg_dst = dst, sg_snap = snap, sg_kind = kind, sg_status = Pending, sg_batch = batch\<rparr>
      in (sg_id row, st\<lparr>st_staged := st_staged st @ [row], st_rowid := sg_id row\<rparr>))"

definition next_seq :: "string \<Rightarrow> string \<Rightarrow> fs_state \<Rightarrow> nat" where
  "next_seq sid rid st =
     Suc (fold max (map sg_seq (filter (\<lambda>r. sg_session r = sid \<and> sg_run r = rid) (st_staged st))) 0)"

text \<open>The earliest snapshot of the path in this run, if there is one.\<close>

definition earlier_snapshot :: "string \<Rightarrow> string \<Rightarrow> fs_state \<Rightarrow> string option" where
  "earlier_snapshot rid path st =
     (case sort_key sg_seq (filter (\<lambda>r. sg_run r = rid \<and> sg_path r = path \<and> sg_snap r \<noteq> None) (st_staged st)) of
        [] \<Rightarrow> None | r # _ \<Rightarrow> sg_snap r)"

definition maybe_take_file_snapshot ::
  "snap_store \<Rightarrow> string \<Rightarrow> string \<Rightarrow> nat \<Rightarrow> string \<Rightarrow> fs_state \<Rightarrow>
    snap_error + string \<times> fs_state" where
  "maybe_take_file_snapshot ss sid rid seq path st =
     (case earlier_snapshot rid path st of
        Some sp \<Rightarrow> Inr (sp, st) | None \<Rightarrow> take_file ss sid rid seq path st)"

definition commit_session :: "snap_store \<Rightarrow> string \<Rightarrow> fs_state \<Rightarrow> fs_state" where
  "commit_session ss sid st =
     (let hit = (\<lambda>r. sg_session r = sid \<and> sg_status r = Pending);
          rows' = map (\<lambda>r. if hit r then r\<lparr>sg_status := Committed\<rparr> else r) (st_staged st)
      in prune_session ss sid (st\<lparr>st_staged := rows',
           st_audit := st_audit st @ [AuditCommit sid (length (filter hit (st_staged st)))]\<rparr>))"

definition needs_snap :: "staged \<Rightarrow> bool" where
  "needs_snap r \<longleftrightarrow> sg_op r \<in> {OpWrite, OpEdit, OpDeleteFile} \<or> sg_op r = OpDeleteDir \<and> sg_snap r \<noteq> None"

definition snap_missing :: "(string \<times> snapshot) list \<Rightarrow> staged \<Rightarrow> bool" where
  "snap_missing snaps r \<longleftrightarrow> needs_snap r \<and>
     (case sg_snap r of None \<Rightarrow> True | Some sp \<Rightarrow> sp = [] \<or> map_of snaps sp = None)"

datatype replay_error = OsErr os_error | BadRow

definition lift_os :: "os_error option \<times> disk \<Rightarrow> replay_error option \<times> disk" where
  "lift_os x = (map_option OsErr (fst x), snd x)"

definition lift_call :: "disk \<Rightarrow> os_error + disk \<Rightarrow> replay_error option \<times> disk" where
  "lift_call d x = (case x of Inl e \<Rightarrow> (Some (OsErr e), d) | Inr d' \<Rightarrow> (None, d'))"

definition replay_reverse :: "(string \<times> snapshot) list \<Rightarrow> staged \<Rightarrow> disk \<Rightarrow> replay_error option \<times> disk" where
  "replay_reverse snaps r d = (case sg_op r of
     OpMkdir \<Rightarrow> lift_call d (os_rmdir d (sg_path r))
   | OpRename \<Rightarrow> (case sg_dst r of None \<Rightarrow> (Some BadRow, d)
       | Some dst \<Rightarrow> lift_call d (os_rename d dst (sg_path r)))
   | OpDeleteDir \<Rightarrow>
       if sg_kind r = Some KindTar \<and> sg_snap r \<noteq> None \<and> sg_snap r \<noteq> Some []
       then (case map_of snaps (the (sg_snap r)) of
               Some (SnapTar a) \<Rightarrow> lift_os (restore_tar a (sg_path r) d)
             | _ \<Rightarrow> (Some BadRow, d))
       else lift_call d (os_makedirs True d (sg_path r))
   | _ \<Rightarrow> (case Option.bind (sg_snap r) (map_of snaps) of
            Some (SnapFile c) \<Rightarrow> lift_os (restore_file (the (sg_snap r)) c (sg_path r) d)
          | _ \<Rightarrow> (Some BadRow, d)))"

datatype rev_status = RevOk | RevNothing | RevMissing nat | RevConflict nat | RevPartial "nat list"

definition set_status :: "nat \<Rightarrow> staged_status \<Rightarrow> staged list \<Rightarrow> staged list" where
  "set_status i s rs = map (\<lambda>r. if sg_id r = i then r\<lparr>sg_status := s\<rparr> else r) rs"

definition mark_reverted :: "staged \<Rightarrow> disk \<Rightarrow> fs_state \<Rightarrow> fs_state" where
  "mark_reverted r d st = st\<lparr>st_disk := d, st_staged := set_status (sg_id r) Reverted (st_staged st),
     st_audit := st_audit st @ [AuditRevert (sg_op r) (sg_path r) (sg_dst r)]\<rparr>"

text \<open>\<open>_revert_rows\<close>: stops at a directory that is not empty, goes on after any other error.\<close>

fun revert_loop :: "staged list \<Rightarrow> nat list \<Rightarrow> fs_state \<Rightarrow> rev_status \<times> fs_state" where
  "revert_loop [] failed st = ((if failed = [] then RevOk else RevPartial failed), st)"
| "revert_loop (r # rs) failed st =
     (case replay_reverse (st_snaps st) r (st_disk st) of
        (None, d) \<Rightarrow> revert_loop rs failed (mark_reverted r d st)
      | (Some e, d) \<Rightarrow>
          if e = OsErr ENOTEMPTY then (RevConflict (sg_id r), st\<lparr>st_disk := d\<rparr>)
          else revert_loop rs (failed @ [sg_id r]) (st\<lparr>st_disk := d\<rparr>))"

definition revert_rows :: "staged list \<Rightarrow> fs_state \<Rightarrow> rev_status \<times> fs_state" where
  "revert_rows rs st = (case List.find (snap_missing (st_snaps st)) rs of
     Some r \<Rightarrow> (RevMissing (sg_id r), st) | None \<Rightarrow> revert_loop rs [] st)"

text \<open>\<open>ORDER BY seq DESC\<close>.\<close>

definition latest_first :: "staged list \<Rightarrow> staged list" where
  "latest_first rs = rev (sort_key sg_seq rs)"

definition revert_batch :: "string \<Rightarrow> string \<Rightarrow> fs_state \<Rightarrow> rev_status \<times> fs_state" where
  "revert_batch sid bid st =
     (let rs = latest_first (filter (\<lambda>r. sg_session r = sid \<and> sg_batch r = Some bid \<and> sg_status r = Pending)
                 (st_staged st))
      in if rs = [] then (RevNothing, st) else revert_rows rs st)"

definition revert_items :: "string \<Rightarrow> nat list \<Rightarrow> fs_state \<Rightarrow> rev_status \<times> fs_state" where
  "revert_items sid ids st =
     (let rs = latest_first (filter (\<lambda>r. sg_session r = sid \<and> sg_id r \<in> set ids \<and> sg_status r = Pending)
                 (st_staged st))
      in if ids = [] \<or> rs = [] then (RevNothing, st) else revert_rows rs st)"

text \<open>\<open>revert_run\<close> goes on after every error and then drops the snapshots of the run.\<close>

fun revert_run_loop :: "staged list \<Rightarrow> nat list \<Rightarrow> fs_state \<Rightarrow> nat list \<times> fs_state" where
  "revert_run_loop [] failed st = (failed, st)"
| "revert_run_loop (r # rs) failed st =
     (case replay_reverse (st_snaps st) r (st_disk st) of
        (None, d) \<Rightarrow> revert_run_loop rs failed (mark_reverted r d st)
      | (Some e, d) \<Rightarrow> revert_run_loop rs (failed @ [sg_id r]) (st\<lparr>st_disk := d\<rparr>))"

definition revert_run :: "snap_store \<Rightarrow> string \<Rightarrow> string \<Rightarrow> fs_state \<Rightarrow> rev_status \<times> fs_state" where
  "revert_run ss sid rid st =
     (let rs = latest_first (filter (\<lambda>r. sg_session r = sid \<and> sg_run r = rid \<and> sg_status r = Pending) (st_staged st))
      in if rs = [] then (RevNothing, st)
         else case List.find (snap_missing (st_snaps st)) rs of
             Some r \<Rightarrow> (RevMissing (sg_id r), st)
           | None \<Rightarrow> (let (failed, st') = revert_run_loop rs [] st
                      in ((if failed = [] then RevOk else RevPartial failed), prune_run ss sid rid st')))"

section \<open>Undoing one change\<close>

lemma archive_props:
  "map_of (archive d) = map_of d" "distinct (map fst (archive d))" "sorted (map (\<lambda>x. length (fst x)) (archive d))"
proof -
  have dist: "distinct (map fst (map (\<lambda>q. (q, the (map_of d q))) (remdups (map fst d))))" by (simp add: comp_def)
  then show dd: "distinct (map fst (archive d))" unfolding distinct_map archive_def by (simp add: distinct_map)
  show "sorted (map (\<lambda>x. length (fst x)) (archive d))" by (simp add: archive_def)
  show "map_of (archive d) = map_of d"
  proof
    fix q
    have "(q, e) \<in> set (archive d) \<longleftrightarrow> map_of d q = Some e" for e
      using map_of_eq_None_iff [of d q] by (auto simp: archive_def)
    then show "map_of (archive d) q = map_of d q"
      using dd by (metis map_of_eq_Some_iff not_None_eq)
  qed
qed

lemma makedirs_exists:
  assumes "ns_inv (disk_ns d)" "map_of d p = Some DDir"
  shows "makedirs_at True d p = Inr d"
proof (cases p)
  case (Cons c cs)
  have "disk_ns d p \<noteq> None" "p \<noteq> []" using assms(2) Cons by (simp_all add: disk_ns_simps)
  from ns_inv_parent [OF assms(1) this] have "map_of d (butlast p) = Some DDir" by (simp only: disk_ns_simps)
  with assms(2) Cons show ?thesis by (simp add: mkdir_at_def)
qed simp

definition overlay :: "string list \<Rightarrow> (string list \<Rightarrow> dentry option) \<Rightarrow> (string list \<Rightarrow> dentry option) \<Rightarrow>
    string list \<Rightarrow> dentry option" where
  "overlay p g m q = (if prefix p q then g (drop (length p) q) else m q)"

lemma untar_ok:
  assumes "p \<noteq> []" "m (butlast p) = Some DDir"
  shows "map_of d = overlay p g m \<Longrightarrow> distinct (map fst es) \<Longrightarrow> sorted (map (\<lambda>x. length (fst x)) es) \<Longrightarrow>
    (\<And>q e. (q, e) \<in> set es \<Longrightarrow> g q = None \<and> (q = [] \<or> g (butlast q) = Some DDir \<or> (butlast q, DDir) \<in> set es)) \<Longrightarrow>
    \<exists>d'. untar p es d = (None, d') \<and> map_of d' = overlay p (g ++ map_of es) m"
proof (induction es arbitrary: g d)
  case Nil
  then show ?case by simp
next
  case (Cons x es)
  obtain q e where x: "x = (q, e)" by fastforce
  have new: "map_of d (p @ q) = None" using Cons.prems(1) Cons.prems(4) [of q e] x by (simp add: overlay_def)
  have par: "map_of d (butlast (p @ q)) = Some DDir"
  proof (cases "q = []")
    case True
    have "\<not> prefix p (butlast p)" using assms(1)
      by (metis append_butlast_last_id not_Cons_self2 prefix_order.antisym prefixeq_butlast append_self_conv)
    with True assms(2) Cons.prems(1) show ?thesis by (simp add: overlay_def)
  next
    case False
    then have len: "length (butlast q) < length q" by simp
    have "(butlast q, DDir) \<notin> set (x # es)"
    proof
      assume "(butlast q, DDir) \<in> set (x # es)"
      then consider "butlast q = q" | "(butlast q, DDir) \<in> set es" using x by auto
      then show False
      proof cases
        case 1
        with len show False by (metis nat_neq_iff)
      next
        case 2
        have "\<forall>y\<in>set es. length q \<le> length (fst y)" using Cons.prems(3) x by simp
        from bspec [OF this 2] len show False by (cases q) auto
      qed
    qed
    with Cons.prems(4) [of q e] x False have "g (butlast q) = Some DDir" by auto
    with False Cons.prems(1) show ?thesis by (simp add: overlay_def butlast_append)
  qed
  have pe: "parent_error d (p @ q) = None" using par by (simp add: parent_error_None disk_ns_simps)
  have step: "untar_entry p x d = Inr ((p @ q, e) # d)"
    using new pe by (cases e) (simp_all add: untar_entry_def x mkdir_at_def)
  have map': "map_of ((p @ q, e) # d) = overlay p (g(q \<mapsto> e)) m"
    using Cons.prems(1) by (auto simp: overlay_def fun_eq_iff prefix_def)
  have "q \<notin> fst ` set es" using Cons.prems(2) x by simp
  then have gs: "(g(q \<mapsto> e)) r = None \<and> (r = [] \<or> (g(q \<mapsto> e)) (butlast r) = Some DDir \<or> (butlast r, DDir) \<in> set es)"
    if "(r, f) \<in> set es" for r f
    using Cons.prems(4) [of r f] Cons.prems(4) [of q e] that x by (auto simp: image_iff)
  have "\<exists>d'. untar p es ((p @ q, e) # d) = (None, d') \<and> map_of d' = overlay p (g(q \<mapsto> e) ++ map_of es) m"
    by (rule Cons.IH [OF map' _ _ gs]) (use Cons.prems(2,3) in simp_all)
  moreover have "g(q \<mapsto> e) ++ map_of es = g ++ map_of (x # es)"
  proof -
    have "map_of es q = None" using \<open>q \<notin> fst ` set es\<close> by (simp add: map_of_eq_None_iff)
    then show ?thesis using x by (auto simp: map_add_def fun_eq_iff split: option.split)
  qed
  ultimately show ?case by (simp only: untar.simps(2) step sum.case)
qed

text \<open>Replaying a row in reverse leads from the disk after the change back to the disk before it.\<close>

definition undoes :: "(string \<times> snapshot) list \<Rightarrow> staged \<Rightarrow> disk \<Rightarrow> disk \<Rightarrow> bool" where
  "undoes snaps r d d' \<longleftrightarrow>
     (\<forall>d1. map_of d1 = map_of d' \<longrightarrow> (\<exists>d2. replay_reverse snaps r d1 = (None, d2) \<and> map_of d2 = map_of d))"

lemma undoesI:
  "(\<And>d1. map_of d1 = map_of d' \<Longrightarrow> \<exists>d2. replay_reverse snaps r d1 = (None, d2) \<and> map_of d2 = map_of d) \<Longrightarrow>
   undoes snaps r d d'"
  by (simp add: undoes_def)

lemma none_below:
  assumes "ns_inv (disk_ns d)" "map_of d p \<noteq> Some DDir" "strict_prefix p q"
  shows "map_of d q = None"
proof (rule ccontr)
  assume "map_of d q \<noteq> None"
  then have "disk_ns d q \<noteq> None" by (simp add: disk_ns_simps)
  from ns_inv_strict [OF assms(1) this assms(3)] assms(2) show False by (simp add: disk_ns_simps)
qed

lemma empty_below:
  assumes "ns_inv (disk_ns d)" "\<And>n. map_of d (p @ [n]) = None" "strict_prefix p q"
  shows "map_of d q = None"
proof -
  from assms(3) obtain n r where q: "q = (p @ [n]) @ r" by (auto elim: strict_prefixE')
  show ?thesis
  proof (cases r)
    case Nil
    with q assms(2) show ?thesis by simp
  next
    case (Cons k r')
    then have "strict_prefix (p @ [n]) q" using q by (simp add: strict_prefix_def)
    with none_below [OF assms(1) _ this] assms(2) show ?thesis by simp
  qed
qed

lemma not_under_butlast: "p \<noteq> [] \<Longrightarrow> \<not> prefix p (butlast p)"
  by (metis append_butlast_last_id not_Cons_self2 prefix_order.antisym prefixeq_butlast append_self_conv)

lemma undo_mkdir:
  assumes "disk_ok d" "mkdir_error parents (path_comps p) (disk_ns d) = None"
    "map_of d (butlast (path_comps p)) \<noteq> None" "map_of d' = eff_mkdir DDir (path_comps p) (map_of d)"
    "sg_op r = OpMkdir" "sg_path r = p"
  shows "undoes snaps r d d'"
proof (rule undoesI)
  fix d1 assume d1: "map_of d1 = map_of d'"
  let ?p = "path_comps p"
  have inv: "ns_inv (disk_ns d)" using assms(1) by (simp add: disk_ok_def)
  have none: "map_of d ?p = None" and "disk_ns d (butlast ?p) \<noteq> Some False"
    using assms(2) prefixeq_butlast [of ?p] by (auto simp: mkdir_error_None disk_ns_simps)
  with assms(3) have "disk_ns d (butlast ?p) = Some True" by (auto simp: disk_ns_simps) (metis dentry.exhaust)
  with mkdir_eff [OF inv none] assms(4) d1 have m: "map_of d1 = (map_of d)(?p \<mapsto> DDir)" by simp
  have below: "map_of d q = None" if "prefix ?p q" for q
    using that none none_below [OF inv, of ?p q] by (cases "q = ?p") (auto simp: strict_prefix_def)
  have "entries d1 ?p = []" using m below by (simp add: entries_Nil_iff)
  with m have "replay_reverse snaps r d1 = (None, prune ?p d1)"
    by (simp add: replay_reverse_def assms(5,6) os_rmdir_def os_at_def lift_call_def)
  moreover have "map_of (prune ?p d1) = map_of d" using m below by (auto simp: eff_delete_def fun_eq_iff)
  ultimately show "\<exists>d2. replay_reverse snaps r d1 = (None, d2) \<and> map_of d2 = map_of d" by blast
qed

lemma undo_rename:
  assumes "disk_ok d" "rename_error (path_comps s) (path_comps t) (disk_ns d) = None"
    "map_of d' = eff_rename (path_comps s) (path_comps t) (map_of d)"
    "sg_op r = OpRename" "sg_path r = s" "sg_dst r = Some t"
  shows "undoes snaps r d d'"
proof (rule undoesI)
  fix d1 assume d1: "map_of d1 = map_of d'"
  let ?s = "path_comps s" and ?t = "path_comps t"
  have inv: "ns_inv (disk_ns d)" using assms(1) by (simp add: disk_ok_def)
  have e: "\<not> prefix ?s ?t" "disk_ns d ?s \<noteq> None" "disk_ns d ?t = None"
    using assms(2) by (simp_all add: rename_error_def split: if_splits)
  have ts: "\<not> prefix ?t ?s"
    using e(2,3) ns_inv_strict [OF inv e(2), of ?t] by (cases "?t = ?s") (auto simp: strict_prefix_def)
  have m: "map_of d1 = eff_rename ?s ?t (map_of d)" using d1 assms(3) by simp
  note ns = ns_eff(2) [OF m]
  have inv1: "ns_inv (disk_ns d1)" unfolding ns by (rule ns_inv_rename [OF inv assms(2)])
  have s: "?s \<noteq> []" using e(1) by auto
  have nb: "\<not> prefix ?t (butlast ?s)" using ts prefixeq_butlast prefix_order.trans by blast
  have "rename_error ?t ?s (disk_ns d1) = None"
    unfolding ns rename_error_def using ts e nb not_under_butlast [OF s] ns_inv_parent [OF inv e(2) s]
    by (simp add: eff_rename_def)
  from rename_at_ok [OF this inv1] have "replay_reverse snaps r d1 = (None, move ?t ?s d1)"
    by (simp add: replay_reverse_def assms(4-6) os_rename_def lift_call_def)
  moreover have "map_of (move ?t ?s d1) q = map_of d q" for q
  proof -
    have "map_of d q = None" if "prefix ?t q"
      using that e(3) none_below [OF inv, of ?t q] by (cases "q = ?t") (auto simp: disk_ns_simps strict_prefix_def)
    moreover have "map_of (move ?t ?s d1) q = map_of d q" if "prefix ?s q"
    proof -
      from that obtain zs where "q = ?s @ zs" by (auto simp: prefix_def)
      then show ?thesis unfolding map_of_move m by (simp add: eff_rename_def)
    qed
    ultimately show ?thesis unfolding map_of_move m by (auto simp: eff_rename_def)
  qed
  ultimately show "\<exists>d2. replay_reverse snaps r d1 = (None, d2) \<and> map_of d2 = map_of d" by blast
qed

lemma plain_snoc:
  assumes "plain_path p" "path_comps p \<noteq> []"
  obtains cs c where "path_comps p = cs @ [c]" "path_comps (dirname p) = cs" "basename p = c" "butlast (path_comps p) = cs"
  using assms plain_parent by (metis append_butlast_last_id)

lemma undo_delete_file:
  assumes "disk_ok d" "plain_path p" "map_of d (path_comps p) = Some (DFile c)"
    "map_of d' = eff_delete (path_comps p) (map_of d)"
    "sg_op r = OpDeleteFile" "sg_path r = p" "sg_snap r = Some sp" "map_of snaps sp = Some (SnapFile c)"
  shows "undoes snaps r d d'"
proof (rule undoesI)
  fix d1 assume d1: "map_of d1 = map_of d'"
  let ?p = "path_comps p"
  have inv: "ns_inv (disk_ns d)" using assms(1) by (simp add: disk_ok_def)
  have ne: "?p \<noteq> []" using assms(3) inv by (auto simp: ns_inv_def disk_ns_simps)
  from plain_snoc [OF assms(2) ne] obtain cs n where cs: "?p = cs @ [n]" "path_comps (dirname p) = cs" "butlast ?p = cs"
    by metis
  have par: "map_of d cs = Some DDir"
    using ns_inv_parent [OF inv, of ?p] assms(3) ne cs(3) by (simp add: disk_ns_simps)
  have m: "map_of d1 = eff_delete ?p (map_of d)" using d1 assms(4) by simp
  have "delete_error True ?p (disk_ns d) = None" using ne assms(3) by (simp add: delete_error_def disk_ns_def)
  with ns_eff(3) [OF m] have inv1: "ns_inv (disk_ns d1)" using ns_inv_delete [OF inv] by simp
  have p1: "map_of d1 cs = Some DDir" "map_of d1 ?p = None"
    using m par not_under_butlast [OF ne] cs(3) by (simp_all add: eff_delete_def)
  have "os_makedirs True d1 (dirname p) = Inr d1"
    using makedirs_exists [OF inv1 p1(1)] cs(2) by (simp add: os_makedirs_def)
  moreover have "os_write d1 p c = Inr ((?p, DFile c) # d1)"
    using p1 parent_error_None [of d1 ?p] cs(3) by (simp add: os_write_def os_at_def disk_ns_simps)
  ultimately have "replay_reverse snaps r d1 = (None, (?p, DFile c) # d1)"
    using p1(2) by (simp add: replay_reverse_def assms(5-8) restore_file_def lift_os_def os_isdir_def os_at_def)
  moreover have "map_of ((?p, DFile c) # d1) q = map_of d q" for q
    using m assms(3) none_below [OF inv, of ?p q] by (auto simp: eff_delete_def strict_prefix_def)
  ultimately show "\<exists>d2. replay_reverse snaps r d1 = (None, d2) \<and> map_of d2 = map_of d" by blast
qed

lemma undo_delete_empty_dir:
  assumes "disk_ok d" "map_of d (path_comps p) = Some DDir" "path_comps p \<noteq> []"
    "\<And>n. map_of d (path_comps p @ [n]) = None" "map_of d' = eff_delete (path_comps p) (map_of d)"
    "sg_op r = OpDeleteDir" "sg_path r = p" "sg_snap r = None"
  shows "undoes snaps r d d'"
proof (rule undoesI)
  fix d1 assume d1: "map_of d1 = map_of d'"
  let ?p = "path_comps p"
  have inv: "ns_inv (disk_ns d)" using assms(1) by (simp add: disk_ok_def)
  have m: "map_of d1 = eff_delete ?p (map_of d)" using d1 assms(5) by simp
  have "delete_error True ?p (disk_ns d) = None" using assms(2,3) by (simp add: delete_error_def disk_ns_def)
  with ns_eff(3) [OF m] have inv1: "ns_inv (disk_ns d1)" using ns_inv_delete [OF inv] by simp
  have anc: "map_of d q = Some DDir" if "prefix q ?p" "q \<noteq> ?p" for q
    using that ns_inv_strict [OF inv, of ?p q] assms(2) by (simp add: disk_ns_simps strict_prefix_def)
  have "mkdir_error True ?p (disk_ns d1) = None"
    unfolding mkdir_error_None using m anc assms(3)
    by (auto simp: disk_ns_simps eff_delete_def split: if_splits)
  from makedirs_ok [OF inv1 this, of True] obtain d2 where "makedirs_at True d1 ?p = Inr d2"
    "map_of d2 = eff_mkdir DDir ?p (map_of d1)" by blast
  moreover have "eff_mkdir DDir ?p (map_of d1) q = map_of d q" for q
    using m anc assms(2) empty_below [OF inv assms(4), of q]
    by (cases "q = ?p") (auto simp: eff_mkdir_def eff_delete_def strict_prefix_def)
  ultimately show "\<exists>d2. replay_reverse snaps r d1 = (None, d2) \<and> map_of d2 = map_of d"
    by (auto simp: replay_reverse_def assms(6-8) os_makedirs_def lift_call_def)
qed

lemma undo_delete_tree:
  assumes "disk_ok d" "plain_path p" "map_of d (path_comps p) = Some DDir" "path_comps p \<noteq> []"
    "map_of d' = eff_delete (path_comps p) (map_of d)"
    "sg_op r = OpDeleteDir" "sg_path r = p" "sg_snap r = Some sp" "sp \<noteq> []" "sg_kind r = Some KindTar"
    "map_of snaps sp = Some (SnapTar (archive (subtree d (path_comps p))))"
  shows "undoes snaps r d d'"
proof (rule undoesI)
  fix d1 assume d1: "map_of d1 = map_of d'"
  let ?p = "path_comps p" and ?a = "archive (subtree d (path_comps p))"
  have inv: "ns_inv (disk_ns d)" using assms(1) by (simp add: disk_ok_def)
  from plain_snoc [OF assms(2,4)] obtain cs n where cs: "?p = cs @ [n]" "path_comps (dirname p) = cs"
    "basename p = n" "butlast ?p = cs" by metis
  have m: "map_of d1 = eff_delete ?p (map_of d)" using d1 assms(5) by simp
  have "delete_error True ?p (disk_ns d) = None" using assms(3,4) by (simp add: delete_error_def disk_ns_def)
  with ns_eff(3) [OF m] have inv1: "ns_inv (disk_ns d1)" using ns_inv_delete [OF inv] by simp
  have par: "map_of d cs = Some DDir"
    using ns_inv_parent [OF inv, of ?p] assms(3,4) cs(4) by (simp add: disk_ns_simps)
  have p1: "map_of d1 cs = Some DDir" using m par not_under_butlast [OF assms(4)] cs(4) by (simp add: eff_delete_def)
  have "p \<noteq> ''/''" using assms(4) by (auto simp: path_comps_def split_on_def)
  then have strip: "strip_slash p = p" using assms(2) by (simp add: strip_slash_canonical plain_path_def)
  have mk: "os_makedirs True d1 (dirname p) = Inr d1"
    using makedirs_exists [OF inv1 p1] cs(2) by (simp add: os_makedirs_def)
  have ov: "map_of d1 = overlay ?p Map.empty (map_of d)" using m by (auto simp: eff_delete_def overlay_def)
  have closed: "q = [] \<or> (butlast q, DDir) \<in> set ?a" if "(q, e) \<in> set ?a" for q e
  proof (cases "q = []")
    case False
    from that archive_props(1,2) have "map_of d (?p @ q) = Some e"
      by (metis map_of_is_SomeI map_of_subtree)
    then have "disk_ns d (?p @ q) \<noteq> None" by (simp add: disk_ns_simps)
    from ns_inv_parent [OF inv this] False have "map_of d (?p @ butlast q) = Some DDir"
      by (simp add: butlast_append disk_ns_simps)
    then have "map_of ?a (butlast q) = Some DDir" by (simp add: archive_props(1) map_of_subtree)
    then show ?thesis by (blast dest: map_of_SomeD)
  qed simp
  have "\<exists>d2. untar ?p ?a d1 = (None, d2) \<and> map_of d2 = overlay ?p (Map.empty ++ map_of ?a) (map_of d)"
    using assms(4) par cs(4) ov archive_props(2,3) closed by (intro untar_ok) auto
  then obtain d2 where d2: "untar ?p ?a d1 = (None, d2)" "map_of d2 = overlay ?p (map_of ?a) (map_of d)" by auto
  have "map_of d2 = map_of d"
    unfolding d2(2) archive_props(1) by (auto simp: overlay_def map_of_subtree fun_eq_iff prefix_def)
  moreover have "replay_reverse snaps r d1 = (None, d2)"
    using mk d2(1) cs strip assms(9) by (simp add: replay_reverse_def assms(6-8,10,11) restore_tar_def lift_os_def)
  ultimately show "\<exists>d2. replay_reverse snaps r d1 = (None, d2) \<and> map_of d2 = map_of d" by blast
qed

section \<open>Undoing a sequence of changes\<close>

text \<open>The rows, latest first, lead from a disk back to another one.\<close>

inductive undoable :: "(string \<times> snapshot) list \<Rightarrow> staged list \<Rightarrow> disk \<Rightarrow> disk \<Rightarrow> bool" where
  undone: "map_of d = map_of d0 \<Longrightarrow> undoable snaps [] d d0"
| undo: "undoes snaps r dm d \<Longrightarrow> \<not> snap_missing snaps r \<Longrightarrow> undoable snaps rs dm d0 \<Longrightarrow>
    undoable snaps (r # rs) d d0"

inductive_cases undoable_NilE: "undoable snaps [] d d0"
inductive_cases undoable_ConsE: "undoable snaps (r # rs) d d0"

lemma undoable_cong: "undoable snaps rs d d0 \<Longrightarrow> map_of d1 = map_of d \<Longrightarrow> undoable snaps rs d1 d0"
proof (induction rule: undoable.induct)
  case (undone d d0 snaps)
  then show ?case by (auto intro: undoable.undone)
next
  case (undo snaps r dm d rs d0)
  then have "undoes snaps r dm d1" by (simp add: undoes_def)
  with undo show ?case by (blast intro: undoable.undo)
qed

lemma undoable_append:
  "undoable snaps rs d dm \<Longrightarrow> undoable snaps rs' dm d0 \<Longrightarrow> undoable snaps (rs @ rs') d d0"
proof (induction rule: undoable.induct)
  case (undone d dm snaps)
  then show ?case using undoable_cong by simp
next
  case (undo snaps r dm d rs d1)
  then show ?case by (auto intro: undoable.undo)
qed

lemma mark_reverted_sel [simp]:
  "st_snaps (mark_reverted r d st) = st_snaps st" "st_disk (mark_reverted r d st) = d"
  by (simp_all add: mark_reverted_def)

lemma revert_loop_ok:
  "undoable (st_snaps st) rs (st_disk st) d0 \<Longrightarrow>
   fst (revert_loop rs [] st) = RevOk \<and> map_of (st_disk (snd (revert_loop rs [] st))) = map_of d0"
proof (induction rs arbitrary: st)
  case Nil
  then show ?case by (auto elim: undoable_NilE)
next
  case (Cons r rs)
  from Cons.prems obtain dm where dm: "undoes (st_snaps st) r dm (st_disk st)" "undoable (st_snaps st) rs dm d0"
    by (auto elim: undoable_ConsE)
  then obtain d2 where d2: "replay_reverse (st_snaps st) r (st_disk st) = (None, d2)" "map_of d2 = map_of dm"
    by (auto simp: undoes_def)
  with dm(2) have "undoable (st_snaps (mark_reverted r d2 st)) rs (st_disk (mark_reverted r d2 st)) d0"
    using undoable_cong by simp
  from Cons.IH [OF this] d2 show ?case by simp
qed

lemma undoable_present: "undoable snaps rs d d0 \<Longrightarrow> List.find (snap_missing snaps) rs = None"
  by (induction rule: undoable.induct) auto

lemma revert_rows_ok:
  assumes "undoable (st_snaps st) rs (st_disk st) d0"
  shows "fst (revert_rows rs st) = RevOk" "map_of (st_disk (snd (revert_rows rs st))) = map_of d0"
  using revert_loop_ok [OF assms] undoable_present [OF assms] by (simp_all add: revert_rows_def)

section \<open>Snapshots are kept\<close>

definition grows :: "('k \<times> 'v) list \<Rightarrow> ('k \<times> 'v) list \<Rightarrow> bool" where
  "grows sn sn' \<longleftrightarrow> map_of sn \<subseteq>\<^sub>m map_of sn'"

lemma grows_refl [simp]: "grows sn sn" and grows_trans: "grows a b \<Longrightarrow> grows b c \<Longrightarrow> grows a c"
  by (auto simp: grows_def intro: map_le_trans)

lemma grows_get: "grows sn sn' \<Longrightarrow> map_of sn k = Some v \<Longrightarrow> map_of sn' k = Some v"
  by (auto simp: grows_def map_le_def dom_def)

lemma grows_dput: "map_of sn k = None \<Longrightarrow> grows sn (dput k v sn)"
  by (auto simp: grows_def map_le_def)

lemma replay_grows:
  "replay_reverse sn r d = (None, d2) \<Longrightarrow> grows sn sn' \<Longrightarrow> replay_reverse sn' r d = (None, d2)"
proof (cases "sg_snap r")
  case None
  then show "replay_reverse sn r d = (None, d2) \<Longrightarrow> ?thesis"
    by (cases "sg_op r") (simp_all add: replay_reverse_def)
next
  case (Some sp)
  assume r: "replay_reverse sn r d = (None, d2)" and g: "grows sn sn'"
  show ?thesis
  proof (cases "map_of sn sp")
    case None
    with r Some show ?thesis by (cases "sg_op r") (auto simp: replay_reverse_def split: if_splits)
  next
    case (Some v)
    with grows_get [OF g Some] r \<open>sg_snap r = Some sp\<close> show ?thesis
      by (cases "sg_op r") (auto simp: replay_reverse_def split: if_splits)
  qed
qed

lemma undoable_grows: "undoable sn rs d d0 \<Longrightarrow> grows sn sn' \<Longrightarrow> undoable sn' rs d d0"
proof (induction rule: undoable.induct)
  case (undone d d0 sn)
  then show ?case by (simp add: undoable.undone)
next
  case (undo sn r dm d rs d0)
  have "undoes sn' r dm d" using undo.hyps(1) undo.prems replay_grows unfolding undoes_def by metis
  moreover have "\<not> snap_missing sn' r"
    using undo.hyps(2) undo.prems by (auto simp: snap_missing_def split: option.splits dest: grows_get)
  ultimately show ?case using undo by (blast intro: undoable.undo)
qed

text \<open>The name of a snapshot tells its sequence number.\<close>

definition snap_key :: "snap_store \<Rightarrow> string \<Rightarrow> string \<Rightarrow> nat \<Rightarrow> string \<Rightarrow> string \<Rightarrow> string" where
  "snap_key ss sid rid seq path ext = path_join (run_dir ss sid rid) (snap_name ss seq path ext)"

lemma str_of_nat_no: "c \<in> set (str_of_nat n) \<Longrightarrow> c \<noteq> CHR ''-'' \<and> c \<noteq> CHR ''/''"
proof -
  assume "c \<in> set (str_of_nat n)"
  then obtain k :: nat where "c = char_of k" "48 \<le> k" "k \<le> 57" using str_of_nat_digits(1) [of n] by auto
  then have "of_char c = k" by simp
  moreover have "of_char (CHR ''-'') = (45 :: nat)" "of_char (CHR ''/'') = (47 :: nat)" by simp_all
  ultimately show ?thesis using \<open>48 \<le> k\<close> by auto
qed

lemma str_of_nat_ne: "str_of_nat n \<noteq> []"
  by (subst str_of_nat.simps) simp

lemma snap_key_seq:
  assumes "snap_key ss sid rid seq path ext = snap_key ss sid rid seq' path' ext'"
  shows "seq = seq'"
proof -
  have nosl: "\<not> startswith (snap_name ss n p e) ''/''" for n p e
    using str_of_nat_ne [of n] str_of_nat_no [of _ n] unfolding snap_name_def
    by (cases "str_of_nat n") auto
  have "snap_name ss seq path ext = snap_name ss seq' path' ext'"
    using assms nosl by (simp add: snap_key_def path_join_def split: if_splits)
  then have "before_char (CHR ''-'') (snap_name ss seq path ext) = before_char (CHR ''-'') (snap_name ss seq' path' ext')"
    by simp
  moreover have "before_char (CHR ''-'') (snap_name ss n p e) = str_of_nat n" for n p e
    using str_of_nat_no [of _ n] unfolding snap_name_def before_char_def
    by (subst takeWhile_append2) auto
  ultimately show ?thesis using str_of_nat_digits(2) by metis
qed

lemma snap_key_ne: "snap_key ss sid rid seq path ext \<noteq> []"
  using str_of_nat_ne [of seq] by (simp add: snap_key_def path_join_def snap_name_def)

text \<open>No snapshot of the run carries a sequence number that has not been given out yet.\<close>

definition snaps_fresh :: "snap_store \<Rightarrow> string \<Rightarrow> string \<Rightarrow> fs_state \<Rightarrow> bool" where
  "snaps_fresh ss sid rid st \<longleftrightarrow>
     (\<forall>n path ext. n \<ge> next_seq sid rid st \<longrightarrow> map_of (st_snaps st) (snap_key ss sid rid n path ext) = None)"

lemma stage_sel:
  assumes "stage sid rid seq op path dst snap kind batch st = (i, st')"
  shows "st_disk st' = st_disk st" "st_snaps st' = st_snaps st" "i = Suc (st_rowid st)"
    "st_staged st' = st_staged st @ [\<lparr>sg_id = i, sg_session = sid, sg_run = rid, sg_seq = seq, sg_op = op, sg_path = path,
        sg_dst = dst, sg_snap = snap, sg_kind = kind, sg_status = Pending, sg_batch = batch\<rparr>]"
  using assms by (auto simp: stage_def Let_def)

lemma next_seq_append:
  assumes "st_staged st' = st_staged st @ [r]" "sg_session r = sid" "sg_run r = rid" "sg_seq r = next_seq sid rid st"
  shows "next_seq sid rid st' = Suc (next_seq sid rid st)"
  using assms by (simp add: next_seq_def)

section \<open>What a run cannot undo\<close>

text \<open>
  A file that did not exist before it was written has no snapshot, and the check before a revert asks for one: a run
  that created a file cannot be reverted at all.
\<close>

lemma set_latest_first [simp]: "set (latest_first rs) = set rs"
  by (simp add: latest_first_def)

theorem new_file_blocks_revert:
  assumes "r \<in> set (st_staged st)" "sg_session r = sid" "sg_run r = rid" "sg_status r = Pending"
    "sg_op r = OpWrite" "sg_snap r = None"
  shows "\<exists>i. revert_run ss sid rid st = (RevMissing i, st)"
proof -
  let ?rs = "latest_first (filter (\<lambda>r. sg_session r = sid \<and> sg_run r = rid \<and> sg_status r = Pending) (st_staged st))"
  have r: "r \<in> set ?rs" using assms by simp
  moreover have "snap_missing (st_snaps st) r" using assms by (simp add: snap_missing_def needs_snap_def)
  ultimately have "List.find (snap_missing (st_snaps st)) ?rs \<noteq> None" by (auto simp: find_None_all)
  then obtain q where "List.find (snap_missing (st_snaps st)) ?rs = Some q" by auto
  moreover have "?rs \<noteq> []" using r by (metis empty_iff empty_set)
  ultimately show ?thesis by (simp add: revert_run_def Let_def)
qed

text \<open>After a revert that failed for some rows, the snapshots those rows need are gone.\<close>

theorem partial_revert_drops_snapshots:
  assumes "revert_run ss sid rid st = (RevPartial failed, st')" "under (run_dir ss sid rid) sp"
  shows "map_of (st_snaps st') sp = None"
proof -
  obtain st1 where "st' = prune_run ss sid rid st1"
    using assms(1) by (auto simp: revert_run_def Let_def split: if_splits option.splits prod.splits)
  moreover have "map_of (filter (\<lambda>(k, _). \<not> under (run_dir ss sid rid) k) xs) sp = None" for xs :: "(string \<times> snapshot) list"
    using assms(2) by (induction xs) auto
  ultimately show ?thesis by (simp add: prune_run_def)
qed

end
