(* ===== verification/Fs_Batch.thy ===== *)
theory Fs_Batch
  imports Fs_Staging Fs_Scope
begin

text \<open>
  The batch tool of \<open>fs/batch.py\<close>: a list of structural operations is validated as a whole against the virtual
  tree, then applied to the disk one after the other, each change staged so that it can be undone. What
  a sequence of operations does to a tree is a locale, interpreted on the virtual tree (which also refuses
  every operation the specification refuses) and on the disk. The theorems compose the two: what the
  preflight accepts, the commit can carry out, and reverting the batch gives back the disk.
\<close>

section \<open>Sequences of structural operations\<close>

datatype vop = OMkdir bool "string list" | ORename "string list" "string list" | ODelete bool "string list"

fun vop_error :: "vop \<Rightarrow> namespace \<Rightarrow> vt_error option" where
  "vop_error (OMkdir parents p) = mkdir_error parents p"
| "vop_error (ORename s t) = rename_error s t"
| "vop_error (ODelete r p) = delete_error r p"

fun vop_eff :: "'e \<Rightarrow> vop \<Rightarrow> (string list \<Rightarrow> 'e option) \<Rightarrow> string list \<Rightarrow> 'e option" where
  "vop_eff d (OMkdir parents p) = eff_mkdir d p"
| "vop_eff d (ORename s t) = eff_rename s t"
| "vop_eff d (ODelete r p) = eff_delete p"

text \<open>The specification of a sequence; \<^term>\<open>None\<close> when an operation is refused on the way.\<close>

fun spec_run :: "vop list \<Rightarrow> namespace \<Rightarrow> namespace option" where
  "spec_run [] m = Some m"
| "spec_run (x # xs) m = (if vop_error x m = None then spec_run xs (vop_eff True x m) else None)"

lemma ns_inv_vop: "ns_inv m \<Longrightarrow> vop_error x m = None \<Longrightarrow> ns_inv (vop_eff True x m)"
  by (cases x) (auto intro: ns_inv_mkdir ns_inv_rename ns_inv_delete)

lemma vop_eff_natural:
  "(\<lambda>p. map_option f (vop_eff d x m p)) = vop_eff (f d) x (\<lambda>p. map_option f (m p))"
  by (cases x) (auto simp: eff_mkdir_def eff_rename_def eff_delete_def)

lemma spec_run_append: "spec_run (xs @ ys) m = Option.bind (spec_run xs m) (spec_run ys)"
  by (induction xs arbitrary: m) auto

lemma spec_run_inv: "spec_run xs m = Some m' \<Longrightarrow> ns_inv m \<Longrightarrow> ns_inv m'"
  by (induction xs arbitrary: m) (auto split: if_splits intro: ns_inv_vop)

text \<open>
  What carries out operations on a tree: it must do an operation the specification allows. \<open>good\<close> says
  which operations it is asked for, \<open>tmap\<close> what the tree holds at a path.
\<close>

locale tree_exec =
  fixes exec :: "vop \<Rightarrow> 't \<Rightarrow> 'r \<times> 't"
    and succeeded :: "'r \<Rightarrow> bool"
    and tmap :: "'t \<Rightarrow> string list \<Rightarrow> 'e option"
    and isd :: "'e \<Rightarrow> bool"
    and dirval :: 'e
    and good :: "vop \<Rightarrow> bool"
  assumes isd_dirval: "isd dirval"
    and exec_accepts: "good x \<Longrightarrow> ns_inv (\<lambda>p. map_option isd (tmap t p)) \<Longrightarrow>
      vop_error x (\<lambda>p. map_option isd (tmap t p)) = None \<Longrightarrow>
      succeeded (fst (exec x t)) \<and> tmap (snd (exec x t)) = vop_eff dirval x (tmap t)"
begin

definition ns :: "'t \<Rightarrow> namespace" where
  "ns t = (\<lambda>p. map_option isd (tmap t p))"

lemma ns_exec: "good x \<Longrightarrow> ns_inv (ns t) \<Longrightarrow> vop_error x (ns t) = None \<Longrightarrow>
  succeeded (fst (exec x t)) \<and> ns (snd (exec x t)) = vop_eff True x (ns t)"
  using exec_accepts [of x t] vop_eff_natural [of isd dirval x "tmap t"] isd_dirval
  by (auto simp: ns_def)

end

text \<open>What also refuses every operation the specification refuses, and then leaves the tree as it was.\<close>

locale tree_check = tree_exec exec succeeded tmap isd dirval good
  for exec :: "vop \<Rightarrow> 't \<Rightarrow> 'r \<times> 't" and succeeded :: "'r \<Rightarrow> bool" and tmap :: "'t \<Rightarrow> string list \<Rightarrow> 'e option"
    and isd :: "'e \<Rightarrow> bool" and dirval :: 'e and good :: "vop \<Rightarrow> bool" +
  assumes exec_refuses: "good x \<Longrightarrow> ns_inv (\<lambda>p. map_option isd (tmap t p)) \<Longrightarrow>
      vop_error x (\<lambda>p. map_option isd (tmap t p)) \<noteq> None \<Longrightarrow>
      \<not> succeeded (fst (exec x t)) \<and> tmap (snd (exec x t)) = tmap t"
begin

lemma ns_refuse: "good x \<Longrightarrow> ns_inv (ns t) \<Longrightarrow> vop_error x (ns t) \<noteq> None \<Longrightarrow>
  \<not> succeeded (fst (exec x t)) \<and> ns (snd (exec x t)) = ns t"
  using exec_refuses [of x t] by (auto simp: ns_def)

end

subsection \<open>The virtual tree and the disk\<close>

definition comps_good :: "string list \<Rightarrow> bool" where
  "comps_good p \<longleftrightarrow> (\<forall>c\<in>set p. dotless c)"

fun vop_good :: "vop \<Rightarrow> bool" where
  "vop_good (OMkdir parents p) \<longleftrightarrow> comps_good p"
| "vop_good (ORename s t) \<longleftrightarrow> s \<noteq> [] \<and> comps_good s \<and> comps_good t"
| "vop_good (ODelete r p) \<longleftrightarrow> comps_good p"

fun vt_exec :: "scan \<Rightarrow> string \<Rightarrow> vop \<Rightarrow> vnode \<Rightarrow> vt_result \<times> vnode" where
  "vt_exec sd cwd (OMkdir parents p) t = vt_mkdir sd cwd (abs_path p) parents t"
| "vt_exec sd cwd (ORename s d) t = vt_rename sd cwd (abs_path s) (abs_path d) t"
| "vt_exec sd cwd (ODelete r p) t = vt_delete sd cwd (abs_path p) r t"

fun disk_exec :: "vop \<Rightarrow> disk \<Rightarrow> os_error option \<times> disk" where
  "disk_exec (OMkdir parents p) d =
     (case (if parents then os_makedirs False d (abs_path p) else os_mkdir d (abs_path p)) of
        Inl e \<Rightarrow> (Some e, d) | Inr d' \<Rightarrow> (None, d'))"
| "disk_exec (ORename s t) d =
     (case os_rename d (abs_path s) (abs_path t) of Inl e \<Rightarrow> (Some e, d) | Inr d' \<Rightarrow> (None, d'))"
| "disk_exec (ODelete r p) d =
     (case (if os_isfile d (abs_path p) then os_remove d (abs_path p) else os_rmtree d (abs_path p)) of
        Inl e \<Rightarrow> (Some e, d) | Inr d' \<Rightarrow> (None, d'))"

lemma good_comps: "comps_good p \<Longrightarrow> plain_path (abs_path p) \<and> path_comps (abs_path p) = p"
  by (simp add: comps_good_def plain_abs_path dotless_def)

lemma vt_exec_implements:
  assumes "vop_good x" "ns_inv (vt_view sd t)"
  shows "implements sd t (vop_error x (vt_view sd t)) (vop_eff True x (vt_view sd t)) (vt_exec sd cwd x t)"
proof (cases x)
  case (OMkdir parents p)
  have "n_is_dir t" using assms(2) by (simp add: ns_inv_def)
  with mkdir_spec [of "abs_path p"] good_comps [of p] OMkdir assms(1) show ?thesis by simp
next
  case (ORename s d)
  with rename_spec [of "abs_path s" "abs_path d"] good_comps [of s] good_comps [of d] assms show ?thesis by simp
next
  case (ODelete r p)
  with delete_spec [of "abs_path p"] good_comps [of p] assms show ?thesis by simp
qed

lemma map_option_id_fun: "(\<lambda>p. map_option (\<lambda>b. b) (m p)) = m"
  by (simp add: fun_eq_iff option.map_ident)

interpretation vt: tree_check "vt_exec sd cwd" "\<lambda>r. r = VOk" "vt_view sd" "\<lambda>b. b" True vop_good for sd cwd
proof
  fix x t assume good: "vop_good x" and inv: "ns_inv (\<lambda>p. map_option (\<lambda>b. b) (vt_view sd t p))"
  note imp = vt_exec_implements [OF good inv [unfolded map_option_id_fun], of cwd]
  show "vop_error x (\<lambda>p. map_option (\<lambda>b. b) (vt_view sd t p)) = None \<Longrightarrow>
      fst (vt_exec sd cwd x t) = VOk \<and> vt_view sd (snd (vt_exec sd cwd x t)) = vop_eff True x (vt_view sd t)"
    using imp by (cases "fst (vt_exec sd cwd x t)") (auto simp: implements_def result_kind_def map_option_id_fun)
  show "vop_error x (\<lambda>p. map_option (\<lambda>b. b) (vt_view sd t p)) \<noteq> None \<Longrightarrow>
      \<not> fst (vt_exec sd cwd x t) = VOk \<and> vt_view sd (snd (vt_exec sd cwd x t)) = vt_view sd t"
    using imp by (auto simp: implements_def result_kind_def map_option_id_fun)
qed simp

lemma disk_ns_map: "(\<lambda>p. map_option is_ddir (map_of d p)) = disk_ns d"
  by (simp add: disk_ns_def fun_eq_iff)

lemma delete_call:
  assumes "delete_error r p (disk_ns d) = None" "path_comps path = p"
  shows "os_isfile d path \<Longrightarrow> os_remove d path = Inr (prune p d)"
    and "\<not> os_isfile d path \<Longrightarrow> map_of d p = Some DDir \<and> os_rmtree d path = Inr (prune p d)"
proof -
  obtain e where "map_of d p = Some e" using assms(1) by (auto simp: delete_error_def disk_ns_simps split: if_splits)
  with assms(2) show "os_isfile d path \<Longrightarrow> os_remove d path = Inr (prune p d)"
    "\<not> os_isfile d path \<Longrightarrow> map_of d p = Some DDir \<and> os_rmtree d path = Inr (prune p d)"
    by (auto simp: os_isfile_def os_remove_def os_rmtree_def os_at_def split: dentry.splits)
qed

lemma disk_exec_accepts:
  assumes "vop_good x" "ns_inv (disk_ns d)" "vop_error x (disk_ns d) = None"
  shows "fst (disk_exec x d) = None \<and> map_of (snd (disk_exec x d)) = vop_eff DDir x (map_of d)"
proof (cases x)
  case (OMkdir parents p)
  with assms(1) good_comps have p: "path_comps (abs_path p) = p" by simp
  show ?thesis
  proof (cases parents)
    case True
    with OMkdir assms(3) makedirs_ok [OF assms(2), of p False] p show ?thesis by (auto simp: os_makedirs_def)
  next
    case False
    with OMkdir assms(3) mkdir_at_ok [OF assms(2), of p] p show ?thesis by (auto simp: os_mkdir_def)
  qed
next
  case (ORename s t)
  with assms good_comps [of s] good_comps [of t] rename_at_ok [of s t d] show ?thesis
    by (simp add: os_rename_def map_of_move)
next
  case (ODelete r p)
  with assms(1) good_comps have p: "path_comps (abs_path p) = p" by simp
  with ODelete assms(3) delete_call [of r p d, OF _ p] show ?thesis by auto
qed

interpretation dk: tree_exec disk_exec "\<lambda>r. r = None" map_of is_ddir DDir vop_good
  by unfold_locales (simp_all add: disk_ns_map disk_exec_accepts)

section \<open>Preflight\<close>

definition MAX_OPS :: int where "MAX_OPS = 500"
definition MAX_DELETE_ENTRIES :: int where "MAX_DELETE_ENTRIES = 2000"
definition MAX_DELETE_BYTES :: int where "MAX_DELETE_BYTES = 2 * 1024 * 1024 * 1024"

record bop =
  b_op :: string
  b_path :: string
  b_dst :: "string option"
  b_parents :: bool
  b_recursive :: bool

text \<open>What a tool run carries: its session, its run, the patterns of the user, the snapshot store, the outside world.\<close>

record fs_ctx =
  c_env :: fs_env
  c_islink :: "string \<Rightarrow> bool"
  c_session :: string
  c_run :: string
  c_patterns :: "string list"
  c_store :: snap_store

text \<open>The reasons of an error, with the values their texts show.\<close>

datatype pf_reason = TooManyOps int | IsSymlink | DirTooLarge int | UnknownOp string | TreeError vt_error string

record pf_error =
  pe_index :: int
  pe_op :: string
  pe_reason :: pf_reason

record preflight_result =
  pf_ok :: "(bop \<times> string list) list"
  pf_need_grant :: "string list"
  pf_blocked :: "string list"
  pf_errors :: "pf_error list"

definition pf_empty :: preflight_result where
  "pf_empty = \<lparr>pf_ok = [], pf_need_grant = [], pf_blocked = [], pf_errors = []\<rparr>"

definition add_error :: "int \<Rightarrow> string \<Rightarrow> pf_reason \<Rightarrow> preflight_result \<Rightarrow> preflight_result" where
  "add_error i kind reason res =
     res\<lparr>pf_errors := pf_errors res @ [\<lparr>pe_index = i, pe_op = kind, pe_reason = reason\<rparr>]\<rparr>"

definition env_of :: "fs_ctx \<Rightarrow> disk \<Rightarrow> fs_env" where
  "env_of ctx d = (c_env ctx)\<lparr>e_isdir := os_isdir d\<rparr>"

text \<open>\<open>_estimate_dir\<close> counts until a limit is passed.\<close>

fun estimate_loop :: "int \<Rightarrow> int \<Rightarrow> int list \<Rightarrow> int \<times> int" where
  "estimate_loop cnt tot [] = (cnt, tot)"
| "estimate_loop cnt tot (x # xs) =
     (if cnt + 1 > MAX_DELETE_ENTRIES \<or> tot + x > MAX_DELETE_BYTES then (cnt + 1, tot + x)
      else estimate_loop (cnt + 1) (tot + x) xs)"

definition estimate_dir :: "disk \<Rightarrow> string \<Rightarrow> int \<times> int" where
  "estimate_dir d path = estimate_loop 0 0
     (concat (map (\<lambda>(q, e). case e of DDir \<Rightarrow> [] | DFile c \<Rightarrow> [int (length c)]) (subtree d (path_comps path))))"

definition raw_paths :: "bop \<Rightarrow> string list" where
  "raw_paths op = b_path op # (case b_dst op of None \<Rightarrow> [] | Some t \<Rightarrow> if t = [] then [] else [t])"

text \<open>The paths of one operation: the new result, the real paths, and whether one was blocked.\<close>

fun gate_paths :: "(string \<Rightarrow> category \<times> string) \<Rightarrow> string list \<Rightarrow> preflight_result \<Rightarrow>
    preflight_result \<times> string list \<times> bool" where
  "gate_paths cls [] res = (res, [], False)"
| "gate_paths cls (raw # raws) res =
     (case cls raw of
        (CatBlocked, ap) \<Rightarrow>
          (case gate_paths cls raws (res\<lparr>pf_blocked := pf_blocked res @ [ap]\<rparr>) of (r, aps, _) \<Rightarrow> (r, aps, True))
      | (CatNeedGrant, ap) \<Rightarrow>
          (case gate_paths cls raws
             (if ap \<in> set (pf_need_grant res) then res else res\<lparr>pf_need_grant := pf_need_grant res @ [ap]\<rparr>)
           of (r, aps, f) \<Rightarrow> (r, ap # aps, f))
      | (CatOk, ap) \<Rightarrow> (case gate_paths cls raws res of (r, aps, f) \<Rightarrow> (r, ap # aps, f)))"

definition too_large :: "disk \<Rightarrow> string \<Rightarrow> bool" where
  "too_large d path = (case estimate_dir d path of (cnt, byt) \<Rightarrow> cnt > MAX_DELETE_ENTRIES \<or> byt > MAX_DELETE_BYTES)"

text \<open>
  The call on the virtual tree; \<^term>\<open>None\<close> for an unknown kind of operation. The result of a rename that links a
  node below itself counts as success, as in the code.
\<close>

definition vt_call :: "scan \<Rightarrow> string \<Rightarrow> bop \<Rightarrow> string list \<Rightarrow> vnode \<Rightarrow> (vt_result \<times> vnode) option" where
  "vt_call sd cwd op aps t =
     (if b_op op = ''mkdir'' then Some (vt_mkdir sd cwd (aps ! 0) (b_parents op) t)
      else if b_op op = ''rename'' then Some (vt_rename sd cwd (aps ! 0) (aps ! 1) t)
      else if b_op op = ''delete'' then Some (vt_delete sd cwd (aps ! 0) (b_recursive op) t)
      else None)"

datatype pf_outcome = PfDone preflight_result | PfIndexError

text \<open>One operation: \<^term>\<open>None\<close> is the \<open>IndexError\<close> of a rename without a destination.\<close>

definition pf_step :: "fs_ctx \<Rightarrow> visible_row list \<Rightarrow> disk \<Rightarrow> int \<Rightarrow> bop \<Rightarrow> preflight_result \<Rightarrow> vnode \<Rightarrow>
    (preflight_result \<times> vnode) option" where
  "pf_step ctx vis d i op res t =
     (case gate_paths (classify_path (env_of ctx d) (c_patterns ctx) (c_session ctx) vis) (raw_paths op) res of
        (res, aps, fatal) \<Rightarrow>
          if fatal then Some (res, t)
          else if \<exists>rp\<in>set (raw_paths op). c_islink ctx rp then Some (add_error i (b_op op) IsSymlink res, t)
          else if b_op op = ''delete'' \<and> b_recursive op \<and> os_isdir d (aps ! 0) \<and> too_large d (aps ! 0)
          then Some (add_error i (b_op op) (DirTooLarge (fst (estimate_dir d (aps ! 0)))) res, t)
          else if b_op op = ''rename'' \<and> length aps < 2 then None
          else (case vt_call (os_scandir d) (e_cwd (c_env ctx)) op aps t of
              None \<Rightarrow> Some (add_error i (b_op op) (UnknownOp (b_op op)) res, t)
            | Some (VErr e msg, t') \<Rightarrow> Some (add_error i (b_op op) (TreeError e msg) res, t')
            | Some (_, t') \<Rightarrow> Some (res\<lparr>pf_ok := pf_ok res @ [(op, aps)]\<rparr>, t')))"

fun pf_loop :: "fs_ctx \<Rightarrow> visible_row list \<Rightarrow> disk \<Rightarrow> int \<Rightarrow> bop list \<Rightarrow> preflight_result \<Rightarrow> vnode \<Rightarrow> pf_outcome" where
  "pf_loop ctx vis d i [] res t = PfDone res"
| "pf_loop ctx vis d i (op # ops) res t = (case pf_step ctx vis d i op res t of
     None \<Rightarrow> PfIndexError | Some (res', t') \<Rightarrow> pf_loop ctx vis d (i + 1) ops res' t')"

definition preflight :: "fs_ctx \<Rightarrow> visible_row list \<Rightarrow> disk \<Rightarrow> bop list \<Rightarrow> pf_outcome" where
  "preflight ctx vis d ops =
     (if int (length ops) > MAX_OPS
      then PfDone (add_error (- 1) ''batch'' (TooManyOps (int (length ops))) pf_empty)
      else pf_loop ctx vis d 0 ops pf_empty vt_init)"

section \<open>Commit\<close>

datatype commit_error = RenameChanged string string | CommitOs os_error | CommitSnap snap_error

record item =
  it_id :: nat
  it_seq :: nat
  it_op :: staged_op
  it_path :: string
  it_dst :: "string option"

datatype entry_result = Skipped | Staged item | Failed commit_error

definition commit_mkdir :: "fs_ctx \<Rightarrow> string \<Rightarrow> bool \<Rightarrow> string \<Rightarrow> fs_state \<Rightarrow> entry_result \<times> fs_state" where
  "commit_mkdir ctx bid parents target st =
     (let seq = next_seq (c_session ctx) (c_run ctx) st
      in if os_exists (st_disk st) target then (Skipped, st)
         else case (if parents then os_makedirs False (st_disk st) target else os_mkdir (st_disk st) target) of
             Inl e \<Rightarrow> (Failed (CommitOs e), st)
           | Inr d \<Rightarrow> (case stage (c_session ctx) (c_run ctx) seq OpMkdir target None None None (Some bid)
                          (st\<lparr>st_disk := d\<rparr>) of
               (rid, st') \<Rightarrow> (Staged \<lparr>it_id = rid, it_seq = seq, it_op = OpMkdir, it_path = target, it_dst = None\<rparr>, st')))"

definition commit_rename :: "fs_ctx \<Rightarrow> string \<Rightarrow> string \<Rightarrow> string \<Rightarrow> fs_state \<Rightarrow> entry_result \<times> fs_state" where
  "commit_rename ctx bid src dst st =
     (let seq = next_seq (c_session ctx) (c_run ctx) st
      in if \<not> os_exists (st_disk st) src \<or> os_exists (st_disk st) dst then (Failed (RenameChanged src dst), st)
         else case os_rename (st_disk st) src dst of
             Inl e \<Rightarrow> (Failed (CommitOs e), st)
           | Inr d \<Rightarrow> (case stage (c_session ctx) (c_run ctx) seq OpRename src (Some dst) None None (Some bid)
                          (st\<lparr>st_disk := d\<rparr>) of
               (rid, st') \<Rightarrow> (Staged \<lparr>it_id = rid, it_seq = seq, it_op = OpRename, it_path = src, it_dst = Some dst\<rparr>, st')))"

definition commit_delete_file :: "fs_ctx \<Rightarrow> string \<Rightarrow> string \<Rightarrow> fs_state \<Rightarrow> entry_result \<times> fs_state" where
  "commit_delete_file ctx bid target st =
     (let seq = next_seq (c_session ctx) (c_run ctx) st
      in case maybe_take_file_snapshot (c_store ctx) (c_session ctx) (c_run ctx) seq target st of
           Inl e \<Rightarrow> (Failed (CommitSnap e), st)
         | Inr (snap, st1) \<Rightarrow>
             (case os_remove (st_disk st1) target of
                Inl e \<Rightarrow> (Failed (CommitOs e), st1)
              | Inr d \<Rightarrow> (case stage (c_session ctx) (c_run ctx) seq OpDeleteFile target None (Some snap) (Some KindFile)
                             (Some bid) (st1\<lparr>st_disk := d\<rparr>) of
                  (rid, st') \<Rightarrow> (Staged \<lparr>it_id = rid, it_seq = seq, it_op = OpDeleteFile, it_path = target,
                                   it_dst = None\<rparr>, st'))))"

definition commit_delete_dir :: "fs_ctx \<Rightarrow> string \<Rightarrow> string \<Rightarrow> fs_state \<Rightarrow> entry_result \<times> fs_state" where
  "commit_delete_dir ctx bid target st =
     (let seq = next_seq (c_session ctx) (c_run ctx) st;
          is_empty = (entries (st_disk st) (path_comps target) = []);
          taken = (if is_empty then Inr (None, st)
                   else case take_tar (c_store ctx) (c_session ctx) (c_run ctx) seq target st of
                       Inl e \<Rightarrow> Inl e | Inr (p, st') \<Rightarrow> Inr (Some p, st'))
      in case taken of
           Inl e \<Rightarrow> (Failed (CommitSnap e), st)
         | Inr (snap, st1) \<Rightarrow>
             (case os_rmtree (st_disk st1) target of
                Inl e \<Rightarrow> (Failed (CommitOs e), st1)
              | Inr d \<Rightarrow> (case stage (c_session ctx) (c_run ctx) seq OpDeleteDir target None snap
                             (if is_empty then None else Some KindTar) (Some bid) (st1\<lparr>st_disk := d\<rparr>) of
                  (rid, st') \<Rightarrow> (Staged \<lparr>it_id = rid, it_seq = seq, it_op = OpDeleteDir, it_path = target,
                                   it_dst = None\<rparr>, st'))))"

definition commit_entry :: "fs_ctx \<Rightarrow> string \<Rightarrow> bop \<times> string list \<Rightarrow> fs_state \<Rightarrow> entry_result \<times> fs_state" where
  "commit_entry ctx bid entry st = (case entry of (op, aps) \<Rightarrow>
     if b_op op = ''mkdir'' then commit_mkdir ctx bid (b_parents op) (aps ! 0) st
     else if b_op op = ''rename'' then commit_rename ctx bid (aps ! 0) (aps ! 1) st
     else if b_op op = ''delete'' then
       (if \<not> os_exists (st_disk st) (aps ! 0) then (Skipped, st)
        else if os_isfile (st_disk st) (aps ! 0) then commit_delete_file ctx bid (aps ! 0) st
        else commit_delete_dir ctx bid (aps ! 0) st)
     else (Skipped, st))"

fun commit_loop :: "fs_ctx \<Rightarrow> string \<Rightarrow> (bop \<times> string list) list \<Rightarrow> item list \<Rightarrow> fs_state \<Rightarrow>
    commit_error option \<times> item list \<times> fs_state" where
  "commit_loop ctx bid [] items st = (None, items, st)"
| "commit_loop ctx bid (x # xs) items st =
     (case commit_entry ctx bid x st of
        (Skipped, st') \<Rightarrow> commit_loop ctx bid xs items st'
      | (Staged it, st') \<Rightarrow> commit_loop ctx bid xs (items @ [it]) st'
      | (Failed e, st') \<Rightarrow> (Some e, items, st'))"

text \<open>The event of a batch: the counts of its summary and its items.\<close>

record batch_event =
  be_run :: string
  be_batch :: string
  be_mkdir :: nat
  be_rename :: nat
  be_delete :: nat
  be_items :: "item list"

definition count_op :: "staged_op list \<Rightarrow> item list \<Rightarrow> nat" where
  "count_op ops items = length (filter (\<lambda>it. it_op it \<in> set ops) items)"

text \<open>The changes are audited and announced also when the commit stops on the way.\<close>

definition commit :: "fs_ctx \<Rightarrow> string \<Rightarrow> (bop \<times> string list) list \<Rightarrow> fs_state \<Rightarrow>
    commit_error option \<times> batch_event option \<times> fs_state" where
  "commit ctx bid xs st = (case commit_loop ctx bid xs [] st of (err, items, st') \<Rightarrow>
     (err,
      (if items = [] then None
       else Some \<lparr>be_run = c_run ctx, be_batch = bid, be_mkdir = count_op [OpMkdir] items,
              be_rename = count_op [OpRename] items, be_delete = count_op [OpDeleteFile, OpDeleteDir] items,
              be_items = items\<rparr>),
      st'\<lparr>st_audit := st_audit st' @ map (\<lambda>it. AuditChange (it_op it) (it_path it) (it_dst it) (Some bid)) items\<rparr>))"

section \<open>The whole tool\<close>

datatype batch_reply = Rejected preflight_result | Denied | Changed preflight_result | Crashed
  | FailedMidway commit_error | StagedBatch nat string

definition has_problems :: "preflight_result \<Rightarrow> bool" where
  "has_problems res \<longleftrightarrow> pf_blocked res \<noteq> [] \<or> pf_errors res \<noteq> []"

definition conn_count :: "fs_ctx \<Rightarrow> string \<Rightarrow> fs_state \<Rightarrow> nat" where
  "conn_count ctx bid st =
     length (filter (\<lambda>r. sg_session r = c_session ctx \<and> sg_batch r = Some bid) (st_staged st))"

definition finish_batch :: "fs_ctx \<Rightarrow> string \<Rightarrow> preflight_result \<Rightarrow> fs_state \<Rightarrow> batch_reply \<times> batch_event option \<times> fs_state" where
  "finish_batch ctx bid res st = (case commit ctx bid (pf_ok res) st of
     (Some e, ev, st') \<Rightarrow> (FailedMidway e, ev, st')
   | (None, ev, st') \<Rightarrow> (StagedBatch (conn_count ctx bid st') bid, ev, st'))"

text \<open>
  \<open>run_batch\<close>. The card of \<open>request_access_batch\<close> is a parameter: its answer, and the disk and the visible
  resources as they are once it is answered.
\<close>

definition run_batch :: "fs_ctx \<Rightarrow> string \<Rightarrow> bop list \<Rightarrow> visible_row list \<Rightarrow>
    (string list \<Rightarrow> bool \<times> disk \<times> visible_row list) \<Rightarrow> fs_state \<Rightarrow> batch_reply \<times> batch_event option \<times> fs_state" where
  "run_batch ctx bid ops vis request st = (case preflight ctx vis (st_disk st) ops of
     PfIndexError \<Rightarrow> (Crashed, None, st)
   | PfDone res \<Rightarrow>
       if has_problems res then (Rejected res, None, st)
       else if pf_need_grant res = [] then finish_batch ctx bid res st
       else (case request (pf_need_grant res) of (granted, d', vis') \<Rightarrow>
         let st' = st\<lparr>st_disk := d'\<rparr>
         in if \<not> granted then (Denied, None, st')
            else case preflight ctx vis' d' ops of
                PfIndexError \<Rightarrow> (Crashed, None, st')
              | PfDone res' \<Rightarrow>
                  if pf_need_grant res' \<noteq> [] \<or> has_problems res' then (Changed res', None, st')
                  else finish_batch ctx bid res' st'))"

section \<open>What the preflight accepts\<close>

fun vop_of :: "bop \<times> string list \<Rightarrow> vop" where
  "vop_of (op, aps) =
     (if b_op op = ''mkdir'' then OMkdir (b_parents op) (path_comps (aps ! 0))
      else if b_op op = ''rename'' then ORename (path_comps (aps ! 0)) (path_comps (aps ! 1))
      else ODelete (b_recursive op) (path_comps (aps ! 0)))"

definition bentry_ok :: "bop \<times> string list \<Rightarrow> bool" where
  "bentry_ok x \<longleftrightarrow> (case x of (op, aps) \<Rightarrow>
     b_op op \<in> {''mkdir'', ''rename'', ''delete''} \<and> (\<forall>ap\<in>set aps. plain_path ap) \<and>
     aps \<noteq> [] \<and> (b_op op = ''rename'' \<longrightarrow> length aps \<ge> 2))"

definition no_root_move :: "bop \<times> string list \<Rightarrow> bool" where
  "no_root_move x \<longleftrightarrow> (case x of (op, aps) \<Rightarrow> b_op op = ''rename'' \<longrightarrow> path_comps (aps ! 0) \<noteq> [])"

lemma plain_comps: "plain_path ap \<Longrightarrow> comps_good (path_comps ap) \<and> abs_path (path_comps ap) = ap"
  by (auto simp: comps_good_def elim!: plain_pathE)

lemma entry_nth:
  assumes "bentry_ok (op, aps)"
  shows "plain_path (aps ! 0)" "b_op op = ''rename'' \<Longrightarrow> plain_path (aps ! Suc 0)"
  using assms by (auto simp: bentry_ok_def)

lemma entry_good: "bentry_ok x \<Longrightarrow> no_root_move x \<Longrightarrow> vop_good (vop_of x)"
  by (cases x) (auto simp: no_root_move_def dest: entry_nth plain_comps)

lemma vt_call_exec:
  "bentry_ok (op, aps) \<Longrightarrow> vt_call sd cwd op aps t = Some (vt_exec sd cwd (vop_of (op, aps)) t)"
  using entry_nth [of op aps] plain_comps by (auto simp: vt_call_def bentry_ok_def)

lemma gate_paths_spec:
  assumes "\<And>raw cat ap. cls raw = (cat, ap) \<Longrightarrow> cat \<noteq> CatBlocked \<Longrightarrow> plain_path ap"
  shows "gate_paths cls raws res = (res', aps, f) \<Longrightarrow>
    pf_ok res' = pf_ok res \<and> (\<not> f \<longrightarrow> length aps = length raws \<and> (\<forall>ap\<in>set aps. plain_path ap))"
proof (induction raws arbitrary: res res' aps f)
  case (Cons raw raws)
  obtain cat ap where c: "cls raw = (cat, ap)" by fastforce
  define res1 where "res1 = (case cat of CatBlocked \<Rightarrow> res\<lparr>pf_blocked := pf_blocked res @ [ap]\<rparr>
    | CatNeedGrant \<Rightarrow> if ap \<in> set (pf_need_grant res) then res else res\<lparr>pf_need_grant := pf_need_grant res @ [ap]\<rparr>
    | CatOk \<Rightarrow> res)"
  have ok1: "pf_ok res1 = pf_ok res" by (simp add: res1_def split: category.split)
  obtain r2 a2 f2 where rec: "gate_paths cls raws res1 = (r2, a2, f2)" by (cases "gate_paths cls raws res1") blast
  have "gate_paths cls (raw # raws) res =
      (if cat = CatBlocked then (r2, a2, True) else (r2, ap # a2, f2))"
    using c rec by (cases cat) (simp_all add: res1_def)
  with Cons.prems Cons.IH [OF rec] ok1 assms [OF c] show ?case by (auto split: if_splits)
qed simp

lemma classify_plain:
  assumes "real_ok env" "classify_path env up sid vis raw = (cat, ap)" "cat \<noteq> CatBlocked"
  shows "plain_path ap"
  using assms resolve_path_real [of env raw sid vis] unfolding real_ok_def classify_path_def
  by (auto simp: Let_def split: sum.splits if_splits)

lemma add_error_ok [simp]: "pf_ok (add_error i k r res) = pf_ok res"
  by (simp add: add_error_def)

text \<open>What holds of the accepted operations while the preflight goes through the list.\<close>

definition pf_inv :: "disk \<Rightarrow> preflight_result \<Rightarrow> vnode \<Rightarrow> bool" where
  "pf_inv d res t \<longleftrightarrow> (\<forall>x\<in>set (pf_ok res). bentry_ok x) \<and>
     ((\<forall>x\<in>set (pf_ok res). no_root_move x) \<longrightarrow>
        ns_inv (vt_view (os_scandir d) t) \<and>
        spec_run (map vop_of (pf_ok res)) (disk_ns d) = Some (vt_view (os_scandir d) t))"

lemma vt_refused_view:
  assumes "bentry_ok x" "ns_inv (vt_view sd t)" "vt_exec sd cwd (vop_of x) t = (VErr e msg, t')"
  shows "vt_view sd t' = vt_view sd t"
proof (cases "no_root_move x")
  case True
  from vt_exec_implements [OF entry_good [OF assms(1) True] assms(2), of cwd] assms(3) show ?thesis
    by (auto simp: implements_def result_kind_def split: if_splits)
next
  case False
  then obtain op aps where x: "x = (op, aps)" "b_op op = ''rename''" by (cases x) (auto simp: no_root_move_def)
  with assms(1) entry_nth [of op aps] plain_comps have "plain_path (aps ! 0)" "plain_path (aps ! Suc 0)"
    "abs_path (path_comps (aps ! 0)) = aps ! 0" "abs_path (path_comps (aps ! Suc 0)) = aps ! Suc 0" by auto
  with assms(3) x rename_refused_view [of "aps ! 0" "aps ! Suc 0" sd cwd t e msg t'] show ?thesis by simp
qed

lemma pf_inv_refuse:
  assumes "pf_inv d res t" "bentry_ok x" "vt_exec (os_scandir d) cwd (vop_of x) t = (VErr e msg, t')"
  shows "pf_inv d res t'"
  using assms(1) vt_refused_view [OF assms(2) _ assms(3)] by (auto simp: pf_inv_def)

lemma pf_inv_accept:
  assumes "pf_inv d res t" "bentry_ok x" "vt_exec (os_scandir d) cwd (vop_of x) t = (r, t')"
    "\<And>e msg. r \<noteq> VErr e msg"
  shows "pf_inv d (res\<lparr>pf_ok := pf_ok res @ [x]\<rparr>) t'"
proof -
  let ?v = "vt_view (os_scandir d)"
  have "ns_inv (?v t') \<and> spec_run (map vop_of (pf_ok res @ [x])) (disk_ns d) = Some (?v t')"
    if nr: "\<forall>y\<in>set (pf_ok res @ [x]). no_root_move y"
  proof -
    have inv: "ns_inv (?v t)" and run: "spec_run (map vop_of (pf_ok res)) (disk_ns d) = Some (?v t)"
      using assms(1) nr by (auto simp: pf_inv_def)
    have good: "vop_good (vop_of x)" using entry_good [OF assms(2)] nr by simp
    from vt_exec_implements [OF good inv, of cwd] assms(3,4)
    have e: "vop_error (vop_of x) (?v t) = None" "?v t' = vop_eff True (vop_of x) (?v t)"
      by (auto simp: implements_def result_kind_def split: vt_result.splits)
    with ns_inv_vop [OF inv e(1)] run show ?thesis by (simp add: spec_run_append)
  qed
  with assms(1,2) show ?thesis by (auto simp: pf_inv_def)
qed

lemma pf_step_cases:
  assumes "real_ok (c_env ctx)" "pf_step ctx vis d i op res t = Some (res2, t2)"
    "gate_paths (classify_path (env_of ctx d) (c_patterns ctx) (c_session ctx) vis) (raw_paths op) res = (res1, aps, f)"
  obtains (blocked) "f" "res2 = res1" "t2 = t"
  | (error) k e where "res2 = add_error i k e res1" "t2 = t"
  | (refused) e msg where "res2 = add_error i (b_op op) (TreeError e msg) res1" "bentry_ok (op, aps)"
      "vt_exec (os_scandir d) (e_cwd (c_env ctx)) (vop_of (op, aps)) t = (VErr e msg, t2)"
  | (accepted) r where "res2 = res1\<lparr>pf_ok := pf_ok res1 @ [(op, aps)]\<rparr>" "bentry_ok (op, aps)"
      "vt_exec (os_scandir d) (e_cwd (c_env ctx)) (vop_of (op, aps)) t = (r, t2)" "\<And>e msg. r \<noteq> VErr e msg"
proof -
  have renv: "real_ok (env_of ctx d)" using assms(1) by (simp add: real_ok_def env_of_def)
  note gs = gate_paths_spec [OF classify_plain [OF renv] assms(3)]
  let ?sd = "os_scandir d" and ?cwd = "e_cwd (c_env ctx)"
  show thesis
  proof (cases "f \<or> (\<exists>rp\<in>set (raw_paths op). c_islink ctx rp) \<or>
      b_op op = ''delete'' \<and> b_recursive op \<and> os_isdir d (aps ! 0) \<and> too_large d (aps ! 0) \<or>
      vt_call ?sd ?cwd op aps t = None")
    case True
    then show thesis using assms(2,3) blocked error by (auto simp: pf_step_def split: if_splits)
  next
    case False
    then obtain r t3 where rt: "vt_call ?sd ?cwd op aps t = Some (r, t3)" by (cases "vt_call ?sd ?cwd op aps t") auto
    have kinds: "b_op op \<in> {''mkdir'', ''rename'', ''delete''}" using rt by (auto simp: vt_call_def split: if_splits)
    have len: "\<not> (b_op op = ''rename'' \<and> length aps < 2)" using assms(2,3) False by (auto simp: pf_step_def)
    have "raw_paths op \<noteq> []" by (simp add: raw_paths_def)
    then have ok: "bentry_ok (op, aps)" using gs False kinds len by (auto simp: bentry_ok_def)
    with rt have ex: "vt_exec ?sd ?cwd (vop_of (op, aps)) t = (r, t3)" by (simp add: vt_call_exec)
    have st: "Some (res2, t2) = (case r of VErr e msg \<Rightarrow> Some (add_error i (b_op op) (TreeError e msg) res1, t3)
        | _ \<Rightarrow> Some (res1\<lparr>pf_ok := pf_ok res1 @ [(op, aps)]\<rparr>, t3))"
      using assms(2,3) False len rt by (auto simp: pf_step_def split: vt_result.split)
    show thesis
      using st ex ok refused accepted [of r] by (cases r) auto
  qed
qed

lemma pf_loop_inv:
  assumes "real_ok (c_env ctx)"
  shows "pf_loop ctx vis d i ops res t = PfDone res' \<Longrightarrow> pf_inv d res t \<Longrightarrow> \<exists>t'. pf_inv d res' t'"
proof (induction ops arbitrary: i res t)
  case Nil
  then show ?case by auto
next
  case (Cons op ops)
  let ?cls = "classify_path (env_of ctx d) (c_patterns ctx) (c_session ctx) vis"
  have renv: "real_ok (env_of ctx d)" using assms by (simp add: real_ok_def env_of_def)
  obtain res1 aps f where g: "gate_paths ?cls (raw_paths op) res = (res1, aps, f)"
    by (cases "gate_paths ?cls (raw_paths op) res") blast
  have "pf_ok res1 = pf_ok res" using gate_paths_spec [OF classify_plain [OF renv] g] by simp
  then have inv1: "pf_inv d res1 t" "\<And>i k r. pf_inv d (add_error i k r res1) t"
    using Cons.prems(2) by (simp_all add: pf_inv_def)
  obtain res2 t2 where s: "pf_step ctx vis d i op res t = Some (res2, t2)"
    using Cons.prems(1) by (auto split: option.splits)
  from assms s g have "pf_inv d res2 t2"
  proof (cases rule: pf_step_cases)
    case (refused e msg)
    then show ?thesis using pf_inv_refuse [OF inv1(2)] by blast
  next
    case (accepted r)
    then show ?thesis using pf_inv_accept [OF inv1(1)] by blast
  qed (use inv1 in auto)
  with Cons.IH Cons.prems(1) s show ?case by simp
qed

lemma preflight_run:
  assumes "real_ok (c_env ctx)" "disk_ok d" "preflight ctx vis d ops = PfDone res"
  shows "\<forall>x\<in>set (pf_ok res). bentry_ok x"
    and "\<forall>x\<in>set (pf_ok res). no_root_move x \<Longrightarrow> \<exists>m. spec_run (map vop_of (pf_ok res)) (disk_ns d) = Some m"
proof -
  have "\<exists>t. pf_inv d res t"
  proof (cases "int (length ops) > MAX_OPS")
    case True
    with assms(2,3) disk_tree_view [OF assms(2)] have "pf_inv d res vt_init"
      by (auto simp: preflight_def pf_inv_def pf_empty_def disk_ok_def)
    then show ?thesis by blast
  next
    case False
    have "pf_inv d pf_empty vt_init"
      using disk_tree_view [OF assms(2)] assms(2) by (simp add: pf_inv_def pf_empty_def disk_ok_def)
    with pf_loop_inv [OF assms(1)] assms(3) False show ?thesis by (auto simp: preflight_def)
  qed
  then show "\<forall>x\<in>set (pf_ok res). bentry_ok x"
    "\<forall>x\<in>set (pf_ok res). no_root_move x \<Longrightarrow> \<exists>m. spec_run (map vop_of (pf_ok res)) (disk_ns d) = Some m"
    by (auto simp: pf_inv_def)
qed

section \<open>Committing an accepted operation\<close>

text \<open>
  A step of the commit: a row was staged for this batch, with the next sequence number, for the disk
  that the operation leaves.
\<close>

definition staged_step :: "fs_ctx \<Rightarrow> string \<Rightarrow> fs_state \<Rightarrow> staged \<Rightarrow> fs_state \<Rightarrow> bool" where
  "staged_step ctx bid st r st' \<longleftrightarrow>
     st_staged st' = st_staged st @ [r] \<and> sg_session r = c_session ctx \<and> sg_run r = c_run ctx \<and>
     sg_seq r = next_seq (c_session ctx) (c_run ctx) st \<and> sg_status r = Pending \<and> sg_batch r = Some bid \<and>
     (snaps_fresh (c_store ctx) (c_session ctx) (c_run ctx) st \<longrightarrow>
        grows (st_snaps st) (st_snaps st') \<and> snaps_fresh (c_store ctx) (c_session ctx) (c_run ctx) st')"

text \<open>When the row of an entry leads back: no parents are made on the way, and a file is snapshotted now.\<close>

definition can_undo :: "fs_ctx \<Rightarrow> bop \<times> string list \<Rightarrow> fs_state \<Rightarrow> bool" where
  "can_undo ctx x st = (case vop_of x of
     OMkdir parents p \<Rightarrow> map_of (st_disk st) (butlast p) \<noteq> None
   | ORename _ _ \<Rightarrow> True
   | ODelete _ _ \<Rightarrow> os_isdir (st_disk st) (snd x ! 0) \<or> earlier_snapshot (c_run ctx) (snd x ! 0) st = None)"

definition good_step :: "fs_ctx \<Rightarrow> string \<Rightarrow> bop \<times> string list \<Rightarrow> fs_state \<Rightarrow> entry_result \<times> fs_state \<Rightarrow> bool" where
  "good_step ctx bid x st res \<longleftrightarrow>
     (\<exists>it r. fst res = Staged it \<and> staged_step ctx bid st r (snd res) \<and>
        sg_path r = snd x ! 0 \<and> (sg_snap r \<noteq> None \<longrightarrow> b_op (fst x) = ''delete'') \<and>
        map_of (st_disk (snd res)) = vop_eff DDir (vop_of x) (map_of (st_disk st)) \<and>
        (can_undo ctx x st \<and> snaps_fresh (c_store ctx) (c_session ctx) (c_run ctx) st \<longrightarrow>
           undoes (st_snaps (snd res)) r (st_disk st) (st_disk (snd res)) \<and> \<not> snap_missing (st_snaps (snd res)) r)) \<or>
     fst res = Failed (CommitSnap SnapshotTooLarge) \<and> snd res = st"

lemma staged_stepI:
  assumes "stage (c_session ctx) (c_run ctx) (next_seq (c_session ctx) (c_run ctx) st) op path dst snap kind (Some bid) st1 = (i, st')"
    "st_staged st1 = st_staged st"
    "st_snaps st1 = st_snaps st \<or> (\<exists>p e v. st_snaps st1 = dput (snap_key (c_store ctx) (c_session ctx) (c_run ctx)
       (next_seq (c_session ctx) (c_run ctx) st) p e) v (st_snaps st))"
  shows "staged_step ctx bid st \<lparr>sg_id = i, sg_session = c_session ctx, sg_run = c_run ctx,
      sg_seq = next_seq (c_session ctx) (c_run ctx) st, sg_op = op, sg_path = path,
      sg_dst = dst, sg_snap = snap, sg_kind = kind, sg_status = Pending, sg_batch = Some bid\<rparr> st'"
    (is "staged_step ctx bid st ?r st'")
proof -
  let ?n = "next_seq (c_session ctx) (c_run ctx)"
  note sel = stage_sel [OF assms(1)]
  have rows: "st_staged st' = st_staged st @ [?r]" using sel assms(2) by simp
  have n: "?n st' = Suc (?n st)" using next_seq_append [OF rows] by simp
  have "grows (st_snaps st) (st_snaps st') \<and> snaps_fresh (c_store ctx) (c_session ctx) (c_run ctx) st'"
    if fresh: "snaps_fresh (c_store ctx) (c_session ctx) (c_run ctx) st"
    using assms(3)
  proof
    assume "st_snaps st1 = st_snaps st"
    with sel(2) n fresh show ?thesis by (simp add: snaps_fresh_def)
  next
    assume "\<exists>p e v. st_snaps st1 = dput (snap_key (c_store ctx) (c_session ctx) (c_run ctx) (?n st) p e) v (st_snaps st)"
    then obtain p e v where k: "st_snaps st' = dput (snap_key (c_store ctx) (c_session ctx) (c_run ctx) (?n st) p e) v (st_snaps st)"
      using sel(2) by auto
    have "grows (st_snaps st) (st_snaps st')" unfolding k using fresh by (intro grows_dput) (simp add: snaps_fresh_def)
    moreover have "snaps_fresh (c_store ctx) (c_session ctx) (c_run ctx) st'"
      unfolding snaps_fresh_def n k using fresh by (auto simp: snaps_fresh_def dest: snap_key_seq)
    ultimately show ?thesis by simp
  qed
  with rows show ?thesis by (simp add: staged_step_def)
qed

lemma commit_mkdir_good:
  assumes "bentry_ok x" "vop_of x = OMkdir parents p" "vop_error (vop_of x) (disk_ns (st_disk st)) = None" "disk_ok (st_disk st)"
  shows "good_step ctx bid x st (commit_mkdir ctx bid parents (snd x ! 0) st)"
proof -
  obtain op aps where x: "x = (op, aps)" by fastforce
  let ?d = "st_disk st"
  from assms(2) x have p: "p = path_comps (aps ! 0)" by (auto split: if_splits)
  have pl: "plain_path (aps ! 0)" using entry_nth(1) assms(1) x by simp
  have err: "mkdir_error parents p (disk_ns ?d) = None" using assms(2,3) by simp
  have inv: "ns_inv (disk_ns ?d)" using assms(4) by (simp add: disk_ok_def)
  have ex: "\<not> os_exists ?d (aps ! 0)" using err p by (auto simp: mkdir_error_None os_exists_def os_at_def disk_ns_simps)
  obtain d' where d': "(if parents then os_makedirs False ?d (aps ! 0) else os_mkdir ?d (aps ! 0)) = Inr d'"
    "map_of d' = eff_mkdir DDir p (map_of ?d)"
    using mkdir_at_ok [OF inv, of p] makedirs_ok [OF inv, of p False] err p
    by (cases parents) (auto simp: os_makedirs_def os_mkdir_def)
  obtain i st' where sg: "stage (c_session ctx) (c_run ctx) (next_seq (c_session ctx) (c_run ctx) st) OpMkdir (aps ! 0)
      None None None (Some bid) (st\<lparr>st_disk := d'\<rparr>) = (i, st')" by fastforce
  note step = staged_stepI [OF sg]
  have "commit_mkdir ctx bid parents (aps ! 0) st = (Staged \<lparr>it_id = i, it_seq = next_seq (c_session ctx) (c_run ctx) st,
      it_op = OpMkdir, it_path = aps ! 0, it_dst = None\<rparr>, st')"
    using ex d' sg by (simp add: commit_mkdir_def Let_def)
  moreover have "map_of (st_disk st') = eff_mkdir DDir p (map_of ?d)" using d' stage_sel(1) [OF sg] by simp
  ultimately show ?thesis
    using step undo_mkdir [OF assms(4), of parents "aps ! 0" "st_disk st'"] err p x assms(2)
    unfolding good_step_def can_undo_def
    by (auto simp: snap_missing_def needs_snap_def intro!: exI)
qed

lemma commit_rename_good:
  assumes "bentry_ok x" "vop_of x = ORename s t" "vop_error (vop_of x) (disk_ns (st_disk st)) = None" "disk_ok (st_disk st)"
  shows "good_step ctx bid x st (commit_rename ctx bid (snd x ! 0) (snd x ! 1) st)"
proof -
  obtain op aps where x: "x = (op, aps)" by fastforce
  let ?d = "st_disk st"
  from assms(2) x have p: "s = path_comps (aps ! 0)" "t = path_comps (aps ! 1)" by (auto split: if_splits)
  have err: "rename_error s t (disk_ns ?d) = None" using assms(2,3) by simp
  have inv: "ns_inv (disk_ns ?d)" using assms(4) by (simp add: disk_ok_def)
  have ex: "os_exists ?d (aps ! 0)" "\<not> os_exists ?d (aps ! 1)"
    using err p by (auto simp: rename_error_def os_exists_def os_at_def disk_ns_simps split: if_splits)
  have mv: "os_rename ?d (aps ! 0) (aps ! 1) = Inr (move s t ?d)"
    using rename_at_ok [OF err inv] p by (simp add: os_rename_def)
  obtain i st' where sg: "stage (c_session ctx) (c_run ctx) (next_seq (c_session ctx) (c_run ctx) st) OpRename (aps ! 0)
      (Some (aps ! 1)) None None (Some bid) (st\<lparr>st_disk := move s t ?d\<rparr>) = (i, st')" by fastforce
  note step = staged_stepI [OF sg]
  have "commit_rename ctx bid (aps ! 0) (aps ! 1) st = (Staged \<lparr>it_id = i, it_seq = next_seq (c_session ctx) (c_run ctx) st,
      it_op = OpRename, it_path = aps ! 0, it_dst = Some (aps ! 1)\<rparr>, st')"
    using ex mv sg by (simp add: commit_rename_def Let_def)
  moreover have "map_of (st_disk st') = eff_rename s t (map_of ?d)" using map_of_move stage_sel(1) [OF sg] by simp
  ultimately show ?thesis
    using step undo_rename [OF assms(4), of "aps ! 0" "aps ! 1" "st_disk st'"] err p x assms(2)
    unfolding good_step_def can_undo_def
    by (auto simp: snap_missing_def needs_snap_def intro!: exI)
qed

lemma take_file_key:
  "take_file ss sid rid seq path st = Inr (sp, st1) \<Longrightarrow>
   \<exists>c. os_at (st_disk st) path = Some (DFile c) \<and> sp = snap_key ss sid rid seq path ''.bin'' \<and>
     st1 = st\<lparr>st_snaps := dput sp (SnapFile c) (st_snaps st)\<rparr>"
  by (auto simp: take_file_def snap_key_def Let_def split: option.splits dentry.splits if_splits)

lemma commit_delete_file_good:
  assumes "bentry_ok x" "vop_of x = ODelete rec p" "vop_error (vop_of x) (disk_ns (st_disk st)) = None" "disk_ok (st_disk st)"
    "os_isfile (st_disk st) (snd x ! 0)"
  shows "good_step ctx bid x st (commit_delete_file ctx bid (snd x ! 0) st)"
proof -
  obtain op aps where x: "x = (op, aps)" by fastforce
  let ?d = "st_disk st" and ?n = "next_seq (c_session ctx) (c_run ctx) st"
  from assms(1,2) x have p: "p = path_comps (aps ! 0)" and del: "b_op op = ''delete''"
    by (auto simp: bentry_ok_def split: if_splits)
  have pl: "plain_path (aps ! 0)" using entry_nth(1) assms(1) x by simp
  have err: "delete_error rec p (disk_ns ?d) = None" using assms(2,3) by simp
  obtain c where c: "map_of ?d p = Some (DFile c)"
    using assms(5) x p by (auto simp: os_isfile_def os_at_def split: option.splits dentry.splits)
  show ?thesis
  proof (cases "maybe_take_file_snapshot (c_store ctx) (c_session ctx) (c_run ctx) ?n (aps ! 0) st")
    case (Inl e)
    then have "e = SnapshotTooLarge"
      using c p by (auto simp: maybe_take_file_snapshot_def take_file_def os_at_def Let_def split: option.splits if_splits)
    with Inl x show ?thesis by (simp add: good_step_def commit_delete_file_def Let_def)
  next
    case (Inr y)
    then obtain sp st1 where m: "maybe_take_file_snapshot (c_store ctx) (c_session ctx) (c_run ctx) ?n (aps ! 0) st = Inr (sp, st1)"
      by (cases y) auto
    have st1: "st_disk st1 = ?d" "st_staged st1 = st_staged st" "st_snaps st1 = st_snaps st \<or>
        (\<exists>q e v. st_snaps st1 = dput (snap_key (c_store ctx) (c_session ctx) (c_run ctx) ?n q e) v (st_snaps st))"
    proof -
      consider "st1 = st" | c' where "st1 = st\<lparr>st_snaps := dput (snap_key (c_store ctx) (c_session ctx) (c_run ctx) ?n
          (aps ! 0) ''.bin'') (SnapFile c') (st_snaps st)\<rparr>"
        using m by (auto simp: maybe_take_file_snapshot_def split: option.splits dest!: take_file_key)
      then show "st_disk st1 = ?d" "st_staged st1 = st_staged st" "st_snaps st1 = st_snaps st \<or>
        (\<exists>q e v. st_snaps st1 = dput (snap_key (c_store ctx) (c_session ctx) (c_run ctx) ?n q e) v (st_snaps st))"
        by (cases; simp; blast)+
    qed
    have rm: "os_remove (st_disk st1) (aps ! 0) = Inr (prune p ?d)"
      using delete_call(1) [OF err, of "aps ! 0"] assms(5) x p st1(1) by simp
    obtain i st' where sg: "stage (c_session ctx) (c_run ctx) ?n OpDeleteFile (aps ! 0)
        None (Some sp) (Some KindFile) (Some bid) (st1\<lparr>st_disk := prune p ?d\<rparr>) = (i, st')" by fastforce
    note step = staged_stepI [OF sg]
    have res: "commit_delete_file ctx bid (aps ! 0) st = (Staged \<lparr>it_id = i, it_seq = ?n,
        it_op = OpDeleteFile, it_path = aps ! 0, it_dst = None\<rparr>, st')"
      using m rm sg by (simp add: commit_delete_file_def Let_def)
    have eff: "map_of (st_disk st') = eff_delete p (map_of ?d)" using stage_sel(1) [OF sg] by simp
    have "map_of (st_snaps st') sp = Some (SnapFile c) \<and> sp \<noteq> []" if "earlier_snapshot (c_run ctx) (aps ! 0) st = None"
      using that m c p stage_sel(2) [OF sg] snap_key_ne
      by (auto simp: maybe_take_file_snapshot_def os_at_def dest!: take_file_key)
    with res eff step st1(2,3) undo_delete_file [OF assms(4) pl, of c "st_disk st'"] c p x del assms(2,5) show ?thesis
      unfolding good_step_def can_undo_def
      by (auto simp: snap_missing_def needs_snap_def os_isdir_def os_isfile_def intro!: exI)
  qed
qed

lemma take_tar_key:
  "take_tar ss sid rid seq path st = Inr (sp, st1) \<Longrightarrow>
   sp = snap_key ss sid rid seq path ''.tar.gz'' \<and>
     st1 = st\<lparr>st_snaps := dput sp (SnapTar (archive (subtree (st_disk st) (path_comps path)))) (st_snaps st)\<rparr>"
  by (auto simp: take_tar_def snap_key_def Let_def split: if_splits)

lemma commit_delete_dir_good:
  assumes "bentry_ok x" "vop_of x = ODelete rec p" "vop_error (vop_of x) (disk_ns (st_disk st)) = None" "disk_ok (st_disk st)"
    "\<not> os_isfile (st_disk st) (snd x ! 0)"
  shows "good_step ctx bid x st (commit_delete_dir ctx bid (snd x ! 0) st)"
proof -
  obtain op aps where x: "x = (op, aps)" by fastforce
  let ?d = "st_disk st" and ?n = "next_seq (c_session ctx) (c_run ctx) st"
  from assms(1,2) x have p: "p = path_comps (aps ! 0)" and del: "b_op op = ''delete''"
    by (auto simp: bentry_ok_def split: if_splits)
  have pl: "plain_path (aps ! 0)" using entry_nth(1) assms(1) x by simp
  have err: "delete_error rec p (disk_ns ?d) = None" using assms(2,3) by simp
  then have ne: "p \<noteq> []" by (auto simp: delete_error_def)
  have dir: "map_of ?d p = Some DDir" and rm: "os_rmtree ?d (aps ! 0) = Inr (prune p ?d)"
    using delete_call(2) [OF err, of "aps ! 0"] assms(5) x p by simp_all
  show ?thesis
  proof (cases "entries ?d p = []")
    case True
    obtain i st' where sg: "stage (c_session ctx) (c_run ctx) ?n OpDeleteDir (aps ! 0)
        None None None (Some bid) (st\<lparr>st_disk := prune p ?d\<rparr>) = (i, st')" by fastforce
    note step = staged_stepI [OF sg]
    have res: "commit_delete_dir ctx bid (aps ! 0) st = (Staged \<lparr>it_id = i, it_seq = ?n,
        it_op = OpDeleteDir, it_path = aps ! 0, it_dst = None\<rparr>, st')"
      using True rm sg p by (simp add: commit_delete_dir_def Let_def)
    have eff: "map_of (st_disk st') = eff_delete p (map_of ?d)" using stage_sel(1) [OF sg] by simp
    from res eff step undo_delete_empty_dir [OF assms(4), of "aps ! 0" "st_disk st'"] dir ne True p x del assms(2) show ?thesis
      unfolding good_step_def can_undo_def
      by (auto simp: snap_missing_def needs_snap_def entries_Nil_iff intro!: exI)
  next
    case False
    show ?thesis
    proof (cases "take_tar (c_store ctx) (c_session ctx) (c_run ctx) ?n (aps ! 0) st")
      case (Inl e)
      then have "e = SnapshotTooLarge" by (auto simp: take_tar_def Let_def split: if_splits)
      with Inl False x p show ?thesis by (simp add: good_step_def commit_delete_dir_def Let_def)
    next
      case (Inr y)
      then obtain sp st1 where m: "take_tar (c_store ctx) (c_session ctx) (c_run ctx) ?n (aps ! 0) st = Inr (sp, st1)"
        by (cases y) auto
      note key = take_tar_key [OF m]
      obtain i st' where sg: "stage (c_session ctx) (c_run ctx) ?n OpDeleteDir (aps ! 0)
          None (Some sp) (Some KindTar) (Some bid) (st1\<lparr>st_disk := prune p ?d\<rparr>) = (i, st')" by fastforce
      have res: "commit_delete_dir ctx bid (aps ! 0) st = (Staged \<lparr>it_id = i, it_seq = ?n,
          it_op = OpDeleteDir, it_path = aps ! 0, it_dst = None\<rparr>, st')"
        using False rm sg p m key by (simp add: commit_delete_dir_def Let_def)
      have step: "staged_step ctx bid st \<lparr>sg_id = i, sg_session = c_session ctx, sg_run = c_run ctx,
          sg_seq = ?n, sg_op = OpDeleteDir, sg_path = aps ! 0, sg_dst = None, sg_snap = Some sp,
          sg_kind = Some KindTar, sg_status = Pending, sg_batch = Some bid\<rparr> st'"
        using key by (intro staged_stepI [OF sg]) auto
      have eff: "map_of (st_disk st') = eff_delete p (map_of ?d)" using stage_sel(1) [OF sg] by simp
      have "map_of (st_snaps st') sp = Some (SnapTar (archive (subtree ?d p))) \<and> sp \<noteq> []"
        using key stage_sel(2) [OF sg] snap_key_ne p by simp
      with res eff step undo_delete_tree [OF assms(4) pl, of "st_disk st'"] dir ne p x del assms(2) show ?thesis
        unfolding good_step_def can_undo_def
        by (auto simp: snap_missing_def needs_snap_def intro!: exI)
    qed
  qed
qed

lemma commit_entry_good:
  assumes "bentry_ok x" "vop_error (vop_of x) (disk_ns (st_disk st)) = None" "disk_ok (st_disk st)"
  shows "good_step ctx bid x st (commit_entry ctx bid x st)"
proof -
  obtain op aps where x: "x = (op, aps)" by fastforce
  consider (mk) "b_op op = ''mkdir''" | (mv) "b_op op = ''rename''" | (rm) "b_op op = ''delete''"
    using assms(1) x by (auto simp: bentry_ok_def)
  then show ?thesis
  proof cases
    case mk
    with commit_mkdir_good [OF assms(1) _ assms(2,3)] x show ?thesis by (simp add: commit_entry_def)
  next
    case mv
    with commit_rename_good [OF assms(1) _ assms(2,3)] x show ?thesis by (simp add: commit_entry_def)
  next
    case rm
    have "os_exists (st_disk st) (aps ! 0)"
      using assms(2) rm x by (auto simp: delete_error_def os_exists_def os_at_def disk_ns_simps split: if_splits)
    with rm commit_delete_file_good [OF assms(1) _ assms(2,3)] commit_delete_dir_good [OF assms(1) _ assms(2,3)] x
    show ?thesis by (cases "os_isfile (st_disk st) (aps ! 0)") (simp_all add: commit_entry_def)
  qed
qed

section \<open>Committing an accepted batch\<close>

lemma vop_disk_ok:
  assumes "disk_ok d" "vop_good x" "vop_error x (disk_ns d) = None" "map_of d' = vop_eff DDir x (map_of d)"
  shows "disk_ok d'" "disk_ns d' = vop_eff True x (disk_ns d)"
proof -
  show "disk_ok d'"
  proof (cases x)
    case (OMkdir parents p)
    with assms disk_ok_mkdir [of d parents p d'] show ?thesis by (simp add: comps_good_def)
  next
    case (ORename s t)
    with assms disk_ok_rename [of d s t d'] show ?thesis by (simp add: comps_good_def)
  next
    case (ODelete r p)
    with assms disk_ok_delete [of d r p d'] show ?thesis by simp
  qed
  show "disk_ns d' = vop_eff True x (disk_ns d)" using assms(4) by (cases x) (simp_all add: ns_eff)
qed

definition batch_eff :: "(bop \<times> string list) list \<Rightarrow> (string list \<Rightarrow> dentry option) \<Rightarrow> string list \<Rightarrow> dentry option" where
  "batch_eff xs m = fold (\<lambda>x. vop_eff DDir (vop_of x)) xs m"

definition runnable :: "(bop \<times> string list) list \<Rightarrow> disk \<Rightarrow> bool" where
  "runnable xs d \<longleftrightarrow> disk_ok d \<and> (\<forall>x\<in>set xs. bentry_ok x \<and> no_root_move x) \<and>
     (\<exists>m. spec_run (map vop_of xs) (disk_ns d) = Some m)"

lemma runnable_Cons:
  assumes "runnable (x # xs) d"
  shows "bentry_ok x" "vop_error (vop_of x) (disk_ns d) = None" "disk_ok d"
    "map_of d' = vop_eff DDir (vop_of x) (map_of d) \<Longrightarrow> runnable xs d'"
proof -
  show e: "bentry_ok x" "vop_error (vop_of x) (disk_ns d) = None" "disk_ok d"
    using assms by (auto simp: runnable_def split: if_splits)
  assume m: "map_of d' = vop_eff DDir (vop_of x) (map_of d)"
  have "vop_good (vop_of x)" using assms entry_good by (auto simp: runnable_def)
  from vop_disk_ok [OF e(3) this e(2) m] assms show "runnable xs d'"
    by (auto simp: runnable_def split: if_splits)
qed

lemma commit_loop_ok:
  "runnable xs (st_disk st) \<Longrightarrow> commit_loop ctx bid xs items st = (err, items', st') \<Longrightarrow>
   \<exists>k\<le>length xs. length items' = length items + k \<and>
     map_of (st_disk st') = batch_eff (take k xs) (map_of (st_disk st)) \<and>
     (err = None \<and> k = length xs \<or> err = Some (CommitSnap SnapshotTooLarge))"
proof (induction xs arbitrary: items st)
  case Nil
  then show ?case by (simp add: batch_eff_def)
next
  case (Cons x xs)
  note rc = runnable_Cons [OF Cons.prems(1)]
  obtain r st1 where ce: "commit_entry ctx bid x st = (r, st1)" by fastforce
  from commit_entry_good [OF rc(1-3), of ctx bid] ce
  consider (ok) it where "r = Staged it" "map_of (st_disk st1) = vop_eff DDir (vop_of x) (map_of (st_disk st))"
    | (large) "r = Failed (CommitSnap SnapshotTooLarge)" "st1 = st"
    by (auto simp: good_step_def)
  then show ?case
  proof cases
    case ok
    from Cons.IH [OF rc(4) [OF ok(2)], of "items @ [it]"] Cons.prems(2) ce ok obtain k where
      "k \<le> length xs" "length items' = length (items @ [it]) + k"
      "map_of (st_disk st') = batch_eff (take k xs) (map_of (st_disk st1))"
      "err = None \<and> k = length xs \<or> err = Some (CommitSnap SnapshotTooLarge)" by auto
    with ok show ?thesis by (intro exI [of _ "Suc k"]) (auto simp: batch_eff_def)
  next
    case large
    with Cons.prems(2) ce show ?thesis by (intro exI [of _ 0]) (auto simp: batch_eff_def)
  qed
qed

definition del_targets :: "(bop \<times> string list) list \<Rightarrow> string list" where
  "del_targets xs = map (\<lambda>(op, aps). aps ! 0) (filter (\<lambda>(op, aps). b_op op = ''delete'') xs)"

lemma del_targets_Cons:
  "del_targets (x # xs) = (if b_op (fst x) = ''delete'' then [snd x ! 0] else []) @ del_targets xs"
  by (cases x) (simp add: del_targets_def)

text \<open>
  What reverting relies on: no directory is made together with missing parents, and nothing is deleted that was
  snapshotted before in this run.
\<close>

definition undo_ready :: "fs_ctx \<Rightarrow> (bop \<times> string list) list \<Rightarrow> fs_state \<Rightarrow> bool" where
  "undo_ready ctx xs st \<longleftrightarrow>
     (\<forall>(op, aps)\<in>set xs. b_op op = ''mkdir'' \<longrightarrow> \<not> b_parents op) \<and> distinct (del_targets xs) \<and>
     (\<forall>r\<in>set (st_staged st). sg_run r = c_run ctx \<and> sg_snap r \<noteq> None \<longrightarrow> sg_path r \<notin> set (del_targets xs)) \<and>
     snaps_fresh (c_store ctx) (c_session ctx) (c_run ctx) st"

lemma undo_ready_can_undo:
  assumes "undo_ready ctx (x # xs) st" "vop_error (vop_of x) (disk_ns (st_disk st)) = None" "bentry_ok x"
  shows "can_undo ctx x st"
proof -
  obtain op aps where x: "x = (op, aps)" by fastforce
  have "earlier_snapshot (c_run ctx) (aps ! 0) st = None" if "b_op op = ''delete''"
  proof -
    have "filter (\<lambda>r. sg_run r = c_run ctx \<and> sg_path r = aps ! 0 \<and> sg_snap r \<noteq> None) (st_staged st) = []"
      using assms(1) that x by (auto simp: undo_ready_def del_targets_Cons filter_empty_conv)
    then show ?thesis by (simp add: earlier_snapshot_def)
  qed
  moreover have "map_of (st_disk st) (butlast (path_comps (aps ! 0))) \<noteq> None" if "b_op op = ''mkdir''"
    using assms(1,2) that x by (auto simp: undo_ready_def mkdir_error_None disk_ns_simps)
  ultimately show ?thesis using assms(3) x by (auto simp: can_undo_def bentry_ok_def)
qed

lemma undo_ready_step:
  assumes "undo_ready ctx (x # xs) st" "staged_step ctx bid st r st1" "sg_path r = snd x ! 0"
    "sg_snap r \<noteq> None \<longrightarrow> b_op (fst x) = ''delete''"
  shows "undo_ready ctx xs st1"
proof -
  have rows: "st_staged st1 = st_staged st @ [r]" and fr: "snaps_fresh (c_store ctx) (c_session ctx) (c_run ctx) st1"
    using assms(1,2) by (simp_all add: staged_step_def undo_ready_def)
  have mk: "\<forall>(op, aps)\<in>set xs. b_op op = ''mkdir'' \<longrightarrow> \<not> b_parents op" and d: "distinct (del_targets xs)"
    and old: "\<And>q. q \<in> set (st_staged st) \<Longrightarrow> sg_run q = c_run ctx \<Longrightarrow> sg_snap q \<noteq> None \<Longrightarrow> sg_path q \<notin> set (del_targets xs)"
    using assms(1) by (auto simp: undo_ready_def del_targets_Cons)
  have new: "sg_path r \<notin> set (del_targets xs)" if "sg_snap r \<noteq> None"
    using assms(1,3,4) that by (auto simp: undo_ready_def del_targets_Cons)
  show ?thesis unfolding undo_ready_def rows using mk d old new fr by (simp add: ball_Un)
qed

lemma commit_loop_undo:
  "runnable xs (st_disk st) \<Longrightarrow> undo_ready ctx xs st \<Longrightarrow> commit_loop ctx bid xs items st = (err, items', st') \<Longrightarrow>
   \<exists>rs. st_staged st' = st_staged st @ rs \<and> grows (st_snaps st) (st_snaps st') \<and>
     (\<forall>r\<in>set rs. sg_session r = c_session ctx \<and> sg_batch r = Some bid \<and> sg_status r = Pending \<and>
        next_seq (c_session ctx) (c_run ctx) st \<le> sg_seq r) \<and>
     sorted (map sg_seq rs) \<and> length rs + length items = length items' \<and>
     undoable (st_snaps st') (rev rs) (st_disk st') (st_disk st)"
proof (induction xs arbitrary: items st)
  case Nil
  then show ?case by (auto intro: undoable.undone)
next
  case (Cons x xs)
  note rc = runnable_Cons [OF Cons.prems(1)]
  obtain res st1 where ce: "commit_entry ctx bid x st = (res, st1)" by fastforce
  note cu = undo_ready_can_undo [OF Cons.prems(2) rc(2,1)]
  have fr: "snaps_fresh (c_store ctx) (c_session ctx) (c_run ctx) st" using Cons.prems(2) by (simp add: undo_ready_def)
  from commit_entry_good [OF rc(1-3), of ctx bid] ce cu fr
  consider (ok) it r where "res = Staged it" "staged_step ctx bid st r st1" "sg_path r = snd x ! 0"
      "sg_snap r \<noteq> None \<longrightarrow> b_op (fst x) = ''delete''"
      "map_of (st_disk st1) = vop_eff DDir (vop_of x) (map_of (st_disk st))"
      "undoes (st_snaps st1) r (st_disk st) (st_disk st1)" "\<not> snap_missing (st_snaps st1) r"
    | (large) "res = Failed (CommitSnap SnapshotTooLarge)" "st1 = st"
    by (auto simp: good_step_def)
  then show ?case
  proof cases
    case ok
    note ready = undo_ready_step [OF Cons.prems(2) ok(2-4)]
    have run: "commit_loop ctx bid xs (items @ [it]) st1 = (err, items', st')" using Cons.prems(3) ce ok(1) by simp
    from Cons.IH [OF rc(4) [OF ok(5)] ready run] obtain rs where rs: "st_staged st' = st_staged st1 @ rs"
      "grows (st_snaps st1) (st_snaps st')"
      "\<forall>r\<in>set rs. sg_session r = c_session ctx \<and> sg_batch r = Some bid \<and> sg_status r = Pending \<and>
        next_seq (c_session ctx) (c_run ctx) st1 \<le> sg_seq r" "sorted (map sg_seq rs)"
      "length rs + length (items @ [it]) = length items'"
      "undoable (st_snaps st') (rev rs) (st_disk st') (st_disk st1)" by blast
    have r: "st_staged st1 = st_staged st @ [r]" "sg_session r = c_session ctx" "sg_run r = c_run ctx"
      "sg_seq r = next_seq (c_session ctx) (c_run ctx) st" "sg_status r = Pending" "sg_batch r = Some bid"
      "grows (st_snaps st) (st_snaps st1)"
      using ok(2) fr by (simp_all add: staged_step_def)
    have n: "next_seq (c_session ctx) (c_run ctx) st1 = Suc (next_seq (c_session ctx) (c_run ctx) st)"
      using next_seq_append [OF r(1-4)] .
    have "undoable (st_snaps st1) [r] (st_disk st1) (st_disk st)"
      using ok(6,7) by (auto intro: undoable.intros)
    with undoable_grows rs(2) have "undoable (st_snaps st') [r] (st_disk st1) (st_disk st)" by blast
    with undoable_append [OF rs(6)] have und: "undoable (st_snaps st') (rev (r # rs)) (st_disk st') (st_disk st)" by simp
    show ?thesis
      using rs r n und grows_trans [OF r(7) rs(2)]
      by (intro exI [of _ "r # rs"]) (auto dest: Suc_leD)
  next
    case large
    with Cons.prems(3) ce show ?thesis by (intro exI [of _ "[]"]) (auto intro: undoable.undone)
  qed
qed

section \<open>What a batch touches\<close>

lemma gate_paths_grants:
  "gate_paths cls raws res = (res', aps, f) \<Longrightarrow>
   prefix (pf_need_grant res) (pf_need_grant res') \<and> prefix (pf_blocked res) (pf_blocked res') \<and>
   pf_errors res' = pf_errors res \<and> (f \<longrightarrow> pf_blocked res' \<noteq> []) \<and>
   (\<forall>ap\<in>set aps. (\<exists>raw\<in>set raws. cls raw = (CatOk, ap)) \<or> ap \<in> set (pf_need_grant res'))"
proof (induction raws arbitrary: res res' aps f)
  case (Cons raw raws)
  obtain cat ap where c: "cls raw = (cat, ap)" by fastforce
  define res1 where "res1 = (case cat of CatBlocked \<Rightarrow> res\<lparr>pf_blocked := pf_blocked res @ [ap]\<rparr>
    | CatNeedGrant \<Rightarrow> if ap \<in> set (pf_need_grant res) then res else res\<lparr>pf_need_grant := pf_need_grant res @ [ap]\<rparr>
    | CatOk \<Rightarrow> res)"
  obtain r2 a2 f2 where rec: "gate_paths cls raws res1 = (r2, a2, f2)" by (cases "gate_paths cls raws res1") blast
  have eq: "gate_paths cls (raw # raws) res =
      (if cat = CatBlocked then (r2, a2, True) else (r2, ap # a2, f2))"
    using c rec by (cases cat) (simp_all add: res1_def)
  have r1: "prefix (pf_need_grant res) (pf_need_grant res1)" "prefix (pf_blocked res) (pf_blocked res1)"
    "pf_errors res1 = pf_errors res" "cat = CatBlocked \<Longrightarrow> pf_blocked res1 \<noteq> []"
    "cat = CatNeedGrant \<Longrightarrow> ap \<in> set (pf_need_grant res1)"
    by (simp_all add: res1_def split: category.split)
  note IH = Cons.IH [OF rec]
  have sub: "set (pf_need_grant res1) \<subseteq> set (pf_need_grant r2)" using IH set_mono_prefix by blast
  have pre: "prefix (pf_need_grant res) (pf_need_grant r2)" "prefix (pf_blocked res) (pf_blocked r2)"
    using IH r1(1,2) by (auto intro: prefix_order.trans)
  have bl: "cat = CatBlocked \<Longrightarrow> pf_blocked r2 \<noteq> []" using r1(4) IH by auto
  show ?case
  proof (cases cat)
    case CatBlocked
    with eq Cons.prems IH r1(3) pre bl show ?thesis by auto
  next
    case CatNeedGrant
    with eq Cons.prems IH r1(3,5) pre sub show ?thesis by auto
  next
    case CatOk
    with eq Cons.prems IH r1(3) pre c show ?thesis by auto
  qed
qed simp

text \<open>Errors, blocked paths and grants are only ever added; without any, every operation was accepted.\<close>

definition pf_clean :: "preflight_result \<Rightarrow> bool" where
  "pf_clean res \<longleftrightarrow> pf_need_grant res = [] \<and> \<not> has_problems res"

definition ok_entry :: "(string \<Rightarrow> category \<times> string) \<Rightarrow> bop \<times> string list \<Rightarrow> bool" where
  "ok_entry cls x \<longleftrightarrow> (\<forall>ap\<in>set (snd x). \<exists>raw\<in>set (raw_paths (fst x)). cls raw = (CatOk, ap))"

lemma pf_step_clean:
  assumes "real_ok (c_env ctx)" "pf_step ctx vis d i op res t = Some (res2, t2)" "\<not> has_problems res2"
  shows "\<not> has_problems res" "map fst (pf_ok res2) = map fst (pf_ok res) @ [op]"
    "prefix (pf_need_grant res) (pf_need_grant res2)"
    "pf_need_grant res2 = [] \<Longrightarrow>
       \<exists>x. pf_ok res2 = pf_ok res @ [x] \<and> ok_entry (classify_path (env_of ctx d) (c_patterns ctx) (c_session ctx) vis) x"
proof -
  let ?cls = "classify_path (env_of ctx d) (c_patterns ctx) (c_session ctx) vis"
  have renv: "real_ok (env_of ctx d)" using assms(1) by (simp add: real_ok_def env_of_def)
  obtain res1 aps f where g: "gate_paths ?cls (raw_paths op) res = (res1, aps, f)"
    by (cases "gate_paths ?cls (raw_paths op) res") blast
  note gs = gate_paths_spec [OF classify_plain [OF renv] g] and gg = gate_paths_grants [OF g]
  from assms(1,2) g have acc: "res2 = res1\<lparr>pf_ok := pf_ok res1 @ [(op, aps)]\<rparr>"
    using assms(3) gg by (cases rule: pf_step_cases) (auto simp: has_problems_def add_error_def)
  with gs gg assms(3) show "\<not> has_problems res" "map fst (pf_ok res2) = map fst (pf_ok res) @ [op]"
    "prefix (pf_need_grant res) (pf_need_grant res2)"
    by (auto simp: has_problems_def)
  assume "pf_need_grant res2 = []"
  with acc gs gg show "\<exists>x. pf_ok res2 = pf_ok res @ [x] \<and> ok_entry ?cls x"
    by (auto simp: ok_entry_def)
qed

lemma pf_loop_clean:
  assumes "real_ok (c_env ctx)"
  shows "pf_loop ctx vis d i ops res t = PfDone res' \<Longrightarrow> \<not> has_problems res' \<Longrightarrow>
    \<not> has_problems res \<and> map fst (pf_ok res') = map fst (pf_ok res) @ ops \<and>
    prefix (pf_need_grant res) (pf_need_grant res') \<and>
    (pf_need_grant res' = [] \<longrightarrow> (\<exists>xs. pf_ok res' = pf_ok res @ xs \<and>
       (\<forall>x\<in>set xs. ok_entry (classify_path (env_of ctx d) (c_patterns ctx) (c_session ctx) vis) x)))"
proof (induction ops arbitrary: i res t)
  case Nil
  then show ?case by simp
next
  case (Cons op ops)
  obtain res2 t2 where s: "pf_step ctx vis d i op res t = Some (res2, t2)"
    using Cons.prems(1) by (auto split: option.splits)
  with Cons.prems have IH: "\<not> has_problems res2 \<and> map fst (pf_ok res') = map fst (pf_ok res2) @ ops \<and>
    prefix (pf_need_grant res2) (pf_need_grant res') \<and>
    (pf_need_grant res' = [] \<longrightarrow> (\<exists>xs. pf_ok res' = pf_ok res2 @ xs \<and>
       (\<forall>x\<in>set xs. ok_entry (classify_path (env_of ctx d) (c_patterns ctx) (c_session ctx) vis) x)))"
    by (intro Cons.IH) simp_all
  then have np: "\<not> has_problems res2" by simp
  note st = pf_step_clean [OF assms s np]
  have pre: "prefix (pf_need_grant res) (pf_need_grant res')" using IH st(3) by (auto intro: prefix_order.trans)
  have "\<exists>xs. pf_ok res' = pf_ok res @ xs \<and>
      (\<forall>x\<in>set xs. ok_entry (classify_path (env_of ctx d) (c_patterns ctx) (c_session ctx) vis) x)"
    if e: "pf_need_grant res' = []"
  proof -
    have "pf_need_grant res2 = []" using IH e by simp
    from st(4) [OF this] IH e show ?thesis by force
  qed
  with IH st(1,2) pre show ?case by simp
qed

section \<open>Properties\<close>

lemma preflight_runnable:
  assumes "real_ok (c_env ctx)" "disk_ok d" "preflight ctx vis d ops = PfDone res" "\<forall>x\<in>set (pf_ok res). no_root_move x"
  shows "runnable (pf_ok res) d"
  using preflight_run [OF assms(1-3)] assms(2,4) by (auto simp: runnable_def)

lemma commit_unfold:
  assumes "commit ctx bid xs st = (err, ev, st')"
  obtains items st1 where "commit_loop ctx bid xs [] st = (err, items, st1)" "st_disk st' = st_disk st1"
    "st_snaps st' = st_snaps st1" "st_staged st' = st_staged st1"
  using assms by (auto simp: commit_def split: prod.splits)




text \<open>
  A batch is taken as a whole or not at all. If it is refused (a blocked path, an error, a denied card, a
  change meanwhile) nothing is changed and nothing is announced. If it is committed, then the operations
  committed are those asked for, in order, and every path they touch lies in the session's scope as it is at
  that moment and in none of the layers of ignored paths.
\<close>

theorem batch_whole:
  assumes "real_ok (c_env ctx)" "run_batch ctx bid ops vis request st = (reply, ev, st')"
  shows "(\<exists>d. ev = None \<and> st' = st\<lparr>st_disk := d\<rparr> \<and> (d = st_disk st \<or> (\<exists>ps. d = fst (snd (request ps))))) \<or>
    (\<exists>res d vis'. (reply, ev, st') = finish_batch ctx bid res (st\<lparr>st_disk := d\<rparr>) \<and> map fst (pf_ok res) = ops \<and>
       (d = st_disk st \<and> vis' = vis \<or> (\<exists>ps. (d, vis') = snd (request ps))) \<and>
       (\<forall>(op, aps)\<in>set (pf_ok res). \<forall>ap\<in>set aps. ap = ''/'' \<or>
          (in_scope (env_of ctx d) (c_session ctx) vis' ap \<or> own_output (env_of ctx d) (c_session ctx) ap) \<and>
          path_gate (env_of ctx d) ap (visible_roots vis' (c_session ctx)) (c_patterns ctx) False = None))"
    (is "?refused \<or> ?done")
proof -
  have scope: "map fst (pf_ok res) = ops \<and>
      (\<forall>(op, aps)\<in>set (pf_ok res). \<forall>ap\<in>set aps. ap = ''/'' \<or>
          (in_scope (env_of ctx d) (c_session ctx) v ap \<or> own_output (env_of ctx d) (c_session ctx) ap) \<and>
          path_gate (env_of ctx d) ap (visible_roots v (c_session ctx)) (c_patterns ctx) False = None)"
    if p: "preflight ctx v d ops = PfDone res" and cl: "\<not> has_problems res" "pf_need_grant res = []" for v d res
  proof -
    let ?cls = "classify_path (env_of ctx d) (c_patterns ctx) (c_session ctx) v"
    have renv: "real_ok (env_of ctx d)" using assms(1) by (simp add: real_ok_def env_of_def)
    have "pf_loop ctx v d 0 ops pf_empty vt_init = PfDone res"
      using p cl(1) by (auto simp: preflight_def has_problems_def add_error_def split: if_splits)
    from pf_loop_clean [OF assms(1) this cl(1)] cl(2)
    have m: "map fst (pf_ok res) = ops" and ok: "\<forall>x\<in>set (pf_ok res). ok_entry ?cls x" by (auto simp: pf_empty_def)
    have "ap = ''/'' \<or> (in_scope (env_of ctx d) (c_session ctx) v ap \<or> own_output (env_of ctx d) (c_session ctx) ap) \<and>
          path_gate (env_of ctx d) ap (visible_roots v (c_session ctx)) (c_patterns ctx) False = None"
      if ap: "(op, aps) \<in> set (pf_ok res)" "ap \<in> set aps" for op aps ap
    proof -
      have "ok_entry ?cls (op, aps)" using ok ap(1) by blast
      then obtain raw where "?cls raw = (CatOk, ap)" using ap(2) by (auto simp: ok_entry_def)
      from classify_cases [OF renv this] show ?thesis by blast
    qed
    with m show ?thesis by blast
  qed
  show ?thesis
  proof (cases "preflight ctx vis (st_disk st) ops")
    case PfIndexError
    with assms(2) have ?refused by (auto simp: run_batch_def intro: exI [of _ "st_disk st"])
    then show ?thesis ..
  next
    case (PfDone res)
    obtain g d' v' where rq: "request (pf_need_grant res) = (g, d', v')" by (cases "request (pf_need_grant res)") blast
    consider (bad) "has_problems res" | (now) "\<not> has_problems res" "pf_need_grant res = []"
      | (ask) "\<not> has_problems res" "pf_need_grant res \<noteq> []" by blast
    then show ?thesis
    proof cases
      case bad
      with PfDone assms(2) have ?refused by (auto simp: run_batch_def intro: exI [of _ "st_disk st"])
      then show ?thesis ..
    next
      case now
      with PfDone assms(2) have "(reply, ev, st') = finish_batch ctx bid res (st\<lparr>st_disk := st_disk st\<rparr>)"
        by (simp add: run_batch_def)
      with scope [OF PfDone now] show ?thesis by blast
    next
      case ask
      show ?thesis
      proof (cases "\<exists>res'. g \<and> preflight ctx v' d' ops = PfDone res' \<and> pf_need_grant res' = [] \<and> \<not> has_problems res'")
        case True
        then obtain res' where r: "g" "preflight ctx v' d' ops = PfDone res'" "pf_need_grant res' = []" "\<not> has_problems res'"
          by blast
        with PfDone ask rq assms(2) have "(reply, ev, st') = finish_batch ctx bid res' (st\<lparr>st_disk := d'\<rparr>)"
          by (simp add: run_batch_def)
        moreover have "(d', v') = snd (request (pf_need_grant res))" using rq by simp
        ultimately show ?thesis using scope [OF r(2,4,3)] by blast
      next
        case False
        with PfDone ask rq assms(2) have "ev = None \<and> st' = st\<lparr>st_disk := d'\<rparr>"
          by (auto simp: run_batch_def Let_def split: if_splits pf_outcome.splits)
        moreover have "d' = fst (snd (request (pf_need_grant res)))" using rq by simp
        ultimately have ?refused by blast
        then show ?thesis ..
      qed
    qed
  qed
qed

text \<open>A small disk and three operations on it.\<close>

definition demo_ctx :: fs_ctx where
  "demo_ctx = \<lparr>c_env = \<lparr>e_realpath = (\<lambda>p. if p \<in> set [''/w'', ''/w/n'', ''/w/a'', ''/w/n/a'', ''/w/d''] then p else ''/''), e_isdir = (\<lambda>_. False), e_cwd = ''/'',
       e_match = (\<lambda>_ _. False), e_gitignore = (\<lambda>_. None), e_tool_root = ''/t''\<rparr>,
     c_islink = (\<lambda>_. False), c_session = ''s'', c_run = ''r'', c_patterns = [],
     c_store = \<lparr>ss_root = ''/x'', ss_max = 9, ss_sha = (\<lambda>_. ''k'')\<rparr>\<rparr>"

definition demo_vis :: "visible_row list" where
  "demo_vis = [\<lparr>vr_session = ''s'', vr_path = ''/w'', vr_kind = ''folder'', vr_added_at = 0\<rparr>]"

definition demo_disk :: disk where
  "demo_disk = [([], DDir), ([''w''], DDir), ([''w'', ''a''], DFile ''1''), ([''w'', ''d''], DDir), ([''w'', ''d'', ''f''], DFile ''2'')]"

definition demo_fs :: fs_state where
  "demo_fs = \<lparr>st_disk = demo_disk, st_snaps = [], st_staged = [], st_rowid = 0, st_audit = []\<rparr>"

definition demo_ops :: "bop list" where
  "demo_ops = [\<lparr>b_op = ''mkdir'', b_path = ''n'', b_dst = None, b_parents = False, b_recursive = False\<rparr>,
     \<lparr>b_op = ''rename'', b_path = ''a'', b_dst = Some ''/w/n/a'', b_parents = False, b_recursive = False\<rparr>,
     \<lparr>b_op = ''delete'', b_path = ''d'', b_dst = None, b_parents = False, b_recursive = True\<rparr>]"

lemma demo_real_ok: "real_ok (c_env demo_ctx)"
proof -
  have "\<forall>p\<in>set [''/'', ''/w'', ''/w/n'', ''/w/a'', ''/w/n/a'', ''/w/d'']. plain_path p" by code_simp
  then show ?thesis by (simp add: real_ok_def demo_ctx_def)
qed

definition demo_res :: preflight_result where
  "demo_res = \<lparr>pf_ok = [(demo_ops ! 0, [''/w/n'']), (demo_ops ! 1, [''/w/a'', ''/w/n/a'']), (demo_ops ! 2, [''/w/d''])],
     pf_need_grant = [], pf_blocked = [], pf_errors = []\<rparr>"

lemma demo_preflight: "preflight demo_ctx demo_vis demo_disk demo_ops = PfDone demo_res"
  by code_simp

lemma demo_disk_ok: "disk_ok (st_disk demo_fs)"
proof (rule disk_okI)
  show "\<forall>(p, e)\<in>set (st_disk demo_fs). (\<forall>c\<in>set p. dotless c) \<and>
      (p \<noteq> [] \<longrightarrow> map_of (st_disk demo_fs) (butlast p) = Some DDir)" by code_simp
  show "map_of (st_disk demo_fs) [] = Some DDir" by code_simp
qed

lemma demo_plan:
  "preflight demo_ctx demo_vis (st_disk demo_fs) demo_ops = PfDone demo_res" "\<forall>x\<in>set (pf_ok demo_res). no_root_move x"
  using demo_preflight by (simp add: demo_fs_def) code_simp




theorem batch_whole_witness:
  "let r = run_batch demo_ctx ''b'' demo_ops demo_vis (\<lambda>_. (False, [], [])) demo_fs
   in \<exists>d. fst (snd r) = None \<and> snd (snd r) = demo_fs\<lparr>st_disk := d\<rparr> \<or>
        (\<exists>res. r = finish_batch demo_ctx ''b'' res (demo_fs\<lparr>st_disk := d\<rparr>) \<and> map fst (pf_ok res) = demo_ops)"
proof -
  obtain e ev st' where c: "run_batch demo_ctx ''b'' demo_ops demo_vis (\<lambda>_. (False, [], [])) demo_fs = (e, ev, st')"
    by (cases "run_batch demo_ctx ''b'' demo_ops demo_vis (\<lambda>_. (False, [], [])) demo_fs") blast
  show ?thesis unfolding c Let_def fst_conv snd_conv using batch_whole [OF demo_real_ok c] by blast
qed

section \<open>Where the code falls short\<close>

text \<open>Moving the root into one of its entries is not refused; the root becomes an entry of itself.\<close>

lemma root_move_cycles: "fst (vt_rename (os_scandir demo_disk) ''/'' ''/'' ''/x'' vt_init) = VCycle"
  by code_simp

text \<open>
  A path that is deleted twice in a run keeps its first snapshot. Here a file is deleted, another one is moved to its
  place and deleted as well; reverting puts the contents of the first file into both, and reports success.
\<close>

definition twice_fs :: fs_state where
  "twice_fs = demo_fs\<lparr>st_disk := [([], DDir), ([''a''], DFile ''1''), ([''b''], DFile ''2'')]\<rparr>"

definition twice_plan :: "(bop \<times> string list) list" where
  "twice_plan = (let del = \<lparr>b_op = ''delete'', b_path = ''/a'', b_dst = None, b_parents = False, b_recursive = False\<rparr>
     in [(del, [''/a'']), (del\<lparr>b_op := ''rename''\<rparr>, [''/b'', ''/a'']), (del, [''/a''])])"

lemma revert_mixes_contents:
  "let r = revert_batch ''s'' ''k'' (snd (snd (commit demo_ctx ''k'' twice_plan twice_fs)))
   in fst r = RevOk \<and> os_at (st_disk (snd r)) ''/b'' = Some (DFile ''1'')"
  by code_simp

text \<open>A directory made with its parents is undone without them.\<close>

lemma revert_keeps_parents:
  "let mk = \<lparr>b_op = ''mkdir'', b_path = ''/p/q'', b_dst = None, b_parents = True, b_recursive = False\<rparr>;
       r = revert_batch ''s'' ''k'' (snd (snd (commit demo_ctx ''k'' [(mk, [''/p/q''])] twice_fs)))
   in fst r = RevOk \<and> os_exists (st_disk (snd r)) ''/p'' \<and> \<not> os_exists (st_disk twice_fs) ''/p''"
  by code_simp

end
