(* ===== verification/Fs_Ops.thy ===== *)
theory Fs_Ops
  imports Fs_Batch Tool_Output
begin

text \<open>
  \<open>fs/ops.py\<close>, resolving and writing: the single file tools, over the disk, the staging area and the visible resources of a session. Each
  first resolves and gates its path, asking for access where it is out of scope; the request is a parameter, a function
  of the path, its kind and the state that answers and may change the state. Further parameters are the compiler
  of regular expressions and the table of MIME types, which depends on the machine.
\<close>

section \<open>State\<close>

record staged_event =
  ev_run :: string
  ev_seq :: nat
  ev_op :: staged_op
  ev_path :: string
  ev_dst :: "string option"
  ev_size :: nat

record ops_state =
  o_fs :: fs_state
  o_vis :: "visible_row list"
  o_events :: "staged_event list"

record ops_ctx =
  x_fs :: fs_ctx
  x_out :: out_cfg
  x_interactive :: bool
  x_compile :: "codes \<Rightarrow> (codes \<Rightarrow> bool) option"
  x_mime :: "string \<Rightarrow> string option"

type_synonym request = "string \<Rightarrow> string \<Rightarrow> string \<Rightarrow> ops_state \<Rightarrow> bool \<times> ops_state"

definition READ_MAX_BYTES :: nat where "READ_MAX_BYTES = 1024 * 1024"
definition GLOB_MAX_RESULTS :: nat where "GLOB_MAX_RESULTS = 500"
definition SEARCH_MAX_RESULTS :: nat where "SEARCH_MAX_RESULTS = 100"

abbreviation o_disk :: "ops_state \<Rightarrow> disk" where
  "o_disk st \<equiv> st_disk (o_fs st)"

abbreviation x_session :: "ops_ctx \<Rightarrow> string" where
  "x_session ctx \<equiv> c_session (x_fs ctx)"

abbreviation x_run :: "ops_ctx \<Rightarrow> string" where
  "x_run ctx \<equiv> c_run (x_fs ctx)"

definition x_env :: "ops_ctx \<Rightarrow> ops_state \<Rightarrow> fs_env" where
  "x_env ctx st = env_of (x_fs ctx) (o_disk st)"

section \<open>Resolving a path\<close>

datatype op_error = EPath path_error | EUserDenied string | EBlocked blocked

definition op_gate :: "ops_ctx \<Rightarrow> ops_state \<Rightarrow> string \<Rightarrow> blocked option" where
  "op_gate ctx st ap =
     path_gate (x_env ctx st) ap (visible_roots (o_vis st) (x_session ctx)) (c_patterns (x_fs ctx)) False"

definition resolve_and_gate :: "ops_ctx \<Rightarrow> string \<Rightarrow> ops_state \<Rightarrow> op_error + string" where
  "resolve_and_gate ctx raw st = (case resolve_path (x_env ctx st) raw (x_session ctx) (o_vis st) of
     Inl e \<Rightarrow> Inl (EPath e)
   | Inr ap \<Rightarrow> (case op_gate ctx st ap of Some b \<Rightarrow> Inl (EBlocked b) | None \<Rightarrow> Inr ap))"

text \<open>The nearest ancestor that is a directory; the loop does not end where not even the root is one.\<close>

partial_function (option) nearest_dir :: "(string \<Rightarrow> bool) \<Rightarrow> string \<Rightarrow> string option" where
  "nearest_dir isdir p = (if p = [] \<or> isdir p then Some p else nearest_dir isdir (dirname p))"

text \<open>What to ask access for, and of which kind; the inner \<open>None\<close> is that loop.\<close>

definition candidate_for_request :: "ops_ctx \<Rightarrow> string \<Rightarrow> ops_state \<Rightarrow> path_error + (string \<times> string) option" where
  "candidate_for_request ctx raw st = (case anchor (x_env ctx st) raw (x_session ctx) (o_vis st) of
     Inl e \<Rightarrow> Inl e
   | Inr ap \<Rightarrow>
       (let real = e_realpath (x_env ctx st) ap
        in Inr (if os_isdir (o_disk st) real then Some (real, ''folder'')
                else if os_isfile (o_disk st) real then Some (real, ''file'')
                else map_option (\<lambda>p. (if p = [] then ''/'' else p, ''folder''))
                       (nearest_dir (os_isdir (o_disk st)) (dirname real)))))"

datatype resolved = RPath string | RErr op_error | RDiverges

definition resolve_and_gate_or_request :: "ops_ctx \<Rightarrow> request \<Rightarrow> string \<Rightarrow> string \<Rightarrow> ops_state \<Rightarrow> resolved \<times> ops_state" where
  "resolve_and_gate_or_request ctx request raw op st = (case resolve_and_gate ctx raw st of
     Inr ap \<Rightarrow> (RPath ap, st)
   | Inl (EPath e) \<Rightarrow> (case candidate_for_request ctx raw st of
         Inl e' \<Rightarrow> (RErr (EPath e'), st)
       | Inr None \<Rightarrow> (RDiverges, st)
       | Inr (Some (ap, kind)) \<Rightarrow>
           if ap = ''/'' then (RErr (EPath e), st)
           else case List.find (\<lambda>t. op_gate ctx st t \<noteq> None) (ap # (if kind = ''folder'' then [path_join ap PROBE] else [])) of
               Some t \<Rightarrow> (RErr (EBlocked (the (op_gate ctx st t))), st)
             | None \<Rightarrow>
                 if \<not> x_interactive ctx then (RErr (EPath e), st)
                 else (case request ap kind op st of
                     (False, st1) \<Rightarrow> (RErr (EUserDenied ap), st1)
                   | (True, st1) \<Rightarrow> (case resolve_and_gate ctx raw st1 of
                         Inr ap' \<Rightarrow> (RPath ap', st1) | Inl err \<Rightarrow> (RErr err, st1))))
   | Inl err \<Rightarrow> (RErr err, st))"

section \<open>Writing\<close>

datatype op_exc = ExcOs os_error | ExcEncode | ExcPattern

datatype op_reply =
    RepErr op_error | RepDiverges | RepRaise op_exc | RepTooLarge
  | RepNotFile string | RepNotDir string | RepMissing string | RepExists string
  | RepRoot | RepNonEmpty | RepSrcMissing string | RepDstExists | RepNoMatch | RepNotUnique nat
  | RepStaged staged_op string "string option"
  | RepText codes | RepBinary "string option" nat | RepReadTooLarge nat | RepBadRange
  | RepEntries "(string \<times> nat option) list" | RepPaths "string list" bool | RepHits "(string \<times> nat \<times> codes) list" bool

definition emit_staged :: "ops_ctx \<Rightarrow> nat \<Rightarrow> staged_op \<Rightarrow> string \<Rightarrow> string option \<Rightarrow> nat \<Rightarrow> ops_state \<Rightarrow> ops_state" where
  "emit_staged ctx seq op path dst sz st =
     st\<lparr>o_events := o_events st @ [\<lparr>ev_run = x_run ctx, ev_seq = seq, ev_op = op, ev_path = path, ev_dst = dst, ev_size = sz\<rparr>],
        o_fs := (o_fs st)\<lparr>st_audit := st_audit (o_fs st) @ [AuditChange op path dst None]\<rparr>\<rparr>"

text \<open>Staging a change and announcing it.\<close>

definition staged_reply ::
  "ops_ctx \<Rightarrow> nat \<Rightarrow> staged_op \<Rightarrow> string \<Rightarrow> string option \<Rightarrow> string option \<Rightarrow> snap_kind option \<Rightarrow> nat \<Rightarrow>
   fs_state \<Rightarrow> ops_state \<Rightarrow> op_reply \<times> ops_state" where
  "staged_reply ctx seq op path dst snap kind sz fs st =
     (case stage (x_session ctx) (x_run ctx) seq op path dst snap kind None fs of (i, fs') \<Rightarrow>
        (RepStaged op path dst, emit_staged ctx seq op path dst sz (st\<lparr>o_fs := fs'\<rparr>)))"

definition tmp_of :: "string \<Rightarrow> string" where
  "tmp_of path = path @ ''.__nimoos_agent_tmp__''"

definition atomic_write :: "string \<Rightarrow> codes \<Rightarrow> disk \<Rightarrow> op_exc option \<times> disk" where
  "atomic_write path content d =
     (case os_makedirs True d (dirname path) of
        Inl e \<Rightarrow> (Some (ExcOs e), d)
      | Inr d1 \<Rightarrow> (case os_write d1 (tmp_of path) [] of
            Inl e \<Rightarrow> (Some (ExcOs e), d1)
          | Inr d2 \<Rightarrow> (case utf8_encode content of
                None \<Rightarrow> (Some ExcEncode, d2)
              | Some b \<Rightarrow> (case os_write d2 (tmp_of path) b of
                    Inl e \<Rightarrow> (Some (ExcOs e), d2)
                  | Inr d3 \<Rightarrow> (case os_rename d3 (tmp_of path) path of
                        Inl e \<Rightarrow> (Some (ExcOs e), d3)
                      | Inr d4 \<Rightarrow> (None, d4))))))"

definition apply_write :: "ops_ctx \<Rightarrow> string \<Rightarrow> codes \<Rightarrow> ops_state \<Rightarrow> op_reply \<times> ops_state" where
  "apply_write ctx ap content st =
     (let fs = o_fs st; seq = next_seq (x_session ctx) (x_run ctx) fs; pre_existing = os_exists (st_disk fs) ap;
          taken = (if \<not> pre_existing then Inr (None, fs)
                   else case maybe_take_file_snapshot (c_store (x_fs ctx)) (x_session ctx) (x_run ctx) seq ap fs of
                       Inl e \<Rightarrow> Inl e | Inr (sp, fs') \<Rightarrow> Inr (Some sp, fs'))
      in case taken of
           Inl SnapshotTooLarge \<Rightarrow> (RepTooLarge, st)
         | Inl NotAFile \<Rightarrow> (RepRaise (ExcOs EISDIR), st)
         | Inr (snap, fs1) \<Rightarrow> (case atomic_write ap content (st_disk fs1) of
               (Some e, d) \<Rightarrow> (RepRaise e, st\<lparr>o_fs := fs1\<lparr>st_disk := d\<rparr>\<rparr>)
             | (None, d) \<Rightarrow> staged_reply ctx seq OpWrite ap None snap (if pre_existing then Some KindFile else None)
                 (length content) (fs1\<lparr>st_disk := d\<rparr>) st))"

text \<open>A tool is its work on the resolved path, after the path was resolved.\<close>

definition with_path :: "ops_ctx \<Rightarrow> request \<Rightarrow> string \<Rightarrow> string \<Rightarrow> (string \<Rightarrow> ops_state \<Rightarrow> op_reply \<times> ops_state) \<Rightarrow>
    ops_state \<Rightarrow> op_reply \<times> ops_state" where
  "with_path ctx request raw op f st = (case resolve_and_gate_or_request ctx request raw op st of
     (RPath ap, st1) \<Rightarrow> f ap st1
   | (RErr e, st1) \<Rightarrow> (RepErr e, st1)
   | (RDiverges, st1) \<Rightarrow> (RepDiverges, st1))"

definition write_file :: "ops_ctx \<Rightarrow> request \<Rightarrow> string \<Rightarrow> codes \<Rightarrow> ops_state \<Rightarrow> op_reply \<times> ops_state" where
  "write_file ctx request path content st =
     with_path ctx request path ''write'' (\<lambda>ap st1. apply_write ctx ap content st1) st"

text \<open>\<open>str.count\<close> and \<open>str.replace(old, new, 1)\<close>; the empty string is found everywhere.\<close>

function count_sub :: "codes \<Rightarrow> codes \<Rightarrow> nat" where
  "count_sub old [] = (if old = [] then 1 else 0)"
| "count_sub old (c # t) =
     (if old = [] then Suc (count_sub old t)
      else if startswith (c # t) old then Suc (count_sub old (drop (length old) (c # t)))
      else count_sub old t)"
  by pat_completeness auto
termination by (relation "measure (length \<circ> snd)") (auto simp: neq_Nil_conv)

fun replace_once :: "codes \<Rightarrow> codes \<Rightarrow> codes \<Rightarrow> codes" where
  "replace_once old new [] = (if old = [] then new else [])"
| "replace_once old new (c # t) =
     (if startswith (c # t) old then new @ drop (length old) (c # t) else c # replace_once old new t)"

definition edit_file :: "ops_ctx \<Rightarrow> request \<Rightarrow> string \<Rightarrow> codes \<Rightarrow> codes \<Rightarrow> ops_state \<Rightarrow> op_reply \<times> ops_state" where
  "edit_file ctx request path old_string new_string st =
     with_path ctx request path ''write'' (\<lambda>ap st1.
       case os_at (o_disk st1) ap of
         Some (DFile b) \<Rightarrow>
           (let txt = read_text b; n = count_sub old_string txt
            in if n = 0 then (RepNoMatch, st1)
               else if n > 1 then (RepNotUnique n, st1)
               else write_file ctx request ap (replace_once old_string new_string txt) st1)
       | _ \<Rightarrow> (RepNotFile ap, st1)) st"

definition apply_delete :: "ops_ctx \<Rightarrow> string \<Rightarrow> bool \<Rightarrow> ops_state \<Rightarrow> op_reply \<times> ops_state" where
  "apply_delete ctx ap recursive st =
     (let fs = o_fs st; d = st_disk fs; seq = next_seq (x_session ctx) (x_run ctx) fs
      in if \<not> os_exists d ap then (RepMissing ap, st)
         else if ap \<in> set (map fst (load_visible (o_vis st) (x_session ctx))) then (RepRoot, st)
         else case os_at d ap of
             Some (DFile b) \<Rightarrow>
               (case maybe_take_file_snapshot (c_store (x_fs ctx)) (x_session ctx) (x_run ctx) seq ap fs of
                  Inl SnapshotTooLarge \<Rightarrow> (RepTooLarge, st)
                | Inl NotAFile \<Rightarrow> (RepRaise (ExcOs EISDIR), st)
                | Inr (snap, fs1) \<Rightarrow> (case os_remove (st_disk fs1) ap of
                      Inl e \<Rightarrow> (RepRaise (ExcOs e), st\<lparr>o_fs := fs1\<rparr>)
                    | Inr d' \<Rightarrow> staged_reply ctx seq OpDeleteFile ap None (Some snap) (Some KindFile) (length b)
                                  (fs1\<lparr>st_disk := d'\<rparr>) st))
           | _ \<Rightarrow>
               (let is_empty = (entries d (path_comps ap) = [])
                in if \<not> is_empty \<and> \<not> recursive then (RepNonEmpty, st)
                   else case (if is_empty then Inr (None, fs)
                              else case take_tar (c_store (x_fs ctx)) (x_session ctx) (x_run ctx) seq ap fs of
                                  Inl e \<Rightarrow> Inl e | Inr (sp, fs') \<Rightarrow> Inr (Some sp, fs')) of
                       Inl _ \<Rightarrow> (RepTooLarge, st)
                     | Inr (snap, fs1) \<Rightarrow> (case os_rmtree (st_disk fs1) ap of
                           Inl e \<Rightarrow> (RepRaise (ExcOs e), st\<lparr>o_fs := fs1\<rparr>)
                         | Inr d' \<Rightarrow> staged_reply ctx seq OpDeleteDir ap None snap (if is_empty then None else Some KindTar) 0
                                       (fs1\<lparr>st_disk := d'\<rparr>) st)))"

definition delete_path :: "ops_ctx \<Rightarrow> request \<Rightarrow> string \<Rightarrow> bool \<Rightarrow> ops_state \<Rightarrow> op_reply \<times> ops_state" where
  "delete_path ctx request path recursive st =
     with_path ctx request path ''write'' (\<lambda>ap st1. apply_delete ctx ap recursive st1) st"

definition apply_mkdir :: "ops_ctx \<Rightarrow> string \<Rightarrow> bool \<Rightarrow> ops_state \<Rightarrow> op_reply \<times> ops_state" where
  "apply_mkdir ctx ap parents st =
     (let fs = o_fs st; d = st_disk fs; seq = next_seq (x_session ctx) (x_run ctx) fs
      in if os_exists d ap then (RepExists ap, st)
         else case (if parents then os_makedirs False d ap else os_mkdir d ap) of
             Inl e \<Rightarrow> (RepRaise (ExcOs e), st)
           | Inr d' \<Rightarrow> staged_reply ctx seq OpMkdir ap None None None 0 (fs\<lparr>st_disk := d'\<rparr>) st)"

definition op_mkdir :: "ops_ctx \<Rightarrow> request \<Rightarrow> string \<Rightarrow> bool \<Rightarrow> ops_state \<Rightarrow> op_reply \<times> ops_state" where
  "op_mkdir ctx request path parents st =
     with_path ctx request path ''write'' (\<lambda>ap st1. apply_mkdir ctx ap parents st1) st"

definition apply_rename :: "ops_ctx \<Rightarrow> string \<Rightarrow> string \<Rightarrow> ops_state \<Rightarrow> op_reply \<times> ops_state" where
  "apply_rename ctx s t st =
     (let fs = o_fs st; d = st_disk fs; seq = next_seq (x_session ctx) (x_run ctx) fs
      in if \<not> os_exists d s then (RepSrcMissing s, st)
         else if os_exists d t then (RepDstExists, st)
         else case os_rename d s t of
             Inl e \<Rightarrow> (RepRaise (ExcOs e), st)
           | Inr d' \<Rightarrow> staged_reply ctx seq OpRename s (Some t) None None 0 (fs\<lparr>st_disk := d'\<rparr>) st)"

definition op_rename :: "ops_ctx \<Rightarrow> request \<Rightarrow> string \<Rightarrow> string \<Rightarrow> ops_state \<Rightarrow> op_reply \<times> ops_state" where
  "op_rename ctx request src dst st =
     with_path ctx request src ''write'' (\<lambda>s st1.
       with_path ctx request dst ''write'' (\<lambda>t st2. apply_rename ctx s t st2) st1) st"

end
