(* ===== verification/Fs_Confine.thy ===== *)
theory Fs_Confine
  imports Fs_Ops
begin

text \<open>
  What the writing tools of \<open>fs/ops.py\<close> can do: which paths are resolved, what changes on the disk and in the staging
  area, and that the change that was staged can be reverted.
\<close>

section \<open>Resolved paths\<close>

definition allowed :: "ops_ctx \<Rightarrow> disk \<Rightarrow> visible_row list \<Rightarrow> string \<Rightarrow> bool" where
  "allowed ctx d vis ap \<longleftrightarrow>
     (let env = env_of (x_fs ctx) d
      in plain_path ap \<and> (in_scope env (x_session ctx) vis ap \<or> own_output env (x_session ctx) ap) \<and>
         path_gate env ap (visible_roots vis (x_session ctx)) (c_patterns (x_fs ctx)) False = None)"

text \<open>What is relied on of the access request: it only adds visible resources.\<close>

definition request_ok :: "request \<Rightarrow> bool" where
  "request_ok request \<longleftrightarrow> (\<forall>ap kind op st. o_fs (snd (request ap kind op st)) = o_fs st \<and>
     o_events (snd (request ap kind op st)) = o_events st \<and> set (o_vis st) \<subseteq> set (o_vis (snd (request ap kind op st))))"

definition asked :: "ops_ctx \<Rightarrow> request \<Rightarrow> string \<Rightarrow> ops_state \<Rightarrow> ops_state \<Rightarrow> bool" where
  "asked ctx request op st st' \<longleftrightarrow>
     x_interactive ctx \<and> (\<exists>ap kind. ap \<noteq> ''/'' \<and> op_gate ctx st ap = None \<and>
       (kind = ''folder'' \<longrightarrow> op_gate ctx st (path_join ap PROBE) = None) \<and> st' = snd (request ap kind op st))"

lemma scope_in: "real_ok env \<Longrightarrow> plain_path real \<Longrightarrow> scope_ok env real (p, k) \<Longrightarrow>
  (if k = ''folder'' then prefix (path_comps (e_realpath env p)) (path_comps real)
   else path_comps real = path_comps (e_realpath env p))"
proof -
  assume env: "real_ok env" "plain_path real" "scope_ok env real (p, k)"
  show ?thesis
  proof (cases "k = ''folder''")
    case True
    have "canonical (e_realpath env p)" "canonical real" using env by (auto simp: real_ok_def plain_path_def)
    with within.covers_iff_prefix [of "e_realpath env p" real] env(3) True show ?thesis
      by (cases "path_comps (e_realpath env p) = []") (auto simp: scope_ok_def)
  next
    case False
    then show ?thesis using env(3) by (simp add: scope_ok_def)
  qed
qed

lemma resolve_allowed:
  assumes "real_ok (c_env (x_fs ctx))" "resolve_and_gate ctx raw st = Inr ap"
  shows "allowed ctx (o_disk st) (o_vis st) ap"
proof -
  let ?env = "env_of (x_fs ctx) (o_disk st)" and ?sid = "x_session ctx"
  have env: "real_ok ?env" using assms(1) by (simp add: real_ok_def env_of_def)
  from assms(2) have res: "resolve_path ?env raw ?sid (o_vis st) = Inr ap" and g: "op_gate ctx st ap = None"
    by (auto simp: resolve_and_gate_def x_env_def split: sum.splits option.splits)
  have pl: "plain_path ap" using resolve_path_real [OF res] env by (auto simp: real_ok_def)
  from res have "in_scope ?env ?sid (o_vis st) ap \<or> own_output ?env ?sid ap"
  proof (cases rule: resolve_path_cases)
    case (vis a v)
    then obtain r where "r \<in> set (o_vis st)" "vr_session r = ?sid" "v = (vr_path r, vr_kind r)"
      by (auto simp: load_visible_def)
    with scope_in [OF env pl, of "vr_path r" "vr_kind r"] vis(4) show ?thesis
      by (auto simp: in_scope_def)
  qed simp
  with pl g show ?thesis by (simp add: allowed_def Let_def op_gate_def x_env_def)
qed

lemma resolved_cases:
  assumes "resolve_and_gate_or_request ctx request raw op st = (res, st1)"
  shows "(st1 = st \<or> asked ctx request op st st1) \<and> (\<forall>ap. res = RPath ap \<longrightarrow> resolve_and_gate ctx raw st1 = Inr ap)"
proof (cases "resolve_and_gate ctx raw st")
  case (Inl err)
  show ?thesis
  proof (cases err)
    case (EPath e)
    note raw = assms [unfolded resolve_and_gate_or_request_def Inl EPath sum.case op_error.case]
    show ?thesis
    proof (cases "candidate_for_request ctx raw st")
      case (Inr cand)
      show ?thesis
      proof (cases cand)
        case (Some ak)
        obtain ap kind where ak: "ak = (ap, kind)" by fastforce
        let ?ts = "ap # (if kind = ''folder'' then [path_join ap PROBE] else [])"
        show ?thesis
        proof (cases "ap = ''/'' \<or> List.find (\<lambda>t. op_gate ctx st t \<noteq> None) ?ts \<noteq> None \<or> \<not> x_interactive ctx")
          case True
          with raw Inr Some ak show ?thesis by (auto split: option.splits if_splits)
        next
          case False
          then have "List.find (\<lambda>t. op_gate ctx st t \<noteq> None) ?ts = None" "ap \<noteq> ''/''" "x_interactive ctx" by blast+
          then have g: "\<forall>t\<in>set ?ts. op_gate ctx st t = None" "ap \<noteq> ''/''" "x_interactive ctx"
            unfolding find_None_iff by blast+
          obtain b st2 where req: "request ap kind op st = (b, st2)" by fastforce
          with g have "asked ctx request op st st2"
            unfolding asked_def by (intro conjI exI [of _ ap] exI [of _ kind]) auto
          moreover have "(res, st1) = (case (b, st2) of
              (False, st1) \<Rightarrow> (RErr (EUserDenied ap), st1)
            | (True, st1) \<Rightarrow> (case resolve_and_gate ctx raw st1 of
                Inr ap' \<Rightarrow> (RPath ap', st1) | Inl err \<Rightarrow> (RErr err, st1)))"
            using raw Inr Some ak False req by (simp split: if_splits)
          ultimately show ?thesis by (auto split: bool.splits sum.splits)
        qed
      qed (use raw Inr in auto)
    qed (use raw in auto)
  qed (use assms Inl in \<open>auto simp: resolve_and_gate_or_request_def\<close>)
qed (use assms in \<open>auto simp: resolve_and_gate_or_request_def\<close>)

lemma asked_same: "request_ok request \<Longrightarrow> asked ctx request op st st1 \<Longrightarrow>
  o_fs st1 = o_fs st \<and> o_events st1 = o_events st \<and> set (o_vis st) \<subseteq> set (o_vis st1)"
  unfolding asked_def request_ok_def by blast

text \<open>The steps of a tool: the request, then the work.\<close>

lemma with_path_cases:
  assumes "with_path ctx request raw op f st = (r, st')" "request_ok request" "real_ok (c_env (x_fs ctx))"
  obtains (work) ap st1 where "f ap st1 = (r, st')" "o_fs st1 = o_fs st" "o_events st1 = o_events st"
      "set (o_vis st) \<subseteq> set (o_vis st1)" "allowed ctx (o_disk st) (o_vis st1) ap"
      "resolve_and_gate_or_request ctx request raw op st = (RPath ap, st1)"
  | (refused) "o_fs st' = o_fs st" "o_events st' = o_events st" "set (o_vis st) \<subseteq> set (o_vis st')"
      "r = RepDiverges \<or> (\<exists>e. r = RepErr e)"
proof -
  obtain res st1 where res: "resolve_and_gate_or_request ctx request raw op st = (res, st1)" by fastforce
  note c = resolved_cases [OF res]
  have same: "o_fs st1 = o_fs st" "o_events st1 = o_events st" "set (o_vis st) \<subseteq> set (o_vis st1)"
    using c asked_same [OF assms(2)] by blast+
  show thesis
  proof (cases res)
    case (RPath ap)
    then have "allowed ctx (o_disk st1) (o_vis st1) ap" using c resolve_allowed [OF assms(3)] by blast
    with work [of ap st1] assms(1) res RPath same show ?thesis by (simp add: with_path_def)
  next
    case (RErr e)
    with refused assms(1) res same show ?thesis by (auto simp: with_path_def)
  next
    case RDiverges
    with refused assms(1) res same show ?thesis by (auto simp: with_path_def)
  qed
qed

section \<open>Changes of the disk\<close>

lemma mkdir_at_change:
  "mkdir_at d p = Inr d' \<Longrightarrow> map_of d' = (map_of d)(p \<mapsto> DDir) \<and> map_of d p = None \<and> map_of d (butlast p) = Some DDir"
  by (auto simp: mkdir_at_def parent_error_None disk_ns_simps split: if_splits option.splits)

lemma ns_inv_put:
  assumes "ns_inv (disk_ns d)" "map_of d' = (map_of d)(p \<mapsto> e)" "map_of d p \<noteq> Some DDir" "map_of d (butlast p) = Some DDir"
  shows "ns_inv (disk_ns d')"
proof -
  have ne: "p \<noteq> []" using assms(1,3) by (auto simp: ns_inv_def disk_ns_simps)
  have "map_of d' q = Some DDir" if "map_of d' (q @ [n]) \<noteq> None" for q n
  proof (cases "q @ [n] = p")
    case True
    then have "q = butlast p" "q \<noteq> p" by auto
    with assms(2,4) show ?thesis by simp
  next
    case False
    with that assms(2) have "map_of d (q @ [n]) \<noteq> None" by simp
    then have "map_of d q = Some DDir" using ns_invD [OF assms(1), of q n] by (simp add: disk_ns_simps)
    with assms(2,3) show ?thesis by auto
  qed
  moreover have "map_of d' [] = Some DDir" using assms(1,2) ne by (simp add: ns_inv_def disk_ns_simps)
  ultimately show ?thesis unfolding ns_inv_def disk_ns_simps by blast
qed

lemma eff_mkdir_id:
  assumes "ns_inv (disk_ns d)" "map_of d p \<noteq> None"
  shows "eff_mkdir DDir p (map_of d) = map_of d"
proof
  fix q
  have "map_of d q \<noteq> None" if "prefix q p"
    using that assms ns_inv_strict [OF assms(1), of p q] by (cases "q = p") (auto simp: disk_ns_simps strict_prefix_def)
  then show "eff_mkdir DDir p (map_of d) q = map_of d q" by (auto simp: eff_mkdir_def)
qed

lemma makedirs_change:
  "makedirs_at eo d p = Inr d' \<Longrightarrow> ns_inv (disk_ns d) \<Longrightarrow>
   map_of d' = eff_mkdir DDir p (map_of d) \<and> map_of d' p = Some DDir \<and> ns_inv (disk_ns d')"
proof (induction eo d p arbitrary: d' rule: makedirs_at.induct)
  case (1 eo d)
  then have "map_of d [] = Some DDir" by (simp add: ns_inv_def disk_ns_simps)
  with 1 eff_mkdir_id [of d "[]"] show ?case by (simp split: if_splits)
next
  case (2 eo d c cs)
  define p where "p = c # cs"
  obtain d1 where d1: "(if map_of d (butlast p) \<noteq> None then Inr d else makedirs_at eo d (butlast p)) = Inr d1"
    and step: "(case mkdir_at d1 p of Inl e \<Rightarrow> if eo \<and> map_of d1 p = Some DDir then Inr d1 else Inl e | Inr d2 \<Rightarrow> Inr d2) = Inr d'"
    using 2(2) [unfolded makedirs_at.simps(2) Let_def, folded p_def]
    by (cases "if map_of d (butlast p) \<noteq> None then Inr d else makedirs_at eo d (butlast p)") (simp_all only: sum.case, blast+)
  have m1: "map_of d1 = eff_mkdir DDir (butlast p) (map_of d) \<and> ns_inv (disk_ns d1)"
  proof (cases "map_of d (butlast p)")
    case None
    with 2(1) [OF p_def _ _ 2(3), of d1] d1 show ?thesis by simp
  next
    case (Some e)
    with d1 eff_mkdir_id [OF 2(3), of "butlast p"] 2(3) show ?thesis by simp
  qed
  have eff: "eff_mkdir DDir p (map_of d1) = eff_mkdir DDir p (map_of d)"
  proof
    fix q
    have "prefix q (butlast p) \<Longrightarrow> prefix q p" using prefixeq_butlast [of p] by (blast intro: prefix_order.trans)
    then show "eff_mkdir DDir p (map_of d1) q = eff_mkdir DDir p (map_of d) q"
      unfolding conjunct1 [OF m1] by (simp add: eff_mkdir_def)
  qed
  have "map_of d' = eff_mkdir DDir p (map_of d1) \<and> map_of d' p = Some DDir \<and> ns_inv (disk_ns d')"
  proof (cases "mkdir_at d1 p")
    case (Inr d2)
    note ch = mkdir_at_change [OF Inr]
    have "map_of ((p, DDir) # d1) = eff_mkdir DDir p (map_of d1)"
      using m1 ch by (intro mkdir_eff) (simp_all add: disk_ns_simps)
    moreover have "ns_inv (disk_ns d2)" using m1 ch by (intro ns_inv_put [of d1 d2 p DDir]) simp_all
    moreover have "map_of d2 p = Some DDir" using ch by simp
    ultimately show ?thesis using ch step Inr by simp
  next
    case (Inl e)
    with step have "d' = d1" "map_of d1 p = Some DDir" by (auto split: if_splits)
    with m1 eff_mkdir_id [of d1 p] show ?thesis by simp
  qed
  with eff show ?case by (metis p_def)
qed

lemma os_write_change:
  assumes "os_write d path c = Inr d'" "ns_inv (disk_ns d)"
  shows "map_of d' = (map_of d)(path_comps path \<mapsto> DFile c) \<and> ns_inv (disk_ns d')"
proof -
  let ?p = "path_comps path"
  have m: "map_of d' = (map_of d)(?p \<mapsto> DFile c)"
    using assms(1) by (auto simp: os_write_def map_of_dput split: option.splits dentry.splits)
  have nd: "map_of d ?p \<noteq> Some DDir" using assms(1) by (auto simp: os_write_def os_at_def)
  have "map_of d (butlast ?p) = Some DDir"
  proof (cases "map_of d ?p")
    case None
    with assms(1) show ?thesis
      by (auto simp: os_write_def os_at_def parent_error_None disk_ns_simps split: option.splits)
  next
    case (Some e)
    then have "?p \<noteq> []" using nd assms(2) by (auto simp: ns_inv_def disk_ns_simps)
    with ns_inv_parent [OF assms(2), of ?p] Some show ?thesis by (simp add: disk_ns_simps)
  qed
  with ns_inv_put [OF assms(2) m nd] m show ?thesis by simp
qed

lemma os_rename_change:
  assumes "os_rename d s t = Inr d'"
  shows "d' = d \<and> path_comps s = path_comps t \<or>
    map_of d' = eff_rename (path_comps s) (path_comps t) (map_of d) \<and> \<not> prefix (path_comps s) (path_comps t) \<and>
    map_of d (butlast (path_comps t)) = Some DDir \<and> (map_of d (path_comps s) \<noteq> Some DDir \<longrightarrow> map_of d (path_comps t) \<noteq> Some DDir)"
  using assms by (auto simp: os_rename_def rename_at_def map_of_move parent_error_None disk_ns_simps
      split: option.splits if_splits dentry.splits)

section \<open>The atomic write\<close>

lemma tmp_comps:
  assumes "plain_path p" "path_comps p = cs @ [n]"
  shows "path_comps (tmp_of p) = cs @ [n @ ''.__nimoos_agent_tmp__'']"
proof -
  have ok: "\<forall>c\<in>set (cs @ [n]). comp_ok c" and p: "p = abs_path (cs @ [n])"
    using assms plain_comps [OF assms(1)] by (auto simp: comps_good_def dotless_def)
  have "tmp_of p = abs_path (cs @ [n @ ''.__nimoos_agent_tmp__''])"
    unfolding p tmp_of_def abs_path_def by (simp add: raw_path_def)
  moreover have "comp_ok (n @ ''.__nimoos_agent_tmp__'')" using ok by (simp add: comp_ok_def)
  ultimately show ?thesis using ok by simp
qed

lemma tmp_apart:
  assumes "plain_path p" "path_comps p \<noteq> []"
  shows "\<not> prefix (path_comps (tmp_of p)) (path_comps p)" "\<not> prefix (path_comps p) (path_comps (tmp_of p))"
    "butlast (path_comps (tmp_of p)) = butlast (path_comps p)" "path_comps (tmp_of p) \<noteq> []"
proof -
  obtain cs n where cs: "path_comps p = cs @ [n]" using assms(2) by (metis append_butlast_last_id)
  from tmp_comps [OF assms(1) cs] cs
  show "\<not> prefix (path_comps (tmp_of p)) (path_comps p)" "\<not> prefix (path_comps p) (path_comps (tmp_of p))"
    "butlast (path_comps (tmp_of p)) = butlast (path_comps p)" "path_comps (tmp_of p) \<noteq> []" by simp_all
qed

lemma root_comps: "dirname ''/'' = ''/''" "path_comps ''/'' = []"
  by code_simp+

lemma dirname_comps: "plain_path p \<Longrightarrow> path_comps (dirname p) = butlast (path_comps p)"
proof (cases "path_comps p = []")
  case True
  assume "plain_path p"
  with True have "p = ''/''" by (metis abs_path_def canonical_def plain_path_def)
  then show ?thesis by (simp add: root_comps)
next
  case False
  assume "plain_path p"
  from plain_snoc [OF this False] show ?thesis by metis
qed

lemma atomic_cases:
  assumes "atomic_write p content d = (e, d')" "ns_inv (disk_ns d)" "plain_path p"
  obtains (parents) x where "e = Some x" "d' = d"
  | (tmp) x d1 where "e = Some x" "map_of d1 = eff_mkdir DDir (butlast (path_comps p)) (map_of d)"
      "\<forall>q. q \<noteq> path_comps (tmp_of p) \<longrightarrow> map_of d' q = map_of d1 q"
  | (ok) d1 d3 b where "e = None" "map_of d1 = eff_mkdir DDir (butlast (path_comps p)) (map_of d)"
      "utf8_encode content = Some b" "map_of d3 = (map_of d1)(path_comps (tmp_of p) \<mapsto> DFile b)"
      "ns_inv (disk_ns d3)" "os_rename d3 (tmp_of p) p = Inr d'" "map_of d1 (path_comps (tmp_of p)) \<noteq> Some DDir"
proof -
  note aw = assms(1) [unfolded atomic_write_def]
  show thesis
  proof (cases "os_makedirs True d (dirname p)")
    case (Inl x)
    with aw parents [of "ExcOs x"] show thesis by simp
  next
    case (Inr d1)
    note mk = makedirs_change [OF Inr [unfolded os_makedirs_def] assms(2)]
    then have m1: "map_of d1 = eff_mkdir DDir (butlast (path_comps p)) (map_of d)" and i1: "ns_inv (disk_ns d1)"
      by (simp_all add: dirname_comps [OF assms(3)])
    show thesis
    proof (cases "os_write d1 (tmp_of p) []")
      case (Inl x)
      with aw Inr tmp [of "ExcOs x" d1] m1 show thesis by simp
    next
      case i2: (Inr d2)
      note w2 = os_write_change [OF i2 i1]
      have nd: "map_of d1 (path_comps (tmp_of p)) \<noteq> Some DDir" using i2 by (auto simp: os_write_def os_at_def)
      show thesis
      proof (cases "utf8_encode content")
        case None
        with aw Inr i2 w2 tmp [of _ d1] m1 show thesis by auto
      next
        case (Some b)
        show thesis
        proof (cases "os_write d2 (tmp_of p) b")
          case (Inl x)
          with aw Inr i2 Some w2 tmp [of _ d1] m1 show thesis by auto
        next
          case i3: (Inr d3)
          note w3 = os_write_change [OF i3 conjunct2 [OF w2]]
          show thesis
          proof (cases "os_rename d3 (tmp_of p) p")
            case (Inl x)
            with aw Inr i2 Some i3 w2 w3 tmp [of _ d1] m1 show thesis by auto
          next
            case (Inr d4)
            with aw \<open>os_makedirs True d (dirname p) = Inr d1\<close> i2 Some i3 w2 w3 ok [of d1 b d3] m1 nd show thesis by simp
          qed
        qed
      qed
    qed
  qed
qed

definition written :: "string list \<Rightarrow> string list \<Rightarrow> string \<Rightarrow> (string list \<Rightarrow> dentry option) \<Rightarrow> string list \<Rightarrow> dentry option" where
  "written p tmp b m = (\<lambda>q. if q = p then Some (DFile b) else if q = tmp then None
     else if strict_prefix q p \<and> m q = None then Some DDir else m q)"

lemma atomic_ok:
  assumes "atomic_write p content d = (None, d')" "ns_inv (disk_ns d)" "plain_path p"
  shows "\<exists>b. utf8_encode content = Some b \<and> map_of d' = written (path_comps p) (path_comps (tmp_of p)) b (map_of d) \<and>
    path_comps p \<noteq> [] \<and> map_of d (path_comps p) \<noteq> Some DDir \<and> ns_inv (disk_ns d')"
  using assms
proof (cases rule: atomic_cases)
  case (ok d1 d3 b)
  let ?p = "path_comps p" and ?t = "path_comps (tmp_of p)"
  have fl: "map_of d3 ?t = Some (DFile b)" using ok(4) by simp
  have ne: "?p \<noteq> []"
  proof
    assume e: "?p = []"
    with os_rename_change [OF ok(6)] have "?t = [] \<or> map_of d3 ?p \<noteq> Some DDir" using fl by auto
    moreover have "map_of d3 [] = Some DDir" using ok(5) by (simp add: ns_inv_def disk_ns_simps)
    ultimately show False using e fl by auto
  qed
  note ap = tmp_apart [OF assms(3) ne]
  have ren: "map_of d' = eff_rename ?t ?p (map_of d3)" "map_of d3 ?p \<noteq> Some DDir" "map_of d3 (butlast ?p) = Some DDir"
    using os_rename_change [OF ok(6)] ap(1) fl by auto
  have below: "map_of d3 q = None" if "strict_prefix ?t q \<or> strict_prefix ?p q" for q
    using that none_below [OF ok(5), of ?t q] none_below [OF ok(5), of ?p q] fl ren(2) by auto
  have m3: "map_of d' q = (if q = ?p then Some (DFile b) else if q = ?t then None else map_of d3 q)" for q
  proof (cases "prefix ?p q")
    case True
    then obtain r where r: "q = ?p @ r" by (auto simp: prefix_def)
    have "map_of d' q = map_of d3 (?t @ r)" using ren(1) r by (simp add: eff_rename_def)
    moreover have "q \<noteq> ?t" using True ap(2) by auto
    ultimately show ?thesis using fl below [of "?t @ r"] below [of q] r by (cases r) (auto simp: strict_prefix_def)
  next
    case False
    then have "q \<noteq> ?p" by auto
    moreover have "map_of d3 q = None" if "prefix ?t q" "q \<noteq> ?t" using that below [of q] by (simp add: strict_prefix_def)
    ultimately show ?thesis using ren(1) False by (auto simp: eff_rename_def)
  qed
  have m1: "map_of d1 q = (if strict_prefix q ?p \<and> map_of d q = None then Some DDir else map_of d q)" for q
  proof -
    have "prefix q (butlast ?p) \<longleftrightarrow> strict_prefix q ?p"
      using ne prefix_snoc [of q "butlast ?p" "last ?p"] not_under_butlast [OF ne] by (auto simp: strict_prefix_def)
    then show ?thesis unfolding ok(2) by (simp add: eff_mkdir_def)
  qed
  have "map_of d' q = written ?p ?t b (map_of d) q" for q
    unfolding m3 written_def using ok(4) m1 [of q] by simp
  moreover have "map_of d ?p \<noteq> Some DDir" using ren(2) ok(4) m1 [of ?p] ap(1) by (auto split: if_splits)
  moreover have "ns_inv (disk_ns d')"
  proof -
    have "map_of d' q = Some DDir" if "map_of d' (q @ [n]) \<noteq> None" for q n
    proof (cases "q @ [n] = ?p")
      case True
      then have "q = butlast ?p" "q \<noteq> ?p" by (metis butlast_snoc, metis append_self_conv not_Cons_self2)
      with ren(3) fl show ?thesis by (auto simp: m3)
    next
      case False
      with that have "map_of d3 (q @ [n]) \<noteq> None" by (auto simp: m3 split: if_splits)
      then have "map_of d3 q = Some DDir" using ns_invD [OF ok(5), of q n] by (simp add: disk_ns_simps)
      with ren(2) fl show ?thesis by (auto simp: m3)
    qed
    moreover have "map_of d' [] = Some DDir"
      using ok(5) ne ap(4) by (auto simp: m3 ns_inv_def disk_ns_simps)
    ultimately show ?thesis unfolding ns_inv_def disk_ns_simps by blast
  qed
  ultimately show ?thesis using ok(3) ne by (auto simp: fun_eq_iff)
qed simp_all

lemma atomic_failed:
  assumes "atomic_write p content d = (Some x, d')" "ns_inv (disk_ns d)" "plain_path p" "map_of d' q \<noteq> map_of d q"
  shows "q = path_comps (tmp_of p) \<or> strict_prefix q (path_comps p) \<and> map_of d q = None \<and> map_of d' q = Some DDir"
  using assms(1-3)
proof (cases rule: atomic_cases)
  case (tmp x d1)
  show ?thesis
  proof (cases "q = path_comps (tmp_of p)")
    case False
    with tmp assms(4) have q: "prefix q (butlast (path_comps p))" "map_of d q = None" "map_of d' q = Some DDir"
      by (auto simp: eff_mkdir_def split: if_splits)
    moreover have "path_comps p \<noteq> []"
      using q assms(2) by (auto simp: ns_inv_def disk_ns_simps)
    ultimately show ?thesis using not_under_butlast [of "path_comps p"] prefixeq_butlast [of "path_comps p"]
      by (auto simp: strict_prefix_def intro: prefix_order.trans)
  qed simp
qed (use assms(4) in simp_all)

section \<open>What a writing tool changes\<close>

datatype write_call =
    CallWrite string codes | CallEdit string codes codes | CallDelete string bool | CallMkdir string bool
  | CallRename string string

fun do_call :: "ops_ctx \<Rightarrow> request \<Rightarrow> write_call \<Rightarrow> ops_state \<Rightarrow> op_reply \<times> ops_state" where
  "do_call ctx request (CallWrite path content) st = write_file ctx request path content st"
| "do_call ctx request (CallEdit path old new) st = edit_file ctx request path old new st"
| "do_call ctx request (CallDelete path recursive) st = delete_path ctx request path recursive st"
| "do_call ctx request (CallMkdir path parents) st = op_mkdir ctx request path parents st"
| "do_call ctx request (CallRename src dst) st = op_rename ctx request src dst st"

text \<open>The paths a call may change, given a path it resolved, and how an entry above that path may change.\<close>

fun touches :: "write_call \<Rightarrow> string \<Rightarrow> string list \<Rightarrow> bool" where
  "touches (CallDelete _ _) a q \<longleftrightarrow> prefix (path_comps a) q"
| "touches (CallRename _ _) a q \<longleftrightarrow> prefix (path_comps a) q"
| "touches (CallMkdir _ _) a q \<longleftrightarrow> prefix q (path_comps a)"
| "touches _ a q \<longleftrightarrow> q = path_comps a \<or> q = path_comps (tmp_of a) \<or> strict_prefix q (path_comps a)"

definition change_ok :: "write_call \<Rightarrow> string \<Rightarrow> disk \<Rightarrow> disk \<Rightarrow> string list \<Rightarrow> bool" where
  "change_ok c a d d' q \<longleftrightarrow> touches c a q \<and>
     (strict_prefix q (path_comps a) \<longrightarrow> map_of d q = None \<and> map_of d' q = Some DDir)"

definition rows_ok :: "ops_ctx \<Rightarrow> fs_state \<Rightarrow> op_reply \<Rightarrow> fs_state \<Rightarrow> bool" where
  "rows_ok ctx fs r fs' \<longleftrightarrow> (case r of
     RepStaged op path dst \<Rightarrow>
       (\<exists>row. st_staged fs' = st_staged fs @ [row] \<and> sg_op row = op \<and> sg_path row = path \<and> sg_dst row = dst \<and>
          sg_session row = x_session ctx \<and> sg_run row = x_run ctx \<and> sg_status row = Pending \<and>
          sg_seq row = next_seq (x_session ctx) (x_run ctx) fs)
   | RepRaise e \<Rightarrow> st_staged fs' = st_staged fs
   | _ \<Rightarrow> fs' = fs)"

definition work_ok :: "ops_ctx \<Rightarrow> write_call \<Rightarrow> string list \<Rightarrow> ops_state \<Rightarrow> op_reply \<times> ops_state \<Rightarrow> bool" where
  "work_ok ctx c as st x \<longleftrightarrow> rows_ok ctx (o_fs st) (fst x) (o_fs (snd x)) \<and> o_vis (snd x) = o_vis st \<and>
     (\<forall>q. map_of (o_disk (snd x)) q \<noteq> map_of (o_disk st) q \<longrightarrow> (\<exists>a\<in>set as. change_ok c a (o_disk st) (o_disk (snd x)) q))"

lemma snapshot_keeps:
  "take_file ss sid rid seq p fs = Inr (sp, fs') \<Longrightarrow> st_disk fs' = st_disk fs \<and> st_staged fs' = st_staged fs"
  "take_tar ss sid rid seq p fs = Inr (sp, fs') \<Longrightarrow> st_disk fs' = st_disk fs \<and> st_staged fs' = st_staged fs"
  by (auto simp: take_file_def take_tar_def Let_def split: option.splits dentry.splits if_splits)

lemma maybe_keeps:
  "maybe_take_file_snapshot ss sid rid seq p fs = Inr (sp, fs') \<Longrightarrow> st_disk fs' = st_disk fs \<and> st_staged fs' = st_staged fs"
  by (auto simp: maybe_take_file_snapshot_def dest: snapshot_keeps split: option.splits)

lemma staged_reply_ok:
  assumes "seq = next_seq (x_session ctx) (x_run ctx) (o_fs st)" "st_staged fs = st_staged (o_fs st)"
  shows "rows_ok ctx (o_fs st) (fst (staged_reply ctx seq op p dst snap kind sz fs st))
      (o_fs (snd (staged_reply ctx seq op p dst snap kind sz fs st)))"
    "o_vis (snd (staged_reply ctx seq op p dst snap kind sz fs st)) = o_vis st"
    "o_disk (snd (staged_reply ctx seq op p dst snap kind sz fs st)) = st_disk fs"
  using assms by (simp_all add: staged_reply_def stage_def emit_staged_def rows_ok_def Let_def)

lemma work_ok_same: "rows_ok ctx (o_fs st) r (o_fs st) \<Longrightarrow> work_ok ctx c as st (r, st)"
  by (simp add: work_ok_def)

lemma apply_write_ok:
  assumes "disk_ok (o_disk st)" "plain_path ap" "c = CallWrite x t \<or> c = CallEdit x y z"
  shows "work_ok ctx c [ap] st (apply_write ctx ap content st)"
proof -
  have inv: "ns_inv (disk_ns (o_disk st))" using assms(1) by (simp add: disk_ok_def)
  have tch: "touches c ap q \<longleftrightarrow> q = path_comps ap \<or> q = path_comps (tmp_of ap) \<or> strict_prefix q (path_comps ap)" for q
    using assms(3) by auto
  have nst: "\<not> strict_prefix (path_comps (tmp_of ap)) (path_comps ap)"
    using tmp_apart(1) [OF assms(2)] by (cases "path_comps ap = []") (auto simp: strict_prefix_def)
  let ?seq = "next_seq (x_session ctx) (x_run ctx) (o_fs st)"
  obtain taken where taken: "taken = (if \<not> os_exists (o_disk st) ap then Inr (None, o_fs st)
      else case maybe_take_file_snapshot (c_store (x_fs ctx)) (x_session ctx) (x_run ctx) ?seq ap (o_fs st) of
          Inl e \<Rightarrow> Inl e | Inr (sp, fs') \<Rightarrow> Inr (Some sp, fs'))" by blast
  note aw = apply_write_def [of ctx ap content st, unfolded Let_def, folded taken]
  show ?thesis
  proof (cases taken)
    case (Inl e)
    with aw show ?thesis by (cases e) (simp_all add: work_ok_same rows_ok_def)
  next
    case (Inr sf)
    obtain snap fs1 where sf: "sf = (snap, fs1)" by fastforce
    have fs1: "st_disk fs1 = o_disk st" "st_staged fs1 = st_staged (o_fs st)"
      using taken Inr sf by (auto split: if_splits sum.splits prod.splits dest: maybe_keeps)
    obtain e d where at: "atomic_write ap content (o_disk st) = (e, d)" by fastforce
    have ch: "change_ok c ap (o_disk st) d q" if q: "map_of d q \<noteq> map_of (o_disk st) q" for q
    proof (cases e)
      case None
      with at atomic_ok [OF _ inv assms(2)] obtain b
        where w: "map_of d = written (path_comps ap) (path_comps (tmp_of ap)) b (map_of (o_disk st))" by blast
      from q show ?thesis unfolding change_ok_def tch w using nst by (auto simp: written_def split: if_splits)
    next
      case (Some y)
      with at atomic_failed [OF _ inv assms(2) q] show ?thesis
        unfolding change_ok_def tch using nst by (auto simp: strict_prefix_def)
    qed
    show ?thesis
    proof (cases e)
      case None
      let ?x = "staged_reply ctx ?seq OpWrite ap None snap (if os_exists (o_disk st) ap then Some KindFile else None)
          (length content) (fs1\<lparr>st_disk := d\<rparr>) st"
      have "apply_write ctx ap content st = ?x" unfolding aw using Inr sf fs1 at None by simp
      with staged_reply_ok [of ?seq ctx st "fs1\<lparr>st_disk := d\<rparr>"] fs1 ch show ?thesis by (simp add: work_ok_def)
    next
      case (Some y)
      then have "apply_write ctx ap content st = (RepRaise y, st\<lparr>o_fs := fs1\<lparr>st_disk := d\<rparr>\<rparr>)"
        unfolding aw using Inr sf fs1 at by simp
      with fs1 ch show ?thesis by (simp add: work_ok_def rows_ok_def)
    qed
  qed
qed

lemma apply_delete_ok:
  assumes "ns_inv (disk_ns (o_disk st))"
  shows "work_ok ctx (CallDelete x y) [ap] st (apply_delete ctx ap recursive st)"
proof -
  let ?seq = "next_seq (x_session ctx) (x_run ctx) (o_fs st)" and ?d = "o_disk st" and ?p = "path_comps ap"
  have ch: "change_ok (CallDelete x y) ap ?d d' q" if "map_of d' = eff_delete ?p (map_of ?d)" "map_of d' q \<noteq> map_of ?d q" for d' q
    using that by (auto simp: change_ok_def eff_delete_def strict_prefix_def split: if_splits)
  have fin: "work_ok ctx (CallDelete x y) [ap] st (staged_reply ctx ?seq op ap None snap kind sz (fs1\<lparr>st_disk := d'\<rparr>) st)"
    if "st_staged fs1 = st_staged (o_fs st)" "map_of d' = eff_delete ?p (map_of ?d)" for fs1 d' op snap kind sz
    using staged_reply_ok [of ?seq ctx st "fs1\<lparr>st_disk := d'\<rparr>"] ch that by (simp add: work_ok_def)
  have raised: "work_ok ctx (CallDelete x y) [ap] st (RepRaise e, st\<lparr>o_fs := fs1\<rparr>)"
    if "st_disk fs1 = ?d" "st_staged fs1 = st_staged (o_fs st)" for fs1 e
    using that by (simp add: work_ok_def rows_ok_def)
  consider (early) r where "apply_delete ctx ap recursive st = (r, st)" "rows_ok ctx (o_fs st) r (o_fs st)"
    | (filec) b where "os_at ?d ap = Some (DFile b)" "os_exists ?d ap" "ap \<notin> set (map fst (load_visible (o_vis st) (x_session ctx)))"
    | (dir) "os_at ?d ap = Some DDir" "ap \<notin> set (map fst (load_visible (o_vis st) (x_session ctx)))" "os_exists ?d ap"
        "entries ?d ?p = [] \<or> recursive"
  proof -
    note ad = apply_delete_def [of ctx ap recursive st, unfolded Let_def]
    consider "os_at ?d ap = None" | "os_at ?d ap \<noteq> None" "ap \<in> set (map fst (load_visible (o_vis st) (x_session ctx)))"
      | b where "os_at ?d ap = Some (DFile b)" "ap \<notin> set (map fst (load_visible (o_vis st) (x_session ctx)))"
      | "os_at ?d ap = Some DDir" "ap \<notin> set (map fst (load_visible (o_vis st) (x_session ctx)))"
      by (metis dentry.exhaust not_None_eq)
    then show thesis
    proof cases
      case 4
      then show thesis
        using that(1) [of RepNonEmpty] that(3) ad by (cases "entries ?d ?p = [] \<or> recursive") (auto simp: os_exists_def rows_ok_def)
    qed (use that(1) [of "RepMissing ap"] that(1) [of RepRoot] that(2) ad in \<open>auto simp: os_exists_def rows_ok_def\<close>)
  qed
  then show ?thesis
  proof cases
    case early
    then show ?thesis by (simp add: work_ok_same)
  next
    case filec
    note ad = apply_delete_def [of ctx ap recursive st, unfolded Let_def]
    show ?thesis
    proof (cases "maybe_take_file_snapshot (c_store (x_fs ctx)) (x_session ctx) (x_run ctx) ?seq ap (o_fs st)")
      case (Inl e)
      with filec ad show ?thesis by (cases e) (simp_all add: work_ok_same rows_ok_def)
    next
      case (Inr sf)
      obtain snap fs1 where sf: "sf = (snap, fs1)" by fastforce
      note k = maybe_keeps [OF Inr [unfolded sf]]
      have "os_remove ?d ap = Inr (prune ?p ?d)" using filec by (simp add: os_remove_def)
      with filec ad Inr sf k fin [of fs1 "prune ?p ?d"] show ?thesis by simp
    qed
  next
    case dir
    note ad = apply_delete_def [of ctx ap recursive st, unfolded Let_def]
    have rm: "os_rmtree ?d ap = Inr (prune ?p ?d)" using dir by (simp add: os_rmtree_def)
    show ?thesis
    proof (cases "entries ?d ?p = []")
      case True
      with dir ad rm fin [of "o_fs st" "prune ?p ?d"] show ?thesis by simp
    next
      case False
      show ?thesis
      proof (cases "take_tar (c_store (x_fs ctx)) (x_session ctx) (x_run ctx) ?seq ap (o_fs st)")
        case (Inl e)
        with False dir ad show ?thesis by (simp add: work_ok_same rows_ok_def)
      next
        case (Inr sf)
        obtain snap fs1 where sf: "sf = (snap, fs1)" by fastforce
        note k = snapshot_keeps(2) [OF Inr [unfolded sf]]
        from False dir ad Inr sf k rm fin [of fs1 "prune ?p ?d"] show ?thesis by simp
      qed
    qed
  qed
qed

lemma apply_mkdir_ok:
  assumes "ns_inv (disk_ns (o_disk st))"
  shows "work_ok ctx (CallMkdir x y) [ap] st (apply_mkdir ctx ap parents st)"
proof (cases "os_exists (o_disk st) ap")
  case True
  then show ?thesis by (simp add: apply_mkdir_def Let_def work_ok_same rows_ok_def)
next
  case False
  let ?seq = "next_seq (x_session ctx) (x_run ctx) (o_fs st)" and ?d = "o_disk st" and ?p = "path_comps ap"
  show ?thesis
  proof (cases "if parents then os_makedirs False ?d ap else os_mkdir ?d ap")
    case (Inl e)
    with False show ?thesis by (simp add: apply_mkdir_def Let_def work_ok_same rows_ok_def)
  next
    case (Inr d')
    have "map_of d' = eff_mkdir DDir ?p (map_of ?d)"
    proof (cases parents)
      case True
      with Inr makedirs_change [OF _ assms] show ?thesis by (simp add: os_makedirs_def)
    next
      case False
      with Inr mkdir_at_change [of ?d ?p d'] have "map_of d' = map_of ((?p, DDir) # ?d)" "map_of ?d ?p = None"
        "disk_ns ?d (butlast ?p) = Some True" by (auto simp: os_mkdir_def disk_ns_simps)
      with mkdir_eff [OF assms] show ?thesis by simp
    qed
    then have "change_ok (CallMkdir x y) ap ?d d' q" if "map_of d' q \<noteq> map_of ?d q" for q
      using that by (auto simp: change_ok_def eff_mkdir_def split: if_splits)
    with False Inr staged_reply_ok [of ?seq ctx st "(o_fs st)\<lparr>st_disk := d'\<rparr>"] show ?thesis
      by (simp add: apply_mkdir_def Let_def work_ok_def)
  qed
qed

lemma apply_rename_ok:
  "work_ok ctx (CallRename x y) [s, t] st (apply_rename ctx s t st)"
proof (cases "os_exists (o_disk st) s \<and> \<not> os_exists (o_disk st) t")
  case True
  let ?seq = "next_seq (x_session ctx) (x_run ctx) (o_fs st)" and ?d = "o_disk st"
  show ?thesis
  proof (cases "os_rename ?d s t")
    case (Inl e)
    with True show ?thesis by (simp add: apply_rename_def Let_def work_ok_same rows_ok_def)
  next
    case (Inr d')
    have "map_of d' = eff_rename (path_comps s) (path_comps t) (map_of ?d)"
      using os_rename_change [OF Inr] True by (auto simp: os_exists_def os_at_def)
    then have "\<exists>a\<in>set [s, t]. change_ok (CallRename x y) a ?d d' q" if "map_of d' q \<noteq> map_of ?d q" for q
      using that by (auto simp: change_ok_def eff_rename_def strict_prefix_def split: if_splits)
    with True Inr staged_reply_ok [of ?seq ctx st "(o_fs st)\<lparr>st_disk := d'\<rparr>"] show ?thesis
      by (simp add: apply_rename_def Let_def work_ok_def)
  qed
qed (auto simp: apply_rename_def Let_def work_ok_same rows_ok_def)

section \<open>Confinement\<close>

text \<open>What a whole call did: every change is one that an allowed path explains.\<close>

definition call_ok :: "ops_ctx \<Rightarrow> write_call \<Rightarrow> ops_state \<Rightarrow> op_reply \<times> ops_state \<Rightarrow> bool" where
  "call_ok ctx c st x \<longleftrightarrow> rows_ok ctx (o_fs st) (fst x) (o_fs (snd x)) \<and>
     (\<forall>q. map_of (o_disk (snd x)) q \<noteq> map_of (o_disk st) q \<longrightarrow>
        (\<exists>a vis. set vis \<subseteq> set (o_vis (snd x)) \<and> allowed ctx (o_disk st) vis a \<and> change_ok c a (o_disk st) (o_disk (snd x)) q))"

lemma call_ok_same: "rows_ok ctx (o_fs st) r (o_fs st) \<Longrightarrow> o_fs st' = o_fs st \<Longrightarrow> call_ok ctx c st (r, st')"
  by (simp add: call_ok_def)

lemma refused_ok: "r = RepDiverges \<or> (\<exists>e. r = RepErr e) \<Longrightarrow> rows_ok ctx fs r fs"
  by (auto simp: rows_ok_def)

lemma work_call_ok:
  assumes "work_ok ctx c as st1 x" "o_fs st1 = o_fs st"
    "\<And>a. a \<in> set as \<Longrightarrow> \<exists>vis. set vis \<subseteq> set (o_vis st1) \<and> allowed ctx (o_disk st) vis a"
  shows "call_ok ctx c st x"
  using assms unfolding work_ok_def call_ok_def by metis

lemma allowed_plain: "allowed ctx d vis a \<Longrightarrow> plain_path a"
  by (simp add: allowed_def Let_def)

lemma write_call_ok:
  assumes "real_ok (c_env (x_fs ctx))" "request_ok request" "disk_ok (o_disk st)" "c = CallWrite x t \<or> c = CallEdit x y z"
  shows "call_ok ctx c st (write_file ctx request path content st)"
proof -
  obtain r st' where rs: "write_file ctx request path content st = (r, st')" by fastforce
  from rs [unfolded write_file_def] assms(2,1) show ?thesis unfolding rs
  proof (cases rule: with_path_cases)
    case (work ap st1)
    have "disk_ok (o_disk st1)" using assms(3) work(2) by simp
    then have "work_ok ctx c [ap] st1 (apply_write ctx ap content st1)"
      using allowed_plain [OF work(5)] assms(4) by (rule apply_write_ok)
    with work show "call_ok ctx c st (r, st')" by (intro work_call_ok [of ctx c "[ap]" st1]) auto
  next
    case refused
    with refused_ok show "call_ok ctx c st (r, st')" by (intro call_ok_same) auto
  qed
qed

lemma do_call_ok:
  assumes "real_ok (c_env (x_fs ctx))" "request_ok request" "disk_ok (o_disk st)"
  shows "call_ok ctx c st (do_call ctx request c st)"
proof (cases c)
  case (CallWrite path content)
  with write_call_ok [OF assms, of c path content] show ?thesis by simp
next
  case (CallEdit path old new)
  obtain r st' where rs: "edit_file ctx request path old new st = (r, st')" by fastforce
  from rs [unfolded edit_file_def] assms(2,1) have "call_ok ctx c st (r, st')"
  proof (cases rule: with_path_cases)
    case (work ap st1)
    have d: "disk_ok (o_disk st1)" using assms(3) work(2) by simp
    show ?thesis
    proof (cases "\<exists>b. os_at (o_disk st1) ap = Some (DFile b) \<and> count_sub old (read_text b) = 1")
      case True
      then obtain b where b: "os_at (o_disk st1) ap = Some (DFile b)" "count_sub old (read_text b) = 1" by blast
      with work(1) have "(r, st') = write_file ctx request ap (replace_once old new (read_text b)) st1" by simp
      with write_call_ok [OF assms(1,2) d, of c path _ old new] CallEdit
      have "call_ok ctx c st1 (r, st')" by simp
      with work(2) show ?thesis by (simp add: call_ok_def)
    next
      case False
      then have "\<exists>r0. (r, st') = (r0, st1) \<and> rows_ok ctx (o_fs st) r0 (o_fs st)"
        using work(1) by (auto simp: Let_def rows_ok_def split: option.splits dentry.splits if_splits)
      with work(2) show ?thesis by (auto intro: call_ok_same)
    qed
  next
    case refused
    with refused_ok show ?thesis by (intro call_ok_same) auto
  qed
  with rs CallEdit show ?thesis by simp
next
  case (CallDelete path recursive)
  obtain r st' where rs: "delete_path ctx request path recursive st = (r, st')" by fastforce
  from rs [unfolded delete_path_def] assms(2,1) have "call_ok ctx c st (r, st')"
  proof (cases rule: with_path_cases)
    case (work ap st1)
    have "ns_inv (disk_ns (o_disk st1))" using assms(3) work(2) by (simp add: disk_ok_def)
    from apply_delete_ok [OF this, of ctx path recursive ap recursive] work CallDelete show ?thesis
      by (intro work_call_ok [of ctx c "[ap]" st1]) auto
  next
    case refused
    with refused_ok show ?thesis by (intro call_ok_same) auto
  qed
  with rs CallDelete show ?thesis by simp
next
  case (CallMkdir path parents)
  obtain r st' where rs: "op_mkdir ctx request path parents st = (r, st')" by fastforce
  from rs [unfolded op_mkdir_def] assms(2,1) have "call_ok ctx c st (r, st')"
  proof (cases rule: with_path_cases)
    case (work ap st1)
    have "ns_inv (disk_ns (o_disk st1))" using assms(3) work(2) by (simp add: disk_ok_def)
    from apply_mkdir_ok [OF this, of ctx path parents ap parents] work CallMkdir show ?thesis
      by (intro work_call_ok [of ctx c "[ap]" st1]) auto
  next
    case refused
    with refused_ok show ?thesis by (intro call_ok_same) auto
  qed
  with rs CallMkdir show ?thesis by simp
next
  case (CallRename src dst)
  obtain r st' where rs: "op_rename ctx request src dst st = (r, st')" by fastforce
  from rs [unfolded op_rename_def] assms(2,1) have "call_ok ctx c st (r, st')"
  proof (cases rule: with_path_cases)
    case (work s st1)
    from work(1) assms(2,1) show ?thesis
    proof (cases rule: with_path_cases)
      case w2: (work t st2)
      show ?thesis
      proof (rule work_call_ok [of ctx c "[s, t]" st2])
        show "work_ok ctx c [s, t] st2 (r, st')" using apply_rename_ok w2(1) CallRename by metis
        show "\<exists>vis. set vis \<subseteq> set (o_vis st2) \<and> allowed ctx (o_disk st) vis a" if "a \<in> set [s, t]" for a
          using that work(2,5) w2(2,4,5) by auto
      qed (use work w2 in simp)
    next
      case refused
      with refused_ok work show ?thesis by (intro call_ok_same) auto
    qed
  next
    case refused
    with refused_ok show ?thesis by (intro call_ok_same) auto
  qed
  with rs CallRename show ?thesis by simp
qed

text \<open>
  C12. A writing tool is confined: whatever it does to the disk, for whatever arguments and reply, each entry that
  changed is explained by a path that was allowed at that moment (the real path lies in a visible resource of the
  session or in its own folder of results, and no ignore rule matches): the file that was written and its temporary
  sibling, the tree that was deleted, the tree that was moved and where it went; above such a path only
  missing directories were created. A staged reply has recorded exactly one row, with the operation, its paths and
  the next sequence number, and any other reply none; and short of an exception that reached the tool,
  a refusal changed nothing, snapshots included.
\<close>

theorem ops_confined:
  assumes "real_ok (c_env (x_fs ctx))" "request_ok request" "disk_ok (o_disk st)"
    "do_call ctx request c st = (r, st')"
  shows "(\<forall>q. map_of (o_disk st') q \<noteq> map_of (o_disk st) q \<longrightarrow>
      (\<exists>a vis. set vis \<subseteq> set (o_vis st') \<and> allowed ctx (o_disk st) vis a \<and> touches c a q \<and>
         (strict_prefix q (path_comps a) \<longrightarrow> map_of (o_disk st) q = None \<and> map_of (o_disk st') q = Some DDir))) \<and>
    (case r of
       RepStaged op path dst \<Rightarrow>
         (\<exists>row. st_staged (o_fs st') = st_staged (o_fs st) @ [row] \<and> sg_op row = op \<and> sg_path row = path \<and>
            sg_dst row = dst \<and> sg_session row = x_session ctx \<and> sg_run row = x_run ctx \<and> sg_status row = Pending \<and>
            sg_seq row = next_seq (x_session ctx) (x_run ctx) (o_fs st))
     | RepRaise e \<Rightarrow> st_staged (o_fs st') = st_staged (o_fs st)
     | _ \<Rightarrow> o_fs st' = o_fs st)"
  using do_call_ok [OF assms(1-3), of c] assms(4) by (simp add: call_ok_def rows_ok_def change_ok_def)

section \<open>A small session\<close>

definition demo_x :: ops_ctx where
  "demo_x = \<lparr>x_fs = demo_ctx, x_out = demo_out, x_interactive = False, x_compile = (\<lambda>_. None), x_mime = (\<lambda>_. None)\<rparr>"

definition demo_st :: ops_state where
  "demo_st = \<lparr>o_fs = demo_fs, o_vis = demo_vis, o_events = []\<rparr>"

definition no_request :: request where
  "no_request ap kind op st = (False, st)"

lemma demo_ok: "real_ok (c_env (x_fs demo_x))" "request_ok no_request" "disk_ok (o_disk demo_st)"
  using demo_real_ok demo_disk_ok by (simp_all add: demo_x_def demo_st_def request_ok_def no_request_def)

lemma demo_sel: "o_fs demo_st = demo_fs" "c_session demo_ctx = ''s''" "c_run demo_ctx = ''r''" "x_fs demo_x = demo_ctx"
  "st_staged demo_fs = []" "st_rowid demo_fs = 0" "st_disk demo_fs = demo_disk"
  by (simp_all add: demo_st_def demo_x_def demo_fs_def demo_ctx_def)

theorem ops_confined_witness:
  "\<exists>row. st_staged (o_fs (snd (do_call demo_x no_request (CallDelete ''/w/d'' True) demo_st))) = [row] \<and>
     sg_op row = OpDeleteDir \<and> sg_path row = ''/w/d''"
proof -
  have "fst (do_call demo_x no_request (CallDelete ''/w/d'' True) demo_st) = RepStaged OpDeleteDir ''/w/d'' None" by code_simp
  then obtain st' where r: "do_call demo_x no_request (CallDelete ''/w/d'' True) demo_st = (RepStaged OpDeleteDir ''/w/d'' None, st')"
    by (metis prod.collapse)
  show ?thesis unfolding r snd_conv using ops_confined [OF demo_ok r] by (auto simp: demo_sel)
qed

end
