(* ===== verification/Fs_Undo.thy ===== *)
theory Fs_Undo
  imports Fs_Confine
begin

text \<open>
  The single tools of \<open>fs/ops.py\<close> against the staging area: reverting the row a tool staged gives back the disk it
  found. Then what edits do to a file, and where the tools fall short.
\<close>

section \<open>Reverting one change\<close>

definition reverts :: "ops_ctx \<Rightarrow> fs_state \<Rightarrow> fs_state \<Rightarrow> bool" where
  "reverts ctx fs fs' \<longleftrightarrow> (\<exists>row. st_staged fs' = st_staged fs @ [row] \<and> sg_id row = Suc (st_rowid fs) \<and>
     sg_session row = x_session ctx \<and> sg_status row = Pending \<and>
     undoes (st_snaps fs') row (st_disk fs) (st_disk fs') \<and> \<not> snap_missing (st_snaps fs') row)"

definition undo_ok :: "ops_ctx \<Rightarrow> staged_op \<Rightarrow> string \<Rightarrow> fs_state \<Rightarrow> bool" where
  "undo_ok ctx op p fs \<longleftrightarrow>
     (op \<in> {OpWrite, OpDeleteFile} \<longrightarrow> earlier_snapshot (x_run ctx) p fs = None) \<and>
     (op = OpWrite \<longrightarrow> os_isfile (st_disk fs) p \<and> os_at (st_disk fs) (tmp_of p) = None) \<and>
     (op = OpMkdir \<longrightarrow> os_isdir (st_disk fs) (dirname p)) \<and> p \<noteq> ''/''"

lemma reverts_items:
  assumes "reverts ctx fs fs'" "\<forall>row\<in>set (st_staged fs). sg_id row \<le> st_rowid fs"
  shows "\<exists>fs2. revert_items (x_session ctx) [Suc (st_rowid fs)] fs' = (RevOk, fs2) \<and> map_of (st_disk fs2) = map_of (st_disk fs)"
proof -
  obtain row where row: "st_staged fs' = st_staged fs @ [row]" "sg_id row = Suc (st_rowid fs)"
    "sg_session row = x_session ctx" "sg_status row = Pending"
    "undoes (st_snaps fs') row (st_disk fs) (st_disk fs')" "\<not> snap_missing (st_snaps fs') row"
    using assms(1) by (auto simp: reverts_def)
  have "\<forall>x\<in>set (st_staged fs). sg_id x \<noteq> Suc (st_rowid fs)" using assms(2) by fastforce
  then have "filter (\<lambda>x. sg_session x = x_session ctx \<and> sg_id x \<in> set [Suc (st_rowid fs)] \<and> sg_status x = Pending)
      (st_staged fs') = [row]" using row(1-4) by (auto simp: filter_empty_conv)
  then have items: "revert_items (x_session ctx) [Suc (st_rowid fs)] fs' = revert_rows [row] fs'"
    unfolding revert_items_def by (simp add: latest_first_def)
  have "undoable (st_snaps fs') [row] (st_disk fs') (st_disk fs)"
    using row(5,6) by (intro undoable.intros) auto
  from revert_rows_ok [OF this] items show ?thesis by (metis prod.collapse)
qed

lemma undo_write:
  assumes "disk_ok d" "plain_path p" "map_of d (path_comps p) = Some (DFile c)" "map_of d (path_comps (tmp_of p)) = None"
    "map_of d' = written (path_comps p) (path_comps (tmp_of p)) b (map_of d)" "ns_inv (disk_ns d')"
    "sg_op r = OpWrite" "sg_path r = p" "sg_snap r = Some sp" "map_of snaps sp = Some (SnapFile c)"
  shows "undoes snaps r d d'"
proof (rule undoesI)
  fix d1 assume d1: "map_of d1 = map_of d'"
  let ?p = "path_comps p"
  have inv: "ns_inv (disk_ns d)" using assms(1) by (simp add: disk_ok_def)
  have ne: "?p \<noteq> []" using assms(3) inv by (auto simp: ns_inv_def disk_ns_simps)
  have "map_of d q \<noteq> None" if "strict_prefix q ?p" for q
    using ns_inv_strict [OF inv, of ?p q] that assms(3) by (auto simp: disk_ns_simps)
  then have "\<not> (strict_prefix q ?p \<and> map_of d q = None)" for q by blast
  then have "map_of d1 q = ((map_of d)(?p \<mapsto> DFile b)) q" for q
    unfolding d1 assms(5) written_def using assms(4) by (simp only: if_False fun_upd_apply) auto
  then have m: "map_of d1 = (map_of d)(?p \<mapsto> DFile b)" by (rule ext)
  have "disk_ns d1 = disk_ns d'" using d1 by (simp add: disk_ns_def fun_eq_iff)
  then have inv1: "ns_inv (disk_ns d1)" using assms(6) by simp
  have "map_of d1 (butlast ?p) = Some DDir"
    using ns_inv_parent [OF inv1, of ?p] m ne by (simp add: disk_ns_simps)
  then have mk: "os_makedirs True d1 (dirname p) = Inr d1"
    using makedirs_exists [OF inv1] dirname_comps [OF assms(2)] by (simp add: os_makedirs_def)
  have "os_write d1 p c = Inr (dput ?p (DFile c) d1)" using m by (simp add: os_write_def os_at_def)
  with mk m have "replay_reverse snaps r d1 = (None, dput ?p (DFile c) d1)"
    by (simp add: replay_reverse_def assms(7-10) restore_file_def lift_os_def os_isdir_def os_at_def)
  moreover have "map_of (dput ?p (DFile c) d1) = map_of d" using m assms(3) by (auto simp: fun_eq_iff)
  ultimately show "\<exists>d2. replay_reverse snaps r d1 = (None, d2) \<and> map_of d2 = map_of d" by blast
qed

text \<open>The row of a staged reply, over the state the tool worked on.\<close>

lemma staged_reverts:
  assumes "staged_reply ctx seq op p dst snap kind sz fs1 st = (r, st')" "st_staged fs1 = st_staged fs" "st_rowid fs1 = st_rowid fs"
    "\<And>row. sg_op row = op \<Longrightarrow> sg_path row = p \<Longrightarrow> sg_dst row = dst \<Longrightarrow> sg_snap row = snap \<Longrightarrow> sg_kind row = kind \<Longrightarrow>
       undoes (st_snaps fs1) row (st_disk fs) (st_disk fs1)"
    "op \<in> {OpWrite, OpDeleteFile} \<or> op = OpDeleteDir \<and> snap \<noteq> None \<Longrightarrow>
       \<exists>sp. snap = Some sp \<and> sp \<noteq> [] \<and> map_of (st_snaps fs1) sp \<noteq> None"
    "op \<noteq> OpEdit"
  shows "reverts ctx fs (o_fs st')"
proof -
  obtain i fs2 where sg: "stage (x_session ctx) (x_run ctx) seq op p dst snap kind None fs1 = (i, fs2)" by fastforce
  note sel = stage_sel [OF sg]
  let ?row = "\<lparr>sg_id = i, sg_session = x_session ctx, sg_run = x_run ctx, sg_seq = seq, sg_op = op, sg_path = p,
      sg_dst = dst, sg_snap = snap, sg_kind = kind, sg_status = Pending, sg_batch = None\<rparr>"
  have st': "st_staged (o_fs st') = st_staged fs @ [?row]" "st_disk (o_fs st') = st_disk fs1" "st_snaps (o_fs st') = st_snaps fs1"
    using assms(1,2) sg sel by (auto simp: staged_reply_def emit_staged_def)
  have "\<not> snap_missing (st_snaps fs1) ?row" using assms(5,6)
    by (cases op) (auto simp: snap_missing_def needs_snap_def)
  moreover have "undoes (st_snaps fs1) ?row (st_disk fs) (st_disk fs1)" by (rule assms(4)) simp_all
  ultimately show ?thesis unfolding reverts_def using st' sel(3) assms(3) by (intro exI [of _ ?row]) simp
qed

lemma fresh_snapshot:
  assumes "maybe_take_file_snapshot ss sid rid seq path fs = Inr (sp, fs1)" "earlier_snapshot rid path fs = None"
    "os_at (st_disk fs) path = Some (DFile b)"
  shows "sp = snap_key ss sid rid seq path ''.bin''" "fs1 = fs\<lparr>st_snaps := dput sp (SnapFile b) (st_snaps fs)\<rparr>"
proof -
  from assms(1,2) have "take_file ss sid rid seq path fs = Inr (sp, fs1)" by (simp add: maybe_take_file_snapshot_def)
  from take_file_key [OF this] assms(3)
  show "sp = snap_key ss sid rid seq path ''.bin''" "fs1 = fs\<lparr>st_snaps := dput sp (SnapFile b) (st_snaps fs)\<rparr>" by auto
qed

lemma undo_apply_write:
  assumes "disk_ok (o_disk st)" "plain_path ap" "apply_write ctx ap content st = (RepStaged op p dst, st')"
    "undo_ok ctx op p (o_fs st)"
  shows "reverts ctx (o_fs st) (o_fs st')"
proof -
  let ?seq = "next_seq (x_session ctx) (x_run ctx) (o_fs st)" and ?fs = "o_fs st" and ?d = "o_disk st"
  have inv: "ns_inv (disk_ns ?d)" using assms(1) by (simp add: disk_ok_def)
  have op: "op = OpWrite" "p = ap"
    using assms(3) by (auto simp: apply_write_def Let_def staged_reply_def split: sum.splits snap_error.splits prod.splits option.splits)
  then obtain b where b: "os_at ?d ap = Some (DFile b)" and nt: "os_at ?d (tmp_of ap) = None" and
    ear: "earlier_snapshot (x_run ctx) ap ?fs = None"
    using assms(4) by (auto simp: undo_ok_def os_isfile_def split: option.splits dentry.splits)
  have ex: "os_exists ?d ap" using b by (simp add: os_exists_def)
  note aw = assms(3) [unfolded apply_write_def Let_def, simplified ex]
  show ?thesis
  proof (cases "maybe_take_file_snapshot (c_store (x_fs ctx)) (x_session ctx) (x_run ctx) ?seq ap ?fs")
    case (Inl e)
    with aw show ?thesis by (cases e) simp_all
  next
    case (Inr sf)
    obtain sp fs1 where sf: "sf = (sp, fs1)" by fastforce
    note key = fresh_snapshot [OF Inr [unfolded sf] ear b]
    obtain e d' where at: "atomic_write ap content ?d = (e, d')" by fastforce
    show ?thesis
    proof (cases e)
      case None
      obtain b' where w: "map_of d' = written (path_comps ap) (path_comps (tmp_of ap)) b' (map_of ?d)" "ns_inv (disk_ns d')"
        using atomic_ok [OF at [unfolded None] inv assms(2)] by blast
      have rep: "staged_reply ctx ?seq OpWrite ap None (Some sp) (Some KindFile) (length content) (fs1\<lparr>st_disk := d'\<rparr>) st =
          (RepStaged op p dst, st')" using aw Inr sf key at None by simp
      show ?thesis
      proof (rule staged_reverts [OF rep])
        fix row :: staged assume row: "sg_op row = OpWrite" "sg_path row = ap" "sg_snap row = Some sp"
        show "undoes (st_snaps (fs1\<lparr>st_disk := d'\<rparr>)) row (st_disk ?fs) (st_disk (fs1\<lparr>st_disk := d'\<rparr>))"
          using undo_write [OF assms(1,2) _ _ _ w(2) row] w(1) b nt key by (simp add: os_at_def)
      qed (use key snap_key_ne in simp_all)
    next
      case (Some y)
      with aw Inr sf key at show ?thesis by simp
    qed
  qed
qed

lemma undo_apply_delete:
  assumes "disk_ok (o_disk st)" "plain_path ap" "apply_delete ctx ap recursive st = (RepStaged op p dst, st')"
    "undo_ok ctx op p (o_fs st)"
  shows "reverts ctx (o_fs st) (o_fs st')"
proof -
  let ?seq = "next_seq (x_session ctx) (x_run ctx) (o_fs st)" and ?fs = "o_fs st" and ?d = "o_disk st" and ?p = "path_comps ap"
  note ad = assms(3) [unfolded apply_delete_def Let_def]
  have ex: "os_exists ?d ap" and nr: "ap \<notin> set (map fst (load_visible (o_vis st) (x_session ctx)))"
    using ad by (auto split: if_splits)
  note ad = ad [simplified ex nr not_True_eq_False if_False]
  have eff: "map_of (prune ?p ?d) = eff_delete ?p (map_of ?d)" by simp
  show ?thesis
  proof (cases "os_at ?d ap")
    case None
    with ex show ?thesis by (simp add: os_exists_def)
  next
    case (Some e)
    show ?thesis
    proof (cases e)
      case (DFile b)
      show ?thesis
      proof (cases "maybe_take_file_snapshot (c_store (x_fs ctx)) (x_session ctx) (x_run ctx) ?seq ap ?fs")
        case (Inl y)
        with ad Some DFile show ?thesis by (cases y) simp_all
      next
        case (Inr sf)
        obtain sp fs1 where sf: "sf = (sp, fs1)" by fastforce
        note k = maybe_keeps [OF Inr [unfolded sf]]
        have rm: "os_remove ?d ap = Inr (prune ?p ?d)" using Some DFile by (simp add: os_remove_def)
        with ad Some DFile Inr sf k have rep: "staged_reply ctx ?seq OpDeleteFile ap None (Some sp) (Some KindFile) (length b)
            (fs1\<lparr>st_disk := prune ?p ?d\<rparr>) st = (RepStaged op p dst, st')" by simp
        then have "op = OpDeleteFile" "p = ap" by (auto simp: staged_reply_def split: prod.splits)
        with assms(4) have "earlier_snapshot (x_run ctx) ap ?fs = None" by (simp add: undo_ok_def)
        note key = fresh_snapshot [OF Inr [unfolded sf] this Some [unfolded DFile]]
        show ?thesis
        proof (rule staged_reverts [OF rep])
          fix row :: staged assume row: "sg_op row = OpDeleteFile" "sg_path row = ap" "sg_snap row = Some sp"
          show "undoes (st_snaps (fs1\<lparr>st_disk := prune ?p ?d\<rparr>)) row (st_disk ?fs) (st_disk (fs1\<lparr>st_disk := prune ?p ?d\<rparr>))"
            using undo_delete_file [OF assms(1,2) _ _ row] Some DFile key by (simp add: os_at_def)
        qed (use key snap_key_ne in simp_all)
      qed
    next
      case DDir
      then have dir: "map_of ?d ?p = Some DDir" using Some by (simp add: os_at_def)
      have rm: "os_rmtree ?d ap = Inr (prune ?p ?d)" using Some DDir by (simp add: os_rmtree_def)
      show ?thesis
      proof (cases "entries ?d ?p = []")
        case True
        with ad Some DDir rm have rep: "staged_reply ctx ?seq OpDeleteDir ap None None None 0 (?fs\<lparr>st_disk := prune ?p ?d\<rparr>) st =
            (RepStaged op p dst, st')" by simp
        then have "p = ap" by (auto simp: staged_reply_def split: prod.splits)
        then have ne: "?p \<noteq> []" using assms(2,4) by (metis undo_ok_def abs_path_def canonical_def plain_path_def)
        show ?thesis
        proof (rule staged_reverts [OF rep])
          fix row :: staged assume row: "sg_op row = OpDeleteDir" "sg_path row = ap" "sg_snap row = None"
          show "undoes (st_snaps (?fs\<lparr>st_disk := prune ?p ?d\<rparr>)) row (st_disk ?fs) (st_disk (?fs\<lparr>st_disk := prune ?p ?d\<rparr>))"
            using undo_delete_empty_dir [OF assms(1) dir ne _ _ row] True by (simp add: entries_Nil_iff)
        qed simp_all
      next
        case False
        show ?thesis
        proof (cases "take_tar (c_store (x_fs ctx)) (x_session ctx) (x_run ctx) ?seq ap ?fs")
          case (Inl y)
          with ad Some DDir False show ?thesis by (simp split: if_splits)
        next
          case (Inr sf)
          obtain sp fs1 where sf: "sf = (sp, fs1)" by fastforce
          note key = take_tar_key [OF Inr [unfolded sf]]
          then have k: "st_disk fs1 = ?d" by simp
          have rep: "staged_reply ctx ?seq OpDeleteDir ap None (Some sp) (Some KindTar) 0
              (fs1\<lparr>st_disk := prune ?p ?d\<rparr>) st = (RepStaged op p dst, st')"
            using ad Some DDir rm False Inr sf k by (simp split: if_splits)
          then have "p = ap" by (auto simp: staged_reply_def split: prod.splits)
          then have ne: "?p \<noteq> []" using assms(2,4) by (metis undo_ok_def abs_path_def canonical_def plain_path_def)
          have sp: "sp \<noteq> []" "map_of (st_snaps fs1) sp = Some (SnapTar (archive (subtree ?d ?p)))" using key snap_key_ne by auto
          show ?thesis
          proof (rule staged_reverts [OF rep])
            fix row :: staged
            assume row: "sg_op row = OpDeleteDir" "sg_path row = ap" "sg_snap row = Some sp" "sg_kind row = Some KindTar"
            show "undoes (st_snaps (fs1\<lparr>st_disk := prune ?p ?d\<rparr>)) row (st_disk ?fs) (st_disk (fs1\<lparr>st_disk := prune ?p ?d\<rparr>))"
              using undo_delete_tree [OF assms(1,2) dir ne _ row(1-3) sp(1) row(4)] sp(2) by simp
          qed (use key sp in auto)
        qed
      qed
    qed
  qed
qed

lemma undo_apply_mkdir:
  assumes "disk_ok (o_disk st)" "plain_path ap" "apply_mkdir ctx ap parents st = (RepStaged op p dst, st')"
    "undo_ok ctx op p (o_fs st)"
  shows "reverts ctx (o_fs st) (o_fs st')"
proof -
  let ?seq = "next_seq (x_session ctx) (x_run ctx) (o_fs st)" and ?fs = "o_fs st" and ?d = "o_disk st" and ?p = "path_comps ap"
  have inv: "ns_inv (disk_ns ?d)" using assms(1) by (simp add: disk_ok_def)
  obtain d' where d': "(if parents then os_makedirs False ?d ap else os_mkdir ?d ap) = Inr d'" "\<not> os_exists ?d ap"
    and rep: "staged_reply ctx ?seq OpMkdir ap None None None 0 (?fs\<lparr>st_disk := d'\<rparr>) st = (RepStaged op p dst, st')"
    using assms(3) by (auto simp: apply_mkdir_def Let_def split: sum.splits if_splits)
  from rep have "op = OpMkdir" "p = ap" by (auto simp: staged_reply_def split: prod.splits)
  then have par: "map_of ?d (butlast ?p) = Some DDir" and ne: "ap \<noteq> ''/''"
    using assms(4) dirname_comps [OF assms(2)] by (simp_all add: undo_ok_def os_isdir_def os_at_def)
  then have pe: "?p \<noteq> []" using assms(2) by (metis abs_path_def canonical_def plain_path_def)
  have none: "map_of ?d ?p = None" using d'(2) by (simp add: os_exists_def os_at_def)
  have m: "map_of d' = eff_mkdir DDir ?p (map_of ?d)"
  proof (cases parents)
    case True
    with d' makedirs_change [OF _ inv] show ?thesis by (simp add: os_makedirs_def)
  next
    case False
    with d' mkdir_at_change [of ?d ?p d'] mkdir_eff [OF inv none] par show ?thesis
      by (simp add: os_mkdir_def disk_ns_simps)
  qed
  have "disk_ns ?d q \<noteq> Some False" if "prefix q ?p" for q
  proof -
    have "q = ?p \<or> q = butlast ?p \<or> strict_prefix q (butlast ?p)"
      using that pe prefix_snoc [of q "butlast ?p" "last ?p"] by (auto simp: strict_prefix_def)
    then show ?thesis using none par ns_inv_strict [OF inv, of "butlast ?p" q] by (auto simp: disk_ns_simps)
  qed
  then have err: "mkdir_error parents ?p (disk_ns ?d) = None"
    using none pe par by (simp add: mkdir_error_None disk_ns_simps)
  show ?thesis
  proof (rule staged_reverts [OF rep])
    fix row :: staged assume row: "sg_op row = OpMkdir" "sg_path row = ap"
    show "undoes (st_snaps (?fs\<lparr>st_disk := d'\<rparr>)) row (st_disk ?fs) (st_disk (?fs\<lparr>st_disk := d'\<rparr>))"
      using undo_mkdir [OF assms(1) err _ m row] par by simp
  qed simp_all
qed

lemma undo_apply_rename:
  assumes "disk_ok (o_disk st)" "apply_rename ctx s t st = (RepStaged op p dst, st')"
  shows "reverts ctx (o_fs st) (o_fs st')"
proof -
  let ?seq = "next_seq (x_session ctx) (x_run ctx) (o_fs st)" and ?fs = "o_fs st" and ?d = "o_disk st"
  obtain d' where d': "os_rename ?d s t = Inr d'" "os_exists ?d s" "\<not> os_exists ?d t"
    and rep: "staged_reply ctx ?seq OpRename s (Some t) None None 0 (?fs\<lparr>st_disk := d'\<rparr>) st = (RepStaged op p dst, st')"
    using assms(2) by (auto simp: apply_rename_def Let_def split: sum.splits if_splits)
  have m: "map_of d' = eff_rename (path_comps s) (path_comps t) (map_of ?d)" "\<not> prefix (path_comps s) (path_comps t)"
    "map_of ?d (butlast (path_comps t)) = Some DDir"
    using os_rename_change [OF d'(1)] d'(2,3) by (auto simp: os_exists_def os_at_def)
  then have err: "rename_error (path_comps s) (path_comps t) (disk_ns ?d) = None"
    using d'(2,3) by (simp add: rename_error_def disk_ns_simps os_exists_def os_at_def)
  show ?thesis
  proof (rule staged_reverts [OF rep])
    fix row :: staged assume row: "sg_op row = OpRename" "sg_path row = s" "sg_dst row = Some t"
    show "undoes (st_snaps (?fs\<lparr>st_disk := d'\<rparr>)) row (st_disk ?fs) (st_disk (?fs\<lparr>st_disk := d'\<rparr>))"
      using undo_rename [OF assms(1) err _ row] m(1) by simp
  qed simp_all
qed

lemma call_reverts:
  assumes "real_ok (c_env (x_fs ctx))" "request_ok request" "disk_ok (o_disk st)"
    "do_call ctx request c st = (RepStaged op p dst, st')" "undo_ok ctx op p (o_fs st)"
  shows "reverts ctx (o_fs st) (o_fs st')"
proof -
  have wr: "reverts ctx (o_fs s) (o_fs st')"
    if "write_file ctx request path content s = (RepStaged op p dst, st')" "o_fs s = o_fs st" for path content s
    using that(1) [unfolded write_file_def] assms(2,1)
  proof (cases rule: with_path_cases)
    case (work ap st1)
    then have "disk_ok (o_disk st1)" "undo_ok ctx op p (o_fs st1)" using assms(3,5) that(2) by simp_all
    from undo_apply_write [OF this(1) allowed_plain [OF work(5)] work(1) this(2)] work(2) show ?thesis by simp
  qed simp
  show ?thesis
  proof (cases c)
    case (CallWrite path content)
    with wr [of path content st] assms(4) show ?thesis by simp
  next
    case (CallEdit path old new)
    have ed: "edit_file ctx request path old new st = (RepStaged op p dst, st')" using assms(4) CallEdit by simp
    from ed [unfolded edit_file_def] assms(2,1) show ?thesis
    proof (cases rule: with_path_cases)
      case (work ap st1)
      then obtain b where "write_file ctx request ap (replace_once old new (read_text b)) st1 = (RepStaged op p dst, st')"
        by (auto simp: Let_def split: option.splits dentry.splits if_splits)
      from wr [OF this] work(2) show ?thesis by simp
    qed simp
  next
    case (CallDelete path recursive)
    have de: "delete_path ctx request path recursive st = (RepStaged op p dst, st')" using assms(4) CallDelete by simp
    from de [unfolded delete_path_def] assms(2,1) show ?thesis
    proof (cases rule: with_path_cases)
      case (work ap st1)
      then have "disk_ok (o_disk st1)" "undo_ok ctx op p (o_fs st1)" using assms(3,5) by simp_all
      from undo_apply_delete [OF this(1) allowed_plain [OF work(5)] work(1) this(2)] work(2) show ?thesis by simp
    qed simp
  next
    case (CallMkdir path parents)
    have mk: "op_mkdir ctx request path parents st = (RepStaged op p dst, st')" using assms(4) CallMkdir by simp
    from mk [unfolded op_mkdir_def] assms(2,1) show ?thesis
    proof (cases rule: with_path_cases)
      case (work ap st1)
      then have "disk_ok (o_disk st1)" "undo_ok ctx op p (o_fs st1)" using assms(3,5) by simp_all
      from undo_apply_mkdir [OF this(1) allowed_plain [OF work(5)] work(1) this(2)] work(2) show ?thesis by simp
    qed simp
  next
    case (CallRename src dest)
    have rn: "op_rename ctx request src dest st = (RepStaged op p dst, st')" using assms(4) CallRename by simp
    from rn [unfolded op_rename_def] assms(2,1) show ?thesis
    proof (cases rule: with_path_cases)
      case (work s st1)
      from work(1) assms(2,1) show ?thesis
      proof (cases rule: with_path_cases)
        case w2: (work t st2)
        have "disk_ok (o_disk st2)" using assms(3) work(2) w2(2) by simp
        from undo_apply_rename [OF this w2(1)] work(2) w2(2) show ?thesis by simp
      qed simp
    qed simp
  qed
qed

text \<open>
  C13. Every staged change can be taken back on its own: after a call of a writing tool that was staged, reverting just
  the row it recorded succeeds and the disk holds again what it held before the call. This asks, for a write, that the
  file existed and nothing lay under the temporary name, and for a file, that this run has no earlier snapshot
  of it (that one would be restored instead); for a new directory, that its parent existed.
\<close>

theorem op_undo:
  assumes "real_ok (c_env (x_fs ctx))" "request_ok request" "disk_ok (o_disk st)"
    "do_call ctx request c st = (RepStaged op p dst, st')" "undo_ok ctx op p (o_fs st)"
    "\<forall>row\<in>set (st_staged (o_fs st)). sg_id row \<le> st_rowid (o_fs st)"
  shows "\<exists>fs2. revert_items (x_session ctx) [Suc (st_rowid (o_fs st))] (o_fs st') = (RevOk, fs2) \<and>
    map_of (st_disk fs2) = map_of (o_disk st)"
  using call_reverts [OF assms(1-5)] assms(6) by (rule reverts_items)

section \<open>Edits\<close>

lemma count_sub_none: "count_sub old t = 0 \<longleftrightarrow> \<not> sublist old t"
proof (induction old t rule: count_sub.induct)
  case (2 old c t)
  then show ?case
    by (cases "old = []") (auto simp: startswith_def sublist_Cons_right)
qed simp

lemma replace_first:
  assumes "sublist old t"
  shows "\<exists>pre suf. t = pre @ old @ suf \<and> replace_once old new t = pre @ new @ suf \<and> (\<forall>k<length pre. \<not> prefix old (drop k t))"
  using assms
proof (induction t)
  case (Cons c t)
  show ?case
  proof (cases "prefix old (c # t)")
    case True
    then obtain suf where "c # t = old @ suf" by (auto simp: prefix_def)
    moreover from True have "replace_once old new (c # t) = new @ drop (length old) (c # t)" by (simp add: startswith_def)
    ultimately show ?thesis by (intro exI [of _ "[]"] exI [of _ suf]) simp
  next
    case False
    with Cons.prems have "sublist old t" by (simp add: sublist_Cons_right)
    from Cons.IH [OF this] obtain pre suf where ps: "t = pre @ old @ suf" "replace_once old new t = pre @ new @ suf"
      "\<forall>k<length pre. \<not> prefix old (drop k t)" by blast
    have "\<not> prefix old (drop k (c # t))" if "k < length (c # pre)" for k
      using that ps(3) False by (cases k) simp_all
    with ps False show ?thesis by (intro exI [of _ "c # pre"] exI [of _ suf]) (simp add: startswith_def)
  qed
qed auto

lemma resolved_real:
  assumes "real_ok (c_env (x_fs ctx))" "resolve_and_gate_or_request ctx request raw op st = (RPath ap, st1)"
  shows "e_realpath (c_env (x_fs ctx)) ap = ap" "plain_path ap"
    "plain_path raw \<Longrightarrow> e_realpath (c_env (x_fs ctx)) raw = raw \<Longrightarrow> ap = raw"
proof -
  have "resolve_and_gate ctx raw st1 = Inr ap" using resolved_cases [OF assms(2)] by blast
  then have res: "resolve_path (x_env ctx st1) raw (x_session ctx) (o_vis st1) = Inr ap"
    by (auto simp: resolve_and_gate_def split: sum.splits option.splits)
  have env: "e_realpath (x_env ctx st1) = e_realpath (c_env (x_fs ctx))" by (simp add: x_env_def env_of_def)
  from resolve_path_real [OF res] env obtain q where q: "ap = e_realpath (c_env (x_fs ctx)) q" by auto
  with assms(1) show "e_realpath (c_env (x_fs ctx)) ap = ap" "plain_path ap" unfolding real_ok_def by metis+
  show "ap = raw" if "plain_path raw" "e_realpath (c_env (x_fs ctx)) raw = raw"
    using res
  proof (cases rule: resolve_path_cases)
    case own
    with env that show ?thesis by simp
  next
    case (vis a v)
    have "CHR 0x00 \<notin> set raw" "isabs raw" using vis(1) that(1)
      by (auto simp: anchor_def plain_path_def intro: canonical_isabs split: if_splits)
    then have "a = raw" using vis(1) abspath_plain [OF that(1)] by (simp add: anchor_def)
    with vis(2) env that show ?thesis by simp
  qed
qed

lemma write_staged:
  assumes "real_ok (c_env (x_fs ctx))" "request_ok request" "disk_ok (o_disk st)"
    "write_file ctx request path content st = (RepStaged op p dst, st')"
  shows "op = OpWrite \<and> (\<exists>b. utf8_encode content = Some b \<and> os_at (o_disk st') p = Some (DFile b))"
    "plain_path path \<Longrightarrow> e_realpath (c_env (x_fs ctx)) path = path \<Longrightarrow> p = path"
proof -
  from assms(4) [unfolded write_file_def] assms(2,1) obtain ap st1 where
    w: "apply_write ctx ap content st1 = (RepStaged op p dst, st')" "o_fs st1 = o_fs st"
      "resolve_and_gate_or_request ctx request path ''write'' st = (RPath ap, st1)"
    by (cases rule: with_path_cases) auto
  have inv: "ns_inv (disk_ns (o_disk st1))" using assms(3) w(2) by (simp add: disk_ok_def)
  note rr = resolved_real [OF assms(1) w(3)]
  obtain seq snap kind sz fs1 d where
    at: "atomic_write ap content (o_disk st1) = (None, d)" and
    rep: "staged_reply ctx seq OpWrite ap None snap kind sz (fs1\<lparr>st_disk := d\<rparr>) st1 = (RepStaged op p dst, st')"
  proof -
    let ?s = "next_seq (x_session ctx) (x_run ctx) (o_fs st1)"
    show thesis
    proof (cases "os_exists (o_disk st1) ap")
      case False
      with w(1) show thesis
        by (auto simp: apply_write_def Let_def split: prod.splits option.splits intro: that)
    next
      case True
      show thesis
      proof (cases "maybe_take_file_snapshot (c_store (x_fs ctx)) (x_session ctx) (x_run ctx) ?s ap (o_fs st1)")
        case (Inl e)
        with w(1) True show thesis by (cases e) (simp_all add: apply_write_def Let_def)
      next
        case (Inr sf)
        obtain sp fs1 where sf: "sf = (sp, fs1)" by fastforce
        note k = maybe_keeps [OF Inr [unfolded sf]]
        from w(1) True Inr sf k show thesis
          by (auto simp: apply_write_def Let_def split: prod.splits option.splits intro: that)
      qed
    qed
  qed
  from rep have op: "op = OpWrite" "p = ap" and d: "o_disk st' = d"
    by (auto simp: staged_reply_def emit_staged_def stage_def Let_def)
  from atomic_ok [OF at inv rr(2)] op d
  show "op = OpWrite \<and> (\<exists>b. utf8_encode content = Some b \<and> os_at (o_disk st') p = Some (DFile b))"
    by (auto simp: os_at_def written_def)
  show "p = path" if "plain_path path" "e_realpath (c_env (x_fs ctx)) path = path"
    using rr(3) [OF that] op by simp
qed

text \<open>
  An edit that is staged replaced one occurrence: the file it names held a text with the old string in it, found exactly
  once by the count; the file now holds the encoding of that text with the first occurrence, and nothing else,
  replaced by the new string. Read again, it is that text.
\<close>

theorem edit_exact:
  assumes "real_ok (c_env (x_fs ctx))" "request_ok request" "disk_ok (o_disk st)"
    "edit_file ctx request path old new st = (RepStaged op p dst, st')"
  shows "\<exists>b b' pre suf. os_at (o_disk st) p = Some (DFile b) \<and> read_text b = pre @ old @ suf \<and>
    (\<forall>k<length pre. \<not> prefix old (drop k (read_text b))) \<and> count_sub old (read_text b) = 1 \<and>
    os_at (o_disk st') p = Some (DFile b') \<and> utf8_encode (pre @ new @ suf) = Some b' \<and>
    (13 \<notin> set new \<longrightarrow> read_text b' = pre @ new @ suf)"
proof -
  from assms(4) [unfolded edit_file_def] assms(2,1) obtain ap st1 where
    w: "(case os_at (o_disk st1) ap of
         Some (DFile b) \<Rightarrow>
           (let txt = read_text b; n = count_sub old txt
            in if n = 0 then (RepNoMatch, st1)
               else if n > 1 then (RepNotUnique n, st1)
               else write_file ctx request ap (replace_once old new txt) st1)
       | _ \<Rightarrow> (RepNotFile ap, st1)) = (RepStaged op p dst, st')" "o_fs st1 = o_fs st"
      "resolve_and_gate_or_request ctx request path ''write'' st = (RPath ap, st1)"
    by (cases rule: with_path_cases) auto
  then obtain b where b: "os_at (o_disk st1) ap = Some (DFile b)" "count_sub old (read_text b) = 1"
    "write_file ctx request ap (replace_once old new (read_text b)) st1 = (RepStaged op p dst, st')"
    by (auto simp: Let_def split: option.splits dentry.splits if_splits)
  note rr = resolved_real [OF assms(1) w(3)]
  have d: "disk_ok (o_disk st1)" using assms(3) w(2) by simp
  note ws = write_staged [OF assms(1,2) d b(3)]
  have p: "p = ap" by (rule ws(2) [OF rr(2,1)])
  have "sublist old (read_text b)" using b(2) count_sub_none [of old "read_text b"] by simp
  from replace_first [OF this, of new] obtain pre suf where ps: "read_text b = pre @ old @ suf"
    "replace_once old new (read_text b) = pre @ new @ suf" "\<forall>k<length pre. \<not> prefix old (drop k (read_text b))" by blast
  obtain b' where b': "utf8_encode (pre @ new @ suf) = Some b'" "os_at (o_disk st') p = Some (DFile b')"
    using ws(1) ps(2) by auto
  have "read_text b' = pre @ new @ suf" if "13 \<notin> set new"
  proof -
    have "13 \<notin> set (pre @ old @ suf)" using universal_newlines_no_cr ps(1) by (metis read_text_def)
    with that show ?thesis
      unfolding read_text_def utf8_roundtrip [OF b'(1)] by (intro universal_newlines_id) auto
  qed
  with b(1,2) b' ps p w(2) show ?thesis by (intro exI conjI impI) auto
qed

theorem op_undo_witness:
  "\<exists>fs2. revert_items ''s'' [1] (o_fs (snd (do_call demo_x no_request (CallWrite ''/w/a'' [57]) demo_st))) = (RevOk, fs2) \<and>
     map_of (st_disk fs2) = map_of demo_disk"
proof -
  have "fst (do_call demo_x no_request (CallWrite ''/w/a'' [57]) demo_st) = RepStaged OpWrite ''/w/a'' None" by code_simp
  then obtain st' where r: "do_call demo_x no_request (CallWrite ''/w/a'' [57]) demo_st = (RepStaged OpWrite ''/w/a'' None, st')"
    by (metis prod.collapse)
  have "undo_ok demo_x OpWrite ''/w/a'' (o_fs demo_st)" by code_simp
  from op_undo [OF demo_ok r this] show ?thesis unfolding r snd_conv by (simp add: demo_sel)
qed

theorem edit_exact_witness:
  "\<exists>b'. os_at (o_disk (snd (edit_file demo_x no_request ''/w/a'' [49] [57, 57] demo_st))) ''/w/a'' = Some (DFile b') \<and>
     utf8_encode [57, 57] = Some b'"
proof -
  have "fst (edit_file demo_x no_request ''/w/a'' [49] [57, 57] demo_st) = RepStaged OpWrite ''/w/a'' None" by code_simp
  then obtain st' where r: "edit_file demo_x no_request ''/w/a'' [49] [57, 57] demo_st = (RepStaged OpWrite ''/w/a'' None, st')"
    by (metis prod.collapse)
  have f: "os_at (o_disk demo_st) ''/w/a'' = Some (DFile ''1'')" "read_text ''1'' = [49]" by code_simp+
  from edit_exact [OF demo_ok r] f obtain b' pre suf where
    "[49] = pre @ [49] @ suf" "os_at (o_disk st') ''/w/a'' = Some (DFile b')" "utf8_encode (pre @ [57, 57] @ suf) = Some b'"
    by auto
  then show ?thesis by (auto simp: r Cons_eq_append_conv append_eq_Cons_conv)
qed

section \<open>Where the tools fall short\<close>

text \<open>An edit rewrites the line ends of the whole file, far from the text it replaces.\<close>

lemma edit_rewrites_newlines:
  "utf8_encode (replace_once (utext ''b'') (utext ''c'') (read_text [CHR ''a'', CHR 0x0D, CHR 0x0A, CHR ''b''])) =
     Some [CHR ''a'', CHR 0x0A, CHR ''c'']"
  by code_simp

text \<open>The count skips overlapping occurrences, so an old string at two places counts as unique.\<close>

lemma count_misses_overlap:
  "count_sub (utext ''aa'') (utext ''aaa'') = 1 \<and> prefix (utext ''aa'') (utext ''aaa'') \<and>
   prefix (utext ''aa'') (drop 1 (utext ''aaa''))"
  by code_simp

text \<open>
  A resource is recorded under the path it was added with, while the guard against deleting it compares real paths: one
  recorded with a trailing slash, or through a link, can be deleted as a whole.
\<close>

definition slash_x :: ops_ctx where
  "slash_x = demo_x\<lparr>x_fs := demo_ctx\<lparr>c_env := (c_env demo_ctx)\<lparr>e_realpath := (\<lambda>p. if p \<in> set [''/w'', ''/w/''] then ''/w'' else ''/'')\<rparr>\<rparr>\<rparr>"

definition slash_st :: ops_state where
  "slash_st = demo_st\<lparr>o_vis := [\<lparr>vr_session = ''s'', vr_path = ''/w/'', vr_kind = ''folder'', vr_added_at = 0\<rparr>]\<rparr>"

lemma root_guard_misses:
  "fst (delete_path slash_x no_request ''/w'' True slash_st) = RepStaged OpDeleteDir ''/w'' None"
  "o_disk (snd (delete_path slash_x no_request ''/w'' True slash_st)) = [([], DDir)]"
  by code_simp+

end
