(* ===== verification/Fs_Read.thy ===== *)
theory Fs_Read
  imports Fs_Undo "HOL-Library.List_Lexorder" "HOL-Library.Char_ord"
begin

text \<open>
  The reading tools of \<open>fs/ops.py\<close>: directory listings, file contents whole or by lines, and the two that walk a tree,
  by name and by content. The theorems say what a walk yields, and that nothing outside of the scope or
  behind the ignore rules is listed or read.
\<close>

section \<open>fnmatch\<close>

text \<open>
  Python's shell patterns. A set is cut into chunks at the hyphens that make a range, between the last character of one
  chunk and the first of the next; an empty range is dropped, so that the two chunks become one.
\<close>

datatype glob_item = GAny | GOne char | GClass bool "(char \<times> char) list"

fun until_dash :: "nat \<Rightarrow> string \<Rightarrow> string \<times> string option" where
  "until_dash n [] = ([], None)"
| "until_dash 0 (c # cs) =
     (if c = CHR ''-'' then ([], Some cs) else case until_dash 0 cs of (a, r) \<Rightarrow> (c # a, r))"
| "until_dash (Suc n) (c # cs) = (case until_dash n cs of (a, r) \<Rightarrow> (c # a, r))"

lemma until_dash_shorter: "until_dash n s = (a, Some r) \<Longrightarrow> length r < length s"
  by (induction n s arbitrary: a r rule: until_dash.induct) (force split: if_splits prod.splits)+

function set_chunks :: "nat \<Rightarrow> string \<Rightarrow> string list" where
  "set_chunks n s = (case until_dash n s of
     (a, None) \<Rightarrow> [a]
   | (a, Some r) \<Rightarrow> if r = [] then [a @ ''-''] else a # set_chunks 2 r)"
  by pat_completeness auto
termination by (relation "measure (length \<circ> snd)") (auto dest!: until_dash_shorter [OF sym])

fun merge_empty :: "string list \<Rightarrow> string list" where
  "merge_empty (a # cs) = (case merge_empty cs of
     [] \<Rightarrow> [a]
   | b # bs \<Rightarrow> if (of_char (hd b) :: nat) < of_char (last a) then (butlast a @ tl b) # bs else a # b # bs)"
| "merge_empty [] = []"

function class_ranges :: "string list \<Rightarrow> (char \<times> char) list" where
  "class_ranges [] = []"
| "class_ranges [a] = map (\<lambda>c. (c, c)) a"
| "class_ranges (a # b # bs) =
     (if a = [] then (CHR ''-'', CHR ''-'') # class_ranges (b # bs)
      else map (\<lambda>c. (c, c)) (butlast a) @ (last a, hd b) # class_ranges (tl b # bs))"
  by pat_completeness auto
termination by (relation "measure length") auto

definition set_item :: "string \<Rightarrow> glob_item" where
  "set_item stuff =
     (let cs = merge_empty (set_chunks (if startswith stuff ''!'' then 2 else 1) stuff); joined = join_with ''-'' cs
      in if joined = [] then GClass False []
         else if joined = ''!'' then GClass True []
         else if hd joined = CHR ''!'' then GClass True (class_ranges (tl (hd cs) # tl cs))
         else GClass False (class_ranges cs))"

text \<open>The closing bracket of a set, which may not be its first character.\<close>

definition set_from :: "nat \<Rightarrow> string \<Rightarrow> (string \<times> string) option" where
  "set_from n s =
     (let body = takeWhile (\<lambda>c. c \<noteq> CHR '']'') (drop n s); rest = dropWhile (\<lambda>c. c \<noteq> CHR '']'') (drop n s)
      in if rest = [] then None else Some (take n s @ body, tl rest))"

definition set_end :: "string \<Rightarrow> (string \<times> string) option" where
  "set_end s =
     (let lead = (if startswith s ''!'' then 1 else 0)
      in set_from (lead + (if startswith (drop lead s) '']'' then 1 else 0)) s)"

lemma set_end_shorter: "set_end s = Some (stuff, rest) \<Longrightarrow> length rest < length s"
proof -
  have "length rest < length s" if "set_from n s = Some (stuff, rest)" for n
  proof -
    have "length (dropWhile (\<lambda>c. c \<noteq> CHR '']'') (drop n s)) \<le> length s"
      using length_dropWhile_le [of "\<lambda>c. c \<noteq> CHR '']''" "drop n s"] by simp
    with that show ?thesis
      by (cases "dropWhile (\<lambda>c. c \<noteq> CHR '']'') (drop n s)") (auto simp: set_from_def)
  qed
  then show "set_end s = Some (stuff, rest) \<Longrightarrow> length rest < length s" unfolding set_end_def Let_def .
qed

function glob_items :: "string \<Rightarrow> glob_item list" where
  "glob_items [] = []"
| "glob_items (c # cs) =
     (if c = CHR ''*'' then GAny # glob_items cs
      else if c = CHR ''?'' then GClass True [] # glob_items cs
      else if c = CHR ''['' then
        (case set_end cs of None \<Rightarrow> GOne c # glob_items cs | Some (stuff, rest) \<Rightarrow> set_item stuff # glob_items rest)
      else GOne c # glob_items cs)"
  by pat_completeness auto
termination by (relation "measure length") (auto dest!: set_end_shorter)

fun item_ok :: "glob_item \<Rightarrow> char \<Rightarrow> bool" where
  "item_ok GAny c = True"
| "item_ok (GOne x) c \<longleftrightarrow> c = x"
| "item_ok (GClass neg rs) c \<longleftrightarrow>
     neg \<noteq> list_ex (\<lambda>(a, b). (of_char a :: nat) \<le> of_char c \<and> (of_char c :: nat) \<le> of_char b) rs"

fun glob_match :: "glob_item list \<Rightarrow> string \<Rightarrow> bool" where
  "glob_match [] s \<longleftrightarrow> s = []"
| "glob_match (GAny # g) [] \<longleftrightarrow> glob_match g []"
| "glob_match (GAny # g) (c # s) \<longleftrightarrow> glob_match g (c # s) \<or> glob_match (GAny # g) s"
| "glob_match (i # g) [] \<longleftrightarrow> False"
| "glob_match (i # g) (c # s) \<longleftrightarrow> item_ok i c \<and> glob_match g s"

definition fnmatch :: "string \<Rightarrow> string \<Rightarrow> bool" where
  "fnmatch name pat \<longleftrightarrow> glob_match (glob_items pat) name"

section \<open>Listing a directory\<close>

definition with_read :: "ops_ctx \<Rightarrow> request \<Rightarrow> string \<Rightarrow> string \<Rightarrow> (string \<Rightarrow> ops_state \<Rightarrow> op_reply) \<Rightarrow>
    ops_state \<Rightarrow> op_reply \<times> ops_state" where
  "with_read ctx request raw op f st = with_path ctx request raw op (\<lambda>ap st1. (f ap st1, st1)) st"

definition is_blocked :: "ops_ctx \<Rightarrow> ops_state \<Rightarrow> string \<Rightarrow> bool" where
  "is_blocked ctx st p \<longleftrightarrow> op_gate ctx st p \<noteq> None"

fun size_of :: "dentry \<Rightarrow> nat option" where
  "size_of DDir = None"
| "size_of (DFile b) = Some (length b)"

definition list_dir :: "ops_ctx \<Rightarrow> request \<Rightarrow> string \<Rightarrow> ops_state \<Rightarrow> op_reply \<times> ops_state" where
  "list_dir ctx request path st = with_read ctx request path ''list'' (\<lambda>ap st1.
     if \<not> os_isdir (o_disk st1) ap then RepNotDir ap
     else RepEntries (map (\<lambda>(n, e). (n, size_of e))
       (filter (\<lambda>(n, e). \<not> is_blocked ctx st1 (path_join ap n)) (sort_key fst (entries (o_disk st1) (path_comps ap)))))) st"

section \<open>Reading a file\<close>

definition mime_is_text :: "string \<Rightarrow> bool" where
  "mime_is_text mime \<longleftrightarrow> startswith mime ''text/'' \<or> mime = ''application/json''"

definition binary_marker :: "ops_ctx \<Rightarrow> string \<Rightarrow> string \<Rightarrow> op_reply option" where
  "binary_marker ctx ap b = (case x_mime ctx ap of
     Some mime \<Rightarrow> if mime \<noteq> [] \<and> \<not> mime_is_text mime then Some (RepBinary (Some mime) (length b))
                  else if CHR 0x00 \<in> set (take 4096 b) then Some (RepBinary None (length b)) else None
   | None \<Rightarrow> if CHR 0x00 \<in> set (take 4096 b) then Some (RepBinary None (length b)) else None)"

definition fence_if_offload :: "ops_ctx \<Rightarrow> string \<Rightarrow> codes \<Rightarrow> codes" where
  "fence_if_offload ctx ap t =
     (if t \<noteq> [] \<and> is_offload_path (x_out ctx) ap
      then (let f = fence_untrusted (utext ''tool-output'') t (length t + 1) in if f = [] then t else f)
      else t)"

definition offload_reply :: "string \<Rightarrow> string \<Rightarrow> disk \<Rightarrow> codes" where
  "offload_reply ap b d =
     (let t = read_text b; guide = load_summary ap d
      in if guide \<noteq> []
         then render_block guide (length (lines_of t)) @ 10 # utext (''[offloaded result: '' @ str_of_nat (length b) @
           '' bytes at '' @ ap @ ''. Read slices with read_file_lines(path, start, end) using the ranges above.]'')
         else fence_untrusted (utext ''tool-output'') (take PREVIEW_HEAD t) (PREVIEW_HEAD + 100) @ 10 #
           utext (''[offloaded result: '' @ str_of_nat (length b) @ '' bytes at '' @ ap @
             ''. This file is already a saved tool result; read it in slices with '' @
             ''read_file_lines(path, start, end), ~50-100 lines per call.]''))"

definition read_file :: "ops_ctx \<Rightarrow> request \<Rightarrow> string \<Rightarrow> ops_state \<Rightarrow> op_reply \<times> ops_state" where
  "read_file ctx request path st = with_read ctx request path ''read'' (\<lambda>ap st1.
     case os_at (o_disk st1) ap of
       Some (DFile b) \<Rightarrow>
         if is_offload_path (x_out ctx) ap \<and> length b > oc_threshold (x_out ctx)
         then RepText (offload_reply ap b (o_disk st1))
         else if length b > READ_MAX_BYTES then RepReadTooLarge (length b)
         else (case binary_marker ctx ap b of
             Some r \<Rightarrow> r
           | None \<Rightarrow> RepText (fence_if_offload ctx ap (read_text b)))
     | _ \<Rightarrow> RepNotFile ap) st"

text \<open>The lines of a text file, each with its line feed.\<close>

fun text_lines :: "codes \<Rightarrow> codes list" where
  "text_lines [] = []"
| "text_lines (c # cs) =
     (if c = 10 then [10] # text_lines cs
      else case text_lines cs of [] \<Rightarrow> [[c]] | l # ls \<Rightarrow> (c # l) # ls)"

fun pick_lines :: "int \<Rightarrow> int \<Rightarrow> int \<Rightarrow> codes list \<Rightarrow> codes list" where
  "pick_lines start stop i [] = []"
| "pick_lines start stop i (l # ls) =
     (if i \<ge> stop then []
      else if i \<ge> start then l # pick_lines start stop (i + 1) ls else pick_lines start stop (i + 1) ls)"

definition read_file_lines :: "ops_ctx \<Rightarrow> request \<Rightarrow> string \<Rightarrow> int \<Rightarrow> int \<Rightarrow> ops_state \<Rightarrow> op_reply \<times> ops_state" where
  "read_file_lines ctx request path start stop st = with_read ctx request path ''read'' (\<lambda>ap st1.
     if stop - start > 2000 then RepBadRange
     else if start < 1 \<or> stop < start then RepBadRange
     else case os_at (o_disk st1) ap of
         None \<Rightarrow> RepRaise (ExcOs ENOENT)
       | Some DDir \<Rightarrow> RepRaise (ExcOs EISDIR)
       | Some (DFile b) \<Rightarrow> RepText (fence_if_offload ctx ap (concat (pick_lines start stop 1 (text_lines (read_text b)))))) st"

section \<open>Walking a tree\<close>

text \<open>\<open>os.walk\<close> from the top: every directory that is not pruned with its files, in the order they are found.\<close>

function walk :: "disk \<Rightarrow> (string \<Rightarrow> bool) \<Rightarrow> string \<Rightarrow> string list \<Rightarrow> (string \<times> string list) list" where
  "walk d pruned dp p =
     (dp, map fst (filter (\<lambda>(n, e). \<not> is_ddir e) (entries d p))) #
     concat (map (\<lambda>n. walk d pruned (path_join dp n) (p @ [n]))
       (filter (\<lambda>n. \<not> pruned (path_join dp n)) (map fst (filter (\<lambda>(n, e). is_ddir e) (entries d p)))))"
  by pat_completeness auto
termination
proof (relation "measure (\<lambda>(d, pruned, dp, p). length (filter (\<lambda>(q, e). strict_prefix p q) d))")
  fix d :: disk and pruned and dp :: string and p and n
  assume "n \<in> set (filter (\<lambda>n. \<not> pruned (path_join dp n)) (map fst (filter (\<lambda>(n, e). is_ddir e) (entries d p))))"
  then obtain e where e: "(n, e) \<in> set (entries d p)" by auto
  then have "(p @ [n], e) \<in> set d" by (force simp: entries_def)
  then have "length (filter (\<lambda>(q, e). strict_prefix (p @ [n]) q) d) < length (filter (\<lambda>(q, e). strict_prefix p q) d)"
  proof (induction d)
    case (Cons x d)
    have le: "length (filter (\<lambda>(q, e). strict_prefix (p @ [n]) q) d) \<le> length (filter (\<lambda>(q, e). strict_prefix p q) d)"
      by (induction d) (auto simp: strict_prefix_def append_eq_conv_conj dest: prefix_order.trans append_prefixD)
    from Cons le show ?case
      by (auto simp: less_Suc_eq_le strict_prefix_def dest: append_prefixD)
  qed simp
  then show "((d, pruned, path_join dp n, p @ [n]), d, pruned, dp, p)
      \<in> measure (\<lambda>(d, pruned, dp, p). length (filter (\<lambda>(q, e). strict_prefix p q) d))" by simp
qed simp

declare walk.simps [simp del]

definition walk_files :: "ops_ctx \<Rightarrow> ops_state \<Rightarrow> string \<Rightarrow> (string \<times> string) list" where
  "walk_files ctx st root =
     (if os_isdir (o_disk st) root
      then concat (map (\<lambda>(dp, fs). map (\<lambda>f. (f, path_join dp f)) fs)
             (walk (o_disk st) (is_blocked ctx st) root (path_comps root)))
      else [])"

definition glob_hits :: "ops_ctx \<Rightarrow> ops_state \<Rightarrow> string \<Rightarrow> string \<Rightarrow> string list" where
  "glob_hits ctx st pattern root =
     map snd (filter (\<lambda>(f, full). \<not> is_blocked ctx st full \<and>
         (fnmatch f pattern \<or> fnmatch (relpath (e_cwd (c_env (x_fs ctx))) full root) pattern)) (walk_files ctx st root))"

definition glob_files :: "ops_ctx \<Rightarrow> request \<Rightarrow> string \<Rightarrow> string \<Rightarrow> ops_state \<Rightarrow> op_reply \<times> ops_state" where
  "glob_files ctx request pattern root st = with_read ctx request root ''search'' (\<lambda>ap st1.
     (let hits = glob_hits ctx st1 pattern ap
      in RepPaths (take GLOB_MAX_RESULTS hits) (length hits \<ge> GLOB_MAX_RESULTS))) st"

definition file_hits :: "(codes \<Rightarrow> bool) \<Rightarrow> disk \<Rightarrow> string \<Rightarrow> (string \<times> nat \<times> codes) list" where
  "file_hits pat d full = (case os_at d full of
     Some (DFile b) \<Rightarrow>
       map (\<lambda>(i, l). (full, i, rstrip_of u_isspace l))
         (filter (\<lambda>(i, l). pat l) (zip [1..<length (text_lines (read_text b)) + 1] (text_lines (read_text b))))
   | _ \<Rightarrow> [])"

definition content_hits :: "ops_ctx \<Rightarrow> ops_state \<Rightarrow> (codes \<Rightarrow> bool) \<Rightarrow> string option \<Rightarrow> string \<Rightarrow> (string \<times> nat \<times> codes) list" where
  "content_hits ctx st pat glob_pattern root =
     concat (map (\<lambda>(f, full). file_hits pat (o_disk st) full)
       (filter (\<lambda>(f, full). \<not> is_blocked ctx st full \<and>
           (case glob_pattern of None \<Rightarrow> True | Some g \<Rightarrow> g = [] \<or> fnmatch f g)) (walk_files ctx st root)))"

definition search_content ::
  "ops_ctx \<Rightarrow> request \<Rightarrow> codes \<Rightarrow> string \<Rightarrow> string option \<Rightarrow> ops_state \<Rightarrow> op_reply \<times> ops_state" where
  "search_content ctx request query root glob_pattern st = with_read ctx request root ''search'' (\<lambda>ap st1.
     case x_compile ctx query of
       None \<Rightarrow> RepRaise ExcPattern
     | Some pat \<Rightarrow>
         (let hits = content_hits ctx st1 pat glob_pattern ap
          in RepHits (take SEARCH_MAX_RESULTS hits) (length hits \<ge> SEARCH_MAX_RESULTS))) st"

section \<open>What a walk finds\<close>

lemma entry_in:
  assumes "distinct (map fst d)"
  shows "(n, e) \<in> set (entries d p) \<longleftrightarrow> map_of d (p @ [n]) = Some e"
proof -
  have "(n, e) \<in> set (entries d p) \<longleftrightarrow> (p @ [n], e) \<in> set d"
  proof
    assume "(n, e) \<in> set (entries d p)"
    then obtain q where "(q, e) \<in> set d" "q \<noteq> []" "butlast q = p" "last q = n" by (auto simp: entries_def)
    then show "(p @ [n], e) \<in> set d" by (metis append_butlast_last_id)
  next
    assume "(p @ [n], e) \<in> set d"
    then show "(n, e) \<in> set (entries d p)" by (force simp: entries_def)
  qed
  with assms show ?thesis by simp
qed

lemma join_abs: "comps_good p \<Longrightarrow> dotless n \<Longrightarrow> path_join (abs_path p) n = abs_path (p @ [n])"
proof -
  assume "comps_good p" "dotless n"
  then have n: "\<not> startswith n ''/''" by (cases n) (auto simp: dotless_def comp_ok_def)
  show ?thesis
  proof (cases p rule: rev_cases)
    case Nil
    then show ?thesis by (simp add: path_join_def abs_path_def n endswith_def)
  next
    case (snoc q c)
    then have c: "c \<noteq> []" "CHR ''/'' \<notin> set c"
      using \<open>comps_good p\<close> by (simp_all add: comps_good_def dotless_def comp_ok_def)
    have rp: "raw_path p = raw_path q @ CHR ''/'' # c" using snoc by (simp add: raw_path_def)
    have "last (raw_path p) = last c" "raw_path p \<noteq> []" using rp c(1) by simp_all
    then have "\<not> endswith (raw_path p) ''/''" using c by (auto simp: endswith_def suffix_def)
    then show ?thesis using n snoc \<open>raw_path p \<noteq> []\<close> by (simp add: path_join_def abs_path_def raw_path_def)
  qed
qed

definition reachable :: "disk \<Rightarrow> (string \<Rightarrow> bool) \<Rightarrow> string list \<Rightarrow> string list \<Rightarrow> bool" where
  "reachable d pruned p cs \<longleftrightarrow> map_of d (p @ cs) = Some DDir \<and>
     (\<forall>k<length cs. \<not> pruned (abs_path (p @ take (Suc k) cs)))"

lemma reachable_Cons:
  assumes "ns_inv (disk_ns d)"
  shows "reachable d pruned p (n # cs) \<longleftrightarrow>
    map_of d (p @ [n]) = Some DDir \<and> \<not> pruned (abs_path (p @ [n])) \<and> reachable d pruned (p @ [n]) cs"
proof -
  have "map_of d (p @ [n]) = Some DDir" if m: "map_of d (p @ n # cs) = Some DDir"
  proof (cases cs)
    case Nil
    with m show ?thesis by simp
  next
    case (Cons c cs')
    then have "strict_prefix (p @ [n]) (p @ n # cs)" by (simp add: strict_prefix_def)
    with ns_inv_strict [OF assms, of "p @ n # cs" "p @ [n]"] m show ?thesis by (simp add: disk_ns_simps)
  qed
  moreover have "(\<forall>k<length (n # cs). \<not> pruned (abs_path (p @ take (Suc k) (n # cs)))) \<longleftrightarrow>
      \<not> pruned (abs_path (p @ [n])) \<and> (\<forall>k<length cs. \<not> pruned (abs_path ((p @ [n]) @ take (Suc k) cs)))"
    by (auto simp: less_Suc_eq_0_disj all_conj_distrib)
  ultimately show ?thesis by (auto simp: reachable_def)
qed

lemma walk_dirs:
  "disk_ok d \<Longrightarrow> distinct (map fst d) \<Longrightarrow> map_of d p = Some DDir \<Longrightarrow> dp = abs_path p \<Longrightarrow>
    x \<in> set (walk d pruned dp p) \<longleftrightarrow>
      (\<exists>cs. reachable d pruned p cs \<and>
        x = (abs_path (p @ cs), map fst (filter (\<lambda>(n, e). \<not> is_ddir e) (entries d (p @ cs)))))"
proof (induction d pruned dp p rule: walk.induct)
  case (1 d pruned dp p)
  let ?here = "\<lambda>q. (abs_path q, map fst (filter (\<lambda>(n, e). \<not> is_ddir e) (entries d q)))"
  let ?subs = "filter (\<lambda>n. \<not> pruned (path_join dp n)) (map fst (filter (\<lambda>(n, e). is_ddir e) (entries d p)))"
  have inv: "ns_inv (disk_ns d)" using 1(2) by (simp add: disk_ok_def)
  have good: "comps_good p" using disk_comps [OF 1(2,4)] by (simp add: comps_good_def)
  have sub: "n \<in> set ?subs \<longleftrightarrow> map_of d (p @ [n]) = Some DDir \<and> \<not> pruned (abs_path (p @ [n]))" for n
  proof -
    have "n \<in> set ?subs \<longleftrightarrow> map_of d (p @ [n]) = Some DDir \<and> \<not> pruned (path_join dp n)"
      using entry_in [OF 1(3), of n _ p] by (force simp: is_ddir_iff)
    moreover have "path_join dp n = abs_path (p @ [n])" if "map_of d (p @ [n]) = Some DDir"
      using join_abs [OF good, of n] disk_comps [OF 1(2) that] 1(5) by simp
    ultimately show ?thesis by auto
  qed
  have rec: "x \<in> set (walk d pruned (path_join dp n) (p @ [n])) \<longleftrightarrow>
      (\<exists>cs. reachable d pruned (p @ [n]) cs \<and> x = ?here (p @ n # cs))" if n: "n \<in> set ?subs" for n
  proof -
    have m: "map_of d (p @ [n]) = Some DDir" using n sub by blast
    have "path_join dp n = abs_path (p @ [n])"
      using join_abs [OF good, of n] disk_comps [OF 1(2) m] 1(5) by simp
    from 1(1) [OF n 1(2,3) m this] show ?thesis by simp
  qed
  have eq: "walk d pruned dp p = ?here p # concat (map (\<lambda>n. walk d pruned (path_join dp n) (p @ [n])) ?subs)"
    unfolding walk.simps [of d pruned dp p] by (simp only: 1(5))
  have "x \<in> set (walk d pruned dp p) \<longleftrightarrow> x = ?here p \<or> (\<exists>n\<in>set ?subs. x \<in> set (walk d pruned (path_join dp n) (p @ [n])))"
    unfolding eq by (simp only: list.set set_concat set_map insert_iff UN_iff bex_simps(7))
  also have "\<dots> \<longleftrightarrow> x = ?here p \<or> (\<exists>n cs. reachable d pruned p (n # cs) \<and> x = ?here (p @ n # cs))"
    using rec sub unfolding reachable_Cons [OF inv] by blast
  also have "\<dots> \<longleftrightarrow> (\<exists>cs. reachable d pruned p cs \<and> x = ?here (p @ cs))"
  proof -
    have "reachable d pruned p []" using 1(4) by (simp add: reachable_def)
    then have "(\<exists>cs. reachable d pruned p cs \<and> x = ?here (p @ cs)) \<longleftrightarrow>
        x = ?here p \<or> (\<exists>n cs. reachable d pruned p (n # cs) \<and> x = ?here (p @ n # cs))"
      by (metis append_Nil2 list.exhaust)
    then show ?thesis by simp
  qed
  finally show ?case .
qed

text \<open>A file a walk may show: no directory between the root and it is blocked, nor is the file.\<close>

definition shown :: "ops_ctx \<Rightarrow> ops_state \<Rightarrow> string \<Rightarrow> string \<Rightarrow> bool" where
  "shown ctx st root full \<longleftrightarrow> os_isfile (o_disk st) full \<and> \<not> is_blocked ctx st full \<and>
     (\<exists>cs n. reachable (o_disk st) (is_blocked ctx st) (path_comps root) cs \<and> dotless n \<and> full = abs_path (path_comps root @ cs @ [n]))"

lemma ex_pair: "(\<exists>x. (\<exists>cs. P cs \<and> x = (A cs, B cs)) \<and> Q (fst x) (snd x)) \<longleftrightarrow> (\<exists>cs. P cs \<and> Q (A cs) (B cs))"
  by force

lemma walk_files_iff:
  assumes "disk_ok (o_disk st)" "distinct (map fst (o_disk st))" "plain_path root"
  shows "(f, full) \<in> set (walk_files ctx st root) \<longleftrightarrow> f = basename full \<and> os_isfile (o_disk st) full \<and>
    (\<exists>cs n. reachable (o_disk st) (is_blocked ctx st) (path_comps root) cs \<and> dotless n \<and> full = abs_path (path_comps root @ cs @ [n]))"
proof -
  let ?d = "o_disk st" and ?r = "path_comps root" and ?ok = "reachable (o_disk st) (is_blocked ctx st) (path_comps root)"
  have inv: "ns_inv (disk_ns ?d)" using assms(1) by (simp add: disk_ok_def)
  have rt: "root = abs_path ?r" using plain_comps [OF assms(3)] by simp
  have at: "map_of ?d (?r @ cs @ [n]) = Some e \<Longrightarrow> comps_good (?r @ cs @ [n])" for cs n e
    using disk_comps [OF assms(1)] by (simp add: comps_good_def)
  have snoc: "path_comps (abs_path q) = q \<and> plain_path (abs_path q)" if "comps_good q" for q
    using good_comps [OF that] by simp
  have base: "basename (abs_path (q @ [n])) = n" if "comps_good (q @ [n])" for q n
    using plain_parent(3) snoc [OF that] by blast
  have "(f, full) \<in> set (walk_files ctx st root) \<longleftrightarrow>
      (\<exists>cs n b. ?ok cs \<and> map_of ?d (?r @ cs @ [n]) = Some (DFile b) \<and> f = n \<and> full = abs_path (?r @ cs @ [n]))"
  proof (cases "map_of ?d ?r = Some DDir")
    case True
    have "(f, full) \<in> set (walk_files ctx st root) \<longleftrightarrow>
        (\<exists>cs n e. ?ok cs \<and> map_of ?d (?r @ cs @ [n]) = Some e \<and> \<not> is_ddir e \<and> f = n \<and> full = path_join (abs_path (?r @ cs)) n)"
    proof -
      have "(f, full) \<in> set (walk_files ctx st root) \<longleftrightarrow>
          (\<exists>x\<in>set (walk ?d (is_blocked ctx st) root ?r). f \<in> set (snd x) \<and> full = path_join (fst x) f)"
      proof -
        have "set (walk_files ctx st root) =
            (\<Union>x\<in>set (walk ?d (is_blocked ctx st) root ?r). (\<lambda>f. (f, path_join (fst x) f)) ` set (snd x))"
          using True by (simp add: walk_files_def os_isdir_def os_at_def case_prod_beta)
        then show ?thesis by blast
      qed
      also have "\<dots> \<longleftrightarrow> (\<exists>cs. ?ok cs \<and> f \<in> set (map fst (filter (\<lambda>(n, e). \<not> is_ddir e) (entries ?d (?r @ cs)))) \<and>
          full = path_join (abs_path (?r @ cs)) f)"
        unfolding Bex_def walk_dirs [OF assms(1,2) True rt]
        by (rule ex_pair [of ?ok _ _ "\<lambda>a b. f \<in> set b \<and> full = path_join a f"])
      also have "\<dots> \<longleftrightarrow> (\<exists>cs n e. ?ok cs \<and> map_of ?d (?r @ cs @ [n]) = Some e \<and> \<not> is_ddir e \<and> f = n \<and> full = path_join (abs_path (?r @ cs)) n)"
      proof -
        have "f \<in> set (map fst (filter (\<lambda>(n, e). \<not> is_ddir e) (entries ?d (?r @ cs)))) \<longleftrightarrow>
            (\<exists>e. map_of ?d (?r @ cs @ [f]) = Some e \<and> \<not> is_ddir e)" for cs
        proof -
          have "f \<in> set (map fst (filter (\<lambda>(n, e). \<not> is_ddir e) (entries ?d (?r @ cs)))) \<longleftrightarrow>
              (\<exists>e. (f, e) \<in> set (entries ?d (?r @ cs)) \<and> \<not> is_ddir e)" by force
          with entry_in [OF assms(2), of f _ "?r @ cs"] show ?thesis by simp
        qed
        then show ?thesis by simp blast
      qed
      finally show ?thesis .
    qed
    also have "\<dots> \<longleftrightarrow> (\<exists>cs n b. ?ok cs \<and> map_of ?d (?r @ cs @ [n]) = Some (DFile b) \<and> f = n \<and> full = abs_path (?r @ cs @ [n]))"
    proof -
      have "path_join (abs_path (?r @ cs)) n = abs_path (?r @ cs @ [n])" if "map_of ?d (?r @ cs @ [n]) = Some e" for cs n e
        using at [OF that] join_abs [of "?r @ cs" n] by (simp add: comps_good_def)
      then show ?thesis by (metis is_ddir.simps(2) is_ddir_iff dentry.exhaust)
    qed
    finally show ?thesis .
  next
    case False
    have "\<not> ?ok cs" for cs
    proof (cases cs)
      case (Cons c cs')
      with none_below [OF inv False, of "?r @ cs"] show ?thesis by (simp add: reachable_def strict_prefix_def)
    qed (use False in \<open>simp add: reachable_def\<close>)
    then show ?thesis using False by (simp add: walk_files_def os_isdir_def os_at_def)
  qed
  also have "\<dots> \<longleftrightarrow> f = basename full \<and> os_isfile ?d full \<and> (\<exists>cs n. ?ok cs \<and> dotless n \<and> full = abs_path (?r @ cs @ [n]))"
  proof -
    have "os_isfile ?d (abs_path (?r @ cs @ [n])) \<and> dotless n \<and> basename (abs_path (?r @ cs @ [n])) = n \<longleftrightarrow>
        (\<exists>b. map_of ?d (?r @ cs @ [n]) = Some (DFile b))" if ok: "?ok cs" for cs n
    proof -
      have good: "comps_good (?r @ cs)" using disk_comps [OF assms(1)] ok by (auto simp: reachable_def comps_good_def)
      show ?thesis
      proof
        assume l: "os_isfile ?d (abs_path (?r @ cs @ [n])) \<and> dotless n \<and> basename (abs_path (?r @ cs @ [n])) = n"
        then have "comps_good (?r @ cs @ [n])" using good by (simp add: comps_good_def)
        then have "path_comps (abs_path (?r @ cs @ [n])) = ?r @ cs @ [n]" using snoc by blast
        with l show "\<exists>b. map_of ?d (?r @ cs @ [n]) = Some (DFile b)"
          by (auto simp: os_isfile_def os_at_def split: option.splits dentry.splits)
      next
        assume "\<exists>b. map_of ?d (?r @ cs @ [n]) = Some (DFile b)"
        then obtain b where b: "map_of ?d (?r @ cs @ [n]) = Some (DFile b)" ..
        note g = at [OF b]
        then have "path_comps (abs_path (?r @ cs @ [n])) = ?r @ cs @ [n]" using snoc by blast
        with b g base [of "?r @ cs" n]
        show "os_isfile ?d (abs_path (?r @ cs @ [n])) \<and> dotless n \<and> basename (abs_path (?r @ cs @ [n])) = n"
          by (simp add: os_isfile_def os_at_def comps_good_def)
      qed
    qed
    moreover have "basename (abs_path (?r @ cs @ [n])) = n" if "?ok cs" "dotless n" for cs n
    proof -
      have "comps_good ((?r @ cs) @ [n])" using disk_comps [OF assms(1)] that by (auto simp: reachable_def comps_good_def)
      from base [OF this] show ?thesis by simp
    qed
    ultimately show ?thesis by metis
  qed
  finally show ?thesis .
qed

section \<open>What the reading tools show\<close>

lemma with_read_cases:
  assumes "with_read ctx request raw op f st = (r, st')" "request_ok request" "real_ok (c_env (x_fs ctx))"
  shows "o_fs st' = o_fs st \<and>
    (r = RepDiverges \<or> (\<exists>e. r = RepErr e) \<or> (\<exists>ap. allowed ctx (o_disk st') (o_vis st') ap \<and> r = f ap st'))"
  using assms(1) [unfolded with_read_def] assms(2,3)
proof (cases rule: with_path_cases)
  case (work ap st1)
  then show ?thesis by auto
qed auto

lemma glob_hits_iff:
  assumes "disk_ok (o_disk st)" "distinct (map fst (o_disk st))" "plain_path root"
  shows "full \<in> set (glob_hits ctx st pattern root) \<longleftrightarrow> shown ctx st root full \<and>
    (fnmatch (basename full) pattern \<or> fnmatch (relpath (e_cwd (c_env (x_fs ctx))) full root) pattern)"
proof -
  have "full \<in> set (glob_hits ctx st pattern root) \<longleftrightarrow> (\<exists>f. (f, full) \<in> set (walk_files ctx st root) \<and>
      \<not> is_blocked ctx st full \<and> (fnmatch f pattern \<or> fnmatch (relpath (e_cwd (c_env (x_fs ctx))) full root) pattern))"
    unfolding glob_hits_def by force
  then show ?thesis unfolding walk_files_iff [OF assms] by (auto simp: shown_def)
qed

definition line_hit :: "(codes \<Rightarrow> bool) \<Rightarrow> disk \<Rightarrow> string \<Rightarrow> nat \<Rightarrow> codes \<Rightarrow> bool" where
  "line_hit pat d full i l \<longleftrightarrow> (\<exists>b. os_at d full = Some (DFile b) \<and> 1 \<le> i \<and> i \<le> length (text_lines (read_text b)) \<and>
     pat (text_lines (read_text b) ! (i - 1)) \<and> l = rstrip_of u_isspace (text_lines (read_text b) ! (i - 1)))"

lemma file_hits_iff: "(p, i, l) \<in> set (file_hits pat d full) \<longleftrightarrow> p = full \<and> line_hit pat d full i l"
proof (cases "\<exists>b. os_at d full = Some (DFile b)")
  case True
  then obtain b where b: "os_at d full = Some (DFile b)" ..
  let ?ls = "text_lines (read_text b)"
  have z: "(i, x) \<in> set (zip [1..<length ?ls + 1] ?ls) \<longleftrightarrow> 1 \<le> i \<and> i \<le> length ?ls \<and> x = ?ls ! (i - 1)" for i x
    using in_set_enumerate_eq [of "(i, x)" 1 ?ls] by (auto simp: enumerate_eq_zip add.commute simp del: upt_Suc)
  have "(p, i, l) \<in> set (file_hits pat d full) \<longleftrightarrow>
      (\<exists>x. (i, x) \<in> set (zip [1..<length ?ls + 1] ?ls) \<and> pat x \<and> p = full \<and> l = rstrip_of u_isspace x)"
    by (auto simp: file_hits_def b image_iff simp del: upt_Suc)
  then show ?thesis unfolding z line_hit_def by (auto simp: b)
next
  case False
  then have "file_hits pat d full = []" by (cases "os_at d full") (auto simp: file_hits_def split: dentry.split)
  with False show ?thesis by (simp add: line_hit_def)
qed

lemma content_hits_iff:
  assumes "disk_ok (o_disk st)" "distinct (map fst (o_disk st))" "plain_path root"
  shows "(full, i, l) \<in> set (content_hits ctx st pat g root) \<longleftrightarrow> shown ctx st root full \<and>
    (case g of None \<Rightarrow> True | Some gp \<Rightarrow> gp = [] \<or> fnmatch (basename full) gp) \<and> line_hit pat (o_disk st) full i l"
proof -
  have "(full, i, l) \<in> set (content_hits ctx st pat g root) \<longleftrightarrow> (\<exists>f. (f, full) \<in> set (walk_files ctx st root) \<and>
      \<not> is_blocked ctx st full \<and> (case g of None \<Rightarrow> True | Some gp \<Rightarrow> gp = [] \<or> fnmatch f gp) \<and> line_hit pat (o_disk st) full i l)"
    unfolding content_hits_def by (auto simp: file_hits_iff)
  then show ?thesis unfolding walk_files_iff [OF assms] by (auto simp: shown_def)
qed

theorem glob_exact:
  assumes "real_ok (c_env (x_fs ctx))" "request_ok request" "disk_ok (o_disk st)" "distinct (map fst (o_disk st))"
    "glob_files ctx request pattern raw st = (RepPaths ps trunc, st')"
  shows "o_fs st' = o_fs st \<and> length ps \<le> GLOB_MAX_RESULTS \<and> (\<exists>root. allowed ctx (o_disk st') (o_vis st') root \<and>
    (\<forall>p. (p \<in> set ps \<longrightarrow> shown ctx st' root p \<and>
           (fnmatch (basename p) pattern \<or> fnmatch (relpath (e_cwd (c_env (x_fs ctx))) p root) pattern)) \<and>
         (\<not> trunc \<and> shown ctx st' root p \<and> fnmatch (basename p) pattern \<longrightarrow> p \<in> set ps)))"
proof -
  from with_read_cases [OF assms(5) [unfolded glob_files_def] assms(2,1)] obtain root where
    fs: "o_fs st' = o_fs st" and root: "allowed ctx (o_disk st') (o_vis st') root"
    and ps: "ps = take GLOB_MAX_RESULTS (glob_hits ctx st' pattern root)"
      "trunc = (length (glob_hits ctx st' pattern root) \<ge> GLOB_MAX_RESULTS)" by (auto simp: Let_def)
  have d: "disk_ok (o_disk st')" "distinct (map fst (o_disk st'))" using assms(3,4) fs by simp_all
  note iff = glob_hits_iff [OF d allowed_plain [OF root]]
  have "ps = glob_hits ctx st' pattern root" if "\<not> trunc" using ps that by simp
  moreover have "set ps \<subseteq> set (glob_hits ctx st' pattern root)" using ps(1) set_take_subset by fast
  ultimately show ?thesis using fs root ps(1) iff by (intro conjI exI [of _ root]) (simp, simp, blast+)
qed


section \<open>Reading by lines\<close>

lemma concat_text_lines [simp]: "concat (text_lines t) = t"
  by (induction t rule: text_lines.induct) (auto split: list.splits)

lemma pick_lines_from: "start \<le> i \<Longrightarrow> pick_lines start stop i ls = take (nat (stop - i)) ls"
proof (induction start stop i ls rule: pick_lines.induct)
  case (2 start stop i l ls)
  show ?case
  proof (cases "i \<ge> stop")
    case False
    then have "nat (stop - i) = Suc (nat (stop - (i + 1)))" by linarith
    with 2 False show ?thesis by simp
  qed simp
qed simp

lemma pick_lines_slice: "i \<le> start \<Longrightarrow> pick_lines start stop i ls = take (nat (stop - start)) (drop (nat (start - i)) ls)"
proof (induction start stop i ls rule: pick_lines.induct)
  case (2 start stop i l ls)
  consider "i \<ge> stop" | "i < stop" "i = start" | "i < stop" "i < start" using 2(3) by linarith
  then show ?case
  proof cases
    case 1
    with 2(3) show ?thesis by simp
  next
    case 2
    with pick_lines_from [of start i stop "l # ls"] show ?thesis by (simp del: pick_lines.simps)
  next
    case 3
    have "nat (start - i) = Suc (nat (start - (i + 1)))" using 3 by linarith
    with 3 2(2) show ?thesis by simp
  qed
qed simp

text \<open>Consecutive windows give the text, each line once, line ends included.\<close>

theorem paging_whole:
  assumes "1 \<le> a" "a \<le> b" "b \<le> c"
  shows "pick_lines a b 1 (text_lines t) @ pick_lines b c 1 (text_lines t) = pick_lines a c 1 (text_lines t)"
    "int (length (text_lines t)) < c \<Longrightarrow> concat (pick_lines 1 c 1 (text_lines t)) = t"
proof -
  have "nat (c - a) = nat (b - a) + nat (c - b)" "nat (b - 1) = nat (a - 1) + nat (b - a)" using assms by linarith+
  then show "pick_lines a b 1 (text_lines t) @ pick_lines b c 1 (text_lines t) = pick_lines a c 1 (text_lines t)"
    using assms by (simp add: pick_lines_slice take_add add.commute)
  show "concat (pick_lines 1 c 1 (text_lines t)) = t" if "int (length (text_lines t)) < c"
    using that by (simp add: pick_lines_slice)
qed


end
