(* ===== verification/Egress_Parse.thy ===== *)
theory Egress_Parse
  imports Shell_Parse "HOL-Library.Word"
begin

text \<open>
  \<open>agent/egress/parse.py\<close>: recognising an upload in a command line before it runs, and deciding whether its
  host lies outside the home network. Name resolution (\<open>socket.getaddrinfo\<close>) is a parameter, the \<open>gai_fn\<close>: it
  gives the textual addresses, fails with an \<open>OSError\<close>, or raises something else (the IDNA codec raises
  \<open>UnicodeError\<close> for an empty label). The parts of the standard library the module reads addresses and URLs with,
  \<open>ipaddress\<close> and \<open>urllib.parse\<close> of Python 3.11, are modelled: an IPv4 address is a \<^typ>\<open>32 word\<close>, an IPv6 address a
  \<^typ>\<open>128 word\<close> with its scope.
\<close>

section \<open>Addresses\<close>

datatype ip = V4 "32 word" | V6 "128 word" "string option"

definition octet_of :: "string \<Rightarrow> int option" where
  "octet_of s =
     (if s \<noteq> [] \<and> list_all ascii_digit s \<and> length s \<le> 3 \<and> (s = ''0'' \<or> hd s \<noteq> CHR ''0'') \<and> int_of_digits s \<le> 255
      then Some (int_of_digits s) else None)"

definition v4 :: "int \<Rightarrow> int \<Rightarrow> int \<Rightarrow> int \<Rightarrow> 32 word" where
  "v4 a b c d = of_int (((a * 256 + b) * 256 + c) * 256 + d)"

definition ipv4_of_string :: "string \<Rightarrow> 32 word option" where
  "ipv4_of_string s = (case map octet_of (split_on (CHR ''.'') s) of
       [Some a, Some b, Some c, Some d] \<Rightarrow> Some (v4 a b c d)
     | _ \<Rightarrow> None)"

definition is_hex :: "char \<Rightarrow> bool" where
  "is_hex c \<longleftrightarrow> c \<in> set ''0123456789abcdefABCDEF''"

definition hex_val :: "char \<Rightarrow> int" where
  "hex_val c = (let n = int (of_char c) in if n < 58 then n - 48 else if n < 71 then n - 55 else n - 87)"

definition hextet_of :: "string \<Rightarrow> int option" where
  "hextet_of s = (if s \<noteq> [] \<and> list_all is_hex s \<and> length s \<le> 4 then Some (foldl (\<lambda>a c. a * 16 + hex_val c) 0 s)
     else None)"

text \<open>\<open>'%x' % n\<close>\<close>

function hex_str :: "int \<Rightarrow> string" where
  "hex_str n = (if n < 16 then [hex_digit (nat n)] else hex_str (n div 16) @ [hex_digit (nat (n mod 16))])"
  by pat_completeness auto
termination by (relation "measure nat") auto

declare hex_str.simps [simp del]

text \<open>The colon-separated parts, a trailing dotted quad rewritten as two groups.\<close>

definition ipv6_parts :: "string \<Rightarrow> string list option" where
  "ipv6_parts s = (let ps = split_on (CHR '':'') s in
     if length ps < 3 then None
     else if CHR ''.'' \<in> set (last ps)
     then map_option (\<lambda>w. butlast ps @ [hex_str (uint w div 65536), hex_str (uint w mod 65536)]) (ipv4_of_string (last ps))
     else Some ps)"

text \<open>The eight groups, the gap of a \<open>::\<close> filled with zeros; \<open>None\<close> for a group that does not parse.\<close>

definition ipv6_groups :: "string list \<Rightarrow> int option list option" where
  "ipv6_groups ps = (if length ps > 9 then None
     else case filter (\<lambda>i. ps ! i = []) [1..<length ps - 1] of
       [] \<Rightarrow> (if length ps \<noteq> 8 \<or> hd ps = [] \<or> last ps = [] then None else Some (map hextet_of ps))
     | [i] \<Rightarrow> (let hi = (if hd ps = [] then i - 1 else i);
                  lo0 = length ps - i - 1;
                  lo = (if last ps = [] then lo0 - 1 else lo0) in
          if hd ps = [] \<and> hi \<noteq> 0 \<or> last ps = [] \<and> lo \<noteq> 0 \<or> hi + lo \<ge> 8 then None
          else Some (map hextet_of (take hi ps) @ replicate (8 - (hi + lo)) (Some 0) @
                     map hextet_of (drop (length ps - lo) ps)))
     | _ \<Rightarrow> None)"

definition groups_val :: "int option list \<Rightarrow> 128 word option" where
  "groups_val gs = (if None \<in> set gs then None else Some (foldl (\<lambda>a g. a * 65536 + of_int (the g)) 0 gs))"

definition ipv6_of_string :: "string \<Rightarrow> ip option" where
  "ipv6_of_string s = (let scope = after_char (CHR ''%'') s in
     if CHR ''/'' \<in> set s \<or> CHR ''%'' \<in> set s \<and> (scope = [] \<or> CHR ''%'' \<in> set scope) then None
     else map_option (\<lambda>w. V6 w (if CHR ''%'' \<in> set s then Some scope else None))
            (Option.bind (Option.bind (ipv6_parts (before_char (CHR ''%'') s)) ipv6_groups) groups_val))"

definition ip_address :: "string \<Rightarrow> ip option" where
  "ip_address s = (case ipv4_of_string s of Some w \<Rightarrow> Some (V4 w) | None \<Rightarrow> ipv6_of_string s)"

section \<open>Networks\<close>

definition INTERNAL_V4 :: "(32 word \<times> nat) list" where
  "INTERNAL_V4 = [(v4 127 0 0 0, 8), (v4 10 0 0 0, 8), (v4 172 16 0 0, 12), (v4 192 168 0 0, 16), (v4 169 254 0 0, 16)]"

definition INTERNAL_V6 :: "(128 word \<times> nat) list" where
  "INTERNAL_V6 = [(1, 128), (0xfc000000000000000000000000000000, 7), (0xfe800000000000000000000000000000, 10)]"

definition METADATA_IPS :: "ip list" where
  "METADATA_IPS = [V4 (v4 169 254 169 254), V4 (v4 169 254 170 2), V6 0xfd000ec2000000000000000000000254 None,
     V4 (v4 100 100 100 200)]"

text \<open>\<open>ip in net\<close>: the leading bits agree.\<close>

definition in_net :: "'a::len word \<Rightarrow> 'a word \<times> nat \<Rightarrow> bool" where
  "in_net w net \<longleftrightarrow> drop_bit (LENGTH('a) - snd net) w = drop_bit (LENGTH('a) - snd net) (fst net)"

fun internal_ip :: "ip \<Rightarrow> bool" where
  "internal_ip (V4 w) \<longleftrightarrow> list_ex (in_net w) INTERNAL_V4"
| "internal_ip (V6 w _) \<longleftrightarrow> list_ex (in_net w) INTERNAL_V6"

text \<open>\<open>ipv4_mapped\<close>\<close>

fun unmapped :: "ip \<Rightarrow> ip" where
  "unmapped (V4 w) = V4 w"
| "unmapped (V6 w sc) = (if drop_bit 32 w = 0xFFFF then V4 (ucast w) else V6 w sc)"

section \<open>Hosts\<close>

datatype gai = Addrs "string list" | LookupFailed | LookupRaises

type_synonym gai_fn = "string \<Rightarrow> gai"

datatype egress_exn = ResolverError

definition bare_host :: "string \<Rightarrow> string" where
  "bare_host host = (let b = before_char (CHR ''%'') host in
     if startswith b ''['' then (if CHR '']'' \<in> set b then before_char (CHR '']'') (tl b) else b)
     else if CHR '':'' \<in> set b then (if ip_address b \<noteq> None then b else before_last (CHR '':'') b)
     else b)"

text \<open>The loop over the resolved addresses; the flag is \<open>found_any\<close>.\<close>

fun scan_addrs :: "bool \<Rightarrow> string list \<Rightarrow> bool" where
  "scan_addrs found [] = (\<not> found)"
| "scan_addrs found (a # as) = (case ip_address a of
      None \<Rightarrow> scan_addrs found as
    | Some ip \<Rightarrow>
        if unmapped ip \<in> set METADATA_IPS then True
        else if \<not> internal_ip (unmapped ip) then True
        else scan_addrs True as)"

definition is_external_host :: "gai_fn \<Rightarrow> string \<Rightarrow> egress_exn + bool" where
  "is_external_host r host = (case r (bare_host host) of
      LookupRaises \<Rightarrow> Inl ResolverError
    | LookupFailed \<Rightarrow> Inr True
    | Addrs as \<Rightarrow> Inr (if as = [] then True else scan_addrs False as))"

section \<open>URLs and tokens\<close>

text \<open>\<open>urlsplit\<close> of an http URL: tabs and line ends are dropped, the authority runs to the path.\<close>

definition url_netloc :: "string \<Rightarrow> string" where
  "url_netloc url = (let u = filter (\<lambda>c. c \<notin> set [CHR 0x09, CHR 0x0D, CHR 0x0A]) url in
     takeWhile (\<lambda>c. c \<notin> set ''/?#'') (drop (if startswith u ''https://'' then 8 else 7) u))"

definition bracketed_ok :: "string \<Rightarrow> bool" where
  "bracketed_ok h \<longleftrightarrow>
     (if startswith h ''v''
      then (let t = dropWhile is_hex (tl h) in takeWhile is_hex (tl h) \<noteq> [] \<and> startswith t ''.'' \<and> length t > 1)
      else case ip_address h of Some (V6 _ _) \<Rightarrow> True | _ \<Rightarrow> False)"

definition netloc_ok :: "string \<Rightarrow> bool" where
  "netloc_ok n \<longleftrightarrow> (CHR ''['' \<in> set n \<longleftrightarrow> CHR '']'' \<in> set n) \<and>
     (CHR ''['' \<in> set n \<longrightarrow> bracketed_ok (before_char (CHR '']'') (after_char (CHR ''['') n)))"

definition netloc_host :: "string \<Rightarrow> string" where
  "netloc_host n = (let h = after_last (CHR ''@'') n in
     if CHR ''['' \<in> set h then before_char (CHR '']'') (after_char (CHR ''['') h) else before_char (CHR '':'') h)"

definition lower_host :: "string \<Rightarrow> string" where
  "lower_host h = py_lower (before_char (CHR ''%'') h) @ dropWhile (\<lambda>c. c \<noteq> CHR ''%'') h"

definition web_url :: "string \<Rightarrow> bool" where
  "web_url tok \<longleftrightarrow> startswith tok ''http://'' \<or> startswith tok ''https://''"

definition extract_host_from_url :: "string \<Rightarrow> string option" where
  "extract_host_from_url url =
     (if web_url url \<and> netloc_ok (url_netloc url) \<and> netloc_host (url_netloc url) \<noteq> []
      then Some (lower_host (netloc_host (url_netloc url))) else None)"

definition extract_host_from_scp :: "string \<Rightarrow> string option" where
  "extract_host_from_scp token = (let h = before_char (CHR '':'') token in
     if CHR '':'' \<notin> set token \<or> startswith h ''/'' \<or> startswith h ''-'' \<or>
        h \<in> set [''http'', ''https'', ''ftp'', ''sftp''] then None
     else (let h = (if CHR ''@'' \<in> set h then after_last (CHR ''@'') h else h) in
           if h = [] then None else Some h))"

definition extract_file_from_at :: "string \<Rightarrow> string option" where
  "extract_file_from_at value = (let v = (if CHR ''='' \<in> set value then after_char (CHR ''='') value else value) in
     if startswith v ''@'' \<and> tl v \<noteq> ''-'' \<and> tl v \<noteq> [] then Some (tl v) else None)"

section \<open>The tools\<close>

record upload_intent =
  ui_host :: string
  ui_method :: string
  ui_files :: "string list"
  ui_inline :: bool
  ui_external :: bool

definition CURL_UPLOAD_FLAGS :: "string list" where
  "CURL_UPLOAD_FLAGS = [''-d'', ''--data'', ''--data-binary'', ''--data-raw'', ''--data-ascii'',
     ''-T'', ''--upload-file'', ''-F'', ''--form'']"

definition CURL_METHOD_FLAGS :: "string list" where
  "CURL_METHOD_FLAGS = [''-X'', ''--request'']"

text \<open>\<open>str.upper\<close> on the code points whose capital is below 256; sharp s becomes two letters.\<close>

definition py_upper :: "string \<Rightarrow> string" where
  "py_upper s = concat (map (\<lambda>c. let n = (of_char c :: nat) in
     if n = 223 then ''SS''
     else if 97 \<le> n \<and> n \<le> 122 \<or> 224 \<le> n \<and> n \<le> 254 \<and> n \<noteq> 247 then [char_of (n - 32)] else [c]) s)"

record curl_state =
  c_host :: "string option"
  c_files :: "string list"
  c_inline :: bool
  c_upload :: bool
  c_method :: "string option"

definition curl_start :: curl_state where
  "curl_start = \<lparr>c_host = None, c_files = [], c_inline = False, c_upload = False, c_method = None\<rparr>"

text \<open>What the value of \<open>-d\<close>, \<open>-F\<close> and their like names.\<close>

definition add_at :: "string \<Rightarrow> curl_state \<Rightarrow> curl_state" where
  "add_at val st = (case extract_file_from_at val of None \<Rightarrow> st | Some f \<Rightarrow> st\<lparr>c_files := c_files st @ [f]\<rparr>)"

definition flag_value :: "string \<Rightarrow> string \<Rightarrow> curl_state \<Rightarrow> curl_state" where
  "flag_value tok val st =
     (if tok \<in> set [''-T'', ''--upload-file'']
      then (let st = (if c_method st = None then st\<lparr>c_method := Some ''PUT''\<rparr> else st) in
            if val \<noteq> [] \<and> \<not> startswith val ''-'' then st\<lparr>c_files := c_files st @ [val]\<rparr> else st)
      else if val = ''@-'' \<or> endswith val ''=@-'' then st\<lparr>c_inline := True\<rparr>
      else add_at val st)"

definition inline_value :: "string \<Rightarrow> curl_state \<Rightarrow> curl_state" where
  "inline_value tok st = (case List.find (\<lambda>flag. startswith tok (flag @ ''='')) CURL_UPLOAD_FLAGS of
      None \<Rightarrow> st
    | Some flag \<Rightarrow>
        (let val = drop (length flag + 1) tok; st = st\<lparr>c_upload := True\<rparr> in
         if val = ''@-'' then st\<lparr>c_inline := True\<rparr> else add_at val st))"

definition see_url :: "string \<Rightarrow> curl_state \<Rightarrow> curl_state" where
  "see_url tok st = (if web_url tok then (case extract_host_from_url tok of None \<Rightarrow> st | Some h \<Rightarrow> st\<lparr>c_host := Some h\<rparr>)
     else st)"

fun curl_loop :: "curl_state \<Rightarrow> string list \<Rightarrow> curl_state" where
  "curl_loop st [] = st"
| "curl_loop st (tok # toks) =
     (if tok \<in> set CURL_METHOD_FLAGS
      then (case toks of [] \<Rightarrow> st | v # vs \<Rightarrow> curl_loop (st\<lparr>c_method := Some (py_upper v)\<rparr>) vs)
      else if startswith tok ''-X'' \<and> length tok > 2
      then curl_loop (st\<lparr>c_method := Some (py_upper (drop 2 tok))\<rparr>) toks
      else if tok \<in> set CURL_UPLOAD_FLAGS
      then (case toks of [] \<Rightarrow> st\<lparr>c_upload := True\<rparr>
            | v # vs \<Rightarrow> curl_loop (flag_value tok v (st\<lparr>c_upload := True\<rparr>)) vs)
      else curl_loop (see_url tok (inline_value tok st)) toks)"

definition parse_curl :: "gai_fn \<Rightarrow> string list \<Rightarrow> egress_exn + upload_intent option" where
  "parse_curl r tokens = (let st = curl_loop curl_start (drop 1 tokens);
       up = (c_upload st \<or> c_method st \<in> {Some ''POST'', Some ''PUT''}) in
     case c_host st of
       None \<Rightarrow> Inr None
     | Some h \<Rightarrow>
         if \<not> up then Inr None
         else (case is_external_host r h of
             Inl e \<Rightarrow> Inl e
           | Inr ext \<Rightarrow> Inr (Some \<lparr>ui_host = h, ui_method = (case c_method st of None \<Rightarrow> ''POST'' | Some m \<Rightarrow> m),
               ui_files = c_files st, ui_inline = c_inline st, ui_external = ext\<rparr>)))"

fun non_options :: "string list \<Rightarrow> string list \<Rightarrow> string list" where
  "non_options takes_arg [] = []"
| "non_options takes_arg (tok # toks) =
     (if startswith tok ''-''
      then (if tok \<in> set takes_arg then non_options takes_arg (tl toks) else non_options takes_arg toks)
      else tok # non_options takes_arg toks)"

definition SCP_ARG_FLAGS :: "string list" where
  "SCP_ARG_FLAGS = [''-i'', ''-l'', ''-o'', ''-P'', ''-c'', ''-F'', ''-J'', ''-S'', ''-B'']"

definition RSYNC_ARG_FLAGS :: "string list" where
  "RSYNC_ARG_FLAGS = [''--rsh'', ''-e'', ''--bwlimit'', ''--timeout'', ''--contimeout'', ''--port'', ''--address'',
     ''--log-file'', ''--password-file'', ''--include'', ''--exclude'', ''--include-from'', ''--exclude-from'',
     ''--files-from'', ''--filter'', ''-T'', ''--temp-dir'', ''--partial-dir'', ''--log-file-format'',
     ''--max-size'', ''--min-size'']"

definition parse_scp :: "gai_fn \<Rightarrow> string list \<Rightarrow> egress_exn + upload_intent option" where
  "parse_scp r tokens = (let no = non_options SCP_ARG_FLAGS (drop 1 tokens) in
     if length no < 2 then Inr None
     else case extract_host_from_scp (last no) of
       None \<Rightarrow> Inr None
     | Some h \<Rightarrow> (case is_external_host r h of
           Inl e \<Rightarrow> Inl e
         | Inr ext \<Rightarrow> Inr (Some \<lparr>ui_host = h, ui_method = ''SCP'',
             ui_files = filter (\<lambda>f. \<not> startswith f ''-'') (butlast no), ui_inline = False, ui_external = ext\<rparr>)))"

definition parse_rsync :: "gai_fn \<Rightarrow> string list \<Rightarrow> egress_exn + upload_intent option" where
  "parse_rsync r tokens = (let no = non_options RSYNC_ARG_FLAGS (drop 1 tokens) in
     if length no < 2 then Inr None
     else case extract_host_from_scp (last no) of
       None \<Rightarrow> Inr None
     | Some h \<Rightarrow> (case is_external_host r h of
           Inl e \<Rightarrow> Inl e
         | Inr ext \<Rightarrow> Inr (Some \<lparr>ui_host = h, ui_method = ''RSYNC'',
             ui_files = butlast no, ui_inline = False, ui_external = ext\<rparr>)))"

definition tool_parser :: "string \<Rightarrow> (gai_fn \<Rightarrow> string list \<Rightarrow> egress_exn + upload_intent option) option" where
  "tool_parser tool =
     (if tool \<in> set [''curl'', ''wget'', ''http''] then Some parse_curl
      else if tool = ''scp'' then Some parse_scp
      else if tool = ''rsync'' then Some parse_rsync
      else None)"

definition tool_name :: "string \<Rightarrow> string" where
  "tool_name tok = lstrip_of (\<lambda>c. c \<in> set ''./'') tok"

text \<open>The segments of a pipeline, the last one first; here nothing catches what a parser raises.\<close>

fun pipe_scan :: "gai_fn \<Rightarrow> string list \<Rightarrow> egress_exn + upload_intent option" where
  "pipe_scan r [] = Inr None"
| "pipe_scan r (seg # segs) = (case shlex_split (py_strip seg) of
      Some (t # ts) \<Rightarrow> (case tool_parser (tool_name t) of
          Some p \<Rightarrow> p r (t # ts)
        | None \<Rightarrow> pipe_scan r segs)
    | _ \<Rightarrow> pipe_scan r segs)"

definition parse_upload :: "gai_fn \<Rightarrow> string \<Rightarrow> egress_exn + upload_intent option" where
  "parse_upload r command =
     (if py_strip command = [] then Inr None
      else case shlex_split command of
        None \<Rightarrow> Inr None
      | Some [] \<Rightarrow> Inr None
      | Some (t # ts) \<Rightarrow>
          if CHR ''|'' \<in> set command then pipe_scan r (rev (split_on (CHR ''|'') command))
          else case tool_parser (tool_name t) of
            None \<Rightarrow> Inr None
          | Some p \<Rightarrow> (case p r (t # ts) of Inl _ \<Rightarrow> Inr None | Inr i \<Rightarrow> Inr i))"

section \<open>Ranges\<close>

lemma drop_bit_uint:
  fixes w v :: "'a::len word"
  shows "drop_bit n w = drop_bit n v \<longleftrightarrow> uint w div 2 ^ n = uint v div 2 ^ n"
  unfolding word_uint_eq_iff [of "drop_bit n w"] unsigned_drop_bit_eq
  by (simp add: drop_bit_eq_div take_bit_int_eq_self)

lemma uint_v4:
  assumes "a \<in> {0..255}" "b \<in> {0..255}" "c \<in> {0..255}" "d \<in> {0..255}"
  shows "uint (v4 a b c d) = ((a * 256 + b) * 256 + c) * 256 + d"
proof -
  have "0 \<le> ((a * 256 + b) * 256 + c) * 256 + d" "((a * 256 + b) * 256 + c) * 256 + d < 2 ^ 32"
    using assms by auto
  then show ?thesis unfolding v4_def unsigned_of_int by (simp add: take_bit_int_eq_self)
qed

lemma quad_div:
  fixes a :: int
  assumes "b \<in> {0..255}" "c \<in> {0..255}" "d \<in> {0..255}"
  shows "(((a * 256 + b) * 256 + c) * 256 + d) div 16777216 = a"
    "(((a * 256 + b) * 256 + c) * 256 + d) div 1048576 = a * 16 + b div 16"
    "(((a * 256 + b) * 256 + c) * 256 + d) div 65536 = a * 256 + b"
proof -
  show "(((a * 256 + b) * 256 + c) * 256 + d) div 16777216 = a"
    by (rule int_div_pos_eq [where r = "(b * 256 + c) * 256 + d"]) (use assms in auto)
  define q m where "q = b div 16" and "m = b mod 16"
  have b: "b = 16 * q + m" "0 \<le> m" "m < 16" unfolding q_def m_def by simp_all
  have "(((a * 256 + b) * 256 + c) * 256 + d) div 1048576 = a * 16 + q"
    by (rule int_div_pos_eq [where r = "(m * 256 + c) * 256 + d"]) (use assms b in auto)
  then show "(((a * 256 + b) * 256 + c) * 256 + d) div 1048576 = a * 16 + b div 16" by (simp only: q_def)
  show "(((a * 256 + b) * 256 + c) * 256 + d) div 65536 = a * 256 + b"
    by (rule int_div_pos_eq [where r = "c * 256 + d"]) (use assms in auto)
qed

lemma in_quad:
  assumes "a \<in> {0..255}" "b \<in> {0..255}" "c \<in> {0..255}" "d \<in> {0..255}" "a' \<in> {0..255}" "b' \<in> {0..255}"
  shows "in_net (v4 a b c d) (v4 a' b' 0 0, 8) \<longleftrightarrow> a = a'"
    "in_net (v4 a b c d) (v4 a' b' 0 0, 12) \<longleftrightarrow> a * 16 + b div 16 = a' * 16 + b' div 16"
    "in_net (v4 a b c d) (v4 a' b' 0 0, 16) \<longleftrightarrow> a * 256 + b = a' * 256 + b'"
proof -
  have z: "(0::int) \<in> {0..255}" by simp
  have p: "(2::int) ^ 24 = 16777216" "(2::int) ^ 20 = 1048576" "(2::int) ^ 16 = 65536" by simp_all
  have l: "LENGTH(32) - 8 = (24::nat)" "LENGTH(32) - 12 = (20::nat)" "LENGTH(32) - 16 = (16::nat)" by simp_all
  note u = uint_v4 [OF assms(1-4)] uint_v4 [OF assms(5,6) z z]
  show "in_net (v4 a b c d) (v4 a' b' 0 0, 8) \<longleftrightarrow> a = a'"
    "in_net (v4 a b c d) (v4 a' b' 0 0, 12) \<longleftrightarrow> a * 16 + b div 16 = a' * 16 + b' div 16"
    "in_net (v4 a b c d) (v4 a' b' 0 0, 16) \<longleftrightarrow> a * 256 + b = a' * 256 + b'"
    unfolding in_net_def fst_conv snd_conv l drop_bit_uint u p quad_div [OF assms(2-4)] quad_div [OF assms(6) z z] by (rule refl)+
qed

lemma internal_v4_ranges:
  assumes "a \<in> {0..255}" "b \<in> {0..255}" "c \<in> {0..255}" "d \<in> {0..255}"
  shows "internal_ip (V4 (v4 a b c d)) \<longleftrightarrow>
    a = 127 \<or> a = 10 \<or> a = 172 \<and> 16 \<le> b \<and> b \<le> 31 \<or> a = 192 \<and> b = 168 \<or> a = 169 \<and> b = 254"
proof -
  note q = in_quad [OF assms]
  have "internal_ip (V4 (v4 a b c d)) \<longleftrightarrow> a = 127 \<or> a = 10 \<or> a * 16 + b div 16 = 2753 \<or>
      a * 256 + b = 49320 \<or> a * 256 + b = 43518"
    using q(1) [of 127 0] q(1) [of 10 0] q(2) [of 172 16] q(3) [of 192 168] q(3) [of 169 254]
    unfolding internal_ip.simps INTERNAL_V4_def list_ex_iff by simp
  moreover have "a * 16 + b div 16 = 2753 \<longleftrightarrow> a = 172 \<and> 16 \<le> b \<and> b \<le> 31"
    if "q = b div 16" "m = b mod 16" "b = 16 * q + m" "0 \<le> m" "m < 16" for q m
  proof -
    from assms(2) that(3-5) have q: "0 \<le> q" "q \<le> 15" by simp_all
    have "a * 16 + q = 2753 \<longleftrightarrow> a = 172 \<and> q = 1" using q by presburger
    moreover have "q = 1 \<longleftrightarrow> 16 \<le> b \<and> b \<le> 31" using q that(3-5) by auto
    ultimately show ?thesis unfolding that(1) [symmetric] by simp
  qed
  note this [OF refl refl]
  moreover have "a * 256 + b = k * 256 + j \<longleftrightarrow> a = k \<and> b = j" if "j \<in> {0..255}" for k j
  proof
    assume e: "a * 256 + b = k * 256 + j"
    then have "a = k" using assms(2) that by simp
    with e show "a = k \<and> b = j" by simp
  qed simp
  note this [of 168 192] this [of 254 169]
  ultimately show ?thesis by simp
qed

lemma internal_v6_ranges:
  "internal_ip (V6 w sc) \<longleftrightarrow> w = 1 \<or> uint w div 2 ^ 121 = 126 \<or> uint w div 2 ^ 118 = 1018"
proof -
  have "list_ex (in_net w) [(1, 128)] \<longleftrightarrow> w = 1" by (simp add: in_net_def)
  moreover have "in_net w (0xfc000000000000000000000000000000, 7) \<longleftrightarrow> uint w div 2 ^ 121 = 126"
    unfolding in_net_def fst_conv snd_conv drop_bit_uint by simp
  moreover have "in_net w (0xfe800000000000000000000000000000, 10) \<longleftrightarrow> uint w div 2 ^ 118 = 1018"
    unfolding in_net_def fst_conv snd_conv drop_bit_uint by simp
  ultimately show ?thesis by (simp add: INTERNAL_V6_def)
qed

lemma digit_char:
  assumes "k < (10::nat)"
  shows "ascii_digit (char_of (k + 48))" "digit_val (char_of (k + 48)) = int k"
    "char_of (k + 48) = CHR ''0'' \<longleftrightarrow> k = 0"
proof -
  have "list_all (\<lambda>k. ascii_digit (char_of (k + 48)) \<and> digit_val (char_of (k + 48)) = int k \<and>
      (char_of (k + 48) = CHR ''0'' \<longleftrightarrow> k = 0)) [0..<10::nat]" by code_simp
  with assms show "ascii_digit (char_of (k + 48))" "digit_val (char_of (k + 48)) = int k"
    "char_of (k + 48) = CHR ''0'' \<longleftrightarrow> k = 0" by (simp_all add: list_all_iff)
qed

lemma octet_str:
  assumes "n < (256::nat)"
  shows "octet_of (str_of_nat n) = Some (int n)"
proof -
  consider "n < 10" | "10 \<le> n" "n < 100" | "100 \<le> n" by linarith
  then show ?thesis
  proof cases
    case 1
    then show ?thesis by (auto simp: str_of_nat.simps [of n] octet_of_def digit_char int_of_digits_def)
  next
    case 2
    then have "str_of_nat n = [char_of (n div 10 + 48), char_of (n mod 10 + 48)]"
      by (simp add: str_of_nat.simps [of n] str_of_nat.simps [of "n div 10"])
    moreover have "n div 10 < 10" "n mod 10 < 10" "n div 10 \<noteq> 0" using 2 by auto
    moreover have "10 * int (n div 10) + int (n mod 10) = int n" using div_mult_mod_eq [of n 10] by linarith
    ultimately show ?thesis using 2 by (simp only: octet_of_def int_of_digits_def) (simp add: digit_char del: of_nat_div)
  next
    case 3
    have "10 \<le> n div 10" "n div 10 div 10 < 10" using 3 assms by simp_all
    then have "str_of_nat n = [char_of (n div 10 div 10 + 48), char_of (n div 10 mod 10 + 48), char_of (n mod 10 + 48)]"
      using 3 assms by (simp add: str_of_nat.simps [of n] str_of_nat.simps [of "n div 10"] str_of_nat.simps [of "n div 10 div 10"])
    moreover have "n div 10 div 10 < 10" "n div 10 mod 10 < 10" "n mod 10 < 10" "n div 10 div 10 \<noteq> 0" using \<open>10 \<le> n div 10\<close> \<open>n div 10 div 10 < 10\<close> by auto
    moreover have "100 * int (n div 10 div 10) + 10 * int (n div 10 mod 10) + int (n mod 10) = int n"
      using div_mult_mod_eq [of n 10] div_mult_mod_eq [of "n div 10" 10] by linarith
    ultimately show ?thesis using assms
      by (simp only: octet_of_def int_of_digits_def) (simp add: digit_char del: of_nat_div of_nat_mod)
  qed
qed

text \<open>Printing an IPv4 address, and reading it back.\<close>

definition dotted_quad :: "32 word \<Rightarrow> string" where
  "dotted_quad w = (let x = nat (uint w) in join_with ''.''
     (map str_of_nat [x div 16777216, x div 65536 mod 256, x div 256 mod 256, x mod 256]))"

lemma str_of_nat_no_dot: "CHR ''.'' \<notin> set (str_of_nat n)"
proof
  assume "CHR ''.'' \<in> set (str_of_nat n)"
  then obtain x :: nat where x: "48 \<le> x" "x \<le> 57" "CHR ''.'' = (char_of x :: char)"
    using str_of_nat_digits(1) [of n] by auto
  from x(3) have "of_char CHR ''.'' = (of_char (char_of x :: char) :: nat)" by (rule arg_cong)
  with x(1,2) show False by simp
qed

lemma quad_parts:
  fixes x :: nat
  shows "((x div 16777216 * 256 + x div 65536 mod 256) * 256 + x div 256 mod 256) * 256 + x mod 256 = x"
proof -
  have a: "x div 16777216 * 256 + x div 65536 mod 256 = x div 65536"
    using div_mult_mod_eq [of "x div 65536" 256] by (simp only: div_mult2_eq [symmetric]) simp
  have b: "x div 65536 * 256 + x div 256 mod 256 = x div 256"
    using div_mult_mod_eq [of "x div 256" 256] by (simp only: div_mult2_eq [symmetric]) simp
  show ?thesis unfolding a b by (rule div_mult_mod_eq)
qed

lemma ip_address_dotted: "ip_address (dotted_quad w) = Some (V4 w)"
proof -
  define x where "x = nat (uint w)"
  have x: "x < 4294967296" using unsigned_less [of w] by (simp add: x_def)
  then have a: "x div 16777216 < 256" by simp
  let ?xs = "[x div 16777216, x div 65536 mod 256, x div 256 mod 256, x mod 256]"
  have "split_on (CHR ''.'') (dotted_quad w) = map str_of_nat ?xs"
    unfolding dotted_quad_def Let_def x_def [symmetric]
    by (rule split_on_join) (simp_all add: str_of_nat_no_dot)
  moreover have "map octet_of (map str_of_nat ?xs) = map (Some \<circ> int) ?xs"
    using a by (simp add: octet_str)
  moreover have "v4 (int (x div 16777216)) (int (x div 65536 mod 256)) (int (x div 256 mod 256)) (int (x mod 256)) = w"
  proof -
    have "v4 (int (x div 16777216)) (int (x div 65536 mod 256)) (int (x div 256 mod 256)) (int (x mod 256))
        = of_int (int (((x div 16777216 * 256 + x div 65536 mod 256) * 256 + x div 256 mod 256) * 256 + x mod 256))"
      unfolding v4_def by (simp only: of_nat_add of_nat_mult of_nat_numeral)
    also have "\<dots> = of_int (uint w)" unfolding quad_parts by (simp add: x_def)
    finally show ?thesis by simp
  qed
  ultimately show ?thesis by (simp add: ip_address_def ipv4_of_string_def del: of_nat_div of_nat_mod)
qed

text \<open>What the loop over the addresses decides.\<close>

definition home_ip :: "ip \<Rightarrow> bool" where
  "home_ip ip \<longleftrightarrow> internal_ip (unmapped ip) \<and> unmapped ip \<notin> set METADATA_IPS"

lemma scan_addrs_iff:
  "scan_addrs found as \<longleftrightarrow> \<not> ((found \<or> (\<exists>a\<in>set as. ip_address a \<noteq> None)) \<and>
     (\<forall>a\<in>set as. \<forall>ip. ip_address a = Some ip \<longrightarrow> home_ip ip))"
  by (induction as arbitrary: found) (auto simp: home_ip_def split: option.splits)

lemma is_external_host_iff:
  "is_external_host r host = Inr False \<longleftrightarrow> (\<exists>as. r (bare_host host) = Addrs as \<and>
     (\<exists>a\<in>set as. ip_address a \<noteq> None) \<and> (\<forall>a\<in>set as. \<forall>ip. ip_address a = Some ip \<longrightarrow> home_ip ip))"
  by (cases "r (bare_host host)") (auto simp: is_external_host_def scan_addrs_iff)

lemma is_external_host_raises: "is_external_host r host = Inl e \<Longrightarrow> r (bare_host host) = LookupRaises"
  by (auto simp: is_external_host_def split: gai.splits)

section \<open>What an intent says\<close>

lemma parser_sound:
  assumes "tool_parser tool = Some p"
  shows "p r toks = Inr (Some u) \<Longrightarrow> is_external_host r (ui_host u) = Inr (ui_external u)"
    "p r toks = Inl e \<Longrightarrow> \<exists>h. r h = LookupRaises"
  using assms
  by (auto simp: tool_parser_def parse_curl_def parse_scp_def parse_rsync_def Let_def
        dest: is_external_host_raises split: option.splits sum.splits if_splits)

lemma pipe_scan_sound:
  "pipe_scan r segs = Inr (Some u) \<Longrightarrow> is_external_host r (ui_host u) = Inr (ui_external u)"
  "pipe_scan r segs = Inl e \<Longrightarrow> \<exists>h. r h = LookupRaises"
  by (induction segs) (auto dest: parser_sound split: option.splits list.splits)

lemma parse_upload_sound:
  "parse_upload r cmd = Inr (Some u) \<Longrightarrow> is_external_host r (ui_host u) = Inr (ui_external u)"
  by (auto simp: parse_upload_def dest: parser_sound(1) pipe_scan_sound(1)
        split: option.splits list.splits if_splits sum.splits)

lemma parse_upload_raises:
  "parse_upload r cmd = Inl e \<Longrightarrow> CHR ''|'' \<in> set cmd \<and> (\<exists>h. r h = LookupRaises)"
  by (auto simp: parse_upload_def dest: pipe_scan_sound(2) split: option.splits list.splits if_splits sum.splits)

section \<open>An upload by curl is seen\<close>

text \<open>What the loop has learned is not lost: the state grows in this order.\<close>

definition curl_le :: "curl_state \<Rightarrow> curl_state \<Rightarrow> bool" where
  "curl_le st st' \<longleftrightarrow> (c_upload st \<longrightarrow> c_upload st') \<and> set (c_files st) \<subseteq> set (c_files st') \<and>
     (c_host st \<noteq> None \<longrightarrow> c_host st' \<noteq> None)"

lemma curl_le_refl [simp]: "curl_le st st"
  by (simp add: curl_le_def)

lemma curl_le_trans [trans]: "curl_le a b \<Longrightarrow> curl_le b c \<Longrightarrow> curl_le a c"
  by (auto simp: curl_le_def)

lemma curl_le_step [intro]:
  "curl_le st (st\<lparr>c_method := m\<rparr>)" "curl_le st (st\<lparr>c_upload := True\<rparr>)"
  "curl_le st (add_at v st)" "curl_le st (flag_value t v st)" "curl_le st (inline_value t st)" "curl_le st (see_url t st)"
  by (auto simp: curl_le_def add_at_def flag_value_def inline_value_def see_url_def Let_def split: option.splits)

lemma curl_loop_le: "curl_le st (curl_loop st toks)"
proof (induction st toks rule: curl_loop.induct)
  case (2 st tok toks)
  consider (m) "tok \<in> set CURL_METHOD_FLAGS"
    | (x) "tok \<notin> set CURL_METHOD_FLAGS" "startswith tok ''-X'' \<and> length tok > 2"
    | (f) "tok \<notin> set CURL_METHOD_FLAGS" "\<not> (startswith tok ''-X'' \<and> length tok > 2)" "tok \<in> set CURL_UPLOAD_FLAGS"
    | (o) "tok \<notin> set CURL_METHOD_FLAGS" "\<not> (startswith tok ''-X'' \<and> length tok > 2)" "tok \<notin> set CURL_UPLOAD_FLAGS"
    by blast
  then show ?case
  proof cases
    case m
    then show ?thesis using "2.IH"(1) by (cases toks) (simp_all, metis curl_le_step(1) curl_le_trans)
  next
    case x
    then have "curl_loop st (tok # toks) = curl_loop (st\<lparr>c_method := Some (py_upper (drop 2 tok))\<rparr>) toks" by simp
    then show ?thesis using "2.IH"(2) [OF x] curl_le_step(1) curl_le_trans by metis
  next
    case f
    show ?thesis
    proof (cases toks)
      case Nil
      with f show ?thesis by (auto intro: curl_le_step)
    next
      case (Cons v vs)
      let ?st = "st\<lparr>c_upload := True\<rparr>"
      have "curl_loop st (tok # toks) = curl_loop (flag_value tok v ?st) vs"
        by (simp only: Cons f curl_loop.simps(2) [of st tok] if_False if_True list.case simp_thms)
      moreover have "curl_le (flag_value tok v ?st) (curl_loop (flag_value tok v ?st) vs)"
        using "2.IH"(3) [OF f Cons] .
      ultimately show ?thesis using curl_le_step(2) [of st] curl_le_step(4) [of ?st tok v] curl_le_trans by metis
    qed
  next
    case o
    from o have "curl_loop st (tok # toks) = curl_loop (see_url tok (inline_value tok st)) toks"
      by (simp only: o curl_loop.simps(2) [of st tok] if_False simp_thms)
    then show ?thesis using "2.IH"(4) [OF o] curl_le_step(5,6) curl_le_trans by metis
  qed
qed simp

definition plain_token :: "string \<Rightarrow> bool" where
  "plain_token t \<longleftrightarrow> t \<notin> set CURL_METHOD_FLAGS \<and> t \<notin> set CURL_UPLOAD_FLAGS"

lemma curl_loop_plain:
  "list_all plain_token pre \<Longrightarrow> \<exists>st'. curl_le st st' \<and> curl_loop st (pre @ toks) = curl_loop st' toks"
proof (induction pre arbitrary: st)
  case Nil
  then show ?case by (metis append_Nil curl_le_refl)
next
  case (Cons t pre)
  define st1 where "st1 = (if startswith t ''-X'' \<and> length t > 2 then st\<lparr>c_method := Some (py_upper (drop 2 t))\<rparr>
    else see_url t (inline_value t st))"
  have "curl_le st st1" by (auto simp: st1_def intro: curl_le_step curl_le_trans)
  moreover have "curl_loop st ((t # pre) @ toks) = curl_loop st1 (pre @ toks)"
    using Cons.prems by (simp add: plain_token_def st1_def)
  moreover obtain st' where "curl_le st1 st'" "curl_loop st1 (pre @ toks) = curl_loop st' toks"
    using Cons.IH [of st1] Cons.prems by auto
  ultimately show ?case using curl_le_trans by metis
qed

text \<open>The value of a flag names the file: the path after \<open>-T\<close>, or behind the \<open>@\<close> of a data field.\<close>

definition names_file :: "string \<Rightarrow> string \<Rightarrow> string \<Rightarrow> bool" where
  "names_file flag v f \<longleftrightarrow>
     (if flag \<in> set [''-T'', ''--upload-file''] then v = f \<and> f \<noteq> [] \<and> \<not> startswith f ''-''
      else extract_file_from_at v = Some f \<and> \<not> endswith v ''=@-'')"

lemma flag_value_names: "names_file flag v f \<Longrightarrow> f \<in> set (c_files (flag_value flag v st))"
  by (auto simp: names_file_def flag_value_def add_at_def Let_def extract_file_from_at_def split: if_splits)

lemma upload_flag_not_method: "flag \<in> set CURL_UPLOAD_FLAGS \<Longrightarrow> flag \<notin> set CURL_METHOD_FLAGS \<and> \<not> startswith flag ''-X''"
  by (auto simp: CURL_UPLOAD_FLAGS_def CURL_METHOD_FLAGS_def)

lemma url_not_flag: "web_url url \<Longrightarrow> url \<notin> set CURL_METHOD_FLAGS \<and> url \<notin> set CURL_UPLOAD_FLAGS \<and> \<not> startswith url ''-X''"
  by (auto simp: web_url_def CURL_UPLOAD_FLAGS_def CURL_METHOD_FLAGS_def startswith_append)

lemma curl_upload_seen:
  assumes "list_all plain_token pre" "list_all plain_token mid"
    and flag: "flag \<in> set CURL_UPLOAD_FLAGS" "names_file flag v f" and url: "extract_host_from_url url = Some h"
    and st: "st = curl_loop curl_start (pre @ [flag, v] @ mid @ [url] @ post)"
  shows "c_upload st \<and> f \<in> set (c_files st) \<and> c_host st \<noteq> None"
proof -
  obtain s1 where s1: "st = curl_loop s1 ([flag, v] @ mid @ [url] @ post)"
    using curl_loop_plain [OF assms(1)] unfolding st by metis
  define s2 where "s2 = flag_value flag v (s1\<lparr>c_upload := True\<rparr>)"
  have st2: "st = curl_loop s2 (mid @ [url] @ post)"
    using flag(1) upload_flag_not_method [OF flag(1)] by (simp add: s1 s2_def)
  have s2: "c_upload s2" "f \<in> set (c_files s2)"
    using curl_le_step(4) [of "s1\<lparr>c_upload := True\<rparr>" flag v] flag_value_names [OF flag(2)]
    by (auto simp: s2_def curl_le_def)
  obtain s3 where s3: "curl_le s2 s3" "st = curl_loop s3 ([url] @ post)"
    using curl_loop_plain [OF assms(2)] unfolding st2 by metis
  have web: "web_url url" using url by (auto simp: extract_host_from_url_def split: if_splits)
  define s4 where "s4 = see_url url (inline_value url s3)"
  have "st = curl_loop s4 post" using url_not_flag [OF web] s3(2) by (simp add: s4_def)
  moreover have "c_host s4 \<noteq> None" using web url by (simp add: s4_def see_url_def)
  moreover have "curl_le s3 s4" unfolding s4_def by (auto intro: curl_le_step curl_le_trans)
  ultimately have "curl_le s2 st" "c_host st \<noteq> None"
    using s3(1) curl_loop_le [of s4 post] by (auto simp: curl_le_def)
  with s2 show ?thesis by (auto simp: curl_le_def)
qed

lemma parse_curl_seen:
  assumes "curl_loop curl_start toks = st" "c_upload st" "c_host st = Some h"
  shows "(\<exists>u. parse_curl r (tool # toks) = Inr (Some u) \<and> ui_files u = c_files st) \<or>
    parse_curl r (tool # toks) = Inl ResolverError"
proof -
  have e: "e = ResolverError" for e by (cases e)
  show ?thesis using assms(2,3) unfolding parse_curl_def Let_def drop_Suc_Cons drop_0 One_nat_def assms(1)
    by (cases "is_external_host r h") (simp_all add: e)
qed

section \<open>The properties\<close>

text \<open>
  C28. A host counts as internal exactly when its name resolves, at least one of the addresses can be read, and
  every address that can be read is, once an IPv4-mapped one is unwrapped, in an internal range and not the
  address of a metadata service. The internal ranges are: of IPv4 the blocks 127/8, 10/8, 172.16/12, 192.168/16 and
  169.254/16, of IPv6 the loopback address, fc00::/7 and fe80::/10.
\<close>

theorem internal_host_exact:
  "(is_external_host r host = Inr False \<longleftrightarrow> (\<exists>as. r (bare_host host) = Addrs as \<and>
     (\<exists>a\<in>set as. ip_address a \<noteq> None) \<and> (\<forall>a\<in>set as. \<forall>ip. ip_address a = Some ip \<longrightarrow>
       internal_ip (unmapped ip) \<and> unmapped ip \<notin> set METADATA_IPS))) \<and>
   (\<forall>a\<in>{0..255}. \<forall>b\<in>{0..255}. \<forall>c\<in>{0..255}. \<forall>d\<in>{0..255}. internal_ip (V4 (v4 a b c d)) \<longleftrightarrow>
     a = 127 \<or> a = 10 \<or> a = 172 \<and> 16 \<le> b \<and> b \<le> 31 \<or> a = 192 \<and> b = 168 \<or> a = 169 \<and> b = 254) \<and>
   (internal_ip (V6 w sc) \<longleftrightarrow> w = 1 \<or> uint w div 2 ^ 121 = 126 \<or> uint w div 2 ^ 118 = 1018)"
  by (intro conjI ballI is_external_host_iff [unfolded home_ip_def] internal_v6_ranges internal_v4_ranges) assumption+

theorem internal_host_exact_witness:
  "is_external_host (\<lambda>_. Addrs [''fd00:ec2::254'']) ''h'' = Inr True \<and>
   is_external_host (\<lambda>_. Addrs [''x'', ''::ffff:10.0.0.7'']) ''[fe80::1]:80'' = Inr False"
proof
  have "ip_address ''fd00:ec2::254'' = Some (V6 0xfd000ec2000000000000000000000254 None)" by code_simp
  moreover have "V6 0xfd000ec2000000000000000000000254 None \<in> set METADATA_IPS" by (simp add: METADATA_IPS_def)
  moreover have "drop_bit 32 (0xfd000ec2000000000000000000000254 :: 128 word) \<noteq> 0xFFFF" by simp
  ultimately have "is_external_host (\<lambda>_. Addrs [''fd00:ec2::254'']) ''h'' \<noteq> Inr False"
    by (subst internal_host_exact [of _ _ 1 None, THEN conjunct1]) simp
  then show "is_external_host (\<lambda>_. Addrs [''fd00:ec2::254'']) ''h'' = Inr True"
    by (auto simp: is_external_host_def)
  have m: "ip_address ''x'' = None" "ip_address ''::ffff:10.0.0.7'' = Some (V6 0xffff0a000007 None)" by code_simp+
  have "internal_ip (V4 (v4 10 0 0 7))"
    using internal_host_exact [of "\<lambda>_. LookupFailed" "[]" 1 None] by simp
  moreover have u: "unmapped (V6 0xffff0a000007 None) = V4 (v4 10 0 0 7)" "V4 (v4 10 0 0 7) \<notin> set METADATA_IPS" by code_simp+
  ultimately show "is_external_host (\<lambda>_. Addrs [''x'', ''::ffff:10.0.0.7'']) ''[fe80::1]:80'' = Inr False"
    by (subst internal_host_exact [of _ _ 1 None, THEN conjunct1]) (simp add: m del: unmapped.simps internal_ip.simps)
qed



text \<open>
  What \<open>parse_upload\<close> reports is what the classification of the host says, and it raises only for a command
  with a pipe, and only when name resolution raises something other than an \<open>OSError\<close>.
\<close>

theorem parse_upload_verdicts:
  "(case parse_upload r command of
      Inl e \<Rightarrow> CHR ''|'' \<in> set command \<and> (\<exists>h. r h = LookupRaises)
    | Inr None \<Rightarrow> True
    | Inr (Some u) \<Rightarrow> is_external_host r (ui_host u) = Inr (ui_external u))"
  using parse_upload_sound [of r command] parse_upload_raises [of r command]
  by (auto split: sum.splits option.splits)

end
