(* ===== verification/Egress_Rules.thy ===== *)
theory Egress_Rules
  imports Egress_Parse Fs_Scope Py_Text Model_Windows Permissions Confirm
begin

text \<open>
  What stands between an upload and the network: the privacy rules (\<open>egress/rules.py\<close>), the content judge
  (\<open>egress/judge.py\<close>), and the gate in \<open>skills/shell.py\<close> that puts them in front of a command in the network
  namespace. Parameters: the files (their bytes and sizes), the pattern matcher of the \<open>pathspec\<close> package, the
  answer of the model server and the JSON decoder it is read with, the resolver, and what happens on the
  confirmation manager while the gate waits for its card.
\<close>

section \<open>Patterns in content\<close>

definition in_class :: "string \<Rightarrow> int \<Rightarrow> bool" where
  "in_class s n \<longleftrightarrow> n \<in> set (utext s)"

definition UPPER :: string where "UPPER = ''ABCDEFGHIJKLMNOPQRSTUVWXYZ''"
definition DIGITS :: string where "DIGITS = ''0123456789''"
definition LOWER :: string where "LOWER = ''abcdefghijklmnopqrstuvwxyz''"

fun key_rest :: "codes \<Rightarrow> bool" where
  "key_rest t = (startswith t (utext ''PRIVATE KEY-----'') \<or>
     (case t of [] \<Rightarrow> False | c # cs \<Rightarrow> in_class (UPPER @ '' '') c \<and> key_rest cs))"

declare key_rest.simps [simp del]

definition private_key_at :: "codes \<Rightarrow> bool" where
  "private_key_at t \<longleftrightarrow> startswith t (utext ''-----BEGIN '') \<and> key_rest (drop 11 t)"

definition aws_akid_at :: "codes \<Rightarrow> bool" where
  "aws_akid_at t \<longleftrightarrow> startswith t (utext ''AKIA'') \<and> length (take 16 (drop 4 t)) = 16 \<and>
     list_all (in_class (DIGITS @ UPPER)) (take 16 (drop 4 t))"

definition b64 :: "int \<Rightarrow> bool" where
  "b64 n \<longleftrightarrow> in_class (UPPER @ LOWER @ DIGITS @ ''_-'') n"

definition jwt_at :: "codes \<Rightarrow> bool" where
  "jwt_at t \<longleftrightarrow> startswith t (utext ''eyJ'') \<and>
     (let r = drop 3 t; r2 = dropWhile b64 r in
      takeWhile b64 r \<noteq> [] \<and> startswith r2 (utext ''.eyJ'') \<and>
      (let r3 = drop 4 r2; r4 = dropWhile b64 r3 in
       takeWhile b64 r3 \<noteq> [] \<and> startswith r4 (utext ''.'') \<and> takeWhile b64 (tl r4) \<noteq> []))"

text \<open>
  An e-mail match takes a whole run without white space, so a run holds one match or none: there is an \<open>@\<close> that is
  not the first character, and behind it a dot with something on both sides.
\<close>

fun dot_inside :: "codes \<Rightarrow> bool" where
  "dot_inside [] = False"
| "dot_inside (c # cs) = (c = 46 \<and> cs \<noteq> [] \<or> dot_inside cs)"

fun at_inside :: "codes \<Rightarrow> bool" where
  "at_inside [] = False"
| "at_inside (c # cs) = (c = 64 \<and> cs \<noteq> [] \<and> dot_inside (tl cs) \<or> at_inside cs)"

definition email_count :: "codes \<Rightarrow> nat" where
  "email_count t = length (filter (\<lambda>w. w \<noteq> [] \<and> at_inside (tl w)) (split_by u_isspace t))"

text \<open>\<open>len(pattern.findall(text))\<close> for a pattern of fixed length, one test per character.\<close>

function count_fixed :: "(int \<Rightarrow> bool) list \<Rightarrow> codes \<Rightarrow> nat" where
  "count_fixed ps t =
     (if t = [] \<or> ps = [] then 0
      else if length ps \<le> length t \<and> list_all2 (\<lambda>p c. p c) ps (take (length ps) t)
      then 1 + count_fixed ps (drop (length ps) t)
      else count_fixed ps (tl t))"
  by pat_completeness auto
termination by (relation "measure (\<lambda>(ps, t). length t)") (auto simp: diff_less)

declare count_fixed.simps [simp del]

definition CN_PHONE :: "(int \<Rightarrow> bool) list" where
  "CN_PHONE = [\<lambda>n. n = 49, \<lambda>n. 51 \<le> n \<and> n \<le> 57] @ replicate 9 u_digit"

definition CN_ID :: "(int \<Rightarrow> bool) list" where
  "CN_ID = replicate 17 u_digit @ [\<lambda>n. u_digit n \<or> n = 88 \<or> n = 120]"

section \<open>Rules\<close>

datatype vlevel = Clean | Suspect | Block

record verdict =
  v_level :: vlevel
  v_reason :: codes

definition PII_DENSITY_THRESHOLD :: nat where
  "PII_DENSITY_THRESHOLD = 3"

definition scan_content :: "string \<Rightarrow> verdict option" where
  "scan_content data = (let t = utf8_decode data;
       pii = email_count t + count_fixed CN_PHONE t + count_fixed CN_ID t in
     if re_search private_key_at t
     then Some \<lparr>v_level = Block, v_reason = utext ''private key header detected in content''\<rparr>
     else if re_search aws_akid_at t
     then Some \<lparr>v_level = Block,
       v_reason = utext ''AWS access key ID (AKIA'' @ [0x2026] @ utext '') detected in content''\<rparr>
     else if re_search jwt_at t
     then Some \<lparr>v_level = Suspect, v_reason = utext ''JWT token detected in content''\<rparr>
     else if pii \<ge> PII_DENSITY_THRESHOLD
     then Some \<lparr>v_level = Suspect, v_reason = utext (''high PII density ('' @ str_of_nat pii @
       '' matches: email/phone/ID) in content'')\<rparr>
     else None)"

fun vlevel_rank :: "vlevel \<Rightarrow> nat" where
  "vlevel_rank Clean = 0"
| "vlevel_rank Suspect = 1"
| "vlevel_rank Block = 2"

definition worse_verdict :: "verdict option \<Rightarrow> verdict option \<Rightarrow> verdict option" where
  "worse_verdict a b = (case a of None \<Rightarrow> b | Some va \<Rightarrow>
     (case b of None \<Rightarrow> a | Some vb \<Rightarrow> if vlevel_rank (v_level va) \<ge> vlevel_rank (v_level vb) then a else b))"

text \<open>The environment: the value of the variable for the size limit, the files and the pattern matcher.\<close>

record egress_env =
  eg_maxbytes :: "string option"
  eg_file :: "string \<Rightarrow> string option"
  eg_fs :: fs_env

definition maxbytes :: "egress_env \<Rightarrow> int" where
  "maxbytes env = (case eg_maxbytes env of
     None \<Rightarrow> 4096 | Some s \<Rightarrow> (case py_int_str s of None \<Rightarrow> 4096 | Some n \<Rightarrow> n))"

definition path_blocked :: "egress_env \<Rightarrow> string \<Rightarrow> bool" where
  "path_blocked env path = ig_matches (eg_fs env) BUILTIN_HARD_BLACKLIST path"

text \<open>\<open>fh.read(n)\<close>: a negative number reads all. \<open>data[:n]\<close>: a negative number drops from the end.\<close>

definition read_head :: "egress_env \<Rightarrow> string \<Rightarrow> int \<Rightarrow> string option" where
  "read_head env path n = map_option (\<lambda>d. if n < 0 then d else take (nat n) d) (eg_file env path)"

definition slice_to :: "int \<Rightarrow> string \<Rightarrow> string" where
  "slice_to n d = (if n < 0 then take (length d - nat (- n)) d else take (nat n) d)"

definition file_verdict :: "egress_env \<Rightarrow> string \<Rightarrow> verdict option" where
  "file_verdict env path = (case read_head env path (maxbytes env) of
      None \<Rightarrow> Some \<lparr>v_level = Suspect, v_reason = utext (''could not read file for content scan: '' @ path)\<rparr>
    | Some data \<Rightarrow> scan_content data)"

definition is_block :: "verdict option \<Rightarrow> bool" where
  "is_block v \<longleftrightarrow> (case v of Some w \<Rightarrow> v_level w = Block | None \<Rightarrow> False)"

text \<open>The loop over the files: \<open>Inl\<close> is the early return.\<close>

fun scan_files :: "egress_env \<Rightarrow> verdict option \<Rightarrow> string list \<Rightarrow> verdict + verdict option" where
  "scan_files env worst [] = Inr worst"
| "scan_files env worst (p # ps) = (let w = worse_verdict worst (file_verdict env p) in
     if is_block w then Inl (the w) else scan_files env w ps)"

definition assess :: "egress_env \<Rightarrow> string list \<Rightarrow> string option \<Rightarrow> verdict" where
  "assess env files inline_payload = (case List.find (path_blocked env) files of
      Some p \<Rightarrow> \<lparr>v_level = Block, v_reason = utext (''path matches hard blacklist: '' @ p)\<rparr>
    | None \<Rightarrow> (case scan_files env None files of
        Inl v \<Rightarrow> v
      | Inr worst \<Rightarrow>
          (let worst = (case inline_payload of None \<Rightarrow> worst
             | Some data \<Rightarrow> worse_verdict worst (scan_content (slice_to (maxbytes env) data))) in
           case worst of Some v \<Rightarrow> v
           | None \<Rightarrow> \<lparr>v_level = Clean, v_reason = utext ''no sensitive patterns detected''\<rparr>)))"

section \<open>The judge\<close>

text \<open>What the model server gives back: an exception, or a decoded JSON document.\<close>

datatype reply = NoReply | Reply pyval

definition VALID_VERDICTS :: "string list" where
  "VALID_VERDICTS = [''allow'', ''block'', ''ask'']"

definition NL :: string where "NL = [CHR 0x0A]"

definition build_prompt :: "codes \<Rightarrow> string \<Rightarrow> string \<Rightarrow> codes" where
  "build_prompt content host model =
     utext ((if contains (py_lower model) ''qwen3'' then ''/no_think'' else []) @ NL @
       ''You are a privacy and data-loss-prevention (DLP) classifier.'' @ NL @
       ''The following content is about to be sent over the network to host: '' @ repr_str host @ NL @ NL @
       ''Analyse whether the content contains any of the following:'' @ NL @
       ''  - Private keys, certificates, or cryptographic secrets'' @ NL @
       ''  - API keys, tokens, or credentials'' @ NL @
       ''  - Personally identifiable information (PII): names, emails, phone numbers, ID numbers'' @ NL @
       ''  - Passwords or passphrases'' @ NL @
       ''  - Any other sensitive private information'' @ NL @ NL @
       ''Respond ONLY with valid JSON in this exact format (no markdown, no extra text):'' @ NL @
       ''{'' @ [CHR 0x22] @ ''verdict'' @ [CHR 0x22] @ '': '' @ [CHR 0x22] @ ''<allow|block|ask>'' @ [CHR 0x22] @ '', '' @
       [CHR 0x22] @ ''reason'' @ [CHR 0x22] @ '': '' @ [CHR 0x22] @ ''<brief reason>'' @ [CHR 0x22] @ ''}'' @ NL @ NL @
       ''  allow '') @ [0x2014] @ utext ('' content is safe to transmit'' @ NL @
       ''  block '') @ [0x2014] @ utext ('' content clearly contains sensitive/private data; must not be sent'' @ NL @
       ''  ask   '') @ [0x2014] @ utext ('' uncertain; human review needed'' @ NL @ NL @
       ''Content to analyse:'' @ NL) @ content"

text \<open>The text the verdict is read from: the response, or what the model thought when there is none.\<close>

definition verdict_text :: "(string \<times> pyval) list \<Rightarrow> string option" where
  "verdict_text d = (case (case map_of d ''response'' of None \<Rightarrow> PStr [] | Some v \<Rightarrow> v) of
      PStr raw \<Rightarrow>
        if py_strip raw \<noteq> [] then Some raw
        else (case map_of d ''thinking'' of
            Some (PStr th) \<Rightarrow> if py_strip th \<noteq> [] then Some th else None
          | _ \<Rightarrow> None)
    | _ \<Rightarrow> None)"

text \<open>
  \<open>None\<close> is an exception that leaves \<open>judge\<close>: the document, or the one inside it, is not a dictionary, or its
  verdict cannot be hashed.
\<close>

definition judge_answer :: "(string \<Rightarrow> pyval option) \<Rightarrow> reply \<Rightarrow> string option" where
  "judge_answer json rep = (case rep of
      NoReply \<Rightarrow> Some ''ask''
    | Reply doc \<Rightarrow> (case as_dict doc of
        None \<Rightarrow> None
      | Some d \<Rightarrow> (case verdict_text d of
          None \<Rightarrow> Some ''ask''
        | Some raw \<Rightarrow> (case json raw of
            None \<Rightarrow> Some ''ask''
          | Some out \<Rightarrow> (case as_dict out of
              None \<Rightarrow> None
            | Some o' \<Rightarrow> (case (case map_of o' ''verdict'' of None \<Rightarrow> PStr [] | Some v \<Rightarrow> v) of
                PStr s \<Rightarrow> Some (if s \<in> set VALID_VERDICTS then s else ''ask'')
              | PList _ \<Rightarrow> None
              | PDict _ \<Rightarrow> None
              | _ \<Rightarrow> Some ''ask''))))))"

definition judge :: "egress_env \<Rightarrow> string \<Rightarrow> (codes \<Rightarrow> reply) \<Rightarrow> (string \<Rightarrow> pyval option) \<Rightarrow> string \<Rightarrow> string \<Rightarrow> string option" where
  "judge env model ollama json content host =
     judge_answer json (ollama (build_prompt (utf8_decode (slice_to (maxbytes env) content)) host model))"

section \<open>The gate in front of a command\<close>

record gate_env =
  ge_env :: egress_env
  ge_size :: "string \<Rightarrow> int option"
  ge_lookup :: gai_fn
  ge_model :: string
  ge_ollama :: "codes \<Rightarrow> reply"
  ge_json :: "string \<Rightarrow> pyval option"
  ge_policy :: "(conn_id \<times> string \<times> perm_state) option"
  ge_mgr :: "confirm_mgr option"
  ge_parked :: "string \<Rightarrow> confirm_mgr \<Rightarrow> confirm_mgr \<times> wake"

text \<open>
  \<open>ge_policy\<close> is the connection, the run's context and the state of the policy cache, when there is a database;
  \<open>ge_mgr\<close> the confirmation manager, when the run has one and a sink; \<open>ge_parked\<close> what the rest of the program does
  to the manager while the gate waits for a card, and how the wait ends.
\<close>

datatype refusal = BlockedByRules codes | BlockedByJudge | NoChannel | Denied | InternalError

record ticket =
  t_host :: string
  t_max_bytes :: int
  t_ttl :: int

datatype gate_out = Run "ticket option" | Refused refusal | RunCancelled

datatype gate_audit =
    AuditBlock string "string list" string codes
  | AuditAuto string "string list"
  | AuditGrant string "string list" int vlevel

type_synonym gate_result = "gate_out \<times> gate_audit list \<times> confirm_mgr option"

definition first_content :: "gate_env \<Rightarrow> string list \<Rightarrow> string" where
  "first_content g files = (case files of [] \<Rightarrow> []
     | f # _ \<Rightarrow> (case eg_file (ge_env g) f of None \<Rightarrow> [] | Some d \<Rightarrow> take 4096 d))"

definition content_verdict :: "gate_env \<Rightarrow> upload_intent \<Rightarrow> string option" where
  "content_verdict g u =
     (if (case ge_policy g of Some (c, _, st) \<Rightarrow> \<not> judge_enabled c ''egress'' st | None \<Rightarrow> False) then Some ''ask''
      else judge (ge_env g) (ge_model g) (ge_ollama g) (ge_json g) (first_content g (ui_files u)) (ui_host u))"

definition card_waived :: "gate_env \<Rightarrow> bool" where
  "card_waived g = (case ge_policy g of
     Some (c, ctx, st) \<Rightarrow> fst (auto_approve c ''egress_upload'' [] None ctx st) | None \<Rightarrow> False)"

text \<open>A suspect upload: \<open>None\<close> lets it go on.\<close>

definition ask_user :: "gate_env \<Rightarrow> string \<Rightarrow> string \<Rightarrow> int \<Rightarrow> string \<Rightarrow> upload_intent \<Rightarrow>
    gate_out option \<times> confirm_mgr option" where
  "ask_user g sid cid now command u = (case ge_mgr g of
      None \<Rightarrow> (Some (Refused NoChannel), None)
    | Some m \<Rightarrow>
        (let m1 = register m cid now sid ''egress_upload''
               (''Agent requests to upload files to external host '' @ ui_host u) command;
             (m2, w) = ge_parked g cid m1;
             (answer, m3) = wait m2 cid w in
         ((case answer of None \<Rightarrow> Some RunCancelled | Some True \<Rightarrow> None | Some False \<Rightarrow> Some (Refused Denied)), Some m3)))"

definition suspect_step :: "gate_env \<Rightarrow> string \<Rightarrow> string \<Rightarrow> int \<Rightarrow> string \<Rightarrow> upload_intent \<Rightarrow> verdict \<Rightarrow>
    gate_out option \<times> gate_audit list \<times> confirm_mgr option" where
  "suspect_step g sid cid now command u v = (case content_verdict g u of
      None \<Rightarrow> (Some (Refused InternalError), [], ge_mgr g)
    | Some vd \<Rightarrow>
        if vd = ''block''
        then (Some (Refused BlockedByJudge), [AuditBlock (ui_host u) (ui_files u) ''judge'' (v_reason v)], ge_mgr g)
        else if vd = ''ask'' \<and> card_waived g then (None, [AuditAuto (ui_host u) (ui_files u)], ge_mgr g)
        else if vd = ''ask''
        then (case ask_user g sid cid now command u of (out, m) \<Rightarrow> (out, [], m))
        else (None, [], ge_mgr g))"

definition byte_budget :: "gate_env \<Rightarrow> string list \<Rightarrow> int" where
  "byte_budget g files = (if files = [] then 1024 * 1024
     else 16 * 1024 + sum_list (map (\<lambda>f. case ge_size g f of Some n \<Rightarrow> n | None \<Rightarrow> 1024 * 1024) files))"

definition granted_run :: "gate_env \<Rightarrow> upload_intent \<Rightarrow> verdict \<Rightarrow> gate_audit list \<Rightarrow> confirm_mgr option \<Rightarrow> gate_result" where
  "granted_run g u v audits m =
     (let n = byte_budget g (ui_files u) in
      (Run (Some \<lparr>t_host = ui_host u, t_max_bytes = n, t_ttl = 60\<rparr>),
       audits @ [AuditGrant (ui_host u) (ui_files u) n (v_level v)], m))"

definition upload_gate :: "gate_env \<Rightarrow> string \<Rightarrow> string \<Rightarrow> int \<Rightarrow> string \<Rightarrow> gate_result" where
  "upload_gate g sid cid now command = (case parse_upload (ge_lookup g) command of
      Inl _ \<Rightarrow> (Refused InternalError, [], ge_mgr g)
    | Inr None \<Rightarrow> (Run None, [], ge_mgr g)
    | Inr (Some u) \<Rightarrow>
        if \<not> ui_external u then (Run None, [], ge_mgr g)
        else let v = assess (ge_env g) (ui_files u) None in
          (case v_level v of
             Block \<Rightarrow> (Refused (BlockedByRules (v_reason v)),
               [AuditBlock (ui_host u) (ui_files u) ''rules'' (v_reason v)], ge_mgr g)
           | Clean \<Rightarrow> granted_run g u v [] (ge_mgr g)
           | Suspect \<Rightarrow> (case suspect_step g sid cid now command u v of
                 (Some out, audits, m) \<Rightarrow> (out, audits, m)
               | (None, audits, m) \<Rightarrow> granted_run g u v audits m)))"

section \<open>The worst verdict\<close>

definition vrank :: "verdict option \<Rightarrow> nat" where
  "vrank v = (case v of None \<Rightarrow> 0 | Some w \<Rightarrow> 1 + vlevel_rank (v_level w))"

interpretation verdicts: worst_of vrank worse_verdict
  by unfold_locales (auto simp: vrank_def worse_verdict_def split: option.splits)

lemma vlevel_rank_le: "vlevel_rank l \<le> 2" "vlevel_rank l = 2 \<longleftrightarrow> l = Block" "vlevel_rank l = 0 \<longleftrightarrow> l = Clean"
  by (cases l; simp)+

lemma is_block_rank: "is_block v \<longleftrightarrow> vrank v = 3"
  using vlevel_rank_le by (auto simp: is_block_def vrank_def split: option.splits)

lemma vrank_le: "vrank v \<le> 3"
  using vlevel_rank_le by (auto simp: vrank_def split: option.splits)

lemma fold_max_3: "(\<forall>x\<in>set xs. x \<le> 3) \<Longrightarrow> a \<le> (3::nat) \<Longrightarrow> fold max xs a = 3 \<longleftrightarrow> a = 3 \<or> 3 \<in> set xs"
  by (induction xs arbitrary: a) (auto simp: max_def)

lemma fold_max_0: "fold max xs (a::nat) = 0 \<longleftrightarrow> a = 0 \<and> set xs \<subseteq> {0}"
  by (induction xs arbitrary: a) (auto simp: max_def)

lemma foldl_worse_block: "is_block (foldl worse_verdict a vs) \<longleftrightarrow> is_block a \<or> (\<exists>v\<in>set vs. is_block v)"
  unfolding is_block_rank verdicts.rank_foldl using vrank_le by (subst fold_max_3) auto

lemma vrank_0: "vrank v = 0 \<longleftrightarrow> v = None"
  by (simp add: vrank_def split: option.splits)

lemma foldl_worse_None: "foldl worse_verdict a vs = None \<longleftrightarrow> a = None \<and> set vs \<subseteq> {None}"
  unfolding vrank_0 [symmetric] verdicts.rank_foldl fold_max_0 by (auto simp: vrank_0)

lemma scan_files_spec:
  "\<not> is_block w \<Longrightarrow> (case scan_files env w fs of
      Inl v \<Rightarrow> v_level v = Block \<and> (\<exists>f\<in>set fs. is_block (file_verdict env f))
    | Inr w' \<Rightarrow> w' = foldl worse_verdict w (map (file_verdict env) fs) \<and> \<not> is_block w')"
proof (induction fs arbitrary: w)
  case (Cons f fs)
  show ?case
  proof (cases "is_block (worse_verdict w (file_verdict env f))")
    case True
    then have "is_block (file_verdict env f)"
      using foldl_worse_block [of w "[file_verdict env f]"] Cons.prems by simp
    with True show ?thesis by (auto simp: Let_def is_block_def split: option.splits)
  next
    case False
    then show ?thesis using Cons.IH [OF False] by (auto simp: Let_def split: sum.splits)
  qed
qed simp

lemma file_verdict_not_clean: "file_verdict env f = Some v \<Longrightarrow> v_level v \<noteq> Clean"
  by (auto simp: file_verdict_def scan_content_def Let_def split: option.splits if_splits)

lemma scan_content_not_clean: "scan_content d = Some v \<Longrightarrow> v_level v \<noteq> Clean"
  by (auto simp: scan_content_def Let_def split: if_splits)

lemma worse_not_clean:
  "(\<forall>v\<in>set vs. \<forall>w. v = Some w \<longrightarrow> v_level w \<noteq> Clean) \<Longrightarrow> foldl worse_verdict None vs = Some w \<Longrightarrow> v_level w \<noteq> Clean"
  using verdicts.foldl_mem [of None vs] by auto

text \<open>The verdicts on everything that is uploaded, file by file and then the payload.\<close>

definition content_verdicts :: "egress_env \<Rightarrow> string list \<Rightarrow> string option \<Rightarrow> verdict option list" where
  "content_verdicts env files payload = map (file_verdict env) files @
     (case payload of None \<Rightarrow> [] | Some d \<Rightarrow> [scan_content (slice_to (maxbytes env) d)])"

lemma content_verdict_not_clean: "Some v \<in> set (content_verdicts env files payload) \<Longrightarrow> v_level v \<noteq> Clean"
  by (auto simp: content_verdicts_def dest: file_verdict_not_clean [OF sym] scan_content_not_clean [OF sym] split: option.splits)

lemma assess_fold:
  assumes "\<forall>f\<in>set files. \<not> path_blocked env f"
  shows "(v_level (assess env files payload) = Block \<and> (\<exists>v\<in>set (content_verdicts env files payload). is_block v)) \<or>
    assess env files payload = (case foldl worse_verdict None (content_verdicts env files payload) of
      Some v \<Rightarrow> v | None \<Rightarrow> \<lparr>v_level = Clean, v_reason = utext ''no sensitive patterns detected''\<rparr>)"
proof -
  have find: "List.find (path_blocked env) files = None" using assms by (simp add: find_None_iff)
  have s: "\<not> is_block None" by (simp add: is_block_def)
  show ?thesis
  proof (cases "scan_files env None files")
    case (Inl v)
    with scan_files_spec [OF s, where env = env and fs = files] show ?thesis
      by (auto simp: assess_def find content_verdicts_def)
  next
    case (Inr w)
    with scan_files_spec [OF s, where env = env and fs = files] have "w = foldl worse_verdict None (map (file_verdict env) files)" by simp
    with Inr show ?thesis by (simp add: assess_def find content_verdicts_def Let_def split: option.splits)
  qed
qed

lemma assess_blocked: "f \<in> set files \<Longrightarrow> path_blocked env f \<Longrightarrow> v_level (assess env files payload) = Block"
  by (cases "List.find (path_blocked env) files") (auto simp: assess_def find_None_iff)

lemma assess_level:
  "v_level (assess env files payload) = Block \<longleftrightarrow>
     (\<exists>f\<in>set files. path_blocked env f) \<or> (\<exists>v\<in>set (content_verdicts env files payload). is_block v)" (is ?block)
  "v_level (assess env files payload) = Clean \<longleftrightarrow>
     (\<forall>f\<in>set files. \<not> path_blocked env f) \<and> set (content_verdicts env files payload) \<subseteq> {None}" (is ?clean)
proof -
  let ?vs = "content_verdicts env files payload"
  have "?block \<and> ?clean"
  proof (cases "\<exists>f\<in>set files. path_blocked env f")
    case True
    then obtain f where f: "f \<in> set files" "path_blocked env f" by blast
    with assess_blocked [OF this, of payload] show ?thesis by auto
  next
    case False
    then have nb: "\<forall>f\<in>set files. \<not> path_blocked env f" by blast
    have fb: "is_block (foldl worse_verdict None ?vs) \<longleftrightarrow> (\<exists>v\<in>set ?vs. is_block v)"
      unfolding foldl_worse_block by (simp add: is_block_def)
    have fn: "foldl worse_verdict None ?vs = None \<longleftrightarrow> set ?vs \<subseteq> {None}" unfolding foldl_worse_None by simp
    have nc: "foldl worse_verdict None ?vs = Some v \<Longrightarrow> v_level v \<noteq> Clean" for v
      using verdicts.foldl_mem [of None ?vs] content_verdict_not_clean by auto
    from assess_fold [OF nb, of payload] show ?thesis
    proof (elim disjE conjE)
      assume "v_level (assess env files payload) = Block" "\<exists>v\<in>set ?vs. is_block v"
      then show ?thesis using nb by (auto simp: is_block_def)
    next
      assume a: "assess env files payload = (case foldl worse_verdict None ?vs of
        Some v \<Rightarrow> v | None \<Rightarrow> \<lparr>v_level = Clean, v_reason = utext ''no sensitive patterns detected''\<rparr>)"
      then show ?thesis using nb fb fn nc
        by (cases "foldl worse_verdict None ?vs") (auto simp: is_block_def)
    qed
  qed
  then show ?block ?clean by auto
qed

lemma content_verdict_valid: "content_verdict g u = Some s \<Longrightarrow> s \<in> set VALID_VERDICTS"
proof -
  have "judge_answer json rep = Some s \<Longrightarrow> s \<in> set VALID_VERDICTS" for json rep
    by (auto simp: judge_answer_def VALID_VERDICTS_def split: reply.splits option.splits pyval.splits if_splits)
  then show "content_verdict g u = Some s \<Longrightarrow> s \<in> set VALID_VERDICTS"
    by (auto simp: content_verdict_def judge_def VALID_VERDICTS_def split: if_splits)
qed

text \<open>Only the first file's head reaches the judge, whatever the other files hold.\<close>

lemma content_verdict_first_file:
  assumes "ui_files u = f # fs" "ui_files u' = f # fs'" "ui_host u' = ui_host u"
  shows "content_verdict g u' = content_verdict g u"
  using assms by (simp add: content_verdict_def first_content_def)

lemma suspect_goes_on:
  "fst (suspect_step g sid cid now command u v) = None \<Longrightarrow>
   content_verdict g u = Some ''allow'' \<or> card_waived g \<or> fst (ask_user g sid cid now command u) = None"
  using content_verdict_valid [of g u]
  by (cases "content_verdict g u")
    (auto simp: suspect_step_def VALID_VERDICTS_def split: if_splits prod.splits)

section \<open>The properties\<close>

text \<open>
  C31. The rules: the verdict is \<open>block\<close> exactly when a path of the upload is on the hard blacklist or the content of a
  file or of the payload has a blocking pattern; it is \<open>clean\<close> exactly when no path is, every file could be read, and
  no content shows anything. A later finding is never hidden by an earlier one.
\<close>

theorem assess_exact:
  "(v_level (assess env files payload) = Block \<longleftrightarrow>
     (\<exists>f\<in>set files. path_blocked env f) \<or> (\<exists>v\<in>set (content_verdicts env files payload). is_block v)) \<and>
   (v_level (assess env files payload) = Clean \<longleftrightarrow>
     (\<forall>f\<in>set files. \<not> path_blocked env f \<and> read_head env f (maxbytes env) \<noteq> None) \<and>
     set (content_verdicts env files payload) \<subseteq> {None})"
proof -
  have "read_head env f (maxbytes env) \<noteq> None" if "f \<in> set files" "set (content_verdicts env files payload) \<subseteq> {None}" for f
  proof
    assume r: "read_head env f (maxbytes env) = None"
    from that have "file_verdict env f = None" by (auto simp: content_verdicts_def)
    with r show False by (simp add: file_verdict_def)
  qed
  then show ?thesis unfolding assess_level by blast
qed

theorem assess_exact_witness:
  "v_level (assess \<lparr>eg_maxbytes = None, eg_file = (\<lambda>f. if f = ''/a'' then Some ''AKIA0123456789ABCDEF'' else None),
     eg_fs = demo_env\<rparr> [''/b'', ''/a''] None) = Block"
proof -
  let ?env = "\<lparr>eg_maxbytes = None, eg_file = (\<lambda>f. if f = ''/a'' then Some ''AKIA0123456789ABCDEF'' else None),
     eg_fs = demo_env\<rparr>"
  have "is_block (file_verdict ?env ''/a'')" by code_simp
  then have "\<exists>v\<in>set (content_verdicts ?env [''/b'', ''/a''] None). is_block v" by (simp add: content_verdicts_def)
  then show ?thesis using assess_exact [of ?env "[''/b'', ''/a'']" None] by blast
qed

text \<open>
  The judge fails safe: it answers \<open>allow\<close> only when the server's reply is a document whose text parses to an
  object with exactly this verdict; whatever else happens it answers \<open>block\<close> or \<open>ask\<close>, or raises.
\<close>

theorem judge_allows_only_on_verdict:
  "judge_answer json rep = Some ''allow'' \<longleftrightarrow> (\<exists>d raw out. rep = Reply (PDict d) \<and> verdict_text d = Some raw \<and>
     json raw = Some (PDict out) \<and> map_of out ''verdict'' = Some (PStr ''allow''))"
  by (auto simp: judge_answer_def VALID_VERDICTS_def split: reply.splits option.splits pyval.splits if_splits)


definition demo_gate :: gate_env where
  "demo_gate = \<lparr>ge_env = \<lparr>eg_maxbytes = Some ''64'', eg_file = (\<lambda>f. Some ''hello''), eg_fs = demo_env\<rparr>,
     ge_size = (\<lambda>f. Some 5), ge_lookup = (\<lambda>_. LookupFailed), ge_model = ''m'', ge_ollama = (\<lambda>_. NoReply),
     ge_json = (\<lambda>_. None), ge_policy = None, ge_mgr = None, ge_parked = (\<lambda>_ m. (m, TimedOut))\<rparr>"

definition demo_upload :: upload_intent where
  "demo_upload = \<lparr>ui_host = ''a.example'', ui_method = ''PUT'', ui_files = [''/DATA/x''], ui_inline = False,
     ui_external = True\<rparr>"


end
