(* ===== verification/Elicit_Schema.thy ===== *)
theory Elicit_Schema
  imports Py_Prelude "HOL-Library.List_Lexorder" "HOL-Library.Char_ord"
begin

text \<open>
  \<open>mcp_client/elicitation_schema.py\<close>: a tool server's request for input, a JSON schema, is rendered into form
  fields, and the user's answer is validated against it. Both are decoded JSON, values of the type \<open>pyval\<close>. How
  floats compare (with each other and with integers) is a parameter; everything else is computed.
\<close>

record flt_ops =
  fl_less :: "pyval \<Rightarrow> pyval \<Rightarrow> bool"
  fl_eq :: "pyval \<Rightarrow> pyval \<Rightarrow> bool"

section \<open>Values\<close>

definition num_less :: "flt_ops \<Rightarrow> pyval \<Rightarrow> pyval \<Rightarrow> bool" where
  "num_less fo a b = (case (a, b) of (PInt i, PInt j) \<Rightarrow> i < j | _ \<Rightarrow> fl_less fo a b)"

text \<open>\<open>==\<close> with a scalar on the right: a boolean is the integer 0 or 1.\<close>

fun py_num :: "pyval \<Rightarrow> pyval option" where
  "py_num (PBool b) = Some (PInt (if b then 1 else 0))"
| "py_num (PInt i) = Some (PInt i)"
| "py_num (PFloat s) = Some (PFloat s)"
| "py_num _ = None"

definition py_eq :: "flt_ops \<Rightarrow> pyval \<Rightarrow> pyval \<Rightarrow> bool" where
  "py_eq fo a b = (case (py_num a, py_num b) of
      (Some (PInt i), Some (PInt j)) \<Rightarrow> i = j
    | (Some x, Some y) \<Rightarrow> fl_eq fo x y
    | (None, None) \<Rightarrow> a = b
    | _ \<Rightarrow> False)"

fun int_or_none :: "pyval \<Rightarrow> int option" where
  "int_or_none (PInt i) = Some i"
| "int_or_none _ = None"

fun num_or_none :: "pyval \<Rightarrow> pyval option" where
  "num_or_none (PInt i) = Some (PInt i)"
| "num_or_none (PFloat s) = Some (PFloat s)"
| "num_or_none _ = None"

fun is_scalar :: "pyval \<Rightarrow> bool" where
  "is_scalar (PStr _) = True"
| "is_scalar (PInt _) = True"
| "is_scalar (PFloat _) = True"
| "is_scalar (PBool _) = True"
| "is_scalar _ = False"

fun hashable :: "pyval \<Rightarrow> bool" where
  "hashable (PList _) = False"
| "hashable (PDict _) = False"
| "hashable _ = True"

section \<open>Formats\<close>

definition FORMATS :: "string list" where
  "FORMATS = [''email'', ''uri'', ''date'', ''date-time'']"

definition alpha :: "char \<Rightarrow> bool" where
  "alpha c \<longleftrightarrow> c \<in> set ''abcdefghijklmnopqrstuvwxyzABCDEFGHIJKLMNOPQRSTUVWXYZ''"

definition alnum :: "char \<Rightarrow> bool" where
  "alnum c \<longleftrightarrow> alpha c \<or> ascii_digit c"

text \<open>A \<open>$\<close> also matches before a line feed that ends the text.\<close>

definition to_end :: "(string \<Rightarrow> bool) \<Rightarrow> string \<Rightarrow> bool" where
  "to_end P s \<longleftrightarrow> P s \<or> (s \<noteq> [] \<and> last s = CHR 0x0A \<and> P (butlast s))"

definition host_label :: "string \<Rightarrow> bool" where
  "host_label l \<longleftrightarrow> l \<noteq> [] \<and> length l \<le> 63 \<and> alnum (hd l) \<and> alnum (last l) \<and> list_all (\<lambda>c. alnum c \<or> c = CHR ''-'') l"

definition email_re :: "string \<Rightarrow> bool" where
  "email_re = to_end (\<lambda>s. CHR ''@'' \<in> set s \<and> before_char (CHR ''@'') s \<noteq> [] \<and>
     list_all (\<lambda>c. alnum c \<or> c \<in> set (''.!#$%&*+/=?^_`{|}~-'' @ [CHR 0x27])) (before_char (CHR ''@'') s) \<and>
     list_all host_label (split_on (CHR ''.'') (after_char (CHR ''@'') s)))"

definition uri_re :: "string \<Rightarrow> bool" where
  "uri_re s \<longleftrightarrow> s \<noteq> [] \<and> alpha (hd s) \<and>
     startswith (dropWhile (\<lambda>c. alnum c \<or> c \<in> set ''+.-'') (tl s)) '':''"

text \<open>A pattern of fixed length: \<open>d\<close> stands for a digit, \<open>T\<close> for either case of the letter.\<close>

definition fits :: "string \<Rightarrow> string \<Rightarrow> bool" where
  "fits pat s \<longleftrightarrow> length s = length pat \<and>
     list_all2 (\<lambda>p c. if p = CHR ''d'' then ascii_digit c else if p = CHR ''T'' then c \<in> set ''Tt'' else c = p) pat s"

definition date_re :: "string \<Rightarrow> bool" where
  "date_re = to_end (fits ''dddd-dd-dd'')"

definition datetime_re :: "string \<Rightarrow> bool" where
  "datetime_re s \<longleftrightarrow> fits ''dddd-dd-ddTdd:dd'' (take 16 s)"

definition format_check :: "string \<Rightarrow> string \<Rightarrow> bool" where
  "format_check fmt v =
     (if fmt = ''email'' then email_re v
      else if fmt = ''uri'' then uri_re v
      else if fmt = ''date'' then date_re v
      else datetime_re v)"

section \<open>Fields\<close>

datatype ftype = FString | FEnum | FMultiEnum | FBoolean | FInteger | FNumber

type_synonym choice = "pyval \<times> string"

record field =
  ef_key :: string
  ef_type :: ftype
  ef_title :: string
  ef_description :: string
  ef_required :: bool
  ef_default :: pyval
  ef_format :: "string option"
  ef_min_length :: "int option"
  ef_max_length :: "int option"
  ef_minimum :: "pyval option"
  ef_maximum :: "pyval option"
  ef_options :: "choice list option"
  ef_min_items :: "int option"
  ef_max_items :: "int option"

type_synonym node = "(string \<times> pyval) list"

text \<open>The branches of a titled choice; \<open>None\<close> when one of them has no \<open>const\<close>.\<close>

fun branch_choices :: "pyval list \<Rightarrow> choice list option" where
  "branch_choices [] = Some []"
| "branch_choices (PDict d # bs) = (case map_of d ''const'' of
      None \<Rightarrow> None
    | Some c \<Rightarrow> map_option (\<lambda>cs. if is_scalar c then (c, str_val (py_or (pget d ''title'') c)) # cs else cs)
        (branch_choices bs))"
| "branch_choices (_ # bs) = None"

definition or_none :: "'a list \<Rightarrow> 'a list option" where
  "or_none xs = (if xs = [] then None else Some xs)"

definition enum_choices :: "node \<Rightarrow> choice list option" where
  "enum_choices d = (case pget d ''enum'' of
      PList vs \<Rightarrow>
        if vs = [] then None
        else (let titles = (case pget d ''enumNames'' of
                 PList ns \<Rightarrow> if length ns = length vs then ns else vs
               | _ \<Rightarrow> vs) in
              or_none (map (\<lambda>(v, n). (v, str_val n)) (filter (\<lambda>(v, n). is_scalar v) (zip vs titles))))
    | _ \<Rightarrow> None)"

fun options_from :: "node \<Rightarrow> string list \<Rightarrow> choice list option" where
  "options_from d [] = enum_choices d"
| "options_from d (kw # kws) = (case pget d kw of
      PList bs \<Rightarrow> if bs = [] then options_from d kws else Option.bind (branch_choices bs) or_none
    | _ \<Rightarrow> options_from d kws)"

definition options_of :: "node \<Rightarrow> choice list option" where
  "options_of d = options_from d [''oneOf'', ''anyOf'']"

definition blank :: "string \<Rightarrow> node \<Rightarrow> bool \<Rightarrow> field" where
  "blank key prop req = \<lparr>ef_key = key, ef_type = FString,
     ef_title = str_val (py_or (pget prop ''title'') (PStr key)),
     ef_description = str_val (py_or (pget prop ''description'') (PStr [])),
     ef_required = req, ef_default = pget prop ''default'', ef_format = None, ef_min_length = None,
     ef_max_length = None, ef_minimum = None, ef_maximum = None, ef_options = None, ef_min_items = None,
     ef_max_items = None\<rparr>"

definition render_one :: "string \<Rightarrow> node \<Rightarrow> bool \<Rightarrow> field" where
  "render_one key prop req = (let f = blank key prop req; jtype = pget prop ''type'' in
     case options_of prop of
       Some os \<Rightarrow> f\<lparr>ef_type := FEnum, ef_options := Some os\<rparr>
     | None \<Rightarrow>
         if jtype = PStr ''array''
         then (let items = (case pget prop ''items'' of PDict d \<Rightarrow> d | _ \<Rightarrow> []);
                   os = (case options_of items of None \<Rightarrow> [] | Some os \<Rightarrow> os) in
               f\<lparr>ef_type := FMultiEnum, ef_options := Some (map (\<lambda>(v, t). (PStr (str_val v), t)) os),
                 ef_min_items := int_or_none (pget prop ''minItems''),
                 ef_max_items := int_or_none (pget prop ''maxItems'')\<rparr>)
         else if jtype = PStr ''boolean'' then f\<lparr>ef_type := FBoolean\<rparr>
         else if jtype = PStr ''integer'' \<or> jtype = PStr ''number''
         then f\<lparr>ef_type := (if jtype = PStr ''integer'' then FInteger else FNumber),
                ef_minimum := num_or_none (pget prop ''minimum''),
                ef_maximum := num_or_none (pget prop ''maximum'')\<rparr>
         else f\<lparr>ef_format := (case pget prop ''format'' of
                  PStr s \<Rightarrow> if s \<in> set FORMATS then Some s else None | _ \<Rightarrow> None),
                ef_min_length := int_or_none (pget prop ''minLength''),
                ef_max_length := int_or_none (pget prop ''maxLength'')\<rparr>)"

text \<open>\<open>None\<close> is the \<open>TypeError\<close> of a required list with an element that cannot be hashed.\<close>

definition render_fields :: "pyval \<Rightarrow> field list option" where
  "render_fields schema = (case schema of
      PDict s \<Rightarrow> (case pget s ''properties'' of
          PDict props \<Rightarrow>
            (let req = (case pget s ''required'' of PList rs \<Rightarrow> rs | _ \<Rightarrow> []) in
             if list_all hashable req
             then Some (map (\<lambda>(key, prop). render_one key (case prop of PDict d \<Rightarrow> d | _ \<Rightarrow> []) (PStr key \<in> set req)) props)
             else None)
        | _ \<Rightarrow> Some [])
    | _ \<Rightarrow> Some [])"

section \<open>Validation\<close>

definition range_error :: "flt_ops \<Rightarrow> field \<Rightarrow> pyval \<Rightarrow> string option" where
  "range_error fo f v =
     (case ef_minimum f of
        Some m \<Rightarrow> if num_less fo v m then Some (''must be at least '' @ str_val m)
          else (case ef_maximum f of
              Some m \<Rightarrow> if num_less fo m v then Some (''must be at most '' @ str_val m) else None | None \<Rightarrow> None)
      | None \<Rightarrow> (case ef_maximum f of
            Some m \<Rightarrow> if num_less fo m v then Some (''must be at most '' @ str_val m) else None | None \<Rightarrow> None))"

text \<open>\<open>f["options"] or []\<close>, the values.\<close>

definition allowed_values :: "field \<Rightarrow> pyval list" where
  "allowed_values f = map fst (case ef_options f of None \<Rightarrow> [] | Some os \<Rightarrow> os)"

definition below :: "int option \<Rightarrow> nat \<Rightarrow> bool" where
  "below bound n = (case bound of None \<Rightarrow> False | Some b \<Rightarrow> int n < b)"

definition above :: "int option \<Rightarrow> nat \<Rightarrow> bool" where
  "above bound n = (case bound of None \<Rightarrow> False | Some b \<Rightarrow> b < int n)"

definition validate_one :: "flt_ops \<Rightarrow> field \<Rightarrow> pyval \<Rightarrow> string option" where
  "validate_one fo f v = (case ef_type f of
      FBoolean \<Rightarrow> (case v of PBool _ \<Rightarrow> None | _ \<Rightarrow> Some ''must be true or false'')
    | FInteger \<Rightarrow> (case v of PInt _ \<Rightarrow> range_error fo f v | _ \<Rightarrow> Some ''must be a whole number'')
    | FNumber \<Rightarrow> (case num_or_none v of Some _ \<Rightarrow> range_error fo f v | None \<Rightarrow> Some ''must be a number'')
    | FEnum \<Rightarrow> if list_ex (\<lambda>o'. py_eq fo v o') (allowed_values f) then None
        else Some ''is not one of the offered choices''
    | FMultiEnum \<Rightarrow> (case v of
          PList xs \<Rightarrow>
            if list_ex (\<lambda>x. as_str x = None) xs then Some ''must be a list of strings''
            else if allowed_values f \<noteq> [] \<and> list_ex (\<lambda>x. x \<notin> set (allowed_values f)) xs
            then Some ''contains a value that is not one of the offered choices''
            else if below (ef_min_items f) (length xs) then Some (''pick at least '' @ str_of_int (the (ef_min_items f)))
            else if above (ef_max_items f) (length xs) then Some (''pick at most '' @ str_of_int (the (ef_max_items f)))
            else None
        | _ \<Rightarrow> Some ''must be a list of strings'')
    | FString \<Rightarrow> (case v of
          PStr s \<Rightarrow>
            if below (ef_min_length f) (length s)
            then Some (''must be at least '' @ str_of_int (the (ef_min_length f)) @ '' characters'')
            else if above (ef_max_length f) (length s)
            then Some (''must be at most '' @ str_of_int (the (ef_max_length f)) @ '' characters'')
            else (case ef_format f of
                None \<Rightarrow> None
              | Some fmt \<Rightarrow> if format_check fmt s then None else Some (''is not a valid '' @ fmt))
        | _ \<Rightarrow> Some ''must be text''))"

text \<open>The loop over the fields, in the order of the schema.\<close>

fun first_error :: "flt_ops \<Rightarrow> node \<Rightarrow> field list \<Rightarrow> string option" where
  "first_error fo content [] = None"
| "first_error fo content (f # fs) =
     (if pget content (ef_key f) = PNone
      then (if ef_required f then Some (ef_title f @ '': is required'') else first_error fo content fs)
      else (case validate_one fo f (pget content (ef_key f)) of
          Some err \<Rightarrow> Some (ef_title f @ '': '' @ err)
        | None \<Rightarrow> first_error fo content fs))"

definition unknown_keys :: "node \<Rightarrow> field list \<Rightarrow> string list" where
  "unknown_keys content fs = sort (remdups (filter (\<lambda>k. k \<notin> set (map ef_key fs)) (map fst content)))"

text \<open>The outer \<open>None\<close> is an exception, the inner one a legal answer.\<close>

definition validate_content :: "flt_ops \<Rightarrow> pyval \<Rightarrow> pyval \<Rightarrow> string option option" where
  "validate_content fo schema content = (case content of
      PDict c \<Rightarrow> map_option (\<lambda>fs.
        if unknown_keys c fs \<noteq> [] then Some (''unknown field(s): '' @ join_with '', '' (unknown_keys c fs))
        else first_error fo c fs) (render_fields schema)
    | _ \<Rightarrow> Some (Some ''the answer must be an object''))"

section \<open>What a field accepts\<close>

definition in_range :: "flt_ops \<Rightarrow> field \<Rightarrow> pyval \<Rightarrow> bool" where
  "in_range fo f v \<longleftrightarrow> (\<forall>m. ef_minimum f = Some m \<longrightarrow> \<not> num_less fo v m) \<and>
     (\<forall>m. ef_maximum f = Some m \<longrightarrow> \<not> num_less fo m v)"

definition len_ok :: "int option \<Rightarrow> int option \<Rightarrow> nat \<Rightarrow> bool" where
  "len_ok lo hi n \<longleftrightarrow> (\<forall>b. lo = Some b \<longrightarrow> b \<le> int n) \<and> (\<forall>b. hi = Some b \<longrightarrow> int n \<le> b)"

fun field_type :: "flt_ops \<Rightarrow> field \<Rightarrow> ftype \<Rightarrow> pyval \<Rightarrow> bool" where
  "field_type fo f FBoolean v \<longleftrightarrow> (\<exists>b. v = PBool b)"
| "field_type fo f FInteger v \<longleftrightarrow> (\<exists>i. v = PInt i) \<and> in_range fo f v"
| "field_type fo f FNumber v \<longleftrightarrow> (\<exists>i. v = PInt i) \<and> in_range fo f v \<or> (\<exists>s. v = PFloat s) \<and> in_range fo f v"
| "field_type fo f FEnum v \<longleftrightarrow> (\<exists>o'\<in>set (allowed_values f). py_eq fo v o')"
| "field_type fo f FMultiEnum v \<longleftrightarrow> (\<exists>ss. v = PList (map PStr ss) \<and>
     (allowed_values f = [] \<or> PStr ` set ss \<subseteq> set (allowed_values f)) \<and>
     len_ok (ef_min_items f) (ef_max_items f) (length ss))"
| "field_type fo f FString v \<longleftrightarrow> (\<exists>s. v = PStr s \<and> len_ok (ef_min_length f) (ef_max_length f) (length s) \<and>
     (\<forall>fmt. ef_format f = Some fmt \<longrightarrow> format_check fmt s))"

definition field_ok :: "flt_ops \<Rightarrow> field \<Rightarrow> pyval \<Rightarrow> bool" where
  "field_ok fo f v \<longleftrightarrow> field_type fo f (ef_type f) v"

lemma range_error_None: "range_error fo f v = None \<longleftrightarrow> in_range fo f v"
  by (auto simp: range_error_def in_range_def split: option.splits if_splits)

lemma len_ok_bounds: "len_ok lo hi n \<longleftrightarrow> \<not> below lo n \<and> \<not> above hi n"
  by (auto simp: len_ok_def below_def above_def split: option.splits)

lemma strings_list: "\<not> list_ex (\<lambda>x. as_str x = None) xs \<longleftrightarrow> (\<exists>ss. xs = map PStr ss)"
proof
  assume "\<not> list_ex (\<lambda>x. as_str x = None) xs"
  then have "\<forall>x\<in>set xs. \<exists>s. x = PStr s" by (auto simp: list_ex_iff)
  then have "map PStr (map (\<lambda>x. the (as_str x)) xs) = xs" by (induction xs) auto
  then show "\<exists>ss. xs = map PStr ss" by metis
qed (auto simp: list_ex_iff)

lemma validate_multi:
  assumes "ef_type f = FMultiEnum"
  shows "validate_one fo f v = None \<longleftrightarrow> field_ok fo f v"
proof (cases v)
  case (PList xs)
  show ?thesis
  proof (cases "list_ex (\<lambda>x. as_str x = None) xs")
    case True
    then have "\<nexists>ss. xs = map PStr ss" using strings_list [of xs] by blast
    with True PList assms show ?thesis by (simp add: validate_one_def field_ok_def)
  next
    case False
    then obtain ss where ss: "xs = map PStr ss" using strings_list [of xs] by blast
    have sub: "PStr ` set ss \<subseteq> set A \<longleftrightarrow> \<not> list_ex (\<lambda>x. x \<notin> set A) xs" for A
      by (auto simp: ss list_ex_iff)
    have inj: "map PStr ss = map PStr ss' \<longleftrightarrow> ss' = ss" for ss' by (auto simp: inj_map_eq_map inj_def)
    have "field_ok fo f v \<longleftrightarrow> (allowed_values f = [] \<or> \<not> list_ex (\<lambda>x. x \<notin> set (allowed_values f)) xs) \<and>
        \<not> below (ef_min_items f) (length ss) \<and> \<not> above (ef_max_items f) (length ss)"
      by (simp add: field_ok_def assms PList ss inj len_ok_bounds sub)
    then show ?thesis using PList False assms by (simp add: validate_one_def ss)
  qed
qed (use assms in \<open>simp_all add: validate_one_def field_ok_def\<close>)

lemma validate_one_iff: "validate_one fo f v = None \<longleftrightarrow> field_ok fo f v"
proof (cases "ef_type f")
  case FMultiEnum
  then show ?thesis by (rule validate_multi)
next
  case FNumber
  then show ?thesis by (cases v) (auto simp: validate_one_def field_ok_def range_error_None)
next
  case FString
  then show ?thesis
    by (cases v) (auto simp: validate_one_def field_ok_def len_ok_bounds split: option.splits)
next
  case FEnum
  then show ?thesis by (auto simp: validate_one_def field_ok_def list_ex_iff)
qed (cases v; simp add: validate_one_def field_ok_def range_error_None)+

lemma first_error_iff: "first_error fo c fs = None \<longleftrightarrow>
   (\<forall>f\<in>set fs. if pget c (ef_key f) = PNone then \<not> ef_required f else field_ok fo f (pget c (ef_key f)))"
proof (induction fs)
  case (Cons f fs)
  show ?case using Cons validate_one_iff [of fo f "pget c (ef_key f)"]
    by (cases "validate_one fo f (pget c (ef_key f))") auto
qed simp

lemma unknown_keys_empty: "unknown_keys c fs = [] \<longleftrightarrow> set (map fst c) \<subseteq> set (map ef_key fs)"
proof -
  have "unknown_keys c fs = [] \<longleftrightarrow> set (unknown_keys c fs) = {}" by simp
  also have "set (unknown_keys c fs) = set (map fst c) - set (map ef_key fs)"
    unfolding unknown_keys_def set_sort set_remdups by auto
  finally show ?thesis by blast
qed

lemma validate_content_iff:
  "validate_content fo schema content = Some None \<longleftrightarrow> (\<exists>c fs. content = PDict c \<and> render_fields schema = Some fs \<and>
     set (map fst c) \<subseteq> set (map ef_key fs) \<and>
     (\<forall>f\<in>set fs. if pget c (ef_key f) = PNone then \<not> ef_required f else field_ok fo f (pget c (ef_key f))))"
proof (cases content)
  case (PDict c)
  show ?thesis
  proof (cases "render_fields schema")
    case (Some fs)
    then show ?thesis using PDict unknown_keys_empty [of c fs] first_error_iff [of fo c fs]
      by (auto simp: validate_content_def)
  qed (simp add: validate_content_def PDict)
qed (simp_all add: validate_content_def)

section \<open>What is rendered\<close>

lemma branch_choices_scalar: "branch_choices bs = Some cs \<Longrightarrow> \<forall>v\<in>set (map fst cs). is_scalar v"
proof (induction bs arbitrary: cs rule: branch_choices.induct)
  case (2 d bs)
  then obtain c cs' where "branch_choices bs = Some cs'" "map_of d ''const'' = Some c"
    "cs = (if is_scalar c then (c, str_val (py_or (pget d ''title'') c)) # cs' else cs')"
    by (auto split: option.splits)
  with "2.IH" show ?case by auto
qed simp_all

definition good_choices :: "choice list \<Rightarrow> bool" where
  "good_choices cs \<longleftrightarrow> cs \<noteq> [] \<and> (\<forall>v\<in>set (map fst cs). is_scalar v)"

lemma options_of_scalar: "options_of d = Some cs \<Longrightarrow> good_choices cs"
proof -
  have e: "enum_choices d = Some cs \<Longrightarrow> good_choices cs"
    by (auto simp: enum_choices_def or_none_def Let_def good_choices_def split: pyval.splits if_splits)
  have o: "options_from d kws = Some cs \<Longrightarrow> good_choices cs" for kws
  proof (induction kws)
    case (Cons kw kws)
    show ?case
    proof (cases "\<exists>bs. pget d kw = PList bs \<and> bs \<noteq> []")
      case True
      with Cons.prems obtain bs where "branch_choices bs = Some cs" "cs \<noteq> []"
        by (auto simp: or_none_def bind_eq_Some_conv split: if_splits)
      with branch_choices_scalar show ?thesis by (simp add: good_choices_def)
    next
      case False
      with Cons.prems have "options_from d kws = Some cs" by (auto split: pyval.splits if_splits)
      then show ?thesis by (rule Cons.IH)
    qed
  qed (simp add: e)
  show "options_of d = Some cs \<Longrightarrow> good_choices cs" unfolding options_of_def by (rule o)
qed

lemma render_one_simps [simp]: "ef_key (render_one k p r) = k" "ef_required (render_one k p r) = r"
  by (simp_all add: render_one_def blank_def Let_def split: option.splits)

lemma render_one_enum:
  assumes "ef_type (render_one k p r) = FEnum"
  shows "allowed_values (render_one k p r) \<noteq> [] \<and> (\<forall>v\<in>set (allowed_values (render_one k p r)). is_scalar v)"
proof (cases "options_of p")
  case None
  with assms show ?thesis by (auto simp: render_one_def blank_def Let_def split: if_splits)
next
  case (Some cs)
  then have "allowed_values (render_one k p r) = map fst cs"
    by (simp add: render_one_def blank_def Let_def allowed_values_def)
  with options_of_scalar [OF Some] show ?thesis by (simp add: good_choices_def)
qed

text \<open>The values the protocol can carry.\<close>

definition flat :: "pyval \<Rightarrow> bool" where
  "flat v \<longleftrightarrow> v = PNone \<or> is_scalar v \<or> (\<exists>ss. v = PList (map PStr ss))"

lemma py_eq_scalar: "py_eq fo v o' \<Longrightarrow> is_scalar o' \<Longrightarrow> is_scalar v"
  by (cases v; cases o') (auto simp: py_eq_def)

lemma field_ok_flat:
  assumes "field_ok fo (render_one k p r) v"
  shows "flat v"
proof (cases "ef_type (render_one k p r)")
  case FEnum
  from assms obtain o' where "o' \<in> set (allowed_values (render_one k p r))" "py_eq fo v o'"
    unfolding field_ok_def FEnum by auto
  with render_one_enum [OF FEnum] py_eq_scalar show ?thesis by (auto simp: flat_def)
qed (use assms in \<open>auto simp: field_ok_def flat_def\<close>)

lemma render_fields_in:
  assumes "render_fields schema = Some fs" "f \<in> set fs"
  shows "\<exists>k p r. f = render_one k p r"
proof (cases "\<exists>s props. schema = PDict s \<and> pget s ''properties'' = PDict props")
  case True
  then obtain s props where s: "schema = PDict s" "pget s ''properties'' = PDict props" by blast
  with assms show ?thesis by (fastforce simp: render_fields_def Let_def split: if_splits)
next
  case False
  with assms show ?thesis by (auto simp: render_fields_def split: pyval.splits)
qed

section \<open>The properties\<close>

text \<open>
  C30. An answer is accepted exactly when it is an object, the schema could be rendered, every key of the answer is a
  field, every required field has a value and every value is of its field's type, within its bounds and among its
  choices; and then every value of the answer is one the protocol can carry: a scalar, a list of strings or nothing.
\<close>

theorem accepted_answer_typed:
  "(validate_content fo schema content = Some None \<longleftrightarrow> (\<exists>c fs. content = PDict c \<and> render_fields schema = Some fs \<and>
      set (map fst c) \<subseteq> set (map ef_key fs) \<and>
      (\<forall>f\<in>set fs. if pget c (ef_key f) = PNone then \<not> ef_required f else field_ok fo f (pget c (ef_key f))))) \<and>
   (validate_content fo schema (PDict c) = Some None \<longrightarrow> (\<forall>k\<in>set (map fst c). flat (pget c k)))"
proof (intro conjI impI ballI)
  show "validate_content fo schema content = Some None \<longleftrightarrow> (\<exists>c fs. content = PDict c \<and> render_fields schema = Some fs \<and>
      set (map fst c) \<subseteq> set (map ef_key fs) \<and>
      (\<forall>f\<in>set fs. if pget c (ef_key f) = PNone then \<not> ef_required f else field_ok fo f (pget c (ef_key f))))"
    by (rule validate_content_iff)
  fix k assume v: "validate_content fo schema (PDict c) = Some None" and k: "k \<in> set (map fst c)"
  from v obtain fs where fs: "render_fields schema = Some fs" "set (map fst c) \<subseteq> set (map ef_key fs)"
    "\<forall>f\<in>set fs. if pget c (ef_key f) = PNone then \<not> ef_required f else field_ok fo f (pget c (ef_key f))"
    unfolding validate_content_iff pyval.inject by blast
  from fs(2) k obtain f where f: "f \<in> set fs" "ef_key f = k" by auto
  with fs(3) have a: "if pget c k = PNone then \<not> ef_required f else field_ok fo f (pget c k)" by blast
  from render_fields_in [OF fs(1) f(1)] obtain k' p r where "f = render_one k' p r" by blast
  with a field_ok_flat have "pget c k \<noteq> PNone \<Longrightarrow> flat (pget c k)" by metis
  then show "flat (pget c k)" unfolding flat_def by blast
qed

text \<open>
  Rendering keeps every property of the schema as one field, in order, required when it is listed; a field with
  choices offers at least one and only scalars; and it raises exactly when the required list of an object schema has
  an element that cannot be hashed.
\<close>

theorem render_fields_exact:
  assumes "schema = PDict s" "pget s ''properties'' = PDict props"
    "req = (case pget s ''required'' of PList rs \<Rightarrow> rs | _ \<Rightarrow> [])"
  shows "if list_all hashable req
     then (\<exists>fs. render_fields schema = Some fs \<and> map ef_key fs = map fst props \<and>
       map ef_required fs = map (\<lambda>(k, p). PStr k \<in> set req) props \<and>
       (\<forall>f\<in>set fs. ef_type f = FEnum \<longrightarrow> allowed_values f \<noteq> [] \<and> list_all is_scalar (allowed_values f)))
     else render_fields schema = None"
proof -
  let ?one = "\<lambda>(key, prop). render_one key (case prop of PDict d \<Rightarrow> d | _ \<Rightarrow> []) (PStr key \<in> set req)"
  have r: "render_fields schema = (if list_all hashable req then Some (map ?one props) else None)"
    unfolding render_fields_def assms(1) pyval.case assms(2) assms(3) [symmetric] Let_def by (rule refl)
  have "map ef_key (map ?one props) = map fst props" "map ef_required (map ?one props) = map (\<lambda>(k, p). PStr k \<in> set req) props"
    by (auto simp: case_prod_unfold)
  moreover have "\<forall>f\<in>set (map ?one props). ef_type f = FEnum \<longrightarrow> allowed_values f \<noteq> [] \<and> list_all is_scalar (allowed_values f)"
    using render_one_enum unfolding list_all_iff by fastforce
  ultimately show ?thesis unfolding r by auto
qed

definition demo_schema :: pyval where
  "demo_schema = PDict [(''properties'', PDict [(''age'', PDict [(''type'', PStr ''integer''), (''minimum'', PInt 18)]),
     (''plan'', PDict [(''enum'', PList [PStr ''a'', PStr ''b''])])]), (''required'', PList [PStr ''age''])]"

theorem render_fields_exact_witness:
  "\<exists>fs. render_fields demo_schema = Some fs \<and> map ef_key fs = [''age'', ''plan''] \<and>
     map ef_required fs = [True, False]"
proof -
  have l: "list_all hashable [PStr ''age'']" by simp
  have p: "pget [(''properties'', PDict [(''age'', PDict [(''type'', PStr ''integer''), (''minimum'', PInt 18)]),
     (''plan'', PDict [(''enum'', PList [PStr ''a'', PStr ''b''])])]), (''required'', PList [PStr ''age''])] ''properties''
     = PDict [(''age'', PDict [(''type'', PStr ''integer''), (''minimum'', PInt 18)]),
         (''plan'', PDict [(''enum'', PList [PStr ''a'', PStr ''b''])])]"
    by (simp add: pget_def)
  have "[PStr ''age''] = (case pget [(''properties'', PDict [(''age'', PDict [(''type'', PStr ''integer''), (''minimum'', PInt 18)]),
     (''plan'', PDict [(''enum'', PList [PStr ''a'', PStr ''b''])])]), (''required'', PList [PStr ''age''])] ''required''
     of PList rs \<Rightarrow> rs | _ \<Rightarrow> [])" by (simp add: pget_def)
  from render_fields_exact [OF demo_schema_def p this] l show ?thesis by auto
qed

theorem accepted_answer_typed_witness:
  "flat (pget [(''age'', PInt 30)] ''age'') \<and>
   validate_content \<lparr>fl_less = (\<lambda>_ _. False), fl_eq = (\<lambda>_ _. False)\<rparr> demo_schema (PDict [(''age'', PBool True)]) \<noteq> Some None"
proof -
  let ?fo = "\<lparr>fl_less = (\<lambda>_ _. False), fl_eq = (\<lambda>_ _. False)\<rparr>"
  have "validate_content ?fo demo_schema (PDict [(''age'', PInt 30)]) = Some None" by code_simp
  with accepted_answer_typed [of ?fo demo_schema PNone "[(''age'', PInt 30)]"]
  have "flat (pget [(''age'', PInt 30)] ''age'')" by simp
  moreover have "validate_content ?fo demo_schema (PDict [(''age'', PBool True)]) \<noteq> Some None" by code_simp
  ultimately show ?thesis by simp
qed

end
