(* ===== verification/Elicit.thy ===== *)
theory Elicit
  imports Elicit_Schema Egress_Parse Confirm
begin

text \<open>
  \<open>mcp_client/elicitation.py\<close>: a tool server's question in the middle of a call becomes a card the user answers, and
  the answer goes back to the server. The cards go through the confirmation manager; what the rest of the program
  does to the manager while a card is open, and how the wait ends, is a parameter, as are the identifiers, the clock
  and the IDNA codec.
\<close>

definition MAX_ANSWER_ATTEMPTS :: nat where
  "MAX_ANSWER_ATTEMPTS = 3"

definition ALLOWED_URL_SCHEMES :: "string list" where
  "ALLOWED_URL_SCHEMES = [''http'', ''https'']"

section \<open>URLs\<close>

text \<open>\<open>_split\<close>: the scheme and the authority; a URL that cannot be split has neither.\<close>

definition scheme_char :: "char \<Rightarrow> bool" where
  "scheme_char c \<longleftrightarrow> alnum c \<or> c \<in> set ''+-.''"

definition url_split :: "string \<Rightarrow> string \<times> string" where
  "url_split url = (let u = filter (\<lambda>c. c \<notin> set [CHR 0x09, CHR 0x0D, CHR 0x0A]) (dropWhile (\<lambda>c. (of_char c :: nat) \<le> 32) url);
       s = before_char (CHR '':'') u;
       has = (CHR '':'' \<in> set u \<and> s \<noteq> [] \<and> alpha (hd s) \<and> list_all scheme_char s);
       rest = (if has then after_char (CHR '':'') u else u);
       netloc = (if startswith rest ''//'' then takeWhile (\<lambda>c. c \<notin> set ''/?#'') (drop 2 rest) else []) in
     if netloc_ok netloc then (if has then py_lower s else [], netloc) else ([], []))"

definition url_hostname :: "string \<Rightarrow> string" where
  "url_hostname netloc = (if netloc_host netloc = [] then [] else lower_host (netloc_host netloc))"

definition host_flags :: "(string \<Rightarrow> string option) \<Rightarrow> string \<Rightarrow> bool \<times> string" where
  "host_flags idna host =
     (if host = [] then (False, [])
      else if list_all (\<lambda>c. (of_char c :: nat) < 128) host
      then (list_ex (\<lambda>l. startswith l ''xn--'') (split_on (CHR ''.'') (py_lower host)), [])
      else case idna host of
        None \<Rightarrow> (True, [])
      | Some a \<Rightarrow> (True, if py_lower a \<noteq> py_lower host then a else []))"

section \<open>Cards\<close>

record server =
  sv_id :: string
  sv_name :: "string option"

datatype elicit_params = UrlParams string string | FormParams string pyval

datatype card_body =
    UrlCard (uc_url: string) (uc_host: string) (uc_punycode: bool) (uc_host_ascii: string) (uc_insecure: bool)
  | FormCard (fc_fields: "field list")

record card =
  cd_server :: string
  cd_message :: string
  cd_body :: card_body
  cd_confirm_id :: string
  cd_error :: "string option"

datatype ui_event = CardEvent card | WarningEvent string string

definition server_name :: "server \<Rightarrow> string" where
  "server_name sv = (case sv_name sv of None \<Rightarrow> ''mcp'' | Some n \<Rightarrow> n)"

definition url_card :: "(string \<Rightarrow> string option) \<Rightarrow> string \<Rightarrow> card_body" where
  "url_card idna url = (let (scheme, netloc) = url_split url; host = url_hostname netloc; (puny, asc) = host_flags idna host in
     UrlCard url host puny asc (scheme \<noteq> ''https''))"

section \<open>The callback\<close>

record elicit_env =
  el_id :: "nat \<Rightarrow> string"
  el_now :: "nat \<Rightarrow> int"
  el_idna :: "string \<Rightarrow> string option"
  el_flt :: flt_ops
  el_parked :: "nat \<Rightarrow> string \<Rightarrow> confirm_mgr \<Rightarrow> confirm_mgr \<times> wake"

text \<open>An answer on the wire, an exception inside, or the cancellation of the task.\<close>

datatype elicit_out = Answer string "pyval option" | Raised | TaskCancelled

type_synonym elicit_result = "elicit_out \<times> ui_event list \<times> confirm_mgr"

text \<open>One card: registration, the event, the wait.\<close>

definition ask_card ::
  "elicit_env \<Rightarrow> server \<Rightarrow> string \<Rightarrow> string \<Rightarrow> string \<Rightarrow> card_body \<Rightarrow> string option \<Rightarrow> string \<Rightarrow> nat \<Rightarrow> confirm_mgr \<Rightarrow>
   card \<times> (string \<times> pyval option) option \<times> confirm_mgr" where
  "ask_card env sv sid message question body reason on_timeout n m =
     (let cid = el_id env n;
          m1 = register m cid (el_now env n) sid (''mcp_elicit:'' @ sv_id sv)
            (''MCP server '' @ [CHR 0x22] @ server_name sv @ [CHR 0x22] @ '' is asking for input'') question;
          cd = \<lparr>cd_server = server_name sv, cd_message = message, cd_body = body, cd_confirm_id = cid, cd_error = reason\<rparr>;
          (m2, w) = el_parked env n cid m1 in
      case wait_elicit m2 cid on_timeout w of
        Inl _ \<Rightarrow> (cd, None, m2)
      | Inr (ans, m3) \<Rightarrow> (cd, ans, m3))"

text \<open>The attempts of a form card; the first argument says how many are left.\<close>

fun form_loop ::
  "nat \<Rightarrow> elicit_env \<Rightarrow> server \<Rightarrow> string \<Rightarrow> string \<Rightarrow> pyval \<Rightarrow> field list \<Rightarrow> string option \<Rightarrow> confirm_mgr \<Rightarrow> elicit_result" where
  "form_loop 0 env sv sid message schema fs reason m =
     (Answer ''decline'' None,
      [WarningEvent (server_name sv) (''could not get a valid answer: '' @ (case reason of None \<Rightarrow> ''None'' | Some r \<Rightarrow> r))], m)"
| "form_loop (Suc k) env sv sid message schema fs reason m =
     (case ask_card env sv sid message message (FormCard fs) reason ''cancel'' (MAX_ANSWER_ATTEMPTS - Suc k) m of
        (cd, None, m') \<Rightarrow> (TaskCancelled, [CardEvent cd], m')
      | (cd, Some (action, content), m') \<Rightarrow>
          if action \<noteq> ''accept'' then (Answer action None, [CardEvent cd], m')
          else (let c = py_or (case content of None \<Rightarrow> PNone | Some v \<Rightarrow> v) (PDict []) in
            case validate_content (el_flt env) schema c of
              None \<Rightarrow> (Raised, [CardEvent cd], m')
            | Some None \<Rightarrow> (Answer ''accept'' (Some c), [CardEvent cd], m')
            | Some (Some r) \<Rightarrow> (case form_loop k env sv sid message schema fs (Some r) m' of
                (out, evs, m'') \<Rightarrow> (out, CardEvent cd # evs, m''))))"

text \<open>The manager is \<open>None\<close> when the run has no manager, no queue or no session.\<close>

definition elicit_inner :: "elicit_env \<Rightarrow> server \<Rightarrow> string \<Rightarrow> confirm_mgr option \<Rightarrow> elicit_params \<Rightarrow>
   elicit_out \<times> ui_event list \<times> confirm_mgr option" where
  "elicit_inner env sv sid mgr params = (case mgr of
      None \<Rightarrow> (Answer ''decline'' None, [], None)
    | Some m \<Rightarrow> (case params of
        UrlParams message url \<Rightarrow>
          (let scheme = fst (url_split url) in
           if scheme \<notin> set ALLOWED_URL_SCHEMES
           then (Answer ''decline'' None, [WarningEvent (server_name sv)
               (''refused an authorization link with an unsupported scheme ('' @
                (if scheme = [] then ''none'' else scheme) @ ''): only http and https can be opened'')], Some m)
           else (case ask_card env sv sid message (message @ '' ['' @ url @ '']'') (url_card (el_idna env) url) None ''accept'' 0 m of
               (cd, None, m') \<Rightarrow> (TaskCancelled, [CardEvent cd], Some m')
             | (cd, Some (action, _), m') \<Rightarrow> (Answer action None, [CardEvent cd], Some m')))
      | FormParams message schema \<Rightarrow> (case render_fields schema of
            None \<Rightarrow> (Raised, [], Some m)
          | Some fs \<Rightarrow> (case form_loop MAX_ANSWER_ATTEMPTS env sv sid message schema fs None m of
              (out, evs, m') \<Rightarrow> (out, evs, Some m')))))"

definition elicit :: "elicit_env \<Rightarrow> server \<Rightarrow> string \<Rightarrow> confirm_mgr option \<Rightarrow> elicit_params \<Rightarrow>
   elicit_out \<times> ui_event list \<times> confirm_mgr option" where
  "elicit env sv sid mgr params = (case elicit_inner env sv sid mgr params of
      (Raised, evs, m) \<Rightarrow> (Answer ''decline'' None, evs, m)
    | r \<Rightarrow> r)"

section \<open>Lemmas\<close>

definition cards :: "ui_event list \<Rightarrow> card list" where
  "cards evs = concat (map (\<lambda>e. case e of CardEvent c \<Rightarrow> [c] | WarningEvent _ _ \<Rightarrow> []) evs)"

lemma cards_simps [simp]:
  "cards [] = []" "cards (CardEvent c # evs) = c # cards evs" "cards (WarningEvent a b # evs) = cards evs"
  by (simp_all add: cards_def)

lemma ask_card_body: "ask_card env sv sid message question body reason t n m = (cd, ans, m') \<Longrightarrow>
   cd_body cd = body \<and> cd_error cd = reason \<and> cd_confirm_id cd = el_id env n"
  by (auto simp: ask_card_def Let_def split: prod.splits sum.splits)

lemma form_loop_spec:
  "form_loop k env sv sid message schema fs reason m = (out, evs, m') \<Longrightarrow> k \<le> MAX_ANSWER_ATTEMPTS \<Longrightarrow>
   (\<forall>c. out = Answer ''accept'' c \<longrightarrow> (\<exists>v. c = Some v \<and> validate_content (el_flt env) schema v = Some None)) \<and>
   length (cards evs) \<le> k \<and> (\<forall>c\<in>set (cards evs). cd_body c = FormCard fs)"
proof (induction k arbitrary: reason m out evs m')
  case (Suc k)
  obtain cd ans m1 where a: "ask_card env sv sid message message (FormCard fs) reason ''cancel''
      (MAX_ANSWER_ATTEMPTS - Suc k) m = (cd, ans, m1)" by (cases "ask_card env sv sid message message (FormCard fs)
      reason ''cancel'' (MAX_ANSWER_ATTEMPTS - Suc k) m")
  note body = ask_card_body [OF a]
  show ?case
  proof (cases ans)
    case None
    with Suc.prems a body show ?thesis by auto
  next
    case (Some ac)
    obtain action content where ac: "ac = (action, content)" by (cases ac)
    define c where "c = py_or (case content of None \<Rightarrow> PNone | Some v \<Rightarrow> v) (PDict [])"
    show ?thesis
    proof (cases "action = ''accept''")
      case False
      with Suc.prems a body Some ac show ?thesis by auto
    next
      case acc: True
      show ?thesis
      proof (cases "validate_content (el_flt env) schema c")
        case None
        with Suc.prems a body Some ac acc show ?thesis by (auto simp: c_def [symmetric])
      next
        case v: (Some r)
        show ?thesis
        proof (cases r)
          case None
          with Suc.prems a body Some ac acc v show ?thesis by (auto simp: c_def [symmetric])
        next
          case r: (Some e)
          obtain out' evs' m2 where l: "form_loop k env sv sid message schema fs (Some e) m1 = (out', evs', m2)"
            by (cases "form_loop k env sv sid message schema fs (Some e) m1")
          have "out = out'" "evs = CardEvent cd # evs'"
            using Suc.prems(1) a Some ac acc v r l by (auto simp: c_def [symmetric])
          with Suc.IH [OF l] Suc.prems(2) body show ?thesis by auto
        qed
      qed
    qed
  qed
qed auto

section \<open>The properties\<close>

text \<open>
  C31. The callback never raises: it answers, or its task is cancelled. A form is accepted only with an answer the
  schema's own validation passed; at most three cards are shown for it, all with the fields of the schema; and
  without a run it declines and shows nothing.
\<close>

theorem elicit_form_sound:
  "case elicit env sv sid mgr (FormParams message schema) of (out, evs, m) \<Rightarrow>
     out \<noteq> Raised \<and>
     (\<forall>c. out = Answer ''accept'' c \<longrightarrow> (\<exists>v. c = Some v \<and> validate_content (el_flt env) schema v = Some None)) \<and>
     length (cards evs) \<le> 3 \<and>
     (\<forall>c\<in>set (cards evs). \<exists>fs. render_fields schema = Some fs \<and> cd_body c = FormCard fs) \<and>
     (mgr = None \<longrightarrow> out = Answer ''decline'' None \<and> evs = [])"
proof (cases mgr)
  case None
  then show ?thesis by (simp add: elicit_def elicit_inner_def)
next
  case (Some m)
  show ?thesis
  proof (cases "render_fields schema")
    case None
    with Some show ?thesis by (simp add: elicit_def elicit_inner_def)
  next
    case fs: (Some fs)
    obtain out evs m' where l: "form_loop MAX_ANSWER_ATTEMPTS env sv sid message schema fs None m = (out, evs, m')"
      by (cases "form_loop MAX_ANSWER_ATTEMPTS env sv sid message schema fs None m")
    from form_loop_spec [OF l order_refl] Some fs l show ?thesis
      by (cases out) (auto simp: elicit_def elicit_inner_def MAX_ANSWER_ATTEMPTS_def)
  qed
qed

text \<open>
  A link is shown only when its scheme, read the way the browser's parser reads it, is http or https; it is shown
  at most once, the card names the host of the link and says when the connection is not https; every other link is
  declined with a warning, and no card and no registration.
\<close>

theorem elicit_url_sound:
  "case elicit env sv sid mgr (UrlParams message url) of (out, evs, m) \<Rightarrow>
     out \<noteq> Raised \<and>
     (if mgr \<noteq> None \<and> fst (url_split url) \<in> {''http'', ''https''}
      then (\<exists>c. evs = [CardEvent c] \<and> uc_url (cd_body c) = url \<and> uc_host (cd_body c) = url_hostname (snd (url_split url)) \<and>
        uc_insecure (cd_body c) = (fst (url_split url) = ''http''))
      else out = Answer ''decline'' None \<and> cards evs = [] \<and> m = mgr)"
proof (cases mgr)
  case None
  then show ?thesis by (simp add: elicit_def elicit_inner_def)
next
  case (Some m)
  obtain cd ans m1 where a: "ask_card env sv sid message (message @ '' ['' @ url @ '']'') (url_card (el_idna env) url)
      None ''accept'' 0 m = (cd, ans, m1)"
    by (cases "ask_card env sv sid message (message @ '' ['' @ url @ '']'') (url_card (el_idna env) url) None ''accept'' 0 m")
  obtain scheme netloc where s: "url_split url = (scheme, netloc)" by (cases "url_split url")
  obtain p q where f: "host_flags (el_idna env) (url_hostname netloc) = (p, q)"
    by (cases "host_flags (el_idna env) (url_hostname netloc)")
  show ?thesis
    using Some a s f ask_card_body [OF a]
    by (auto simp: elicit_def elicit_inner_def ALLOWED_URL_SCHEMES_def url_card_def split: option.splits)
qed

definition demo_elicit :: elicit_env where
  "demo_elicit = \<lparr>el_id = (\<lambda>n. if n = 0 then ''c0'' else ''c1''), el_now = (\<lambda>_. 0), el_idna = (\<lambda>_. None),
     el_flt = \<lparr>fl_less = (\<lambda>_ _. False), fl_eq = (\<lambda>_ _. False)\<rparr>,
     el_parked = (\<lambda>n cid m. (m\<lparr>actions := [(cid, ''accept'')],
       contents := [(cid, PDict [(''age'', if n = 0 then PInt 17 else PInt 30)])]\<rparr>, Fired))\<rparr>"

theorem elicit_form_sound_witness:
  "\<exists>evs m. elicit demo_elicit \<lparr>sv_id = ''1'', sv_name = None\<rparr> ''s'' (Some mgr_init) (FormParams ''?'' demo_schema)
     = (Answer ''accept'' (Some (PDict [(''age'', PInt 30)])), evs, m) \<and> length (cards evs) \<le> 3 \<and>
     validate_content (el_flt demo_elicit) demo_schema (PDict [(''age'', PInt 30)]) = Some None"
proof -
  let ?r = "elicit demo_elicit \<lparr>sv_id = ''1'', sv_name = None\<rparr> ''s'' (Some mgr_init) (FormParams ''?'' demo_schema)"
  have out: "fst ?r = Answer ''accept'' (Some (PDict [(''age'', PInt 30)]))" by code_simp
  obtain evs m where r: "?r = (Answer ''accept'' (Some (PDict [(''age'', PInt 30)])), evs, m)"
    using out by (cases ?r) auto
  from elicit_form_sound [where env = demo_elicit and sv = "\<lparr>sv_id = ''1'', sv_name = None\<rparr>" and
    sid = "''s''" and mgr = "Some mgr_init" and message = "''?''" and schema = demo_schema]
  show ?thesis unfolding r prod.case by auto
qed

theorem elicit_url_sound_witness:
  "\<exists>evs m. elicit demo_elicit \<lparr>sv_id = ''1'', sv_name = None\<rparr> ''s'' (Some mgr_init) (UrlParams ''?'' ''javascript:alert(1)'')
     = (Answer ''decline'' None, evs, m) \<and> cards evs = []"
proof -
  let ?r = "elicit demo_elicit \<lparr>sv_id = ''1'', sv_name = None\<rparr> ''s'' (Some mgr_init) (UrlParams ''?'' ''javascript:alert(1)'')"
  have s: "fst (url_split ''javascript:alert(1)'') \<notin> {''http'', ''https''}" by code_simp
  obtain out evs m where r: "?r = (out, evs, m)" by (cases ?r)
  from elicit_url_sound [where env = demo_elicit and sv = "\<lparr>sv_id = ''1'', sv_name = None\<rparr>" and
    sid = "''s''" and mgr = "Some mgr_init" and message = "''?''" and url = "''javascript:alert(1)''"] s show ?thesis unfolding r prod.case by auto
qed

end
