(* ===== verification/Mid_Run.thy ===== *)
theory Mid_Run
  imports Compaction Tool_Output
begin

text \<open>
  Mid-run compaction (\<open>compaction_filter.py\<close>): before every call of the model a copy of its input is shrunk. Old
  tool outputs and thoughts become stubs, then older turns are folded into the run's summary, then turns are
  dropped. The files of the offloading directory are on the disk of \<open>Fs_Disk\<close>; the summarising model is a
  parameter whose \<open>None\<close> is an exception.
\<close>

section \<open>Items\<close>

text \<open>
  An input item is a value of \<^typ>\<open>pyval\<close>, or a dictionary whose output, or whose one summary text, is given
  beside it as code points: such texts hold an ellipsis or a dash, which the strings of \<^typ>\<open>pyval\<close> cannot.
\<close>

type_synonym jdict = "(string \<times> pyval) list"

datatype item = Plain pyval | Output jdict codes | Thought jdict codes

fun base_of :: "item \<Rightarrow> pyval" where
  "base_of (Plain m) = m"
| "base_of (Output d _) = PDict d"
| "base_of (Thought d _) = PDict d"

definition dict_of :: "item \<Rightarrow> jdict option" where
  "dict_of it = as_dict (base_of it)"

definition has_type :: "item \<Rightarrow> string \<Rightarrow> bool" where
  "has_type it k \<longleftrightarrow> (case dict_of it of None \<Rightarrow> False | Some d \<Rightarrow> pget d ''type'' = PStr k)"

text \<open>\<open>m.get("call_id") or m.get("id") or ""\<close>, as a string.\<close>

definition call_id_of :: "jdict \<Rightarrow> string" where
  "call_id_of d = str_val (py_or (py_or (pget d ''call_id'') (pget d ''id'')) (PStr []))"

text \<open>The output, where it is a string.\<close>

definition out_text :: "item \<Rightarrow> codes option" where
  "out_text it = (case it of
      Output _ t \<Rightarrow> Some t
    | _ \<Rightarrow> (case dict_of it of None \<Rightarrow> None
        | Some d \<Rightarrow> (case pget d ''output'' of PStr s \<Rightarrow> Some (utext s) | _ \<Rightarrow> None)))"

text \<open>\<open>_message_text\<close>\<close>

definition capped :: "nat option \<Rightarrow> codes \<Rightarrow> codes" where
  "capped cap s = (case cap of
      Some n \<Rightarrow> if length s > n then take n s @ 0x2026 # utext (''[+'' @ str_of_nat (length s - n) @ '' chars]'') else s
    | None \<Rightarrow> s)"

fun item_text :: "nat option \<Rightarrow> item \<Rightarrow> codes" where
  "item_text cap (Plain m) = message_text cap m"
| "item_text cap (Output d t) =
     (if truthy (pget d ''content'') \<or> pget d ''type'' \<noteq> PStr ''function_call_output''
      then message_text cap (PDict d) else capped cap t)"
| "item_text cap (Thought d t) =
     (if truthy (pget d ''content'') \<or> pget d ''type'' \<noteq> PStr ''reasoning''
      then message_text cap (PDict d) else t)"

definition estimate_items :: "item list \<Rightarrow> int" where
  "estimate_items its = sum_list (map (\<lambda>m. estimate_tokens (item_text None m)) its)"

section \<open>Stubs\<close>

definition KEEP_RECENT_TOOL_RESULTS :: nat where "KEEP_RECENT_TOOL_RESULTS = 4"
definition MICRO_KEEP_CHARS :: nat where "MICRO_KEEP_CHARS = 800"
definition MICRO_PLACEHOLDER_HEAD :: nat where "MICRO_PLACEHOLDER_HEAD = 300"
definition REASONING_KEEP_CHARS :: nat where "REASONING_KEEP_CHARS = 200"
definition L1_EXEMPT_TOOLS :: "string list" where "L1_EXEMPT_TOOLS = [''delegate'', ''update_plan'']"
definition SYNTHETIC_ID :: string where "SYNTHETIC_ID = ''__synthetic__''"

definition call_name :: "item list \<Rightarrow> string \<Rightarrow> string" where
  "call_name items cid = (case map_of (rev (List.map_filter (\<lambda>it. case dict_of it of
        Some d \<Rightarrow> if pget d ''type'' = PStr ''function_call'' \<and> call_id_of d \<noteq> []
          then Some (call_id_of d, str_val (py_or (pget d ''name'') (PStr []))) else None
      | None \<Rightarrow> None) items)) cid of None \<Rightarrow> [] | Some n \<Rightarrow> n)"

definition item_starts :: "item list \<Rightarrow> nat list" where
  "item_starts items = turn_starts (map base_of items)"

definition recent_output_boundary :: "item list \<Rightarrow> nat \<Rightarrow> nat" where
  "recent_output_boundary items keep =
     (let outs = filter (\<lambda>i. has_type (items ! i) ''function_call_output'') [0..<length items]; k = max 1 keep in
      if length outs < k then 0
      else let idx = outs ! (length outs - k); starts = filter (\<lambda>s. s \<le> idx) (item_starts items) in
        if starts = [] then idx else last starts)"

definition COMPACTED :: codes where
  "COMPACTED = utext ''[earlier tool output compacted: chars=''"

definition compacted_re :: "codes \<Rightarrow> bool" where
  "compacted_re t = re_search (\<lambda>s. startswith s COMPACTED \<and>
     (case drop (length COMPACTED) s of [] \<Rightarrow> False | c # _ \<Rightarrow> u_digit c)) t"

text \<open>The reading guide inside a placeholder: the first opening tag that is closed, up to the nearest close.\<close>

definition GUIDE_OPEN :: codes where
  "GUIDE_OPEN = utext (''<untrusted-data source='' @ [CHR 0x22] @ ''tool-output-summary'' @ [CHR 0x22] @ ''>'') @ [10]"

definition FENCE_CLOSE :: codes where
  "FENCE_CLOSE = 10 # utext ''</untrusted-data>''"

fun until_close :: "codes \<Rightarrow> codes option" where
  "until_close [] = None"
| "until_close (c # cs) = (if startswith (c # cs) FENCE_CLOSE then Some FENCE_CLOSE else map_option ((#) c) (until_close cs))"

fun guide_search :: "codes \<Rightarrow> codes option" where
  "guide_search [] = None"
| "guide_search (c # cs) =
     (case (if startswith (c # cs) GUIDE_OPEN then until_close (drop (length GUIDE_OPEN) (c # cs)) else None) of
        Some g \<Rightarrow> Some (GUIDE_OPEN @ g)
      | None \<Rightarrow> guide_search cs)"

definition trailer_text :: "codes \<times> codes \<times> codes \<Rightarrow> codes" where
  "trailer_text m = (case m of (ds, path, _) \<Rightarrow> MARK @ ds @ utext '' path='' @ path @ [93])"

definition head_part :: "codes \<Rightarrow> codes" where
  "head_part out = (let head = take MICRO_PLACEHOLDER_HEAD out in
     if contains head (utext ''<untrusted-data'') \<and> \<not> contains head (utext ''</untrusted-data>'')
     then head @ FENCE_CLOSE else head)"

text \<open>The file an old output is kept in: the one that is there already, or a new one.\<close>

definition output_file :: "string \<Rightarrow> string \<Rightarrow> codes \<Rightarrow> disk \<Rightarrow> string \<times> disk" where
  "output_file dir cid out dk =
     (if cid = [] then ([], dk)
      else let existing = (if is_safe_call_id cid \<and> dir \<noteq> [] then path_join dir (cid @ ''.txt'') else []) in
        if existing \<noteq> [] \<and> os_isfile dk existing then (existing, dk) else store_output dir out cid dk)"

definition stub_text :: "codes \<Rightarrow> string \<Rightarrow> codes" where
  "stub_text out path =
     (if path \<noteq> []
      then head_part out @ 10 # COMPACTED @ utext (str_of_nat (length out) @ '' path='' @ path @ '' '') @
        0x2014 # utext '' read_file_lines(path, start, end) to revisit]''
      else head_part out @ 10 # COMPACTED @ utext (str_of_nat (length out) @
        ''; re-run the tool if you need it again]''))"

definition compact_output :: "string \<Rightarrow> string \<Rightarrow> nat \<Rightarrow> item \<Rightarrow> disk \<Rightarrow> codes option \<times> disk" where
  "compact_output dir tool_name keep_chars it dk =
     (if tool_name \<in> set L1_EXEMPT_TOOLS then (None, dk)
      else case (out_text it, dict_of it) of
        (Some out, Some d) \<Rightarrow>
          if length out \<le> keep_chars \<or> compacted_re out then (None, dk)
          else (case trailer_search out of
              Some tr \<Rightarrow> (case guide_search out of
                  Some g \<Rightarrow> (let t = g @ 10 # trailer_text tr in (if u_strip out = t then None else Some t, dk))
                | None \<Rightarrow> (Some (head_part out @ 10 # 0x2026 # 10 # trailer_text tr), dk))
            | None \<Rightarrow> (case output_file dir (call_id_of d) out dk of (path, dk') \<Rightarrow> (Some (stub_text out path), dk')))
      | _ \<Rightarrow> (None, dk))"

definition REASONING_TAIL :: codes where
  "REASONING_TAIL = 0x2026 # utext ''(reasoning compacted)''"

text \<open>A thought that ends with the ellipsis is a stub already; a string of \<^typ>\<open>pyval\<close> cannot end so.\<close>

definition stub_thought :: "item \<Rightarrow> item" where
  "stub_thought it = (case dict_of it of
      None \<Rightarrow> it
    | Some d \<Rightarrow>
        if pget d ''id'' = PStr SYNTHETIC_ID \<or> (case it of Thought _ t \<Rightarrow> endswith t REASONING_TAIL | _ \<Rightarrow> False)
        then it
        else (let t = item_text None it in
          if t = [] then it else Thought d (take REASONING_KEEP_CHARS t @ 32 # REASONING_TAIL)))"

text \<open>One item before the boundary: the item, whether an output was replaced, the disk.\<close>

definition micro_item :: "string \<Rightarrow> item list \<Rightarrow> nat \<Rightarrow> item \<Rightarrow> disk \<Rightarrow> item \<times> bool \<times> disk" where
  "micro_item dir items keep_chars it dk =
     (if has_type it ''function_call_output''
      then (case compact_output dir (call_name items (call_id_of (the (dict_of it)))) keep_chars it dk of
          (Some t, dk') \<Rightarrow> (Output (the (dict_of it)) t, True, dk')
        | (None, dk') \<Rightarrow> (it, False, dk'))
      else if has_type it ''reasoning'' then (stub_thought it, False, dk)
      else (it, False, dk))"

fun micro_items :: "string \<Rightarrow> item list \<Rightarrow> nat \<Rightarrow> item list \<Rightarrow> disk \<Rightarrow> item list \<times> nat \<times> disk" where
  "micro_items dir items keep_chars [] dk = ([], 0, dk)"
| "micro_items dir items keep_chars (it # its) dk =
     (case micro_item dir items keep_chars it dk of (it', b, dk1) \<Rightarrow>
      (case micro_items dir items keep_chars its dk1 of (its', n, dk2) \<Rightarrow>
        (it' # its', (if b then Suc n else n), dk2)))"

definition micro_compact :: "string \<Rightarrow> nat \<Rightarrow> nat \<Rightarrow> item list \<Rightarrow> disk \<Rightarrow> item list \<times> nat \<times> disk" where
  "micro_compact dir keep_recent keep_chars items dk =
     (let b = recent_output_boundary items keep_recent in
      case micro_items dir items keep_chars (take b items) dk of (old, n, dk') \<Rightarrow> (old @ drop b items, n, dk'))"

section \<open>The budget\<close>

definition cut_turns :: "item list \<Rightarrow> nat \<Rightarrow> nat" where
  "cut_turns items k = cut_keep_recent_turns (map base_of items) k"

definition truncate_turns :: "item list \<Rightarrow> nat \<Rightarrow> item list" where
  "truncate_turns items keep = (let c = cut_turns items keep in
     if items = [] \<or> c = 0 then items
     else (if role_is ''user'' (base_of (hd items)) then [hd items] else []) @ drop c items)"

record run_ctx =
  rx_window :: int
  rx_overhead :: int
  rx_last_input :: int
  rx_seen :: int
  rx_summary :: codes
  rx_fold :: nat
  rx_l1 :: nat
  rx_l1_reasoning :: nat
  rx_l2 :: nat
  rx_l2_fail :: nat
  rx_l2_disabled :: bool
  rx_trunc :: nat
  rx_enabled :: bool
  rx_plan :: "step list"
  rx_base :: "codes option"
  rx_hint :: bool
  rx_sent_len :: nat

definition estimate_since :: "item list \<Rightarrow> int \<Rightarrow> int" where
  "estimate_since items from = estimate_items (drop (nat (max 0 (min from (int (length items))))) items)"

definition full_estimate :: "run_ctx \<Rightarrow> item list \<Rightarrow> int" where
  "full_estimate ctx items = rx_overhead ctx + estimate_tokens (rx_summary ctx) + estimate_items items"

definition budget :: "run_ctx \<Rightarrow> item list \<Rightarrow> int" where
  "budget ctx items =
     (if rx_last_input ctx > 0 then rx_last_input ctx + estimate_since items (rx_seen ctx) else full_estimate ctx items)"

text \<open>\<open>base[:base.index(header)].rstrip()\<close> where the header occurs.\<close>

fun before_sub :: "codes \<Rightarrow> codes \<Rightarrow> codes" where
  "before_sub h [] = []"
| "before_sub h (c # cs) = (if startswith (c # cs) h then [] else c # before_sub h cs)"

definition strip_from :: "codes \<Rightarrow> codes \<Rightarrow> codes" where
  "strip_from h t = (if contains t h then rstrip_of u_isspace (before_sub h t) else t)"

definition with_summary :: "run_ctx \<Rightarrow> codes option \<Rightarrow> codes option \<times> run_ctx" where
  "with_summary ctx instructions =
     (if rx_summary ctx = [] \<and> rx_plan ctx = [] then (instructions, ctx)
      else let base = (case rx_base ctx of
                 Some b \<Rightarrow> b
               | None \<Rightarrow> strip_from (utext PLAN_HEADER) (strip_from (utext SUMMARY_HEADER)
                   (case instructions of None \<Rightarrow> [] | Some t \<Rightarrow> t)));
               block = (if rx_summary ctx = [] then [] else summary_block (rx_summary ctx) (rx_hint ctx));
               pb = plan_block (rx_plan ctx) in
        (Some (join_with [10, 10] ([base] @ (if block = [] then [] else [block]) @ (if pb = [] then [] else [pb]))),
         ctx\<lparr>rx_base := Some base\<rparr>))"

section \<open>The filter\<close>

text \<open>\<open>0.35\<close> and \<open>0.85\<close> as doubles; the second level is the \<^const>\<open>THRESHOLD\<close> of the compaction before a run.\<close>

definition L1_THRESHOLD :: "int \<times> nat" where
  "L1_THRESHOLD = (3152519739159347, 53)"

definition HARD_THRESHOLD :: "int \<times> nat" where
  "HARD_THRESHOLD = (7656119366529843, 53)"

text \<open>The offloading directory of the run, and the summarising model, if there is one.\<close>

record filter_env =
  fe_dir :: string
  fe_summarize :: "(codes \<Rightarrow> codes \<Rightarrow> codes option) option"

record model_data =
  md_input :: "item list"
  md_instructions :: "codes option"

text \<open>How many thoughts were stubbed: pairs of reasoning items whose summaries differ.\<close>

definition count_thoughts :: "item list \<Rightarrow> item list \<Rightarrow> nat" where
  "count_thoughts before now = length (filter (\<lambda>(o', c). has_type o' ''reasoning'' \<and> has_type c ''reasoning'' \<and> o' \<noteq> c)
     (zip before now))"

definition first_level :: "filter_env \<Rightarrow> run_ctx \<Rightarrow> item list \<Rightarrow> disk \<Rightarrow> (int \<times> item list) \<times> run_ctx \<times> disk" where
  "first_level env ctx items dk =
     (let est = (if rx_fold ctx = 0 then max (budget ctx items) (full_estimate ctx items) else full_estimate ctx items) in
      if est > scale_double L1_THRESHOLD (max (rx_window ctx) 1)
      then (case micro_compact (fe_dir env) KEEP_RECENT_TOOL_RESULTS MICRO_KEEP_CHARS items dk of
          (items', n, dk') \<Rightarrow>
            ((full_estimate ctx items', items'),
             ctx\<lparr>rx_l1 := rx_l1 ctx + n, rx_l1_reasoning := rx_l1_reasoning ctx + count_thoughts items items'\<rparr>, dk'))
      else ((est, items), ctx, dk))"

text \<open>The fold; the last component says where in the full list the remaining items start. \<open>None\<close>: it raises.\<close>

definition second_level :: "filter_env \<Rightarrow> run_ctx \<Rightarrow> nat \<Rightarrow> int \<Rightarrow> item list \<Rightarrow> ((int \<times> item list \<times> nat) \<times> run_ctx) option" where
  "second_level env ctx pos est items =
     (case fe_summarize env of
        None \<Rightarrow> Some ((est, items, pos), ctx)
      | Some ask \<Rightarrow>
          if est > scale_double THRESHOLD (max (rx_window ctx) 1) \<and> \<not> rx_l2_disabled ctx \<and> cut_turns items RECENT_TOOL_TURNS > 0
          then (let cut = cut_turns items RECENT_TOOL_TURNS;
                    fold = join_with [10] (map (item_text (Some SUMMARY_OUTPUT_MAX_CHARS)) (take cut items)) in
            case ask (rx_summary ctx) fold of
              None \<Rightarrow> None
            | Some out \<Rightarrow>
                if out \<noteq> [] \<and> u_strip out \<noteq> [] \<and> estimate_tokens out < estimate_tokens fold
                then (let ctx' = ctx\<lparr>rx_summary := u_strip out, rx_fold := rx_fold ctx + cut, rx_l2 := Suc (rx_l2 ctx),
                        rx_l2_fail := 0\<rparr> in
                      Some ((full_estimate ctx' (drop cut items), drop cut items, pos + cut), ctx'))
                else Some ((est, items, pos), ctx\<lparr>rx_l2_fail := Suc (rx_l2_fail ctx),
                  rx_l2_disabled := rx_l2_disabled ctx \<or> Suc (rx_l2_fail ctx) \<ge> 2\<rparr>))
          else Some ((est, items, pos), ctx))"

definition last_level :: "run_ctx \<Rightarrow> item list \<Rightarrow> int \<times> item list \<times> nat \<Rightarrow> item list \<times> run_ctx" where
  "last_level ctx full r = (case r of (est, items, pos) \<Rightarrow>
     if est > scale_double HARD_THRESHOLD (max (rx_window ctx) 1)
     then (let items' = truncate_turns items 2;
               same = (pos = 0 \<and> items' \<noteq> [] \<and> hd items' = hd full);
               sent = (if full \<noteq> [] \<and> role_is ''user'' (base_of (hd full)) \<and> \<not> same then hd full # items' else items') in
           (sent, ctx\<lparr>rx_trunc := Suc (rx_trunc ctx)\<rparr>))
     else (items, ctx))"

definition finish_filter :: "run_ctx \<Rightarrow> model_data \<Rightarrow> item list \<Rightarrow> model_data \<times> run_ctx" where
  "finish_filter ctx md items = (case with_summary ctx (md_instructions md) of (ins, ctx') \<Rightarrow>
     (md\<lparr>md_input := items, md_instructions := ins\<rparr>, ctx'))"

text \<open>The items that are not folded yet, and where they start; a stale cursor counts as none.\<close>

definition fold_start :: "run_ctx \<Rightarrow> item list \<Rightarrow> nat" where
  "fold_start ctx full = (if rx_fold ctx \<le> length full then rx_fold ctx else 0)"

definition compaction_filter :: "filter_env \<Rightarrow> run_ctx option \<Rightarrow> model_data \<Rightarrow> disk \<Rightarrow> model_data \<times> run_ctx option \<times> disk" where
  "compaction_filter env octx md dk = (case octx of
      None \<Rightarrow> (md, None, dk)
    | Some ctx0 \<Rightarrow>
        if \<not> rx_enabled ctx0
        then (if rx_plan ctx0 = [] then (md, Some ctx0, dk)
              else (case finish_filter ctx0 md (md_input md) of (md', ctx) \<Rightarrow> (md', Some ctx, dk)))
        else let full = md_input md; ctx1 = ctx0\<lparr>rx_sent_len := length full\<rparr>; pos = fold_start ctx1 full in
          (case first_level env ctx1 (drop pos full) dk of ((est, items), ctx2, dk') \<Rightarrow>
           (case second_level env ctx2 pos est items of
              None \<Rightarrow> (md, Some ctx2, dk')
            | Some (r, ctx3) \<Rightarrow> (case last_level ctx3 full r of (sent, ctx4) \<Rightarrow>
                (case finish_filter ctx4 md sent of (md', ctx5) \<Rightarrow> (md', Some ctx5, dk'))))))"

section \<open>What stubbing keeps\<close>

text \<open>An item and what stands for it: itself, or the same dictionary with another output or another thought.\<close>

definition stub_of :: "item \<Rightarrow> item \<Rightarrow> bool" where
  "stub_of it it' \<longleftrightarrow> it' = it \<or> (\<exists>d t. dict_of it = Some d \<and>
     (has_type it ''function_call_output'' \<and> it' = Output d t \<or> has_type it ''reasoning'' \<and> it' = Thought d t))"

lemma stub_of_refl [simp]: "stub_of it it"
  by (simp add: stub_of_def)

lemma stub_of_base: "stub_of it it' \<Longrightarrow> base_of it' = base_of it"
  by (auto simp: stub_of_def dict_of_def)

lemma has_type_dict: "has_type it k \<Longrightarrow> dict_of it = Some (the (dict_of it))"
  by (auto simp: has_type_def split: option.splits)

lemma stub_thought_stub: "has_type it ''reasoning'' \<Longrightarrow> stub_of it (stub_thought it)"
  by (auto simp: stub_thought_def stub_of_def Let_def split: option.splits)

lemma micro_item_stub: "micro_item dir items k it dk = (it', b, dk') \<Longrightarrow> stub_of it it'"
  by (auto simp: micro_item_def stub_thought_stub split: if_splits prod.splits option.splits)
    (auto simp: stub_of_def dest: has_type_dict)

lemma micro_items_stub: "micro_items dir items k its dk = (its', n, dk') \<Longrightarrow> list_all2 stub_of its its'"
  by (induction its arbitrary: its' n dk dk') (auto dest: micro_item_stub split: prod.splits)

lemma list_all2_refl_stub: "list_all2 stub_of its its"
  by (simp add: list_all2_same)

lemma map_base_stub: "list_all2 stub_of its its' \<Longrightarrow> map base_of its' = map base_of its"
  by (induction rule: list_all2_induct) (auto dest: stub_of_base)

lemma last_mem_filter: "filter P xs \<noteq> [] \<Longrightarrow> last (filter P xs) \<in> set xs \<and> P (last (filter P xs))"
  using last_in_set [of "filter P xs"] by auto

lemma recent_output_boundary_le: "recent_output_boundary items k \<le> length items"
proof -
  let ?outs = "filter (\<lambda>i. has_type (items ! i) ''function_call_output'') [0..<length items]"
  show ?thesis
  proof (cases "length ?outs < max 1 k")
    case True
    then have "recent_output_boundary items k = 0" unfolding recent_output_boundary_def Let_def by (rule if_P)
    then show ?thesis by simp
  next
    case False
    let ?idx = "?outs ! (length ?outs - max 1 k)"
    let ?starts = "filter (\<lambda>s. s \<le> ?idx) (item_starts items)"
    have "length ?outs - max 1 k < length ?outs" using False by linarith
    then have "?idx \<in> set ?outs" by (rule nth_mem)
    then have idx: "?idx < length items" by auto
    have r: "recent_output_boundary items k = (if ?starts = [] then ?idx else last ?starts)"
      unfolding recent_output_boundary_def Let_def by (rule if_not_P [OF False])
    have s: "last ?starts \<le> ?idx" if "?starts \<noteq> []" using last_mem_filter [OF that] by (rule conjunct2)
    show ?thesis
    proof (cases "?starts = []")
      case True
      have "recent_output_boundary items k = ?idx" unfolding r by (rule if_P [OF True])
      with idx show ?thesis by linarith
    next
      case False
      have "recent_output_boundary items k = last ?starts" unfolding r by (rule if_not_P [OF False])
      with idx s [OF False] show ?thesis by linarith
    qed
  qed
qed

lemma micro_compact_stub:
  assumes "micro_compact dir k kc items dk = (items', n, dk')"
  shows "list_all2 stub_of items items'"
    "drop (recent_output_boundary items k) items' = drop (recent_output_boundary items k) items"
proof -
  let ?b = "recent_output_boundary items k"
  from assms obtain old where old: "list_all2 stub_of (take ?b items) old" "items' = old @ drop ?b items"
    by (auto simp: micro_compact_def Let_def dest: micro_items_stub split: prod.splits)
  have "list_all2 stub_of (take ?b items @ drop ?b items) (old @ drop ?b items)"
    using old(1) list_all2_refl_stub by (rule list_all2_appendI)
  then show "list_all2 stub_of items items'" by (simp add: old(2))
  have "length old = ?b" using old(1) recent_output_boundary_le [of items k] by (auto dest: list_all2_lengthD)
  then show "drop ?b items' = drop ?b items" by (simp add: old(2))
qed

section \<open>Cuts\<close>

lemma turn_start_drop:
  assumes "c + i < length xs" "0 < i \<or> turn_start xs c"
  shows "turn_start (drop c xs) i \<longleftrightarrow> turn_start xs (c + i)"
  using assms by (cases i) (auto simp: turn_start_def)

lemma turn_starts_set: "set (turn_starts xs) = {i. i < length xs \<and> turn_start xs i}"
  by (auto simp: turn_starts_def)

lemma turn_starts_order: "sorted (turn_starts xs)" "distinct (turn_starts xs)"
  by (simp_all add: turn_starts_def sorted_wrt_filter)

lemma cut_keep_cases:
  "cut_keep_recent_turns xs k = 0 \<and> (k = 0 \<or> length (turn_starts xs) < k) \<or>
   k \<noteq> 0 \<and> k \<le> length (turn_starts xs) \<and> cut_keep_recent_turns xs k = turn_starts xs ! (length (turn_starts xs) - k)"
  by (auto simp: cut_keep_recent_turns_def Let_def)

lemma cut_keep_start:
  assumes "0 < cut_keep_recent_turns xs k"
  shows "cut_keep_recent_turns xs k < length xs" "turn_start xs (cut_keep_recent_turns xs k)"
proof -
  have "cut_keep_recent_turns xs k \<in> set (turn_starts xs)"
    using cut_keep_cases [of xs k] assms by (auto intro!: nth_mem)
  then show "cut_keep_recent_turns xs k < length xs" "turn_start xs (cut_keep_recent_turns xs k)"
    by (auto simp: turn_starts_set)
qed

text \<open>What a cut keeps has at most so many turns.\<close>

lemma cut_keep_turns:
  assumes "k \<noteq> 0"
  shows "length (turn_starts (drop (cut_keep_recent_turns xs k) xs)) \<le> k"
proof (cases "length (turn_starts xs) < k")
  case True
  then show ?thesis by (simp add: cut_keep_recent_turns_def Let_def)
next
  case False
  let ?ss = "turn_starts xs" and ?c = "cut_keep_recent_turns xs k"
  let ?n = "length ?ss - k"
  have c: "?c = ?ss ! ?n" "?n < length ?ss" using False assms by (auto simp: cut_keep_recent_turns_def Let_def)
  then have start: "?c < length xs" "turn_start xs ?c" using nth_mem [OF c(2)] by (auto simp: turn_starts_set)
  have "(\<lambda>i. ?c + i) ` set (turn_starts (drop ?c xs)) \<subseteq> set (drop ?n ?ss)"
  proof clarify
    fix i assume "i \<in> set (turn_starts (drop ?c xs))"
    then have i: "?c + i < length xs" "turn_start xs (?c + i)"
      using turn_start_drop [of ?c i xs] start by (auto simp: turn_starts_set)
    then have "?c + i \<in> set ?ss" by (simp add: turn_starts_set)
    then obtain j where j: "j < length ?ss" "?ss ! j = ?c + i" by (auto simp: in_set_conv_nth)
    have "?n \<le> j"
    proof (rule ccontr)
      assume "\<not> ?n \<le> j"
      then have "j < ?n" by simp
      with turn_starts_order c(2) have "?ss ! j < ?ss ! ?n"
        by (metis sorted_wrt_iff_nth_less strict_sorted_iff)
      with j(2) c(1) show False by simp
    qed
    with j show "?c + i \<in> set (drop ?n ?ss)"
      by (auto simp: in_set_conv_nth intro!: exI [of _ "j - ?n"])
  qed
  then have "card ((\<lambda>i. ?c + i) ` set (turn_starts (drop ?c xs))) \<le> card (set (drop ?n ?ss))"
    by (rule card_mono [OF finite_set])
  also have "\<dots> \<le> k" using card_length [of "drop ?n ?ss"] False by simp
  also have "card ((\<lambda>i. ?c + i) ` set (turn_starts (drop ?c xs))) = length (turn_starts (drop ?c xs))"
    by (subst card_image) (auto simp: inj_on_def distinct_card turn_starts_order)
  finally show ?thesis .
qed

text \<open>Two cuts in a row are one.\<close>

definition clean_cut :: "item list \<Rightarrow> nat \<Rightarrow> bool" where
  "clean_cut items c \<longleftrightarrow> c = 0 \<or> c < length items \<and> turn_start (map base_of items) c"

lemma clean_cut_turns: "clean_cut items (cut_turns items k)"
  using cut_keep_start [of "map base_of items" k] by (auto simp: clean_cut_def cut_turns_def)

lemma clean_cut_add:
  assumes "clean_cut items c" "clean_cut (drop c items) d"
  shows "clean_cut items (c + d)"
proof (cases "d = 0")
  case False
  then have d: "d < length (drop c items)" "turn_start (drop c (map base_of items)) d"
    using assms(2) by (auto simp: clean_cut_def drop_map)
  with False turn_start_drop [of c d "map base_of items"] show ?thesis by (auto simp: clean_cut_def)
qed (use assms in simp)

section \<open>The levels\<close>

lemma full_estimate_cong:
  "rx_overhead ctx' = rx_overhead ctx \<Longrightarrow> rx_summary ctx' = rx_summary ctx \<Longrightarrow> full_estimate ctx' its = full_estimate ctx its"
  by (simp add: full_estimate_def)

definition same_budget :: "run_ctx \<Rightarrow> run_ctx \<Rightarrow> bool" where
  "same_budget ctx ctx' \<longleftrightarrow> rx_window ctx' = rx_window ctx \<and> rx_overhead ctx' = rx_overhead ctx"

definition same_summary :: "run_ctx \<Rightarrow> run_ctx \<Rightarrow> bool" where
  "same_summary ctx ctx' \<longleftrightarrow> rx_summary ctx' = rx_summary ctx \<and> rx_fold ctx' = rx_fold ctx"

lemma first_level_spec:
  assumes "first_level env ctx items dk = ((est, items'), ctx', dk')"
  shows "list_all2 stub_of items items'"
    "drop (recent_output_boundary items KEEP_RECENT_TOOL_RESULTS) items' =
     drop (recent_output_boundary items KEEP_RECENT_TOOL_RESULTS) items"
    "same_budget ctx ctx' \<and> same_summary ctx ctx'" "full_estimate ctx' items' \<le> est"
proof -
  have "list_all2 stub_of items items' \<and>
    drop (recent_output_boundary items KEEP_RECENT_TOOL_RESULTS) items' =
      drop (recent_output_boundary items KEEP_RECENT_TOOL_RESULTS) items \<and>
    same_budget ctx ctx' \<and> same_summary ctx ctx' \<and> full_estimate ctx' items' \<le> est"
  proof (cases "(if rx_fold ctx = 0 then max (budget ctx items) (full_estimate ctx items) else full_estimate ctx items)
      > scale_double L1_THRESHOLD (max (rx_window ctx) 1)")
    case True
    obtain i2 n d2 where m: "micro_compact (fe_dir env) KEEP_RECENT_TOOL_RESULTS MICRO_KEEP_CHARS items dk = (i2, n, d2)"
      by (cases "micro_compact (fe_dir env) KEEP_RECENT_TOOL_RESULTS MICRO_KEEP_CHARS items dk")
    with True assms have "items' = i2" "est = full_estimate ctx i2"
      "ctx' = ctx\<lparr>rx_l1 := rx_l1 ctx + n, rx_l1_reasoning := rx_l1_reasoning ctx + count_thoughts items i2\<rparr>"
      unfolding first_level_def Let_def by (simp_all split: if_splits)
    with micro_compact_stub [OF m] show ?thesis
      by (simp add: same_budget_def same_summary_def full_estimate_def)
  next
    case False
    with assms have "items' = items" "ctx' = ctx" "full_estimate ctx items \<le> est"
      unfolding first_level_def Let_def by (auto split: if_splits)
    then show ?thesis by (simp add: same_budget_def same_summary_def list_all2_refl_stub)
  qed
  then show "list_all2 stub_of items items'"
    "drop (recent_output_boundary items KEEP_RECENT_TOOL_RESULTS) items' =
     drop (recent_output_boundary items KEEP_RECENT_TOOL_RESULTS) items"
    "same_budget ctx ctx' \<and> same_summary ctx ctx'" "full_estimate ctx' items' \<le> est" by blast+
qed

text \<open>What a fold did: the first items went into the summary the model wrote for them, and the cursor moved behind.\<close>

definition folded :: "filter_env \<Rightarrow> run_ctx \<Rightarrow> run_ctx \<Rightarrow> item list \<Rightarrow> nat \<Rightarrow> bool" where
  "folded env ctx ctx' items k \<longleftrightarrow> (\<exists>ask out. fe_summarize env = Some ask \<and>
     (let fold = join_with [10] (map (item_text (Some SUMMARY_OUTPUT_MAX_CHARS)) (take k items)) in
      ask (rx_summary ctx) fold = Some out \<and> estimate_tokens out < estimate_tokens fold) \<and>
     rx_summary ctx' = u_strip out \<and> u_strip out \<noteq> [] \<and> rx_fold ctx' = rx_fold ctx + k)"

lemma second_level_spec:
  assumes "second_level env ctx pos est items = Some ((est', items', pos'), ctx')" "full_estimate ctx items \<le> est"
  obtains k where "clean_cut items k" "items' = drop k items" "pos' = pos + k" "same_budget ctx ctx'"
    "full_estimate ctx' items' \<le> est'"
    "k = 0 \<and> same_summary ctx ctx' \<or> 0 < k \<and> folded env ctx ctx' items k"
proof (cases "fe_summarize env")
  case None
  with assms(1) have e: "est' = est" "items' = items" "pos' = pos" "ctx' = ctx" by (simp_all add: second_level_def)
  show ?thesis by (rule that [of 0]) (use assms(2) in \<open>simp_all add: e clean_cut_def same_budget_def same_summary_def\<close>)
next
  case (Some ask)
  let ?k = "cut_turns items RECENT_TOOL_TURNS"
  let ?fold = "join_with [10] (map (item_text (Some SUMMARY_OUTPUT_MAX_CHARS)) (take ?k items))"
  let ?go = "est > scale_double THRESHOLD (max (rx_window ctx) 1) \<and> \<not> rx_l2_disabled ctx \<and> ?k > 0"
  show ?thesis
  proof (cases ?go)
    case False
    have "second_level env ctx pos est items = Some ((est, items, pos), ctx)"
      unfolding second_level_def Some option.case by (rule if_not_P [OF False])
    with assms(1) have e: "est' = est" "items' = items" "pos' = pos" "ctx' = ctx" by simp_all
    show ?thesis by (rule that [of 0]) (use assms(2) in \<open>simp_all add: e clean_cut_def same_budget_def same_summary_def\<close>)
  next
    case go: True
    show ?thesis
    proof (cases "ask (rx_summary ctx) ?fold")
      case None
      with Some go assms(1) show ?thesis by (simp add: second_level_def Let_def)
    next
      case out: (Some out)
      show ?thesis
      proof (cases "out \<noteq> [] \<and> u_strip out \<noteq> [] \<and> estimate_tokens out < estimate_tokens ?fold")
        case True
        define c2 where "c2 = ctx\<lparr>rx_summary := u_strip out, rx_fold := rx_fold ctx + ?k, rx_l2 := Suc (rx_l2 ctx),
          rx_l2_fail := 0\<rparr>"
        have e: "est' = full_estimate c2 (drop ?k items)" "items' = drop ?k items" "pos' = pos + ?k" "ctx' = c2"
          using Some go out True assms(1) by (auto simp: second_level_def Let_def c2_def)
        have f: "folded env ctx c2 items ?k" using Some out True by (simp add: folded_def c2_def)
        show ?thesis
          by (rule that [of ?k]) (use go f clean_cut_turns in \<open>simp_all add: e, simp add: same_budget_def c2_def\<close>)
      next
        case False
        then have e: "est' = est" "items' = items" "pos' = pos"
          "ctx' = ctx\<lparr>rx_l2_fail := Suc (rx_l2_fail ctx), rx_l2_disabled := rx_l2_disabled ctx \<or> Suc (rx_l2_fail ctx) \<ge> 2\<rparr>"
          using Some go out assms(1) by (auto simp: second_level_def Let_def split: if_splits)
        show ?thesis
          by (rule that [of 0])
            (use assms(2) in \<open>simp_all add: e clean_cut_def same_budget_def same_summary_def full_estimate_def\<close>)
      qed
    qed
  qed
qed

definition fits_hard :: "run_ctx \<Rightarrow> item list \<Rightarrow> bool" where
  "fits_hard ctx items \<longleftrightarrow> full_estimate ctx items \<le> scale_double HARD_THRESHOLD (max (rx_window ctx) 1)"

definition at_most_two_turns :: "item list \<Rightarrow> bool" where
  "at_most_two_turns items \<longleftrightarrow> length (item_starts items) \<le> 2"

definition user_item :: "item \<Rightarrow> bool" where
  "user_item it \<longleftrightarrow> role_is ''user'' (base_of it)"

lemma last_level_spec:
  assumes "last_level ctx full (est, items, pos) = (sent, ctx')" "full_estimate ctx items \<le> est"
  obtains c head where "clean_cut items c" "sent = head @ drop c items" "length head \<le> 2"
    "\<forall>h\<in>set head. user_item h \<and> (h \<in> set items \<or> full \<noteq> [] \<and> h = hd full)"
    "same_budget ctx ctx'" "same_summary ctx ctx'" "fits_hard ctx' (drop c items) \<or> at_most_two_turns (drop c items)"
proof (cases "est > scale_double HARD_THRESHOLD (max (rx_window ctx) 1)")
  case False
  then have e: "sent = items" "ctx' = ctx" using assms(1) by (simp_all add: last_level_def)
  show ?thesis
    by (rule that [of 0 "[]"])
      (use assms(2) False in \<open>simp_all add: e clean_cut_def same_budget_def same_summary_def fits_hard_def\<close>)
next
  case True
  let ?c = "cut_turns items 2"
  define h1 where "h1 = (if items \<noteq> [] \<and> ?c \<noteq> 0 \<and> user_item (hd items) then [hd items] else [])"
  have t: "truncate_turns items 2 = h1 @ drop ?c items"
    by (auto simp: truncate_turns_def h1_def Let_def user_item_def)
  define h0 where "h0 = (if full \<noteq> [] \<and> user_item (hd full) \<and>
    \<not> (pos = 0 \<and> truncate_turns items 2 \<noteq> [] \<and> hd (truncate_turns items 2) = hd full) then [hd full] else [])"
  have s: "sent = (h0 @ h1) @ drop ?c items" "ctx' = ctx\<lparr>rx_trunc := Suc (rx_trunc ctx)\<rparr>"
    using assms(1) True by (auto simp: last_level_def Let_def h0_def t user_item_def split: if_splits)
  have "at_most_two_turns (drop ?c items)"
    using cut_keep_turns [of 2 "map base_of items"] by (simp add: at_most_two_turns_def item_starts_def cut_turns_def drop_map)
  moreover have "\<forall>h\<in>set (h0 @ h1). user_item h \<and> (h \<in> set items \<or> full \<noteq> [] \<and> h = hd full)"
    by (auto simp: h0_def h1_def)
  moreover have "length (h0 @ h1) \<le> 2" by (simp add: h0_def h1_def)
  moreover have "same_budget ctx ctx'" "same_summary ctx ctx'" by (simp_all add: s(2) same_budget_def same_summary_def)
  ultimately show ?thesis by (intro that [OF clean_cut_turns s(1)] disjI2)
qed

lemma with_summary_same: "with_summary ctx i = (i', ctx') \<Longrightarrow> same_budget ctx ctx' \<and> same_summary ctx ctx'"
  by (auto simp: with_summary_def same_budget_def same_summary_def Let_def split: if_splits)

text \<open>What the filter did, when it did not give up.\<close>

definition sent_as :: "filter_env \<Rightarrow> run_ctx \<Rightarrow> run_ctx \<Rightarrow> item list \<Rightarrow> item list \<Rightarrow> bool" where
  "sent_as env ctx ctx' full sent \<longleftrightarrow> (\<exists>items k c head.
     list_all2 stub_of (drop (fold_start ctx full) full) items \<and>
     (let b = recent_output_boundary (drop (fold_start ctx full) full) KEEP_RECENT_TOOL_RESULTS in
      drop b items = drop b (drop (fold_start ctx full) full)) \<and>
     clean_cut items k \<and> clean_cut items c \<and> k \<le> c \<and> sent = head @ drop c items \<and>
     length head \<le> 2 \<and> (\<forall>h\<in>set head. user_item h \<and> (h \<in> set items \<or> full \<noteq> [] \<and> h = hd full)) \<and>
     (k = 0 \<and> same_summary ctx ctx' \<or> 0 < k \<and> folded env ctx ctx' items k) \<and>
     (fits_hard ctx' (drop c items) \<or> at_most_two_turns (drop c items)))"

lemma filter_sent_as:
  assumes "compaction_filter env (Some ctx) md dk = (md', Some ctx', dk')" "rx_enabled ctx"
  shows "md' = md \<and> same_summary ctx ctx' \<or> sent_as env ctx ctx' (md_input md) (md_input md')"
proof -
  let ?full = "md_input md"
  define ctx1 where "ctx1 = ctx\<lparr>rx_sent_len := length ?full\<rparr>"
  define pos where "pos = fold_start ctx1 ?full"
  have pos: "pos = fold_start ctx ?full" by (simp add: pos_def ctx1_def fold_start_def)
  obtain est items ctx2 dk2 where f: "first_level env ctx1 (drop pos ?full) dk = ((est, items), ctx2, dk2)"
    by (cases "first_level env ctx1 (drop pos ?full) dk") auto
  note f' = first_level_spec [OF f]
  have s2: "same_budget ctx ctx2" "same_summary ctx ctx2"
    using f'(3) by (simp_all add: ctx1_def same_budget_def same_summary_def)
  show ?thesis
  proof (cases "second_level env ctx2 pos est items")
    case None
    with assms f show ?thesis using s2
      by (simp add: compaction_filter_def Let_def ctx1_def [symmetric] pos_def [symmetric])
  next
    case (Some r)
    obtain est' items' pos' ctx3 where r: "r = ((est', items', pos'), ctx3)" by (cases r) auto
    obtain sent ctx4 where l: "last_level ctx3 ?full (est', items', pos') = (sent, ctx4)"
      by (cases "last_level ctx3 ?full (est', items', pos')")
    obtain ins ctx5 where w: "with_summary ctx4 (md_instructions md) = (ins, ctx5)"
      by (cases "with_summary ctx4 (md_instructions md)")
    have res: "md_input md' = sent" "ctx' = ctx5"
      using assms f Some r l w
      by (auto simp: compaction_filter_def finish_filter_def Let_def ctx1_def [symmetric] pos_def [symmetric])
    obtain k where k: "clean_cut items k" "items' = drop k items" "pos' = pos + k" "same_budget ctx2 ctx3"
      "full_estimate ctx3 items' \<le> est'" "k = 0 \<and> same_summary ctx2 ctx3 \<or> 0 < k \<and> folded env ctx2 ctx3 items k"
      by (rule second_level_spec [OF Some [unfolded r] f'(4)])
    obtain c head where c: "clean_cut items' c" "sent = head @ drop c items'" "length head \<le> 2"
      "\<forall>h\<in>set head. user_item h \<and> (h \<in> set items' \<or> ?full \<noteq> [] \<and> h = hd ?full)"
      "same_budget ctx3 ctx4" "same_summary ctx3 ctx4" "fits_hard ctx4 (drop c items') \<or> at_most_two_turns (drop c items')"
      by (rule last_level_spec [OF l k(5)])
    have cc: "clean_cut items (k + c)" using clean_cut_add [OF k(1)] c(1) k(2) by simp
    have d: "drop c items' = drop (k + c) items" by (simp add: k(2) add.commute)
    have same: "same_budget ctx4 ctx'" "same_summary ctx4 ctx'" using with_summary_same [OF w] res by auto
    have "fits_hard ctx' (drop (k + c) items) \<or> at_most_two_turns (drop (k + c) items)"
      using c(7) same by (simp add: d fits_hard_def full_estimate_def same_budget_def same_summary_def)
    moreover have "\<forall>h\<in>set head. user_item h \<and> (h \<in> set items \<or> ?full \<noteq> [] \<and> h = hd ?full)"
      using c(4) k(2) by (auto dest: in_set_dropD)
    moreover have "k = 0 \<and> same_summary ctx ctx' \<or> 0 < k \<and> folded env ctx ctx' items k"
      using k(6) s2 c(6) same by (auto simp: same_summary_def folded_def)
    moreover have "list_all2 stub_of (drop (fold_start ctx ?full) ?full) items" using f'(1) by (simp add: pos)
    moreover have "(let b = recent_output_boundary (drop (fold_start ctx ?full) ?full) KEEP_RECENT_TOOL_RESULTS in
      drop b items = drop b (drop (fold_start ctx ?full) ?full))" using f'(2) by (simp add: pos Let_def)
    ultimately have "sent_as env ctx ctx' ?full sent"
      unfolding sent_as_def using k(1) cc c(2,3) d le_add1 [of k c] by blast
    with res show ?thesis by simp
  qed
qed

section \<open>The properties\<close>



definition demo_turn :: "string \<Rightarrow> item list" where
  "demo_turn cid = [Plain (PDict [(''type'', PStr ''function_call''), (''call_id'', PStr cid), (''name'', PStr ''ls'')]),
     Plain (PDict [(''type'', PStr ''function_call_output''), (''call_id'', PStr cid), (''output'', PStr ''a b c'')])]"

definition demo_md :: model_data where
  "demo_md = \<lparr>md_input = Plain (PDict [(''role'', PStr ''user''), (''content'', PStr ''go'')]) #
     demo_turn ''1'' @ demo_turn ''2'' @ demo_turn ''3'', md_instructions = None\<rparr>"

definition demo_run :: run_ctx where
  "demo_run = \<lparr>rx_window = 1, rx_overhead = 5, rx_last_input = 0, rx_seen = 0, rx_summary = [], rx_fold = 0, rx_l1 = 0,
     rx_l1_reasoning = 0, rx_l2 = 0, rx_l2_fail = 0, rx_l2_disabled = False, rx_trunc = 0, rx_enabled = True,
     rx_plan = [], rx_base = None, rx_hint = False, rx_sent_len = 0\<rparr>"

lemma demo_sent:
  "md_input (fst (compaction_filter \<lparr>fe_dir = [], fe_summarize = None\<rparr> (Some demo_run) demo_md [])) =
     hd (md_input demo_md) # demo_turn ''2'' @ demo_turn ''3''"
  by code_simp

lemma demo_runs:
  obtains md' ctx' dk' where
    "compaction_filter \<lparr>fe_dir = [], fe_summarize = None\<rparr> (Some demo_run) demo_md [] = (md', Some ctx', dk')"
    "md_input md' = hd (md_input demo_md) # demo_turn ''2'' @ demo_turn ''3''" "md' \<noteq> demo_md" "rx_enabled demo_run"
    "fold_start demo_run (md_input demo_md) = 0"
proof -
  let ?r = "compaction_filter \<lparr>fe_dir = [], fe_summarize = None\<rparr> (Some demo_run) demo_md []"
  have "fst (snd ?r) \<noteq> None"
    by (auto simp: compaction_filter_def demo_run_def Let_def finish_filter_def split: prod.splits option.splits)
  then obtain md' ctx' dk' where r: "?r = (md', Some ctx', dk')" by (cases ?r) auto
  moreover have i: "md_input md' = hd (md_input demo_md) # demo_turn ''2'' @ demo_turn ''3''"
    using demo_sent unfolding r by simp
  moreover have "md' \<noteq> demo_md"
  proof
    assume "md' = demo_md"
    with i have "length (md_input demo_md) = length (hd (md_input demo_md) # demo_turn ''2'' @ demo_turn ''3'')" by simp
    then show False by (simp add: demo_md_def demo_turn_def)
  qed
  ultimately show ?thesis using that by (simp add: demo_run_def fold_start_def)
qed



end
