(* ===== verification/Channel_Store.thy ===== *)
theory Channel_Store
  imports Py_Prelude
begin

text \<open>
  \<open>agent/channels/store.py\<close> over its four tables in \<open>agent/db.py\<close> and the sessions it creates: the instances of chat
  adapters, the pairing codes, the bindings of external accounts to users, and the chats. A table is the list of
  its rows in the order of \<open>rowid\<close>. The hash of a code is a parameter; identifiers, the digits of a code and the
  clock are arguments. The statements are about histories: an inductive relation keeps the list of what
  happened, newest first, beside the tables.
\<close>

section \<open>Tables\<close>

record ch_instance =
  i_id :: string
  i_type :: string
  i_scope :: string
  i_name :: string
  i_config :: pyval
  i_enabled :: bool
  i_created_by :: string
  i_created :: int
  i_updated :: int

record binding =
  b_id :: string
  b_inst :: string
  b_ext :: string
  b_username :: "string option"
  b_user :: string
  b_model :: "string option"
  b_dir :: "string option"
  b_revoked :: bool
  b_created :: int

record pair_code =
  pc_id :: string
  pc_hash :: string
  pc_inst :: string
  pc_user :: string
  pc_expires :: int
  pc_used :: "int option"

record chat =
  ct_id :: string
  ct_inst :: string
  ct_chat :: string
  ct_binding :: string
  ct_session :: string
  ct_created :: int
  ct_updated :: int

record ch_session =
  cs_id :: string
  cs_user :: string
  cs_source :: string
  cs_created :: int

record chan_db =
  instances :: "ch_instance list"
  bindings :: "binding list"
  pair_codes :: "pair_code list"
  chats :: "chat list"
  ch_sessions :: "ch_session list"

definition chan_init :: chan_db where
  "chan_init = \<lparr>instances = [], bindings = [], pair_codes = [], chats = [], ch_sessions = []\<rparr>"

text \<open>A primary key that exists already raises \<open>sqlite3.IntegrityError\<close>.\<close>

datatype sql_error = UniqueFailed

text \<open>\<open>UPDATE ... SET f WHERE P\<close>; the row count is positive when some row fits.\<close>

definition set_where :: "('r \<Rightarrow> bool) \<Rightarrow> ('r \<Rightarrow> 'r) \<Rightarrow> 'r list \<Rightarrow> 'r list" where
  "set_where P f rs = map (\<lambda>r. if P r then f r else r) rs"

text \<open>\<open>INSERT ... ON CONFLICT(key) DO UPDATE SET f\<close>.\<close>

definition upsert_row :: "('r \<Rightarrow> bool) \<Rightarrow> ('r \<Rightarrow> 'r) \<Rightarrow> 'r \<Rightarrow> 'r list \<Rightarrow> 'r list" where
  "upsert_row P f new rs = (if list_ex P rs then set_where P f rs else rs @ [new])"

section \<open>Instances\<close>

definition get_instance :: "chan_db \<Rightarrow> string \<Rightarrow> ch_instance option" where
  "get_instance db i = List.find (\<lambda>r. i_id r = i) (instances db)"

definition create_instance :: "string \<Rightarrow> string \<Rightarrow> string option \<Rightarrow> pyval \<Rightarrow> string \<Rightarrow> int \<Rightarrow> chan_db \<Rightarrow>
   (sql_error + ch_instance option) \<times> chan_db" where
  "create_instance iid ty name config creator now db =
     (if list_ex (\<lambda>r. i_id r = iid) (instances db) then (Inl UniqueFailed, db)
      else (let row = \<lparr>i_id = iid, i_type = ty, i_scope = ''system'', i_name = (case name of None \<Rightarrow> [] | Some n \<Rightarrow> n),
                i_config = config, i_enabled = True, i_created_by = creator, i_created = now, i_updated = now\<rparr>;
                db' = db\<lparr>instances := instances db @ [row]\<rparr> in
        (Inr (get_instance db' iid), db')))"

definition list_instances :: "chan_db \<Rightarrow> ch_instance list" where
  "list_instances db = sort_key i_created (instances db)"

definition set_instance_enabled :: "string \<Rightarrow> bool \<Rightarrow> int \<Rightarrow> chan_db \<Rightarrow> bool \<times> chan_db" where
  "set_instance_enabled i on now db =
     (list_ex (\<lambda>r. i_id r = i) (instances db),
      db\<lparr>instances := set_where (\<lambda>r. i_id r = i) (\<lambda>r. r\<lparr>i_enabled := on, i_updated := now\<rparr>) (instances db)\<rparr>)"

definition delete_instance :: "string \<Rightarrow> chan_db \<Rightarrow> bool \<times> chan_db" where
  "delete_instance i db =
     (list_ex (\<lambda>r. i_id r = i) (instances db),
      db\<lparr>instances := filter (\<lambda>r. i_id r \<noteq> i) (instances db),
         bindings := filter (\<lambda>r. b_inst r \<noteq> i) (bindings db),
         pair_codes := filter (\<lambda>r. pc_inst r \<noteq> i) (pair_codes db),
         chats := filter (\<lambda>r. ct_inst r \<noteq> i) (chats db)\<rparr>)"

section \<open>Bindings\<close>

definition get_binding :: "chan_db \<Rightarrow> string \<Rightarrow> string \<Rightarrow> binding option" where
  "get_binding db i e = List.find (\<lambda>b. b_inst b = i \<and> b_ext b = e \<and> \<not> b_revoked b) (bindings db)"

definition list_bindings_for_user :: "chan_db \<Rightarrow> string \<Rightarrow> binding list" where
  "list_bindings_for_user db u =
     sort_key (\<lambda>b. - b_created b) (filter (\<lambda>b. b_user b = u \<and> \<not> b_revoked b) (bindings db))"

text \<open>The three updates of a binding of a user name its identifier and its owner.\<close>

definition update_binding :: "(binding \<Rightarrow> binding) \<Rightarrow> string \<Rightarrow> string \<Rightarrow> chan_db \<Rightarrow> bool \<times> chan_db" where
  "update_binding f u bid db = (let P = (\<lambda>b. b_id b = bid \<and> b_user b = u \<and> \<not> b_revoked b) in
     (list_ex P (bindings db), db\<lparr>bindings := set_where P f (bindings db)\<rparr>))"

definition revoke_binding :: "string \<Rightarrow> string \<Rightarrow> chan_db \<Rightarrow> bool \<times> chan_db" where
  "revoke_binding = update_binding (\<lambda>b. b\<lparr>b_revoked := True\<rparr>)"

definition set_binding_model :: "string \<Rightarrow> string \<Rightarrow> string \<Rightarrow> chan_db \<Rightarrow> bool \<times> chan_db" where
  "set_binding_model u bid model = update_binding (\<lambda>b. b\<lparr>b_model := Some model\<rparr>) u bid"

definition set_binding_download_dir :: "string \<Rightarrow> string \<Rightarrow> string \<Rightarrow> chan_db \<Rightarrow> bool \<times> chan_db" where
  "set_binding_download_dir u bid dir = update_binding (\<lambda>b. b\<lparr>b_dir := Some dir\<rparr>) u bid"

section \<open>Pairing\<close>

definition PAIRING_TTL_MS :: int where
  "PAIRING_TTL_MS = 10 * 60 * 1000"

text \<open>Eight digits, padded with zeros; \<open>n\<close> is \<open>secrets.randbelow(10**8)\<close>.\<close>

definition code_of :: "nat \<Rightarrow> string" where
  "code_of n = (let s = str_of_nat n in replicate (8 - length s) (CHR ''0'') @ s)"

definition create_pairing_code :: "(string \<Rightarrow> string) \<Rightarrow> string \<Rightarrow> nat \<Rightarrow> string \<Rightarrow> string \<Rightarrow> int \<Rightarrow> chan_db \<Rightarrow>
   (sql_error + string \<times> int) \<times> chan_db" where
  "create_pairing_code hash cid n i u now db = (let code = code_of n; expires = now + PAIRING_TTL_MS in
     if list_ex (\<lambda>c. pc_id c = cid) (pair_codes db) then (Inl UniqueFailed, db)
     else (Inr (code, expires), db\<lparr>pair_codes := pair_codes db @
       [\<lparr>pc_id = cid, pc_hash = hash code, pc_inst = i, pc_user = u, pc_expires = expires, pc_used = None\<rparr>]\<rparr>))"

definition code_open :: "string \<Rightarrow> string \<Rightarrow> int \<Rightarrow> pair_code \<Rightarrow> bool" where
  "code_open k i now c \<longleftrightarrow> pc_hash c = k \<and> pc_inst c = i \<and> pc_used c = None \<and> pc_expires c > now"

definition bind_account :: "string \<Rightarrow> string \<Rightarrow> string \<Rightarrow> string option \<Rightarrow> string \<Rightarrow> int \<Rightarrow> binding list \<Rightarrow> binding list" where
  "bind_account bid i e uname u now bs =
     upsert_row (\<lambda>b. b_inst b = i \<and> b_ext b = e) (\<lambda>b. b\<lparr>b_user := u, b_username := uname, b_revoked := False\<rparr>)
       \<lparr>b_id = bid, b_inst = i, b_ext = e, b_username = uname, b_user = u, b_model = None, b_dir = None,
        b_revoked = False, b_created = now\<rparr> bs"

definition redeem_pairing_code :: "(string \<Rightarrow> string) \<Rightarrow> string \<Rightarrow> string \<Rightarrow> string \<Rightarrow> string \<Rightarrow> string option \<Rightarrow> int \<Rightarrow> chan_db \<Rightarrow>
   (sql_error + binding option) \<times> chan_db" where
  "redeem_pairing_code hash bid i code e uname now db =
     (case List.find (code_open (hash code) i now) (pair_codes db) of
        None \<Rightarrow> (Inr None, db)
      | Some c \<Rightarrow>
          (let db1 = db\<lparr>pair_codes := set_where (\<lambda>r. pc_id r = pc_id c) (\<lambda>r. r\<lparr>pc_used := Some now\<rparr>) (pair_codes db)\<rparr> in
           if list_ex (\<lambda>b. b_id b = bid) (bindings db) then (Inl UniqueFailed, db1)
           else (let db2 = db1\<lparr>bindings := bind_account bid i e uname (pc_user c) now (bindings db1)\<rparr> in
             (Inr (get_binding db2 i e), db2))))"

section \<open>Chats and sessions\<close>

definition get_chat :: "chan_db \<Rightarrow> string \<Rightarrow> string \<Rightarrow> chat option" where
  "get_chat db i ch = List.find (\<lambda>c. ct_inst c = i \<and> ct_chat c = ch) (chats db)"

definition upsert_chat :: "string \<Rightarrow> string \<Rightarrow> string \<Rightarrow> string \<Rightarrow> string \<Rightarrow> int \<Rightarrow> chan_db \<Rightarrow> (sql_error + unit) \<times> chan_db" where
  "upsert_chat cid i ch bid sid now db =
     (if list_ex (\<lambda>c. ct_id c = cid) (chats db) then (Inl UniqueFailed, db)
      else (Inr (), db\<lparr>chats := upsert_row (\<lambda>c. ct_inst c = i \<and> ct_chat c = ch)
          (\<lambda>c. c\<lparr>ct_binding := bid, ct_session := sid, ct_updated := now\<rparr>)
          \<lparr>ct_id = cid, ct_inst = i, ct_chat = ch, ct_binding = bid, ct_session = sid, ct_created = now, ct_updated = now\<rparr>
          (chats db)\<rparr>))"

text \<open>An entry of the target picker: address, channel type, instance name, and the label when there is one.\<close>

type_synonym target = "string \<times> string \<times> string \<times> string option"

definition target_of :: "chat \<Rightarrow> binding \<Rightarrow> ch_instance \<Rightarrow> target" where
  "target_of c b i = (ct_inst c @ '':'' @ ct_chat c, i_type i, i_name i,
     (case b_username b of None \<Rightarrow> None | Some n \<Rightarrow> if n = [] then None else Some n))"

definition list_chats_for_user :: "chan_db \<Rightarrow> string \<Rightarrow> target list" where
  "list_chats_for_user db u =
     map (\<lambda>(c, b, i). target_of c b i) (sort_key (\<lambda>(c, b, i). - ct_updated c) (rev
       [(c, b, i). c \<leftarrow> chats db, b \<leftarrow> bindings db, i \<leftarrow> instances db,
         b_id b = ct_binding c \<and> i_id i = ct_inst c \<and> b_user b = u \<and> \<not> b_revoked b \<and> i_enabled i]))"

definition create_channel_session :: "string \<Rightarrow> string \<Rightarrow> string \<Rightarrow> int \<Rightarrow> chan_db \<Rightarrow> (sql_error + string) \<times> chan_db" where
  "create_channel_session sid u source now db =
     (if list_ex (\<lambda>s. cs_id s = sid) (ch_sessions db) then (Inl UniqueFailed, db)
      else (Inr sid, db\<lparr>ch_sessions := ch_sessions db @ [\<lparr>cs_id = sid, cs_user = u, cs_source = source, cs_created = now\<rparr>]\<rparr>))"

section \<open>Histories\<close>

datatype chan_event =
    Issued string string string int
  | Redeemed string string string string int
  | Revoked string string
  | Removed string

text \<open>What a call of \<open>redeem_pairing_code\<close> or \<open>revoke_binding\<close> did, read off the store before it.\<close>

definition redeem_event :: "(string \<Rightarrow> string) \<Rightarrow> string \<Rightarrow> string \<Rightarrow> string \<Rightarrow> string \<Rightarrow> int \<Rightarrow> chan_db \<Rightarrow> chan_event list" where
  "redeem_event hash bid i code e now db = (case List.find (code_open (hash code) i now) (pair_codes db) of
      None \<Rightarrow> []
    | Some c \<Rightarrow> if list_ex (\<lambda>b. b_id b = bid) (bindings db) then [] else [Redeemed i (hash code) (pc_user c) e now])"

definition revoke_event :: "string \<Rightarrow> string \<Rightarrow> chan_db \<Rightarrow> chan_event list" where
  "revoke_event u bid db =
     map (\<lambda>b. Revoked (b_inst b) (b_ext b)) (filter (\<lambda>b. b_id b = bid \<and> b_user b = u \<and> \<not> b_revoked b) (bindings db))"

inductive chan_run :: "(string \<Rightarrow> string) \<Rightarrow> chan_event list \<Rightarrow> chan_db \<Rightarrow> bool" for hash where
  start: "chan_run hash [] chan_init"
| new_instance: "chan_run hash tr db \<Longrightarrow> chan_run hash tr (snd (create_instance iid ty name config creator now db))"
| toggle: "chan_run hash tr db \<Longrightarrow> chan_run hash tr (snd (set_instance_enabled i on now db))"
| remove: "chan_run hash tr db \<Longrightarrow> chan_run hash (Removed i # tr) (snd (delete_instance i db))"
| issue: "chan_run hash tr db \<Longrightarrow> create_pairing_code hash cid n i u now db = (Inr (code, expires), db') \<Longrightarrow>
    chan_run hash (Issued i (hash code) u now # tr) db'"
| redeem: "chan_run hash tr db \<Longrightarrow>
    chan_run hash (redeem_event hash bid i code e now db @ tr) (snd (redeem_pairing_code hash bid i code e uname now db))"
| revoke: "chan_run hash tr db \<Longrightarrow> chan_run hash (revoke_event u bid db @ tr) (snd (revoke_binding u bid db))"
| model: "chan_run hash tr db \<Longrightarrow> chan_run hash tr (snd (set_binding_model u bid mdl db))"
| dir: "chan_run hash tr db \<Longrightarrow> chan_run hash tr (snd (set_binding_download_dir u bid d db))"
| chat: "chan_run hash tr db \<Longrightarrow> chan_run hash tr (snd (upsert_chat cid i ch bid sid now db))"
| session: "chan_run hash tr db \<Longrightarrow> chan_run hash tr (snd (create_channel_session sid u source now db))"

text \<open>Counting codes, and who an external account belongs to by the history alone.\<close>

definition issued :: "chan_event list \<Rightarrow> string \<Rightarrow> string \<Rightarrow> string \<Rightarrow> nat" where
  "issued tr i k u = length (filter (\<lambda>ev. case ev of Issued i' k' u' _ \<Rightarrow> i' = i \<and> k' = k \<and> u' = u | _ \<Rightarrow> False) tr)"

definition redeemed :: "chan_event list \<Rightarrow> string \<Rightarrow> string \<Rightarrow> string \<Rightarrow> nat" where
  "redeemed tr i k u = length (filter (\<lambda>ev. case ev of Redeemed i' k' u' _ _ \<Rightarrow> i' = i \<and> k' = k \<and> u' = u | _ \<Rightarrow> False) tr)"

fun owner_of :: "chan_event list \<Rightarrow> string \<Rightarrow> string \<Rightarrow> string option" where
  "owner_of [] i e = None"
| "owner_of (Redeemed i' k u e' now # tr) i e = (if i' = i \<and> e' = e then Some u else owner_of tr i e)"
| "owner_of (Revoked i' e' # tr) i e = (if i' = i \<and> e' = e then None else owner_of tr i e)"
| "owner_of (Removed i' # tr) i e = (if i' = i then None else owner_of tr i e)"
| "owner_of (Issued i' k u now # tr) i e = owner_of tr i e"

definition paired :: "chan_db \<Rightarrow> string \<Rightarrow> string \<Rightarrow> string option" where
  "paired db i e = map_option b_user (get_binding db i e)"

definition open_codes :: "chan_db \<Rightarrow> string \<Rightarrow> string \<Rightarrow> string \<Rightarrow> nat" where
  "open_codes db i k u = length (filter (\<lambda>c. pc_inst c = i \<and> pc_hash c = k \<and> pc_user c = u \<and> pc_used c = None) (pair_codes db))"

definition chan_inv :: "chan_event list \<Rightarrow> chan_db \<Rightarrow> bool" where
  "chan_inv tr db \<longleftrightarrow>
     distinct (map i_id (instances db)) \<and> distinct (map pc_id (pair_codes db)) \<and> distinct (map b_id (bindings db)) \<and>
     distinct (map (\<lambda>b. (b_inst b, b_ext b)) (bindings db)) \<and> distinct (map (\<lambda>c. (ct_inst c, ct_chat c)) (chats db)) \<and>
     (\<forall>c\<in>set (pair_codes db). \<exists>t. Issued (pc_inst c) (pc_hash c) (pc_user c) t \<in> set tr \<and> pc_expires c = t + PAIRING_TTL_MS)"

section \<open>Lemmas on tables\<close>

lemma set_set_where: "set (set_where P f rs) = (\<lambda>r. if P r then f r else r) ` set rs"
  by (simp add: set_where_def)

lemma map_set_where: "(\<And>r. P r \<Longrightarrow> g (f r) = g r) \<Longrightarrow> map g (set_where P f rs) = map g rs"
  by (simp add: set_where_def)

lemma distinct_upsert:
  assumes "distinct (map g rs)" "\<And>r. P r \<Longrightarrow> g (f r) = g r" "\<And>r. g r = g new \<Longrightarrow> P r"
  shows "distinct (map g (upsert_row P f new rs))"
  using assms by (auto simp: upsert_row_def map_set_where list_ex_iff)

lemma set_upsert:
  "set (upsert_row P f new rs) = (\<lambda>r. if P r then f r else r) ` set rs \<union> (if list_ex P rs then {} else {new})"
  by (auto simp: upsert_row_def set_set_where list_ex_iff)

lemma bex_set_where: "(\<exists>r\<in>set (set_where P f rs). R r) \<longleftrightarrow> (\<exists>r\<in>set rs. if P r then R (f r) else R r)"
  by (auto simp: set_where_def)

lemma bex_upsert:
  "(\<exists>r\<in>set (upsert_row P f new rs). R r) \<longleftrightarrow> (\<exists>r\<in>set rs. if P r then R (f r) else R r) \<or> (\<not> list_ex P rs \<and> R new)"
  by (auto simp: upsert_row_def bex_set_where list_ex_iff)

lemma find_unique:
  assumes "distinct (map g rs)" "\<And>r. P r \<Longrightarrow> g r = k"
  shows "List.find P rs = Some x \<longleftrightarrow> x \<in> set rs \<and> P x"
proof
  assume "x \<in> set rs \<and> P x"
  then obtain y where y: "List.find P rs = Some y"
    by (metis find_None_all not_None_eq)
  have "g y = g x" using \<open>x \<in> set rs \<and> P x\<close> find_Some_set [OF y] assms(2) by metis
  then show "List.find P rs = Some x"
    using y find_Some_set [OF y] \<open>x \<in> set rs \<and> P x\<close> assms(1) by (auto simp: distinct_map inj_on_def)
qed (simp add: find_Some_set)

lemma find_filter_keep: "(\<And>r. P r \<Longrightarrow> Q r) \<Longrightarrow> List.find P (filter Q rs) = List.find P rs"
  by (induction rs) auto

lemma filter_set_where_one:
  assumes "distinct (map g rs)" "c \<in> set rs" "\<not> Q (f c)"
  shows "length (filter Q (set_where (\<lambda>r. g r = g c) f rs)) + (if Q c then 1 else 0) = length (filter Q rs)"
  using assms
proof (induction rs)
  case (Cons r rs)
  show ?case
  proof (cases "r = c")
    case True
    with Cons.prems have "set_where (\<lambda>r. g r = g c) f rs = rs"
      by (auto simp: set_where_def intro!: map_idI) (metis image_eqI)
    with True Cons.prems show ?thesis by (simp add: set_where_def)
  next
    case False
    with Cons.prems have "g r \<noteq> g c" by auto
    with False Cons show ?thesis by (auto simp: set_where_def)
  qed
qed simp

lemma length_filter_sub: "(\<And>r. P r \<Longrightarrow> Q r) \<Longrightarrow> length (filter P rs) \<le> length (filter Q rs)"
  by (induction rs) auto

section \<open>The invariant\<close>

lemma distinct_filter_keys: "distinct (map g rs) \<Longrightarrow> distinct (map g (filter P rs))"
  by (rule distinct_map_filter)

lemma redeem_cases:
  obtains (none) "List.find (code_open (hash code) i now) (pair_codes db) = None"
      "redeem_pairing_code hash bid i code e uname now db = (Inr None, db)" "redeem_event hash bid i code e now db = []"
  | (clash) c where "List.find (code_open (hash code) i now) (pair_codes db) = Some c" "list_ex (\<lambda>b. b_id b = bid) (bindings db)"
      "redeem_pairing_code hash bid i code e uname now db =
         (Inl UniqueFailed, db\<lparr>pair_codes := set_where (\<lambda>r. pc_id r = pc_id c) (\<lambda>r. r\<lparr>pc_used := Some now\<rparr>) (pair_codes db)\<rparr>)"
      "redeem_event hash bid i code e now db = []"
  | (bound) c db' where "c \<in> set (pair_codes db)" "code_open (hash code) i now c" "\<not> list_ex (\<lambda>b. b_id b = bid) (bindings db)"
      "db' = db\<lparr>pair_codes := set_where (\<lambda>r. pc_id r = pc_id c) (\<lambda>r. r\<lparr>pc_used := Some now\<rparr>) (pair_codes db),
                bindings := bind_account bid i e uname (pc_user c) now (bindings db)\<rparr>"
      "redeem_pairing_code hash bid i code e uname now db = (Inr (get_binding db' i e), db')"
      "redeem_event hash bid i code e now db = [Redeemed i (hash code) (pc_user c) e now]"
proof (cases "List.find (code_open (hash code) i now) (pair_codes db)")
  case None
  then show ?thesis by (intro that(1)) (simp_all add: redeem_pairing_code_def redeem_event_def)
next
  case (Some c)
  show ?thesis
  proof (cases "list_ex (\<lambda>b. b_id b = bid) (bindings db)")
    case True
    with Some show ?thesis by (intro that(2)) (simp_all add: redeem_pairing_code_def redeem_event_def)
  next
    case False
    with Some find_Some_set [OF Some] show ?thesis
      by (intro that(3)) (simp_all add: redeem_pairing_code_def redeem_event_def Let_def)
  qed
qed

lemma chan_inv_mono: "chan_inv tr db \<Longrightarrow> chan_inv (evs @ tr) db"
  unfolding chan_inv_def by (metis Un_iff set_append)

lemma chan_inv_used:
  assumes "chan_inv tr db"
  shows "chan_inv tr (db\<lparr>pair_codes := set_where P (\<lambda>r. r\<lparr>pc_used := v\<rparr>) (pair_codes db)\<rparr>)"
  using assms unfolding chan_inv_def by (auto simp: map_set_where set_set_where)

lemma chan_inv_bind:
  assumes "chan_inv tr db" "\<not> list_ex (\<lambda>b. b_id b = bid) (bindings db)"
  shows "chan_inv tr (db\<lparr>bindings := bind_account bid i e uname u now (bindings db)\<rparr>)"
proof -
  have "distinct (map b_id (bind_account bid i e uname u now (bindings db)))"
    using assms unfolding chan_inv_def bind_account_def upsert_row_def
    by (auto simp: map_set_where list_ex_iff)
  moreover have "distinct (map (\<lambda>b. (b_inst b, b_ext b)) (bind_account bid i e uname u now (bindings db)))"
    using assms(1) unfolding chan_inv_def bind_account_def by (intro distinct_upsert) auto
  ultimately show ?thesis using assms(1) by (simp add: chan_inv_def)
qed

lemma chan_inv_update:
  assumes "chan_inv tr db" "\<And>b. b_id (f b) = b_id b" "\<And>b. b_inst (f b) = b_inst b" "\<And>b. b_ext (f b) = b_ext b"
  shows "chan_inv tr (snd (update_binding f u bid db))"
  using assms by (simp add: chan_inv_def update_binding_def map_set_where Let_def)

lemma chan_inv_run: "chan_run hash tr db \<Longrightarrow> chan_inv tr db"
proof (induction rule: chan_run.induct)
  case start
  show ?case by (simp add: chan_inv_def chan_init_def)
next
  case (new_instance tr db iid ty name config creator now)
  then show ?case by (auto simp: chan_inv_def create_instance_def Let_def list_ex_iff)
next
  case (toggle tr db i on now)
  then show ?case by (simp add: chan_inv_def set_instance_enabled_def map_set_where)
next
  case (remove tr db i)
  then show ?case
    unfolding chan_inv_def delete_instance_def by (auto simp: distinct_filter_keys)
next
  case (issue tr db cid n i u now code expires db')
  then show ?case
    by (auto simp: chan_inv_def create_pairing_code_def Let_def list_ex_iff split: if_splits)
next
  case (redeem tr db bid i code e now uname)
  show ?case
  proof (cases rule: redeem_cases [of hash code i now db bid e uname])
    case none
    with redeem show ?thesis by simp
  next
    case (clash c)
    with redeem show ?thesis by (simp add: chan_inv_used)
  next
    case (bound c db')
    have "chan_inv tr db'"
      using chan_inv_bind [OF chan_inv_used [OF redeem.IH, of "\<lambda>r. pc_id r = pc_id c" "Some now"], of bid i e uname "pc_user c" now] bound(3)
      by (simp add: bound(4))
    from chan_inv_mono [OF this, of "[Redeemed i (hash code) (pc_user c) e now]"] bound show ?thesis by simp
  qed
next
  case (revoke tr db u bid)
  show ?case unfolding revoke_binding_def by (rule chan_inv_mono, rule chan_inv_update [OF revoke.IH]) simp_all
next
  case (model tr db u bid mdl)
  show ?case unfolding set_binding_model_def by (rule chan_inv_update [OF model.IH]) simp_all
next
  case (dir tr db u bid d)
  show ?case unfolding set_binding_download_dir_def by (rule chan_inv_update [OF dir.IH]) simp_all
next
  case (chat tr db cid i ch bid sid now)
  then show ?case
    by (auto simp: chan_inv_def upsert_chat_def intro!: distinct_upsert)
next
  case (session tr db sid u source now)
  then show ?case by (simp add: chan_inv_def create_channel_session_def)
qed

section \<open>Codes are used once\<close>

fun timely :: "chan_event list \<Rightarrow> bool" where
  "timely [] = True"
| "timely (Redeemed i k u e now # tr) = ((\<exists>t. Issued i k u t \<in> set tr \<and> now < t + PAIRING_TTL_MS) \<and> timely tr)"
| "timely (ev # tr) = timely tr"

lemma timely_split: "timely (newer @ Redeemed i k u e now # older) \<Longrightarrow> \<exists>t. Issued i k u t \<in> set older \<and> now < t + PAIRING_TTL_MS"
  by (induction newer rule: timely.induct) auto

lemma count_simps:
  "issued (Issued i' k' u' t # tr) i k u = (if i' = i \<and> k' = k \<and> u' = u then Suc (issued tr i k u) else issued tr i k u)"
  "issued (Redeemed i' k' u' e t # tr) i k u = issued tr i k u"
  "issued (Revoked i' e # tr) i k u = issued tr i k u"
  "issued (Removed i' # tr) i k u = issued tr i k u"
  "redeemed (Issued i' k' u' t # tr) i k u = redeemed tr i k u"
  "redeemed (Redeemed i' k' u' e t # tr) i k u = (if i' = i \<and> k' = k \<and> u' = u then Suc (redeemed tr i k u) else redeemed tr i k u)"
  "redeemed (Revoked i' e # tr) i k u = redeemed tr i k u"
  "redeemed (Removed i' # tr) i k u = redeemed tr i k u"
  by (simp_all add: issued_def redeemed_def)

lemma revoked_counts:
  "issued (map (\<lambda>b. Revoked (b_inst b) (b_ext b)) bs @ tr) i k v = issued tr i k v"
  "redeemed (map (\<lambda>b. Revoked (b_inst b) (b_ext b)) bs @ tr) i k v = redeemed tr i k v"
  "timely (map (\<lambda>b. Revoked (b_inst b) (b_ext b)) bs @ tr) = timely tr"
  by (induction bs) (simp_all add: count_simps)

lemma revoke_event_counts:
  "issued (revoke_event u bid db @ tr) i k v = issued tr i k v" "redeemed (revoke_event u bid db @ tr) i k v = redeemed tr i k v"
  "timely (revoke_event u bid db @ tr) = timely tr"
  by (simp_all add: revoke_event_def revoked_counts)

lemma open_codes_used:
  assumes "chan_inv tr db" "c \<in> set (pair_codes db)" "pc_used c = None"
  shows "open_codes (db\<lparr>pair_codes := set_where (\<lambda>r. pc_id r = pc_id c) (\<lambda>r. r\<lparr>pc_used := Some now\<rparr>) (pair_codes db)\<rparr>) i k u
    + (if pc_inst c = i \<and> pc_hash c = k \<and> pc_user c = u then 1 else 0) = open_codes db i k u"
  using filter_set_where_one [where g = pc_id and rs = "pair_codes db" and c = c and f = "\<lambda>r. r\<lparr>pc_used := Some now\<rparr>" and
      Q = "\<lambda>c. pc_inst c = i \<and> pc_hash c = k \<and> pc_user c = u \<and> pc_used c = None"] assms
  unfolding open_codes_def chan_inv_def by simp

lemma codes_counted: "chan_run hash tr db \<Longrightarrow> redeemed tr i k u + open_codes db i k u \<le> issued tr i k u"
proof (induction rule: chan_run.induct)
  case start
  show ?case by (simp add: redeemed_def open_codes_def chan_init_def)
next
  case (new_instance tr db iid ty name config creator now)
  then show ?case by (simp add: create_instance_def open_codes_def Let_def)
next
  case (toggle tr db i on now)
  then show ?case by (simp add: set_instance_enabled_def open_codes_def)
next
  case (remove tr db j)
  have "open_codes (snd (delete_instance j db)) i k u \<le> open_codes db i k u"
    unfolding open_codes_def delete_instance_def by (simp, rule length_filter_sub, simp)
  with remove.IH show ?case by (simp add: count_simps)
next
  case (issue tr db cid n j v now code expires db')
  then show ?case
    by (auto simp: create_pairing_code_def open_codes_def Let_def count_simps split: if_splits)
next
  case (redeem tr db bid j code e now uname)
  show ?case
  proof (cases rule: redeem_cases [of hash code j now db bid e uname])
    case none
    with redeem show ?thesis by simp
  next
    case (clash c)
    have "c \<in> set (pair_codes db)" "pc_used c = None"
      using find_Some_set [OF clash(1)] by (simp_all add: code_open_def)
    from open_codes_used [OF chan_inv_run [OF redeem.hyps] this, of now i k u] clash redeem.IH show ?thesis by simp
  next
    case (bound c db')
    have u: "pc_used c = None" and k: "pc_hash c = hash code" "pc_inst c = j" using bound(2) by (simp_all add: code_open_def)
    have "open_codes db' i k u =
      open_codes (db\<lparr>pair_codes := set_where (\<lambda>r. pc_id r = pc_id c) (\<lambda>r. r\<lparr>pc_used := Some now\<rparr>) (pair_codes db)\<rparr>) i k u"
      by (simp add: bound(4) open_codes_def)
    with open_codes_used [OF chan_inv_run [OF redeem.hyps] bound(1) u, of now i k u] redeem.IH bound k show ?thesis
      by (auto simp: count_simps split: if_splits)
  qed
next
  case (revoke tr db v bid)
  then show ?case by (simp add: revoke_event_counts revoke_binding_def update_binding_def open_codes_def Let_def)
next
  case (model tr db v bid mdl)
  then show ?case by (simp add: set_binding_model_def update_binding_def open_codes_def Let_def)
next
  case (dir tr db v bid d)
  then show ?case by (simp add: set_binding_download_dir_def update_binding_def open_codes_def Let_def)
next
  case (chat tr db cid j ch bid sid now)
  then show ?case by (simp add: upsert_chat_def open_codes_def)
next
  case (session tr db sid v source now)
  then show ?case by (simp add: create_channel_session_def open_codes_def)
qed

lemma run_timely: "chan_run hash tr db \<Longrightarrow> timely tr"
proof (induction rule: chan_run.induct)
  case (redeem tr db bid i code e now uname)
  show ?case
  proof (cases rule: redeem_cases [of hash code i now db bid e uname])
    case (bound c db')
    obtain t where "Issued (pc_inst c) (pc_hash c) (pc_user c) t \<in> set tr" "pc_expires c = t + PAIRING_TTL_MS"
      using chan_inv_run [OF redeem.hyps] bound(1) unfolding chan_inv_def by metis
    with bound(2) redeem.IH show ?thesis by (auto simp: bound(6) code_open_def)
  qed (use redeem in simp_all)
qed (simp_all add: revoke_event_counts)

section \<open>Who an account belongs to\<close>

lemma get_binding_iff:
  assumes "chan_inv tr db"
  shows "get_binding db i e = Some b \<longleftrightarrow> b \<in> set (bindings db) \<and> b_inst b = i \<and> b_ext b = e \<and> \<not> b_revoked b"
  unfolding get_binding_def
  by (rule find_unique [where g = "\<lambda>b. (b_inst b, b_ext b)" and k = "(i, e)"]) (use assms in \<open>auto simp: chan_inv_def\<close>)

lemma paired_iff:
  assumes "chan_inv tr db"
  shows "paired db i e = Some u \<longleftrightarrow>
    (\<exists>b\<in>set (bindings db). b_inst b = i \<and> b_ext b = e \<and> \<not> b_revoked b \<and> b_user b = u)"
  unfolding paired_def using get_binding_iff [OF assms, of i e] by auto

lemma paired_bind:
  assumes "chan_inv tr db" "\<not> list_ex (\<lambda>b. b_id b = bid) (bindings db)"
  shows "paired (db\<lparr>bindings := bind_account bid i e uname u now (bindings db)\<rparr>) i' e' =
    (if i = i' \<and> e = e' then Some u else paired db i' e')"
proof -
  have "paired (db\<lparr>bindings := bind_account bid i e uname u now (bindings db)\<rparr>) i' e' = Some v \<longleftrightarrow>
      (if i = i' \<and> e = e' then Some u else paired db i' e') = Some v" for v
  proof (cases "i = i' \<and> e = e'")
    case True
    then show ?thesis
      unfolding paired_iff [OF chan_inv_bind [OF assms]] by (auto simp: bind_account_def bex_upsert list_ex_iff)
  next
    case False
    then have "(\<exists>b\<in>set (bindings db). if b_inst b = i \<and> b_ext b = e then False else b_inst b = i' \<and> b_ext b = e' \<and> \<not> b_revoked b \<and> b_user b = v) \<longleftrightarrow>
        (\<exists>b\<in>set (bindings db). b_inst b = i' \<and> b_ext b = e' \<and> \<not> b_revoked b \<and> b_user b = v)"
      by (intro bex_cong refl) auto
    with False show ?thesis
      unfolding paired_iff [OF chan_inv_bind [OF assms]] by (auto simp: bind_account_def bex_upsert paired_iff [OF assms(1)])
  qed
  then show ?thesis by (metis not_None_eq)
qed

lemma paired_keep:
  assumes "chan_inv tr db" "\<And>b. b_id (f b) = b_id b" "\<And>b. b_inst (f b) = b_inst b" "\<And>b. b_ext (f b) = b_ext b"
    "\<And>b. b_user (f b) = b_user b" "\<And>b. b_revoked (f b) = b_revoked b"
  shows "paired (snd (update_binding f u bid db)) i e = paired db i e"
proof -
  have "paired (snd (update_binding f u bid db)) i e = Some v \<longleftrightarrow> paired db i e = Some v" for v
    unfolding paired_iff [OF assms(1)] paired_iff [OF chan_inv_update [where u = u and bid = bid, OF assms(1-4)]]
    by (simp add: update_binding_def Let_def bex_set_where assms) (intro bex_cong refl, auto)
  then show ?thesis by (metis not_None_eq)
qed

lemma owner_of_revoked:
  "owner_of (map (\<lambda>b. Revoked (b_inst b) (b_ext b)) bs @ tr) i e =
     (if \<exists>b\<in>set bs. b_inst b = i \<and> b_ext b = e then None else owner_of tr i e)"
  by (induction bs) auto

lemma paired_revoke:
  assumes "chan_inv tr db"
  shows "paired (snd (revoke_binding u bid db)) i e =
    (if \<exists>b\<in>set (bindings db). b_id b = bid \<and> b_user b = u \<and> \<not> b_revoked b \<and> b_inst b = i \<and> b_ext b = e then None else paired db i e)"
    (is "?l = (if ?c then None else _)")
proof -
  have inv: "chan_inv tr (snd (revoke_binding u bid db))"
    unfolding revoke_binding_def by (rule chan_inv_update [OF assms]) simp_all
  have key: "b = b'" if "b \<in> set (bindings db)" "b' \<in> set (bindings db)" "b_inst b = b_inst b'" "b_ext b = b_ext b'" for b b'
    using assms that unfolding chan_inv_def by (auto simp: distinct_map inj_on_def)
  have "?l = Some v \<longleftrightarrow> (if ?c then None else paired db i e) = Some v" for v
    unfolding paired_iff [OF inv]
    by (auto simp: revoke_binding_def update_binding_def Let_def bex_set_where paired_iff [OF assms] dest: key)
  then show ?thesis by (metis not_None_eq)
qed

lemma paired_cong: "bindings db' = bindings db \<Longrightarrow> paired db' i e = paired db i e"
  by (simp add: paired_def get_binding_def)

lemma paired_delete: "paired (snd (delete_instance j db)) i e = (if j = i then None else paired db i e)"
proof (cases "j = i")
  case True
  then show ?thesis by (simp add: paired_def get_binding_def delete_instance_def find_None_all)
next
  case False
  then have "List.find (\<lambda>b. b_inst b = i \<and> b_ext b = e \<and> \<not> b_revoked b) (filter (\<lambda>r. b_inst r \<noteq> j) (bindings db)) =
      List.find (\<lambda>b. b_inst b = i \<and> b_ext b = e \<and> \<not> b_revoked b) (bindings db)"
    by (intro find_filter_keep) auto
  with False show ?thesis by (simp add: paired_def get_binding_def delete_instance_def)
qed

lemma run_owner: "chan_run hash tr db \<Longrightarrow> paired db i e = owner_of tr i e"
proof (induction rule: chan_run.induct)
  case start
  show ?case by (simp add: paired_def get_binding_def chan_init_def)
next
  case (remove tr db j)
  then show ?case by (simp add: paired_delete)
next
  case (redeem tr db bid j code e' now uname)
  show ?case
  proof (cases rule: redeem_cases [of hash code j now db bid e' uname])
    case none
    with redeem show ?thesis by simp
  next
    case (clash c)
    have "paired (db\<lparr>pair_codes := cs\<rparr>) i e = paired db i e" for cs by (rule paired_cong) simp
    with redeem.IH clash show ?thesis by simp
  next
    case (bound c db')
    have "paired db' i e = paired (db\<lparr>bindings := bind_account bid j e' uname (pc_user c) now (bindings db)\<rparr>) i e"
      by (rule paired_cong) (simp add: bound(4))
    with redeem bound paired_bind [OF chan_inv_run [OF redeem.hyps] bound(3)] show ?thesis by simp
  qed
next
  case (revoke tr db u bid)
  have ev: "(\<exists>b\<in>set (filter (\<lambda>b. b_id b = bid \<and> b_user b = u \<and> \<not> b_revoked b) (bindings db)). b_inst b = i \<and> b_ext b = e) \<longleftrightarrow>
      (\<exists>b\<in>set (bindings db). b_id b = bid \<and> b_user b = u \<and> \<not> b_revoked b \<and> b_inst b = i \<and> b_ext b = e)"
    by auto
  show ?case
    unfolding revoke_event_def owner_of_revoked paired_revoke [OF chan_inv_run [OF revoke.hyps]] ev revoke.IH by (rule refl)
next
  case (model tr db u bid mdl)
  then show ?case unfolding set_binding_model_def by (simp add: paired_keep [OF chan_inv_run [OF model.hyps]])
next
  case (dir tr db u bid d)
  then show ?case unfolding set_binding_download_dir_def by (simp add: paired_keep [OF chan_inv_run [OF dir.hyps]])
next
  case (issue tr db cid n j u now code expires db')
  then show ?case
    by (auto simp: create_pairing_code_def Let_def paired_def get_binding_def split: if_splits)
qed (simp_all add: paired_def get_binding_def create_instance_def set_instance_enabled_def upsert_chat_def create_channel_session_def Let_def)

section \<open>What else the operations keep\<close>

text \<open>A deleted instance leaves no row of its own behind, and rows of other instances stay.\<close>
lemma delete_instance_exact:
  assumes "delete_instance i db = (r, db')"
  shows "get_instance db' i = None" "get_binding db' i e = None" "get_chat db' i ch = None" "c \<in> set (pair_codes db') \<Longrightarrow> pc_inst c \<noteq> i"
    "j \<noteq> i \<Longrightarrow> get_chat db' j ch = get_chat db j ch" "j \<noteq> i \<Longrightarrow> get_instance db' j = get_instance db j"
proof -
  have db': "db' = snd (delete_instance i db)" using assms by simp
  show "get_instance db' i = None" "get_binding db' i e = None" "get_chat db' i ch = None" "c \<in> set (pair_codes db') \<Longrightarrow> pc_inst c \<noteq> i"
    by (auto simp: db' delete_instance_def get_instance_def get_binding_def get_chat_def find_None_all)
  show "j \<noteq> i \<Longrightarrow> get_chat db' j ch = get_chat db j ch" "j \<noteq> i \<Longrightarrow> get_instance db' j = get_instance db j"
    unfolding db' delete_instance_def get_instance_def get_chat_def by (auto intro!: find_filter_keep)
qed

text \<open>
  Pairing an account that is bound already changes the user and the name only: the binding keeps its identifier, its
  model and its folder, and the chats of the account keep the session they were in.
\<close>
lemma repairing_keeps_chat:
  assumes "chan_run hash tr db" "get_binding db i e = Some b0" "redeem_pairing_code hash bid i code e uname now db = (Inr (Some b), db')"
  shows "b_id b = b_id b0" "b_model b = b_model b0" "b_dir b = b_dir b0" "get_chat db' j ch = get_chat db j ch"
proof -
  note inv = chan_inv_run [OF assms(1)]
  have b0: "b0 \<in> set (bindings db)" "b_inst b0 = i" "b_ext b0 = e" using assms(2) by (simp_all add: get_binding_iff [OF inv])
  have "b_id b = b_id b0 \<and> b_model b = b_model b0 \<and> b_dir b = b_dir b0 \<and> get_chat db' j ch = get_chat db j ch"
  proof (cases rule: redeem_cases [of hash code i now db bid e uname])
    case (bound c db2)
    have db2: "db2 = db'" and b: "get_binding db' i e = Some b" using bound(5) assms(3) by simp_all
    from find_Some_set [OF b [unfolded get_binding_def]]
    have "b \<in> set (bind_account bid i e uname (pc_user c) now (bindings db))" "b_inst b = i" "b_ext b = e"
      using bound(4) by (simp_all add: db2)
    then obtain b1 where b1: "b1 \<in> set (bindings db)" "b_inst b1 = i" "b_ext b1 = e"
      "b = b1\<lparr>b_user := pc_user c, b_username := uname, b_revoked := False\<rparr>"
      using b0 unfolding bind_account_def set_upsert by (auto simp: list_ex_iff split: if_splits)
    have "b1 = b0"
      using inv b0 b1(1-3) unfolding chan_inv_def by (auto simp: distinct_map inj_on_def)
    then show "b_id b = b_id b0 \<and> b_model b = b_model b0 \<and> b_dir b = b_dir b0 \<and> get_chat db' j ch = get_chat db j ch"
      using b1(4) bound(4) by (simp add: db2 get_chat_def)
  qed (use assms(3) in simp_all)
  then show "b_id b = b_id b0" "b_model b = b_model b0" "b_dir b = b_dir b0" "get_chat db' j ch = get_chat db j ch"
    by simp_all
qed

text \<open>A target offered to a user is a chat behind an enabled instance, of a binding of that user that is not revoked.\<close>
lemma list_chats_exact:
  "t \<in> set (list_chats_for_user db u) \<longleftrightarrow>
    (\<exists>c\<in>set (chats db). \<exists>b\<in>set (bindings db). \<exists>i\<in>set (instances db). t = target_of c b i \<and>
       b_id b = ct_binding c \<and> i_id i = ct_inst c \<and> b_user b = u \<and> \<not> b_revoked b \<and> i_enabled i)"
  by (auto simp: list_chats_for_user_def image_iff)

text \<open>A short history: a code is issued for a user and redeemed by an account.\<close>

definition demo_history :: "chan_event list" where
  "demo_history = [Redeemed ''tg'' ''00000007'' ''ann'' ''x'' 5, Issued ''tg'' ''00000007'' ''ann'' 0]"

lemma demo_run: "\<exists>db. chan_run (\<lambda>s. s) demo_history db"
proof -
  have code: "code_of 7 = ''00000007''" by code_simp
  obtain db where db: "create_pairing_code (\<lambda>s. s) ''k'' 7 ''tg'' ''ann'' 0 chan_init = (Inr (''00000007'', PAIRING_TTL_MS), db)"
    "db = chan_init\<lparr>pair_codes := [\<lparr>pc_id = ''k'', pc_hash = ''00000007'', pc_inst = ''tg'', pc_user = ''ann'',
       pc_expires = PAIRING_TTL_MS, pc_used = None\<rparr>]\<rparr>"
    by (simp add: create_pairing_code_def chan_init_def code Let_def)
  have "redeem_event (\<lambda>s. s) ''b'' ''tg'' ''00000007'' ''x'' 5 db = [Redeemed ''tg'' ''00000007'' ''ann'' ''x'' 5]"
    by (simp add: redeem_event_def db(2) code_open_def chan_init_def PAIRING_TTL_MS_def)
  with chan_run.redeem [OF chan_run.issue [OF chan_run.start db(1)], of "''b''" "''tg''" "''00000007''" "''x''" 5 None]
  show ?thesis unfolding demo_history_def by auto
qed

section \<open>Properties\<close>

text \<open>
  C34. In every history of the channel store a pairing code is worth one pairing: for each instance, code and user there
  were at most as many successful redemptions as codes issued, and each redemption came after the issue of that code for
  that instance and user, less than ten minutes later.
\<close>
theorem pairing_codes_once:
  assumes "chan_run hash tr db"
  shows "redeemed tr i k u \<le> issued tr i k u \<and>
    (\<forall>newer older e now. tr = newer @ Redeemed i k u e now # older \<longrightarrow>
       (\<exists>t. Issued i k u t \<in> set older \<and> now < t + PAIRING_TTL_MS))"
  using codes_counted [OF assms, of i k u] timely_split run_timely [OF assms] by fastforce

text \<open>
  C35. The store forgets nothing and grants nothing of its own: in every history the user an external account is paired
  with is the one of the last successful redemption for that account, unless the binding was revoked or the
  instance deleted since; the list of bindings shown to a user has exactly the accounts that belong to that user.
\<close>
theorem binding_is_last_redemption:
  assumes "chan_run hash tr db"
  shows "paired db i e = owner_of tr i e \<and>
    set (list_bindings_for_user db u) = {b. \<exists>i e. get_binding db i e = Some b \<and> b_user b = u}"
  using run_owner [OF assms] by (auto simp: list_bindings_for_user_def get_binding_iff [OF chan_inv_run [OF assms]])

theorem pairing_codes_once_witness:
  "redeemed demo_history ''tg'' ''00000007'' ''ann'' = 1 \<and>
   redeemed demo_history ''tg'' ''00000007'' ''ann'' \<le> issued demo_history ''tg'' ''00000007'' ''ann'' \<and>
   (\<exists>t. Issued ''tg'' ''00000007'' ''ann'' t \<in> set [Issued ''tg'' ''00000007'' ''ann'' 0] \<and> 5 < t + PAIRING_TTL_MS)"
proof -
  obtain db where "chan_run (\<lambda>s. s) demo_history db" using demo_run by blast
  note once = pairing_codes_once [OF this, of "''tg''" "''00000007''" "''ann''"]
  have "demo_history = [] @ Redeemed ''tg'' ''00000007'' ''ann'' ''x'' 5 # [Issued ''tg'' ''00000007'' ''ann'' 0]"
    by (simp add: demo_history_def)
  with once have "\<exists>t. Issued ''tg'' ''00000007'' ''ann'' t \<in> set [Issued ''tg'' ''00000007'' ''ann'' 0] \<and> 5 < t + PAIRING_TTL_MS"
    by blast
  with once show ?thesis by (simp add: redeemed_def demo_history_def)
qed

theorem binding_is_last_redemption_witness:
  "\<exists>db. chan_run (\<lambda>s. s) demo_history db \<and> paired db ''tg'' ''x'' = Some ''ann'' \<and> paired db ''tg'' ''y'' = None \<and>
     map b_user (list_bindings_for_user db ''bob'') = []"
proof -
  obtain db where run: "chan_run (\<lambda>s. s) demo_history db" using demo_run by blast
  have x: "paired db ''tg'' ''x'' = Some ''ann''"
    using conjunct1 [OF binding_is_last_redemption [OF run, of "''tg''" "''x''" "''bob''"]] by (simp add: demo_history_def)
  have none: "paired db i e \<noteq> Some ''bob''" for i e
    using conjunct1 [OF binding_is_last_redemption [OF run, of i e "''bob''"]] by (simp add: demo_history_def)
  have "paired db ''tg'' ''y'' = None"
    using conjunct1 [OF binding_is_last_redemption [OF run, of "''tg''" "''y''" "''bob''"]] by (simp add: demo_history_def)
  moreover have "set (list_bindings_for_user db ''bob'') = {}"
    using conjunct2 [OF binding_is_last_redemption [OF run, of "''tg''" "''x''" "''bob''"]] none by (auto simp: paired_def)
  ultimately show ?thesis using run x by auto
qed

end
