(* ===== verification/Channel_Cards.thy ===== *)
theory Channel_Cards
  imports Permissions Confirm
begin

text \<open>
  The confirmation cards of \<open>agent/channels/router.py\<close>: a confirmation of a run, or of an escalated task, is shown as a
  message with buttons in a chat; a click, a timeout or \<open>/stop\<close> answers it. The router keeps the open cards and talks to
  the confirmation manager. What sending a message returns is an argument; the words of the message are left out. Each function is the code between two
  awaits, and the edit of the message at the end is recorded whether or not it succeeds. Identifiers of
  confirmations are strings, as the manager makes them.
\<close>

section \<open>State\<close>

record ch_card =
  k_inst :: string
  k_chat :: string
  k_message :: string
  k_session :: string
  k_callback :: bool

datatype card_end = ShownAllowed | ShownPersisted | ShownDenied | ShownTimedOut

record card_desk =
  open_cards :: "(string \<times> ch_card) list"
  desk_mgr :: confirm_mgr
  desk_perm :: perm_state
  outcomes :: "(string \<times> bool \<times> bool) list"
  edits :: "(string \<times> string \<times> card_end) list"

text \<open>Whether the manager is wired, whether its audit works, the database of the policy, and \<open>os.path.realpath\<close>.\<close>

record card_env =
  ce_wired :: bool
  ce_audit_ok :: bool
  ce_conn :: conn_id
  ce_realpath :: "string \<Rightarrow> string option"

text \<open>What \<open>send_buttons\<close> does: it raises, returns no message, or returns the identifier of one.\<close>

datatype button_send = SendRaised | SentNothing | SentAs string

section \<open>Answers\<close>

text \<open>\<open>self._resolve_confirm\<close> with \<open>KeyError\<close> swallowed; both refusals of the manager are \<open>KeyError\<close>.\<close>

definition answer :: "card_env \<Rightarrow> string \<Rightarrow> bool \<Rightarrow> string \<Rightarrow> string \<Rightarrow> card_desk \<Rightarrow> card_desk" where
  "answer env cid allow sid source s =
     (if ce_wired env
      then (case Confirm.resolve (desk_mgr s) (ce_audit_ok env) cid allow False (Some sid) None None source of
          Inl _ \<Rightarrow> s
        | Inr m \<Rightarrow> s\<lparr>desk_mgr := m\<rparr>)
      else s)"

definition deny_card :: "card_env \<Rightarrow> string \<Rightarrow> string \<Rightarrow> card_desk \<Rightarrow> card_desk" where
  "deny_card env cid sid s = answer env cid False sid ''user'' s"

text \<open>The callback of an external card is called with the outcome; a callback that raises is logged.\<close>

definition fire_on_resolved :: "string \<Rightarrow> ch_card \<Rightarrow> bool \<Rightarrow> bool \<Rightarrow> card_desk \<Rightarrow> card_desk" where
  "fire_on_resolved cid k allow persist s = (if k_callback k then s\<lparr>outcomes := outcomes s @ [(cid, allow, persist)]\<rparr> else s)"

definition pop_card :: "string \<Rightarrow> card_desk \<Rightarrow> card_desk" where
  "pop_card cid s = s\<lparr>open_cards := ddel cid (open_cards s)\<rparr>"

section \<open>Showing a card\<close>

definition card_paths :: "(string \<times> pyval) list \<Rightarrow> pyval list" where
  "card_paths ev = (case pget ev ''paths'' of PList (p # ps) \<Rightarrow> p # ps | _ \<Rightarrow> [py_or (pget ev ''path'') (PStr [])])"

definition policy_auto_approves :: "card_env \<Rightarrow> (string \<times> pyval) list \<Rightarrow> perm_state \<Rightarrow> bool \<times> perm_state" where
  "policy_auto_approves env ev ps = (case gate_of_event (PDict ev) of
      None \<Rightarrow> (False, ps)
    | Some (gate, level) \<Rightarrow>
        if gate = Some ''fs_access'' \<and> \<not> paths_policy_grantable (ce_realpath env) (PList (card_paths ev)) then (False, ps)
        else (case load (ce_conn env) ps of (pol, ps') \<Rightarrow> (decide pol gate level ''channel'', ps')))"

definition confirm_id_of :: "(string \<times> pyval) list \<Rightarrow> string" where
  "confirm_id_of ev = (case pget ev ''confirm_id'' of PStr c \<Rightarrow> c | _ \<Rightarrow> [])"

text \<open>The callback data of the buttons; the third button of an external card means that the action is to be kept.\<close>

definition button_data :: "string \<Rightarrow> char \<Rightarrow> string" where
  "button_data cid sfx = ''cf:'' @ cid @ [CHR '':'', sfx]"

definition card_buttons :: "string \<Rightarrow> bool \<Rightarrow> string list" where
  "card_buttons cid persist = [button_data cid (CHR ''a''), button_data cid (CHR ''d'')] @
     (if persist then [button_data cid (CHR ''p'')] else [])"

definition open_card :: "string \<Rightarrow> ch_card \<Rightarrow> card_desk \<Rightarrow> card_desk" where
  "open_card cid k s = s\<lparr>open_cards := dput cid k (open_cards s)\<rparr>"

text \<open>\<open>buttons\<close> is the capability of the adapter \<open>inst\<close>.\<close>

definition surface_confirm :: "card_env \<Rightarrow> string \<Rightarrow> bool \<Rightarrow> string \<Rightarrow> string \<Rightarrow> (string \<times> pyval) list \<Rightarrow> button_send \<Rightarrow> card_desk \<Rightarrow>
   card_desk" where
  "surface_confirm env inst buttons ch sid ev sent s = (let cid = confirm_id_of ev in
     if cid = [] then s
     else (case policy_auto_approves env ev (desk_perm s) of (waived, ps) \<Rightarrow>
       let s = s\<lparr>desk_perm := ps\<rparr> in
       if waived then answer env cid True sid ''policy'' s
       else if \<not> buttons then deny_card env cid sid s
       else (case sent of
           SentAs mid \<Rightarrow> open_card cid \<lparr>k_inst = inst, k_chat = ch, k_message = mid, k_session = sid, k_callback = False\<rparr> s
         | _ \<Rightarrow> deny_card env cid sid s)))"

definition surface_external_confirm :: "string \<Rightarrow> string \<Rightarrow> string \<Rightarrow> string \<Rightarrow> bool \<Rightarrow> button_send \<Rightarrow> card_desk \<Rightarrow> bool \<times> card_desk" where
  "surface_external_confirm inst ch sid cid cb sent s =
     (if cid = [] then (False, s)
      else (case sent of
          SentAs mid \<Rightarrow> (True, open_card cid \<lparr>k_inst = inst, k_chat = ch, k_message = mid, k_session = sid, k_callback = cb\<rparr> s)
        | _ \<Rightarrow> (False, s)))"

section \<open>How a card ends\<close>

definition on_confirm_timeout :: "card_env \<Rightarrow> string \<Rightarrow> card_desk \<Rightarrow> card_desk" where
  "on_confirm_timeout env cid s = (case map_of (open_cards s) cid of
      None \<Rightarrow> s
    | Some k \<Rightarrow>
        (let s = fire_on_resolved cid k False False (deny_card env cid (k_session k) (pop_card cid s)) in
         s\<lparr>edits := edits s @ [(k_chat k, k_message k, ShownTimedOut)]\<rparr>))"

text \<open>The identifier and the suffix of the callback data of a click.\<close>

definition click_of :: "string \<Rightarrow> (string \<times> char) option" where
  "click_of data = (case split_on (CHR '':'') data of
      [tag, cid, sfx] \<Rightarrow> if tag = ''cf'' \<and> sfx \<in> set [''a'', ''d'', ''p''] then Some (cid, hd sfx) else None
    | _ \<Rightarrow> None)"

definition handle_confirm :: "card_env \<Rightarrow> string \<Rightarrow> string \<Rightarrow> string \<Rightarrow> card_desk \<Rightarrow> card_desk" where
  "handle_confirm env inst ch data s = (case click_of data of
      None \<Rightarrow> s
    | Some (cid, sfx) \<Rightarrow> (case map_of (open_cards s) cid of
          None \<Rightarrow> s
        | Some k \<Rightarrow>
            if k_chat k \<noteq> ch \<or> k_inst k \<noteq> inst then s
            else (let allow = (sfx \<in> set ''ap'');
                      s = fire_on_resolved cid k allow (sfx = CHR ''p'') (answer env cid allow (k_session k) ''user'' (pop_card cid s)) in
              s\<lparr>edits := edits s @ [(ch, k_message k,
                 if sfx = CHR ''p'' then ShownPersisted else if allow then ShownAllowed else ShownDenied)]\<rparr>)))"

definition clear_one :: "card_env \<Rightarrow> card_desk \<Rightarrow> string \<Rightarrow> card_desk" where
  "clear_one env s cid = (case map_of (open_cards s) cid of
      None \<Rightarrow> s
    | Some k \<Rightarrow> fire_on_resolved cid k False False (deny_card env cid (k_session k) (pop_card cid s)))"

definition session_cards :: "string \<Rightarrow> card_desk \<Rightarrow> string list" where
  "session_cards sid s = map fst (filter (\<lambda>(cid, k). k_session k = sid) (open_cards s))"

definition clear_confirms_for_session :: "card_env \<Rightarrow> string \<Rightarrow> card_desk \<Rightarrow> card_desk" where
  "clear_confirms_for_session env sid s = foldl (clear_one env) s (session_cards sid s)"

section \<open>Histories\<close>

datatype card_event =
    Shown string string string bool
  | Waived string
  | Clicked string string string bool bool
  | Closed string

text \<open>What one operation did, read off the desk before it.\<close>

definition click_event :: "string \<Rightarrow> string \<Rightarrow> string \<Rightarrow> card_desk \<Rightarrow> card_event list" where
  "click_event inst ch data s = (case click_of data of
      None \<Rightarrow> []
    | Some (cid, sfx) \<Rightarrow> (case map_of (open_cards s) cid of
          None \<Rightarrow> []
        | Some k \<Rightarrow> if k_chat k \<noteq> ch \<or> k_inst k \<noteq> inst then [] else [Clicked cid inst ch (sfx \<in> set ''ap'') (sfx = CHR ''p'')]))"

definition surface_event :: "card_env \<Rightarrow> string \<Rightarrow> bool \<Rightarrow> string \<Rightarrow> (string \<times> pyval) list \<Rightarrow> button_send \<Rightarrow> card_desk \<Rightarrow> card_event list" where
  "surface_event env inst buttons ch ev sent s = (let cid = confirm_id_of ev in
     if cid = [] then []
     else if fst (policy_auto_approves env ev (desk_perm s)) then [Waived cid]
     else if buttons \<and> (\<exists>mid. sent = SentAs mid) then [Shown cid inst ch False] else [])"

text \<open>
  The operations of the router, with what they did; anybody else may change the manager and the policy in between.
\<close>

inductive desk_step :: "card_env \<Rightarrow> card_desk \<Rightarrow> card_event list \<Rightarrow> card_desk \<Rightarrow> bool" for env where
  surface: "desk_step env s (surface_event env inst buttons ch ev sent s) (surface_confirm env inst buttons ch sid ev sent s)"
| external: "surface_external_confirm inst ch sid cid cb sent s = (ok, s') \<Longrightarrow>
    desk_step env s (if ok then [Shown cid inst ch cb] else []) s'"
| click: "desk_step env s (click_event inst ch data s) (handle_confirm env inst ch data s)"
| expire: "desk_step env s [Closed cid] (on_confirm_timeout env cid s)"
| clear: "desk_step env s (map Closed (session_cards sid s)) (clear_confirms_for_session env sid s)"

inductive desk_run :: "card_env \<Rightarrow> card_event list \<Rightarrow> card_desk \<Rightarrow> bool" for env where
  start: "desk_run env [] \<lparr>open_cards = [], desk_mgr = m, desk_perm = p, outcomes = [], edits = []\<rparr>"
| step: "desk_run env tr s \<Longrightarrow> desk_step env s evs s' \<Longrightarrow> desk_run env (evs @ tr) s'"
| others: "desk_run env tr s \<Longrightarrow> desk_run env tr (s\<lparr>desk_mgr := m, desk_perm := p\<rparr>)"

definition times_shown :: "card_event list \<Rightarrow> string \<Rightarrow> nat" where
  "times_shown tr c = length (filter (\<lambda>ev. case ev of Shown c' _ _ _ \<Rightarrow> c' = c | _ \<Rightarrow> False) tr)"

definition times_shown_external :: "card_event list \<Rightarrow> string \<Rightarrow> nat" where
  "times_shown_external tr c = length (filter (\<lambda>ev. case ev of Shown c' _ _ cb \<Rightarrow> c' = c \<and> cb | _ \<Rightarrow> False) tr)"

definition reported :: "card_desk \<Rightarrow> string \<Rightarrow> nat" where
  "reported s c = length (filter (\<lambda>(c', _, _). c' = c) (outcomes s))"

definition waiting :: "card_desk \<Rightarrow> string \<Rightarrow> nat" where
  "waiting s c = (case map_of (open_cards s) c of Some k \<Rightarrow> if k_callback k then 1 else 0 | None \<Rightarrow> 0)"

section \<open>Lemmas\<close>

lemma answer_keeps [simp]:
  "open_cards (answer env cid allow sid source s) = open_cards s" "outcomes (answer env cid allow sid source s) = outcomes s"
  "desk_perm (answer env cid allow sid source s) = desk_perm s" "edits (answer env cid allow sid source s) = edits s"
  by (simp_all add: answer_def split: sum.split)

lemma deny_keeps [simp]:
  "open_cards (deny_card env cid sid s) = open_cards s" "outcomes (deny_card env cid sid s) = outcomes s"
  by (simp_all add: deny_card_def)

lemma fire_keeps [simp]:
  "open_cards (fire_on_resolved cid k allow persist s) = open_cards s" "desk_mgr (fire_on_resolved cid k allow persist s) = desk_mgr s"
  by (simp_all add: fire_on_resolved_def)

lemma outcomes_fire [simp]:
  "outcomes (fire_on_resolved cid k allow persist s) = outcomes s @ (if k_callback k then [(cid, allow, persist)] else [])"
  by (simp add: fire_on_resolved_def)

lemma pop_simps [simp]:
  "open_cards (pop_card cid s) = ddel cid (open_cards s)" "outcomes (pop_card cid s) = outcomes s" "desk_mgr (pop_card cid s) = desk_mgr s"
  by (simp_all add: pop_card_def)

lemma card_count_simps [simp]:
  "times_shown (Shown c' i h cb # tr) c = (if c' = c then Suc (times_shown tr c) else times_shown tr c)"
  "times_shown_external (Shown c' i h cb # tr) c = (if c' = c \<and> cb then Suc (times_shown_external tr c) else times_shown_external tr c)"
  "times_shown [] c = 0" "times_shown_external [] c = 0"
  by (simp_all add: times_shown_def times_shown_external_def)

definition silent :: "card_event list \<Rightarrow> bool" where
  "silent evs \<longleftrightarrow> (\<forall>ev\<in>set evs. case ev of Shown _ _ _ _ \<Rightarrow> False | _ \<Rightarrow> True)"

lemma silent_simps [simp]:
  "silent []" "silent (Shown c i h cb # evs) = False" "silent (Waived c # evs) = silent evs" "silent (Clicked c i h a p # evs) = silent evs"
  "silent (Closed c # evs) = silent evs" "silent (map Closed cs)"
  by (auto simp: silent_def)

lemma silent_counts: "silent evs \<Longrightarrow> times_shown (evs @ tr) c = times_shown tr c" "silent evs \<Longrightarrow> times_shown_external (evs @ tr) c = times_shown_external tr c"
  by (auto simp: times_shown_def times_shown_external_def silent_def filter_empty_conv split: card_event.splits)

lemma external_le: "times_shown_external tr c \<le> times_shown tr c"
  by (induction tr) (auto simp: times_shown_def times_shown_external_def split: card_event.splits)

definition counted :: "card_event list \<Rightarrow> card_desk \<Rightarrow> string \<Rightarrow> bool" where
  "counted tr s c \<longleftrightarrow> reported s c + waiting s c \<le> times_shown_external tr c \<and>
     (times_shown tr c \<le> 1 \<longrightarrow> reported s c + waiting s c = times_shown_external tr c)"

definition traced :: "card_event list \<Rightarrow> card_desk \<Rightarrow> string \<Rightarrow> bool" where
  "traced tr s c \<longleftrightarrow>
     (\<forall>k. map_of (open_cards s) c = Some k \<longrightarrow> Shown c (k_inst k) (k_chat k) (k_callback k) \<in> set tr) \<and>
     (\<forall>p. (c, True, p) \<in> set (outcomes s) \<longrightarrow> (\<exists>i h. Clicked c i h True p \<in> set tr)) \<and>
     (\<forall>i h a p. Clicked c i h a p \<in> set tr \<longrightarrow> (\<exists>cb. Shown c i h cb \<in> set tr))"

lemma tracedD:
  "traced tr s c \<Longrightarrow> map_of (open_cards s) c = Some k \<Longrightarrow> Shown c (k_inst k) (k_chat k) (k_callback k) \<in> set tr"
  "traced tr s c \<Longrightarrow> (c, True, p) \<in> set (outcomes s) \<Longrightarrow> \<exists>i h. Clicked c i h True p \<in> set tr"
  "traced tr s c \<Longrightarrow> Clicked c i h a p \<in> set tr \<Longrightarrow> \<exists>cb. Shown c i h cb \<in> set tr"
  by (simp_all add: traced_def) blast+

definition card_inv :: "card_event list \<Rightarrow> card_desk \<Rightarrow> string \<Rightarrow> bool" where
  "card_inv tr s c \<longleftrightarrow> counted tr s c \<and> traced tr s c"

lemma quiet_inv:
  assumes "card_inv tr s c" "open_cards s' = open_cards s" "outcomes s' = outcomes s" "silent evs"
    "\<And>i h a p. Clicked c i h a p \<notin> set evs"
  shows "card_inv (evs @ tr) s' c"
proof -
  have "counted (evs @ tr) s' c"
    using assms(1-4) unfolding card_inv_def counted_def reported_def waiting_def by (simp add: silent_counts)
  moreover have "traced (evs @ tr) s' c"
    using assms(1,2,3,5) unfolding card_inv_def traced_def by (simp, blast)
  ultimately show ?thesis by (simp add: card_inv_def)
qed

lemma traced_closed: "traced tr s c \<Longrightarrow> times_shown tr c = 0 \<Longrightarrow> map_of (open_cards s) c = None"
  by (cases "map_of (open_cards s) c") (auto simp: traced_def times_shown_def filter_empty_conv)

lemma open_inv:
  assumes "card_inv tr s c" "open_cards s' = dput cid k (open_cards s)" "outcomes s' = outcomes s"
    "i = k_inst k" "h = k_chat k" "cb = k_callback k"
  shows "card_inv (Shown cid i h cb # tr) s' c"
proof -
  have r: "reported s' c = reported s c" using assms(3) by (simp add: reported_def)
  have w: "waiting s' c = (if cid = c then if cb then 1 else 0 else waiting s c)"
    using assms(2,6) by (simp add: waiting_def)
  have z: "times_shown tr c = 0 \<Longrightarrow> waiting s c = 0"
    using assms(1) traced_closed [of tr s c] by (simp add: card_inv_def waiting_def)
  have le: "times_shown_external tr c \<le> times_shown tr c" by (rule external_le)
  have "counted tr s c" using assms(1) by (simp add: card_inv_def)
  then have "counted (Shown cid i h cb # tr) s' c"
    using r w z le unfolding counted_def by (cases "cid = c"; cases cb; cases "times_shown tr c") simp_all
  moreover have tr: "traced tr s c" using assms(1) by (simp add: card_inv_def)
  have "traced (Shown cid i h cb # tr) s' c"
    unfolding traced_def
  proof (intro conjI allI impI)
    fix k' assume "map_of (open_cards s') c = Some k'"
    with tracedD(1) [OF tr] assms(2,4-6) show "Shown c (k_inst k') (k_chat k') (k_callback k') \<in> set (Shown cid i h cb # tr)"
      by (auto split: if_splits)
  next
    fix p assume "(c, True, p) \<in> set (outcomes s')"
    with tracedD(2) [OF tr] assms(3) show "\<exists>i' h'. Clicked c i' h' True p \<in> set (Shown cid i h cb # tr)" by auto
  next
    fix i' h' a p assume "Clicked c i' h' a p \<in> set (Shown cid i h cb # tr)"
    then have "Clicked c i' h' a p \<in> set tr" by simp
    from tracedD(3) [OF tr this] show "\<exists>cb'. Shown c i' h' cb' \<in> set (Shown cid i h cb # tr)" by (meson list.set_intros(2))
  qed
  ultimately show ?thesis by (simp add: card_inv_def)
qed

lemma settle_inv:
  assumes "card_inv tr s c" "map_of (open_cards s) cid = Some k" "open_cards s' = ddel cid (open_cards s)"
    "outcomes s' = outcomes s @ (if k_callback k then [(cid, allow, persist)] else [])" "silent evs"
    "allow \<Longrightarrow> \<exists>i h. Clicked cid i h True persist \<in> set evs"
    "\<And>c' i h a p. Clicked c' i h a p \<in> set evs \<Longrightarrow> c' = cid \<and> i = k_inst k \<and> h = k_chat k"
  shows "card_inv (evs @ tr) s' c"
proof -
  have "reported s' c + waiting s' c = reported s c + waiting s c"
    using assms(2-4) by (simp add: reported_def waiting_def)
  then have "counted (evs @ tr) s' c"
    using assms(1,5) by (simp add: card_inv_def counted_def silent_counts)
  moreover have tr: "traced tr s c" using assms(1) by (simp add: card_inv_def)
  have "traced (evs @ tr) s' c"
    unfolding traced_def
  proof (intro conjI allI impI)
    fix k' assume "map_of (open_cards s') c = Some k'"
    then have "map_of (open_cards s) c = Some k'" using assms(3) by (simp split: if_splits)
    with tr show "Shown c (k_inst k') (k_chat k') (k_callback k') \<in> set (evs @ tr)" by (simp add: traced_def)
  next
    fix p assume "(c, True, p) \<in> set (outcomes s')"
    then consider "(c, True, p) \<in> set (outcomes s)" | "c = cid" allow "p = persist" using assms(4) by (auto split: if_splits)
    then show "\<exists>i h. Clicked c i h True p \<in> set (evs @ tr)"
    proof cases
      case 1
      then have "\<exists>i h. Clicked c i h True p \<in> set tr" using tr unfolding traced_def by blast
      then show ?thesis by auto
    next
      case 2
      with assms(6) show ?thesis by auto
    qed
  next
    fix i h a p assume "Clicked c i h a p \<in> set (evs @ tr)"
    then consider "Clicked c i h a p \<in> set tr" | "c = cid" "i = k_inst k" "h = k_chat k" using assms(7) by auto
    then show "\<exists>cb. Shown c i h cb \<in> set (evs @ tr)"
    proof cases
      case 1
      from tracedD(3) [OF tr this] show ?thesis by auto
    next
      case 2
      with tracedD(1) [OF tr, of k] assms(2) show ?thesis by auto
    qed
  qed
  ultimately show ?thesis by (simp add: card_inv_def)
qed

lemma clear_one_inv: "card_inv tr s c \<Longrightarrow> card_inv tr (clear_one env s cid) c"
proof (cases "map_of (open_cards s) cid")
  case (Some k)
  assume "card_inv tr s c"
  from settle_inv [OF this Some, of "clear_one env s cid" False False "[]"] Some show ?thesis
    by (simp add: clear_one_def)
qed (simp add: clear_one_def)

lemma clear_all_inv: "card_inv tr s c \<Longrightarrow> card_inv tr (foldl (clear_one env) s cids) c"
  by (induction cids arbitrary: s) (simp_all add: clear_one_inv)

lemma step_inv: "desk_step env s evs s' \<Longrightarrow> card_inv tr s c \<Longrightarrow> card_inv (evs @ tr) s' c"
proof (induction rule: desk_step.induct)
  case (surface s inst buttons ch ev sent sid)
  obtain w ps where w: "policy_auto_approves env ev (desk_perm s) = (w, ps)" by fastforce
  show ?case
  proof (cases "confirm_id_of ev = [] \<or> w \<or> \<not> (buttons \<and> (\<exists>mid. sent = SentAs mid))")
    case True
    then show ?thesis
      by (intro quiet_inv [OF surface])
        (auto simp: surface_confirm_def surface_event_def Let_def w split: button_send.splits)
  next
    case False
    then obtain mid where "sent = SentAs mid" "buttons" "\<not> w" "confirm_id_of ev \<noteq> []" by auto
    then show ?thesis
      by (simp add: surface_confirm_def surface_event_def Let_def w open_inv [OF surface] open_card_def)
  qed
next
  case (external inst ch sid cid cb sent s ok s')
  then show ?case
    by (auto simp: surface_external_confirm_def open_card_def intro: open_inv split: if_splits button_send.splits)
next
  case (click s inst ch data)
  show ?case
  proof (cases "click_event inst ch data s")
    case Nil
    then have "handle_confirm env inst ch data s = s"
      by (auto simp: click_event_def handle_confirm_def split: option.splits if_splits)
    with Nil click show ?thesis by simp
  next
    case (Cons e es)
    then obtain cid sfx k where c: "click_of data = Some (cid, sfx)" "map_of (open_cards s) cid = Some k" "k_chat k = ch" "k_inst k = inst"
      by (auto simp: click_event_def split: option.splits if_splits)
    show ?thesis
      by (rule settle_inv [OF click c(2), where allow = "sfx \<in> set ''ap''" and persist = "sfx = CHR ''p''"])
        (use c in \<open>auto simp: click_event_def handle_confirm_def Let_def\<close>)
  qed
next
  case (expire s cid)
  show ?case
  proof (cases "map_of (open_cards s) cid")
    case None
    with expire quiet_inv [OF expire, of s "[Closed cid]"] show ?thesis by (simp add: on_confirm_timeout_def)
  next
    case (Some k)
    show ?thesis
      by (rule settle_inv [OF expire Some, where allow = False and persist = False]) (use Some in \<open>auto simp: on_confirm_timeout_def Let_def\<close>)
  qed
next
  case (clear s sid)
  have "card_inv tr (clear_confirms_for_session env sid s) c"
    unfolding clear_confirms_for_session_def by (rule clear_all_inv [OF clear])
  then show ?case by (rule quiet_inv) auto
qed

lemma run_inv: "desk_run env tr s \<Longrightarrow> card_inv tr s c"
proof (induction rule: desk_run.induct)
  case (start m p)
  show ?case by (simp add: card_inv_def counted_def traced_def reported_def waiting_def)
next
  case (step tr s evs s')
  then show ?case by (simp add: step_inv)
next
  case (others tr s m p)
  from quiet_inv [OF others(2), of _ "[]"] show ?case by simp
qed

section \<open>Who answers\<close>

lemma answer_results:
  "results (desk_mgr (answer env cid allow sid source s)) \<in>
     {results (desk_mgr s), dput cid allow (results (desk_mgr s))}"
  by (auto simp: answer_def split: sum.split elim: resolve_cases)

definition approved :: "card_desk \<Rightarrow> string \<Rightarrow> bool" where
  "approved s c \<longleftrightarrow> map_of (results (desk_mgr s)) c = Some True"

lemma approved_answer: "approved (answer env cid allow sid source s) c \<Longrightarrow> approved s c \<or> c = cid \<and> allow"
  using answer_results [of env cid allow sid source s] by (auto simp: approved_def split: if_splits)

lemma approved_cong: "desk_mgr s' = desk_mgr s \<Longrightarrow> approved s' c = approved s c"
  by (simp add: approved_def)

lemma approved_deny: "approved (deny_card env cid sid s) c \<Longrightarrow> approved s c"
  using approved_answer unfolding deny_card_def by blast

lemma approved_keeps [simp]:
  "approved (fire_on_resolved cid k a p s) c = approved s c" "approved (pop_card cid s) c = approved s c"
  "approved (s\<lparr>edits := e\<rparr>) c = approved s c" "approved (s\<lparr>desk_perm := q\<rparr>) c = approved s c" "approved (open_card cid k s) c = approved s c"
  by (simp_all add: approved_def open_card_def)

lemma approved_clear: "approved (foldl (clear_one env) s cids) c \<Longrightarrow> approved s c"
proof (induction cids arbitrary: s)
  case (Cons x xs)
  then have "approved (clear_one env s x) c" by simp
  then show ?case by (auto simp: clear_one_def dest: approved_deny split: option.splits)
qed simp

text \<open>What the router approves, it approves for a waiver or for a click on the card.\<close>

lemma step_approved:
  "desk_step env s evs s' \<Longrightarrow> approved s' c \<Longrightarrow> approved s c \<or> Waived c \<in> set evs \<or> (\<exists>i h p. Clicked c i h True p \<in> set evs)"
proof (induction rule: desk_step.induct)
  case (surface s inst buttons ch ev sent sid)
  obtain w ps where w: "policy_auto_approves env ev (desk_perm s) = (w, ps)" by fastforce
  show ?case
  proof (cases "confirm_id_of ev \<noteq> [] \<and> w")
    case True
    with surface w show ?thesis
      by (auto simp: surface_confirm_def surface_event_def Let_def dest!: approved_answer)
  next
    case False
    with surface w show ?thesis
      by (auto simp: surface_confirm_def Let_def dest: approved_deny split: if_splits button_send.splits)
  qed
next
  case (external inst ch sid cid cb sent s ok s')
  then show ?case by (auto simp: surface_external_confirm_def split: if_splits button_send.splits)
next
  case (click s inst ch data)
  show ?case
  proof (cases "click_event inst ch data s")
    case Nil
    then have "handle_confirm env inst ch data s = s"
      by (auto simp: click_event_def handle_confirm_def split: option.splits if_splits)
    with click show ?thesis by simp
  next
    case (Cons e es)
    then obtain cid sfx k where k: "click_of data = Some (cid, sfx)" "map_of (open_cards s) cid = Some k" "k_chat k = ch" "k_inst k = inst"
      by (auto simp: click_event_def split: option.splits if_splits)
    with click have "approved (answer env cid (sfx \<in> set ''ap'') (k_session k) ''user'' (pop_card cid s)) c"
      by (simp add: handle_confirm_def Let_def)
    from approved_answer [OF this] k show ?thesis by (auto simp: click_event_def)
  qed
next
  case (expire s cid)
  then show ?case by (auto simp: on_confirm_timeout_def Let_def dest: approved_deny split: option.splits)
next
  case (clear s sid)
  then show ?case by (auto simp: clear_confirms_for_session_def dest: approved_clear)
qed

lemma waiver_floor:
  assumes "policy_auto_approves env ev ps = (True, ps')"
  obtains gate level where "gate_of_event (PDict ev) = Some (Some gate, level)" "decide (fst (load (ce_conn env) ps)) (Some gate) level ''channel''"
    "gate = ''fs_access'' \<Longrightarrow> paths_policy_grantable (ce_realpath env) (PList (card_paths ev))"
proof -
  obtain g level where g: "gate_of_event (PDict ev) = Some (g, level)"
    using assms by (auto simp: policy_auto_approves_def split: option.splits)
  with assms have d: "decide (fst (load (ce_conn env) ps)) g level ''channel''"
    "g = Some ''fs_access'' \<Longrightarrow> paths_policy_grantable (ce_realpath env) (PList (card_paths ev))"
    by (auto simp: policy_auto_approves_def split: if_splits prod.splits)
  then obtain gate where "g = Some gate" by (cases g) (simp_all add: decide_def)
  with g d that show ?thesis by blast
qed

lemma waived_by_policy:
  assumes "desk_step env s evs s'" "Waived c \<in> set evs"
  obtains ev ps where "confirm_id_of ev = c" "policy_auto_approves env ev (desk_perm s) = (True, ps)"
  using assms
proof (cases rule: desk_step.cases)
  case (surface inst buttons ch ev sent sid)
  with assms(2) that [of ev] show ?thesis
    by (cases "policy_auto_approves env ev (desk_perm s)") (auto simp: surface_event_def Let_def split: if_splits)
next
  case (click inst ch data)
  with assms(2) show ?thesis by (auto simp: click_event_def split: option.splits if_splits)
qed (auto split: if_splits)

section \<open>Buttons\<close>

lemma click_of_button:
  assumes "CHR '':'' \<notin> set cid" "sfx \<in> set ''adp''"
  shows "click_of (button_data cid sfx) = Some (cid, sfx)"
proof -
  have "split_on (CHR '':'') (button_data cid sfx) = [''cf'', cid, [sfx]]"
    using assms split_on_append_sep [of "CHR '':''" "''cf''" "cid @ [CHR '':'', sfx]"] split_on_append_sep [of "CHR '':''" cid "[sfx]"]
      split_on_single [of "CHR '':''" "[sfx]"]
    by (auto simp: button_data_def)
  with assms(2) show ?thesis by (auto simp: click_of_def)
qed

lemma card_buttons_understood:
  assumes "CHR '':'' \<notin> set cid" "data \<in> set (card_buttons cid persist)"
  obtains sfx where "click_of data = Some (cid, sfx)" "sfx = CHR ''p'' \<Longrightarrow> persist"
proof -
  obtain sfx where s: "data = button_data cid sfx" "sfx \<in> set ''adp''" "sfx = CHR ''p'' \<Longrightarrow> persist"
    using assms(2) by (auto simp: card_buttons_def split: if_splits)
  from that [of sfx] click_of_button [OF assms(1) s(2)] s show thesis by simp
qed

text \<open>
  A click is reported and shown as allowed also when the manager no longer knows the confirmation and refuses the
  answer, for example because its wait has timed out.
\<close>
lemma refused_click_is_shown_allowed:
  assumes "click_of data = Some (cid, CHR ''p'')" "map_of (open_cards s) cid = Some k" "k_chat k = ch" "k_inst k = inst" "k_callback k"
    "map_of (pending (desk_mgr s)) cid = None"
  shows "desk_mgr (handle_confirm env inst ch data s) = desk_mgr s"
    "outcomes (handle_confirm env inst ch data s) = outcomes s @ [(cid, True, True)]"
    "edits (handle_confirm env inst ch data s) = edits s @ [(ch, k_message k, ShownPersisted)]"
  using assms by (simp_all add: handle_confirm_def Let_def answer_def resolve_def pop_card_def fire_on_resolved_def)

text \<open>A small history: an external card is shown and its persist button clicked.\<close>

definition demo_card_env :: card_env where
  "demo_card_env = \<lparr>ce_wired = True, ce_audit_ok = True, ce_conn = (0, 0), ce_realpath = Some\<rparr>"

definition demo_mgr :: confirm_mgr where
  "demo_mgr = register mgr_init ''c1'' 0 ''s'' ''shell'' ''run'' ''ls''"

definition demo_desk :: card_desk where
  "demo_desk = snd (surface_external_confirm ''tg'' ''7'' ''s'' ''c1'' True (SentAs ''m'')
     \<lparr>open_cards = [], desk_mgr = demo_mgr, desk_perm = perm_init (\<lambda>_. NoRow), outcomes = [], edits = []\<rparr>)"

definition demo_click :: card_desk where
  "demo_click = handle_confirm demo_card_env ''tg'' ''7'' (button_data ''c1'' (CHR ''p'')) demo_desk"

lemma demo_shown: "desk_run demo_card_env [Shown ''c1'' ''tg'' ''7'' True] demo_desk"
  using desk_run.step [OF desk_run.start desk_step.external [of "''tg''" "''7''" "''s''" "''c1''" True "SentAs ''m''"
      "\<lparr>open_cards = [], desk_mgr = demo_mgr, desk_perm = perm_init (\<lambda>_. NoRow), outcomes = [], edits = []\<rparr>"]]
  by (simp add: demo_desk_def surface_external_confirm_def)

lemma demo_step: "desk_step demo_card_env demo_desk [Clicked ''c1'' ''tg'' ''7'' True True] demo_click"
proof -
  have "click_of (button_data ''c1'' (CHR ''p'')) = Some (''c1'', CHR ''p'')" by (rule click_of_button) simp_all
  then have "click_event ''tg'' ''7'' (button_data ''c1'' (CHR ''p'')) demo_desk = [Clicked ''c1'' ''tg'' ''7'' True True]"
    by (simp add: click_event_def demo_desk_def surface_external_confirm_def open_card_def)
  then show ?thesis unfolding demo_click_def using desk_step.click by metis
qed

lemma demo_approved: "approved demo_click ''c1''" "\<not> approved demo_desk ''c1''"
proof -
  have "click_of (button_data ''c1'' (CHR ''p'')) = Some (''c1'', CHR ''p'')" by (rule click_of_button) simp_all
  then show "approved demo_click ''c1''" "\<not> approved demo_desk ''c1''"
    by (simp_all add: approved_def demo_click_def handle_confirm_def demo_desk_def surface_external_confirm_def open_card_def answer_def
        demo_card_env_def resolve_def demo_mgr_def register_def mgr_init_def pop_card_def ddel_def fire_on_resolved_def Let_def)
qed

section \<open>Properties\<close>

text \<open>
  C38. The outcome of a card shown for an outside party is reported exactly once: in every history of the router, for each
  confirmation shown at most once, the reports made and the report still owed add up to the cards shown with a callback,
  and they never exceed it. A report of an approval goes back to a click that came from the very chat of the
  very instance the card was shown in.
\<close>
theorem outcome_once_and_owned:
  assumes "desk_run env tr s"
  shows "reported s c + waiting s c \<le> times_shown_external tr c \<and>
    (times_shown tr c \<le> 1 \<longrightarrow> reported s c + waiting s c = times_shown_external tr c) \<and>
    (\<forall>p. (c, True, p) \<in> set (outcomes s) \<longrightarrow>
       (\<exists>i h cb. Clicked c i h True p \<in> set tr \<and> Shown c i h cb \<in> set tr))"
  using run_inv [OF assms, of c] unfolding card_inv_def counted_def traced_def by blast


theorem outcome_once_and_owned_witness:
  "desk_run demo_card_env [Clicked ''c1'' ''tg'' ''7'' True True, Shown ''c1'' ''tg'' ''7'' True] demo_click \<and>
   reported demo_click ''c1'' + waiting demo_click ''c1'' = 1"
proof -
  have run: "desk_run demo_card_env [Clicked ''c1'' ''tg'' ''7'' True True, Shown ''c1'' ''tg'' ''7'' True] demo_click"
    using desk_run.step [OF demo_shown demo_step] by simp
  from outcome_once_and_owned [OF run, of "''c1''"] run show ?thesis by (simp add: times_shown_def times_shown_external_def)
qed


end
