(* ===== verification/Channel_Router.thy ===== *)
theory Channel_Router
  imports Channel_Store Channel_Cards
begin

text \<open>
  \<open>agent/channels/router.py\<close> over the channel store and the open cards: what an incoming message does. An account that is
  not paired gets a hint at most; a paired one gets its commands, or a run in the session of its chat, one at a time.
  The locks of the chats are first-in-first-out queues, as those of \<open>asyncio\<close> are; credentials, attachments, the
  cancellation of a run and identifiers are arguments. Clock readings are integers, in seconds for the monotonic clock.
  Sending a reply is recorded in the outbox.
\<close>

section \<open>Messages and state\<close>

definition UNPAIRED_REPLY_INTERVAL :: int where "UNPAIRED_REPLY_INTERVAL = 600"
definition PAIR_FAIL_LIMIT :: nat where "PAIR_FAIL_LIMIT = 5"
definition PAIR_FAIL_WINDOW :: int where "PAIR_FAIL_WINDOW = 3600"
definition MAX_PENDING :: nat where "MAX_PENDING = 3"
definition MAX_TRACKED_KEYS :: nat where "MAX_TRACKED_KEYS = 4096"

record inbound =
  in_type :: string
  in_inst :: string
  in_chat :: string
  in_user :: string
  in_username :: "string option"
  in_text :: string
  in_files :: "string list"

datatype chat_reply =
    MsgUnpaired | MsgPairUsage | MsgPairOk | MsgPairBad | MsgNoModel | MsgCredsFailed | MsgBusy | MsgNew | MsgStopOk | MsgStopNone
  | WhoAmI string "string option" | FilesSkipped "string list"

record run_start =
  st_session :: string
  st_user :: string
  st_text :: string
  st_username :: string
  st_files :: "string list"
  st_media :: bool

type_synonym key = "string \<times> string"

text \<open>
  \<open>rt_queue\<close> has the messages that wait for the lock of their chat or hold it, in the order of their arrival, each with
  the binding read when it came; \<open>rt_busy\<close> has the chats whose lock is held, by the first message of their queue.
\<close>

record router =
  rt_db :: chan_db
  rt_desk :: card_desk
  rt_pending :: "(key \<times> nat) list"
  rt_unpaired :: "(key \<times> int) list"
  rt_fails :: "(key \<times> int list) list"
  rt_queue :: "(inbound \<times> binding) list"
  rt_busy :: "key list"
  rt_outbox :: "(string \<times> chat_reply) list"
  rt_starts :: "run_start list"

definition send_reply :: "string \<Rightarrow> chat_reply \<Rightarrow> router \<Rightarrow> router" where
  "send_reply ch r s = s\<lparr>rt_outbox := rt_outbox s @ [(ch, r)]\<rparr>"

definition chat_key :: "inbound \<Rightarrow> key" where
  "chat_key m = (in_inst m, in_chat m)"

definition account_key :: "inbound \<Rightarrow> key" where
  "account_key m = (in_inst m, in_user m)"

text \<open>\<open>_prune\<close>: over the cap, the oldest entries go until half the cap is left.\<close>

definition prune_keys :: "('k \<times> 'v) list \<Rightarrow> ('k \<times> 'v) list" where
  "prune_keys d = (if length d > MAX_TRACKED_KEYS then drop (length d - MAX_TRACKED_KEYS div 2) d else d)"

section \<open>Commands\<close>

record route_env =
  re_hash :: "string \<Rightarrow> string"
  re_mono :: int
  re_now_ms :: int
  re_now_s :: int
  re_id :: "nat \<Rightarrow> string"
  re_cards :: card_env

definition reply_unpaired :: "route_env \<Rightarrow> inbound \<Rightarrow> router \<Rightarrow> router" where
  "reply_unpaired env m s = (let seen = (case map_of (rt_unpaired s) (account_key m) of
        Some t \<Rightarrow> re_mono env - t < UNPAIRED_REPLY_INTERVAL | None \<Rightarrow> False) in
     if seen then s
     else send_reply (in_chat m) MsgUnpaired
       (s\<lparr>rt_unpaired := prune_keys (dput (account_key m) (re_mono env) (rt_unpaired s))\<rparr>))"

definition recent_fails :: "route_env \<Rightarrow> inbound \<Rightarrow> router \<Rightarrow> int list" where
  "recent_fails env m s = filter (\<lambda>t. re_mono env - t < PAIR_FAIL_WINDOW)
     (case map_of (rt_fails s) (account_key m) of Some ts \<Rightarrow> ts | None \<Rightarrow> [])"

definition cmd_pair :: "route_env \<Rightarrow> inbound \<Rightarrow> string \<Rightarrow> router \<Rightarrow> router" where
  "cmd_pair env m txt s = (case split_ws txt of
      [_, code] \<Rightarrow>
        (let fails = recent_fails env m s in
         case redeem_pairing_code (re_hash env) (re_id env 0) (in_inst m) code (in_user m) (in_username m) (re_now_ms env) (rt_db s) of
           (Inl _, db) \<Rightarrow> s\<lparr>rt_db := db\<rparr>
         | (Inr (Some _), db) \<Rightarrow> send_reply (in_chat m) MsgPairOk (s\<lparr>rt_db := db, rt_fails := ddel (account_key m) (rt_fails s)\<rparr>)
         | (Inr None, db) \<Rightarrow>
             (let fails' = fails @ [re_mono env];
                  s' = s\<lparr>rt_db := db, rt_fails := prune_keys (dput (account_key m) fails' (rt_fails s))\<rparr> in
              if length fails' \<le> PAIR_FAIL_LIMIT then send_reply (in_chat m) MsgPairBad s' else s'))
    | _ \<Rightarrow> send_reply (in_chat m) MsgPairUsage s)"

text \<open>A fresh session for the chat; an error of the database leaves what was done and sends nothing.\<close>

definition fresh_session :: "route_env \<Rightarrow> inbound \<Rightarrow> binding \<Rightarrow> chan_db \<Rightarrow> string option \<times> chan_db" where
  "fresh_session env m b db = (case create_channel_session (re_id env 1) (b_user b) (in_type m) (re_now_s env) db of
      (Inl _, db1) \<Rightarrow> (None, db1)
    | (Inr sid, db1) \<Rightarrow> (case upsert_chat (re_id env 2) (in_inst m) (in_chat m) (b_id b) sid (re_now_ms env) db1 of
        (Inl _, db2) \<Rightarrow> (None, db2)
      | (Inr _, db2) \<Rightarrow> (Some sid, db2)))"

definition cmd_new :: "route_env \<Rightarrow> inbound \<Rightarrow> binding \<Rightarrow> router \<Rightarrow> router" where
  "cmd_new env m b s = (case fresh_session env m b (rt_db s) of
      (None, db) \<Rightarrow> s\<lparr>rt_db := db\<rparr>
    | (Some _, db) \<Rightarrow> send_reply (in_chat m) MsgNew (s\<lparr>rt_db := db\<rparr>))"

text \<open>\<open>cancelled\<close> is what \<open>cancel_run\<close> returns for the session of the chat.\<close>

definition cmd_stop :: "route_env \<Rightarrow> inbound \<Rightarrow> bool \<Rightarrow> router \<Rightarrow> router" where
  "cmd_stop env m cancelled s = (case get_chat (rt_db s) (in_inst m) (in_chat m) of
      None \<Rightarrow> send_reply (in_chat m) MsgStopNone s
    | Some c \<Rightarrow> send_reply (in_chat m) (if cancelled then MsgStopOk else MsgStopNone)
        (s\<lparr>rt_desk := clear_confirms_for_session (re_cards env) (ct_session c) (rt_desk s)\<rparr>))"

section \<open>Runs\<close>

definition pending_of :: "key \<Rightarrow> router \<Rightarrow> nat" where
  "pending_of k s = (case map_of (rt_pending s) k of Some n \<Rightarrow> n | None \<Rightarrow> 0)"

text \<open>\<open>_run_serialized\<close> up to the lock, and what \<open>finally\<close> does.\<close>

definition run_enqueue :: "inbound \<Rightarrow> binding \<Rightarrow> router \<Rightarrow> router" where
  "run_enqueue m b s =
     (if pending_of (chat_key m) s \<ge> MAX_PENDING then send_reply (in_chat m) MsgBusy s
      else s\<lparr>rt_pending := dput (chat_key m) (Suc (pending_of (chat_key m) s)) (rt_pending s), rt_queue := rt_queue s @ [(m, b)]\<rparr>)"

definition handle_message :: "route_env \<Rightarrow> bool \<Rightarrow> inbound \<Rightarrow> router \<Rightarrow> router" where
  "handle_message env cancelled m s = (let txt = py_strip (in_text m) in
     if startswith txt ''/pair'' then cmd_pair env m txt s
     else (case get_binding (rt_db s) (in_inst m) (in_user m) of
         None \<Rightarrow> reply_unpaired env m s
       | Some b \<Rightarrow>
           if txt = ''/whoami'' then send_reply (in_chat m)
             (WhoAmI (b_user b) (if b_model b = Some [] then None else b_model b)) s
           else if txt = ''/new'' then cmd_new env m b s
           else if txt = ''/stop'' then cmd_stop env m cancelled s
           else run_enqueue m b s))"

text \<open>
  What the calls of \<open>_process\<close> return: whether there are credentials, whether the typing notice and the notice about
  skipped files could be sent, what became of the attachments, and whether the adapter sends files.
\<close>

record proc_env =
  pe_creds :: bool
  pe_typing_ok :: bool
  pe_ingest :: "string list \<times> string list"
  pe_skip_ok :: bool
  pe_media :: bool

definition download_dir :: "inbound \<Rightarrow> binding \<Rightarrow> string" where
  "download_dir m b = (case b_dir b of
      Some d \<Rightarrow> if d = [] then ''/DATA/Downloads/'' @ in_type m else d
    | None \<Rightarrow> ''/DATA/Downloads/'' @ in_type m)"

definition run_text :: "inbound \<Rightarrow> binding \<Rightarrow> string list \<Rightarrow> string" where
  "run_text m b ids = (if in_text m = [] \<and> ids \<noteq> []
     then ''[The user sent a file/image, saved to '' @ download_dir m b @ ''. Analyze it, or ask how they would like to proceed.]''
     else in_text m)"

definition start_run :: "proc_env \<Rightarrow> inbound \<Rightarrow> binding \<Rightarrow> string \<Rightarrow> router \<Rightarrow> router" where
  "start_run pe m b sid s =
     (if \<not> pe_typing_ok pe then s
      else (let (ids, skipped) = (if in_files m = [] then ([], []) else pe_ingest pe);
                s = (if skipped = [] then s else send_reply (in_chat m) (FilesSkipped skipped) s) in
        if skipped \<noteq> [] \<and> \<not> pe_skip_ok pe then s
        else if in_text m = [] \<and> ids = [] then s
        else s\<lparr>rt_starts := rt_starts s @ [\<lparr>st_session = sid, st_user = b_user b, st_text = run_text m b ids,
            st_username = (case b_username b of None \<Rightarrow> [] | Some n \<Rightarrow> n), st_files = ids, st_media = pe_media pe\<rparr>]\<rparr>))"

definition process :: "route_env \<Rightarrow> proc_env \<Rightarrow> inbound \<Rightarrow> binding \<Rightarrow> router \<Rightarrow> router" where
  "process env pe m b s =
     (if b_model b = None \<or> b_model b = Some [] then send_reply (in_chat m) MsgNoModel s
      else if \<not> pe_creds pe then send_reply (in_chat m) MsgCredsFailed s
      else (case get_chat (rt_db s) (in_inst m) (in_chat m) of
          Some c \<Rightarrow> start_run pe m b (ct_session c) s
        | None \<Rightarrow> (case fresh_session env m b (rt_db s) of
              (None, db) \<Rightarrow> s\<lparr>rt_db := db\<rparr>
            | (Some sid, db) \<Rightarrow> start_run pe m b sid (s\<lparr>rt_db := db\<rparr>))))"

definition next_message :: "key \<Rightarrow> router \<Rightarrow> (inbound \<times> binding) option" where
  "next_message k s = List.find (\<lambda>(m, b). chat_key m = k) (rt_queue s)"

text \<open>The first message of a chat gets the lock; later its run ends, the lock is given back and the count goes down.\<close>

definition lock_and_process :: "route_env \<Rightarrow> proc_env \<Rightarrow> key \<Rightarrow> router \<Rightarrow> router" where
  "lock_and_process env pe k s = (case next_message k s of
      None \<Rightarrow> s
    | Some (m, b) \<Rightarrow> if k \<in> set (rt_busy s) then s else process env pe m b (s\<lparr>rt_busy := k # rt_busy s\<rparr>))"

fun drop_first :: "('a \<Rightarrow> bool) \<Rightarrow> 'a list \<Rightarrow> 'a list" where
  "drop_first P [] = []"
| "drop_first P (x # xs) = (if P x then xs else x # drop_first P xs)"

definition run_ends :: "key \<Rightarrow> router \<Rightarrow> router" where
  "run_ends k s =
     (if k \<in> set (rt_busy s)
      then s\<lparr>rt_busy := filter (\<lambda>k'. k' \<noteq> k) (rt_busy s), rt_queue := drop_first (\<lambda>(m, b). chat_key m = k) (rt_queue s),
             rt_pending := dput k (pending_of k s - 1) (rt_pending s)\<rparr>
      else s)"

section \<open>Histories\<close>

datatype route_event = Accepted inbound string chan_db | Started inbound run_start

definition accept_event :: "inbound \<Rightarrow> router \<Rightarrow> router \<Rightarrow> route_event list" where
  "accept_event m s s' = (case get_binding (rt_db s) (in_inst m) (in_user m) of
      None \<Rightarrow> []
    | Some b \<Rightarrow> if length (rt_queue s') > length (rt_queue s) then [Accepted m (b_user b) (rt_db s)] else [])"

definition start_event :: "key \<Rightarrow> router \<Rightarrow> router \<Rightarrow> route_event list" where
  "start_event k s s' = (case next_message k s of
      None \<Rightarrow> []
    | Some (m, b) \<Rightarrow> map (Started m) (drop (length (rt_starts s)) (rt_starts s')))"

inductive router_run :: "(string \<Rightarrow> string) \<Rightarrow> route_event list \<Rightarrow> router \<Rightarrow> bool" for hash where
  start: "router_run hash [] \<lparr>rt_db = chan_init, rt_desk = d, rt_pending = [], rt_unpaired = [], rt_fails = [],
     rt_queue = [], rt_busy = [], rt_outbox = [], rt_starts = []\<rparr>"
| message: "router_run hash tr s \<Longrightarrow> re_hash env = hash \<Longrightarrow> s' = handle_message env cancelled m s \<Longrightarrow>
    router_run hash (accept_event m s s' @ tr) s'"
| begin_run: "router_run hash tr s \<Longrightarrow> s' = lock_and_process env pe k s \<Longrightarrow> router_run hash (start_event k s s' @ tr) s'"
| end_run: "router_run hash tr s \<Longrightarrow> router_run hash tr (run_ends k s)"
| others: "router_run hash tr s \<Longrightarrow> chan_run hash ctr db \<Longrightarrow> router_run hash tr (s\<lparr>rt_db := db, rt_desk := d\<rparr>)"

section \<open>Lemmas\<close>

lemma send_keeps [simp]:
  "rt_db (send_reply c r s) = rt_db s" "rt_queue (send_reply c r s) = rt_queue s" "rt_pending (send_reply c r s) = rt_pending s"
  "rt_busy (send_reply c r s) = rt_busy s" "rt_starts (send_reply c r s) = rt_starts s" "rt_desk (send_reply c r s) = rt_desk s"
  "rt_fails (send_reply c r s) = rt_fails s" "rt_unpaired (send_reply c r s) = rt_unpaired s"
  "rt_outbox (send_reply c r s) = rt_outbox s @ [(c, r)]"
  by (simp_all add: send_reply_def)

lemma pending_send [simp]: "pending_of k (send_reply c r s) = pending_of k s"
  by (simp add: pending_of_def)

lemma pending_cong: "rt_pending s' = rt_pending s \<Longrightarrow> pending_of k s' = pending_of k s"
  by (simp add: pending_of_def)

text \<open>The commands leave queue, counts, locks and runs alone.\<close>

definition same_runs :: "router \<Rightarrow> router \<Rightarrow> bool" where
  "same_runs s s' \<longleftrightarrow> rt_queue s' = rt_queue s \<and> rt_pending s' = rt_pending s \<and> rt_busy s' = rt_busy s \<and> rt_starts s' = rt_starts s"

lemma same_runs_simps [simp]:
  "same_runs s s" "same_runs s (send_reply c r s') = same_runs s s'" "same_runs s (s'\<lparr>rt_db := db\<rparr>) = same_runs s s'"
  "same_runs s (s'\<lparr>rt_desk := d\<rparr>) = same_runs s s'" "same_runs s (s'\<lparr>rt_fails := f\<rparr>) = same_runs s s'" "same_runs s (s'\<lparr>rt_unpaired := g\<rparr>) = same_runs s s'"
  by (simp_all add: same_runs_def)

lemma cmd_pair_runs: "same_runs s (cmd_pair env m txt s)"
  by (auto simp: cmd_pair_def Let_def split: list.split sum.split prod.split option.split)

lemma cmd_new_runs: "same_runs s (cmd_new env m b s)"
  by (auto simp: cmd_new_def split: prod.split option.split)

lemma cmd_stop_runs: "same_runs s (cmd_stop env m c s)"
  by (auto simp: cmd_stop_def split: option.split)

lemma reply_unpaired_runs: "same_runs s (reply_unpaired env m s)"
  by (auto simp: reply_unpaired_def Let_def)

lemma handle_cases:
  obtains (quiet) "same_runs s (handle_message env c m s)"
  | (queued) b where "get_binding (rt_db s) (in_inst m) (in_user m) = Some b" "pending_of (chat_key m) s < MAX_PENDING"
      "handle_message env c m s = s\<lparr>rt_pending := dput (chat_key m) (Suc (pending_of (chat_key m) s)) (rt_pending s), rt_queue := rt_queue s @ [(m, b)]\<rparr>"
proof (cases "startswith (py_strip (in_text m)) ''/pair'' \<or> get_binding (rt_db s) (in_inst m) (in_user m) = None \<or>
    py_strip (in_text m) \<in> {''/whoami'', ''/new'', ''/stop''} \<or> pending_of (chat_key m) s \<ge> MAX_PENDING")
  case True
  then show ?thesis
    by (intro quiet)
      (auto simp: handle_message_def Let_def cmd_pair_runs cmd_new_runs cmd_stop_runs reply_unpaired_runs run_enqueue_def split: option.split)
next
  case False
  then show ?thesis by (auto simp: handle_message_def Let_def run_enqueue_def intro!: queued)
qed

text \<open>Every table the router makes is the table of some history of the store.\<close>

definition real_db :: "(string \<Rightarrow> string) \<Rightarrow> chan_db \<Rightarrow> bool" where
  "real_db hash db \<longleftrightarrow> (\<exists>ctr. chan_run hash ctr db)"

lemma fresh_session_real: "real_db hash db \<Longrightarrow> real_db hash (snd (fresh_session env m b db))"
proof -
  assume "real_db hash db"
  then obtain ctr where run: "chan_run hash ctr db" by (auto simp: real_db_def)
  obtain r db1 where db1: "create_channel_session (re_id env 1) (b_user b) (in_type m) (re_now_s env) db = (r, db1)" by fastforce
  have run1: "chan_run hash ctr db1"
    using chan_run.session [OF run, of "re_id env 1" "b_user b" "in_type m" "re_now_s env"] db1 by simp
  show ?thesis
  proof (cases r)
    case (Inr sid)
    obtain r2 db2 where db2: "upsert_chat (re_id env 2) (in_inst m) (in_chat m) (b_id b) sid (re_now_ms env) db1 = (r2, db2)" by fastforce
    have "chan_run hash ctr db2"
      using chan_run.chat [OF run1, of "re_id env 2" "in_inst m" "in_chat m" "b_id b" sid "re_now_ms env"] db2 by simp
    with Inr db1 db2 show ?thesis by (auto simp: fresh_session_def real_db_def split: sum.split)
  qed (use db1 run1 in \<open>auto simp: fresh_session_def real_db_def\<close>)
qed

lemma redeem_real:
  "real_db hash db \<Longrightarrow> real_db hash (snd (redeem_pairing_code hash bid i code e uname now db))"
  unfolding real_db_def using chan_run.redeem by blast

lemma cmd_pair_real: "real_db (re_hash env) (rt_db s) \<Longrightarrow> real_db (re_hash env) (rt_db (cmd_pair env m txt s))"
  using redeem_real [of "re_hash env" "rt_db s" "re_id env 0" "in_inst m" _ "in_user m" "in_username m" "re_now_ms env"]
  by (auto simp: cmd_pair_def Let_def split: list.split sum.split prod.split option.split) (metis snd_conv)+

lemma handle_real: "real_db (re_hash env) (rt_db s) \<Longrightarrow> real_db (re_hash env) (rt_db (handle_message env c m s))"
proof -
  assume r: "real_db (re_hash env) (rt_db s)"
  have n: "real_db (re_hash env) (rt_db (cmd_new env m b s))" for b
    using fresh_session_real [OF r, of env m b] by (auto simp: cmd_new_def split: prod.split option.split)
  from r show ?thesis
    by (auto simp: handle_message_def Let_def cmd_pair_real n cmd_stop_def reply_unpaired_def run_enqueue_def split: option.split)
qed

text \<open>Processing a message starts at most one run, for the user of the binding.\<close>

lemma start_run_effect:
  "\<exists>xs. rt_starts (start_run pe m b sid s) = rt_starts s @ xs \<and> length xs \<le> 1 \<and> (\<forall>r\<in>set xs. st_user r = b_user b)"
  "rt_queue (start_run pe m b sid s) = rt_queue s" "rt_pending (start_run pe m b sid s) = rt_pending s"
  "rt_busy (start_run pe m b sid s) = rt_busy s" "rt_db (start_run pe m b sid s) = rt_db s"
  by (auto simp: start_run_def Let_def split: prod.split)

lemma process_effect:
  "\<exists>xs. rt_starts (process env pe m b s) = rt_starts s @ xs \<and> length xs \<le> 1 \<and> (\<forall>r\<in>set xs. st_user r = b_user b)"
  "rt_queue (process env pe m b s) = rt_queue s" "rt_pending (process env pe m b s) = rt_pending s" "rt_busy (process env pe m b s) = rt_busy s"
  "real_db hash (rt_db s) \<Longrightarrow> real_db hash (rt_db (process env pe m b s))"
  using fresh_session_real [of hash "rt_db s" env m b] start_run_effect(1) [of pe m b _ "s\<lparr>rt_db := _\<rparr>"]
    start_run_effect(1) [of pe m b _ s]
  by (auto simp: process_def start_run_effect split: option.split prod.split)

section \<open>The invariants of the router\<close>

definition in_flight :: "key \<Rightarrow> router \<Rightarrow> nat" where
  "in_flight k s = length (filter (\<lambda>(m, b). chat_key m = k) (rt_queue s))"

definition serial_inv :: "router \<Rightarrow> bool" where
  "serial_inv s \<longleftrightarrow> (\<forall>k. pending_of k s = in_flight k s \<and> in_flight k s \<le> MAX_PENDING) \<and>
     distinct (rt_busy s) \<and> (\<forall>k\<in>set (rt_busy s). in_flight k s \<ge> 1)"

lemma drop_first_count:
  "length (filter Q (drop_first P xs)) + (case List.find P xs of Some x \<Rightarrow> if Q x then 1 else 0 | None \<Rightarrow> 0) = length (filter Q xs)"
  by (induction xs) (auto split: option.splits)

lemma find_count_pos: "length (filter P xs) \<ge> 1 \<Longrightarrow> \<exists>x. List.find P xs = Some x"
  by (induction xs) auto

lemma serial_cong:
  "rt_queue s' = rt_queue s \<Longrightarrow> rt_pending s' = rt_pending s \<Longrightarrow> rt_busy s' = rt_busy s \<Longrightarrow> serial_inv s \<Longrightarrow> serial_inv s'"
  by (simp add: serial_inv_def in_flight_def pending_of_def)

lemma serial_end: "serial_inv s \<Longrightarrow> serial_inv (run_ends k s)"
proof (cases "k \<in> set (rt_busy s)")
  case True
  assume inv: "serial_inv s"
  with True have "in_flight k s \<ge> 1" by (simp add: serial_inv_def)
  then obtain x where x: "List.find (\<lambda>(m, b). chat_key m = k) (rt_queue s) = Some x"
    unfolding in_flight_def using find_count_pos by blast
  have kx: "chat_key (fst x) = k" using find_Some_set [OF x] by (simp add: case_prod_beta)
  define s' where "s' = run_ends k s"
  have q: "in_flight k' s' = in_flight k' s - (if k' = k then 1 else 0)" for k'
    using True x kx drop_first_count [of "\<lambda>(m, b). chat_key m = k'" "\<lambda>(m, b). chat_key m = k" "rt_queue s"]
    unfolding in_flight_def s'_def run_ends_def by (auto simp: case_prod_beta)
  have p: "pending_of k' s' = (if k' = k then pending_of k s - 1 else pending_of k' s)" for k'
    using True by (simp add: s'_def run_ends_def pending_of_def)
  have busy: "rt_busy s' = filter (\<lambda>k'. k' \<noteq> k) (rt_busy s)" using True by (simp add: s'_def run_ends_def)
  have i: "pending_of k' s = in_flight k' s" "in_flight k' s \<le> MAX_PENDING" for k' using inv unfolding serial_inv_def by blast+
  have "serial_inv s'"
    unfolding serial_inv_def
  proof (intro conjI allI ballI)
    fix k'
    show "pending_of k' s' = in_flight k' s'" by (simp add: p q i)
    show "in_flight k' s' \<le> MAX_PENDING" using i(2) [of k'] by (simp add: q)
  next
    show "distinct (rt_busy s')" using inv by (simp add: busy serial_inv_def)
  next
    fix k' assume "k' \<in> set (rt_busy s')"
    then show "1 \<le> in_flight k' s'" using inv by (simp add: q busy serial_inv_def)
  qed
  then show ?thesis by (simp add: s'_def)
qed (simp add: run_ends_def)

lemma serial_lock: "serial_inv s \<Longrightarrow> serial_inv (lock_and_process env pe k s)"
proof (cases "next_message k s")
  case (Some x)
  assume inv: "serial_inv s"
  obtain m b where x: "x = (m, b)" by fastforce
  have "x \<in> set (filter (\<lambda>(m, b). chat_key m = k) (rt_queue s))" using find_Some_set [OF Some [unfolded next_message_def]] by simp
  from length_pos_if_in_set [OF this] have "in_flight k s \<ge> 1" unfolding in_flight_def by linarith
  with inv have "serial_inv (s\<lparr>rt_busy := k # rt_busy s\<rparr>)" if "k \<notin> set (rt_busy s)"
    using that by (simp add: serial_inv_def in_flight_def pending_of_def)
  then show ?thesis
    using inv Some x serial_cong [OF process_effect(2,3,4)] by (simp add: lock_and_process_def)
qed (simp add: lock_and_process_def)

lemma serial_message: "serial_inv s \<Longrightarrow> serial_inv (handle_message env c m s)"
proof (cases rule: handle_cases [of s env c m])
  case quiet
  then show "serial_inv s \<Longrightarrow> ?thesis" by (auto simp: same_runs_def intro: serial_cong)
next
  case (queued b)
  assume inv: "serial_inv s"
  define s' where "s' = handle_message env c m s"
  have q: "in_flight k s' = in_flight k s + (if k = chat_key m then 1 else 0)" for k
    by (simp add: s'_def queued(3) in_flight_def)
  have p: "pending_of k s' = pending_of k s + (if k = chat_key m then 1 else 0)" for k
    by (simp add: s'_def queued(3) pending_of_def)
  have busy: "rt_busy s' = rt_busy s" by (simp add: s'_def queued(3))
  have i: "pending_of k s = in_flight k s" "in_flight k s \<le> MAX_PENDING" for k using inv unfolding serial_inv_def by blast+
  have "serial_inv s'"
    unfolding serial_inv_def
  proof (intro conjI allI ballI)
    fix k
    show "pending_of k s' = in_flight k s'" by (simp add: p q i)
    show "in_flight k s' \<le> MAX_PENDING" using i(2) [of k] i(1) [of "chat_key m"] queued(2) by (simp add: q)
  next
    show "distinct (rt_busy s')" using inv by (simp add: busy serial_inv_def)
  next
    fix k assume "k \<in> set (rt_busy s')"
    then show "1 \<le> in_flight k s'" using inv by (simp add: q busy serial_inv_def)
  qed
  then show ?thesis by (simp add: s'_def)
qed

lemma serial_run: "router_run hash tr s \<Longrightarrow> serial_inv s"
proof (induction rule: router_run.induct)
  case (start d)
  show ?case by (simp add: serial_inv_def in_flight_def pending_of_def)
next
  case (others tr s ctr db d)
  then show ?case by (auto intro: serial_cong)
qed (simp_all add: serial_message serial_lock serial_end)

section \<open>Only paired accounts start runs\<close>

definition entitled :: "(string \<Rightarrow> string) \<Rightarrow> route_event list \<Rightarrow> inbound \<Rightarrow> string \<Rightarrow> bool" where
  "entitled hash tr m u \<longleftrightarrow> (\<exists>db ctr. Accepted m u db \<in> set tr \<and> chan_run hash ctr db \<and> owner_of ctr (in_inst m) (in_user m) = Some u)"

lemma entitled_mono: "entitled hash tr m u \<Longrightarrow> set tr \<subseteq> set tr' \<Longrightarrow> entitled hash tr' m u"
  unfolding entitled_def by blast

definition route_inv :: "(string \<Rightarrow> string) \<Rightarrow> route_event list \<Rightarrow> router \<Rightarrow> bool" where
  "route_inv hash tr s \<longleftrightarrow> real_db hash (rt_db s) \<and> (\<forall>(m, b)\<in>set (rt_queue s). entitled hash tr m (b_user b)) \<and>
     (\<forall>r\<in>set (rt_starts s). \<exists>m. Started m r \<in> set tr \<and> entitled hash tr m (st_user r))"

lemma set_drop_first: "set (drop_first P xs) \<subseteq> set xs"
  by (induction xs) auto

lemma route_inv_mono:
  assumes "route_inv hash tr s" "set tr \<subseteq> set tr'" "real_db hash (rt_db s')" "set (rt_queue s') \<subseteq> set (rt_queue s)" "rt_starts s' = rt_starts s"
  shows "route_inv hash tr' s'"
proof -
  have "entitled hash tr' m (b_user b)" if "(m, b) \<in> set (rt_queue s')" for m b
    using assms(1,4) that entitled_mono [OF _ assms(2)] unfolding route_inv_def by blast
  moreover have "\<exists>m. Started m r \<in> set tr' \<and> entitled hash tr' m (st_user r)" if "r \<in> set (rt_starts s')" for r
    using assms(1,2,5) that entitled_mono [OF _ assms(2)] unfolding route_inv_def by (metis subsetD)
  ultimately show ?thesis using assms(3) unfolding route_inv_def by blast
qed

lemma route_message:
  assumes "route_inv (re_hash env) tr s"
  shows "route_inv (re_hash env) (accept_event m s (handle_message env c m s) @ tr) (handle_message env c m s)"
proof -
  have r: "real_db (re_hash env) (rt_db (handle_message env c m s))"
    by (rule handle_real) (use assms in \<open>simp add: route_inv_def\<close>)
  show ?thesis
  proof (cases rule: handle_cases [of s env c m])
    case quiet
    then show ?thesis by (intro route_inv_mono [OF assms _ r]) (auto simp: same_runs_def)
  next
    case (queued b)
    have ev: "accept_event m s (handle_message env c m s) = [Accepted m (b_user b) (rt_db s)]"
      by (simp add: accept_event_def queued)
    obtain ctr where ctr: "chan_run (re_hash env) ctr (rt_db s)" using assms by (auto simp: route_inv_def real_db_def)
    have "owner_of ctr (in_inst m) (in_user m) = Some (b_user b)"
      using run_owner [OF ctr, of "in_inst m" "in_user m"] queued(1) by (simp add: paired_def)
    with ctr have new: "entitled (re_hash env) (Accepted m (b_user b) (rt_db s) # tr) m (b_user b)"
      unfolding entitled_def by auto
    have "route_inv (re_hash env) (Accepted m (b_user b) (rt_db s) # tr) (s\<lparr>rt_db := rt_db (handle_message env c m s)\<rparr>)"
      by (rule route_inv_mono [OF assms]) (use r in auto)
    with new show ?thesis unfolding ev unfolding queued(3) by (simp add: route_inv_def)
  qed
qed

lemma route_lock:
  assumes "route_inv hash tr s"
  shows "route_inv hash (start_event k s (lock_and_process env pe k s) @ tr) (lock_and_process env pe k s)"
proof (cases "next_message k s = None \<or> k \<in> set (rt_busy s)")
  case True
  then show ?thesis using assms by (auto simp: lock_and_process_def start_event_def split: option.split)
next
  case False
  then obtain m b where n: "next_message k s = Some (m, b)" and k: "k \<notin> set (rt_busy s)" by auto
  define s1 where "s1 = s\<lparr>rt_busy := k # rt_busy s\<rparr>"
  have s': "lock_and_process env pe k s = process env pe m b s1" by (simp add: lock_and_process_def n k s1_def)
  obtain xs where xs: "rt_starts (process env pe m b s1) = rt_starts s @ xs" "\<forall>r\<in>set xs. st_user r = b_user b"
    using process_effect(1) [of env pe m b s1] by (auto simp: s1_def)
  have ev: "start_event k s (lock_and_process env pe k s) = map (Started m) xs"
    by (simp add: start_event_def n s' xs)
  have real: "real_db hash (rt_db s1)" using assms by (simp add: route_inv_def s1_def)
  have "(m, b) \<in> set (rt_queue s)" using find_Some_set [OF n [unfolded next_message_def]] by simp
  with assms have "entitled hash tr m (b_user b)" by (auto simp: route_inv_def)
  with xs(2) have new: "\<forall>r\<in>set xs. Started m r \<in> set (map (Started m) xs @ tr) \<and> entitled hash (map (Started m) xs @ tr) m (st_user r)"
    using entitled_mono [of hash tr m "b_user b" "map (Started m) xs @ tr"] by auto
  have "route_inv hash (map (Started m) xs @ tr) (s\<lparr>rt_db := rt_db (process env pe m b s1)\<rparr>)"
    by (rule route_inv_mono [OF assms]) (use process_effect(5) [OF real] in auto)
  with new show ?thesis
    unfolding ev unfolding s'
  proof -
    assume inv: "route_inv hash (map (Started m) xs @ tr) (s\<lparr>rt_db := rt_db (process env pe m b s1)\<rparr>)"
    have "rt_queue (process env pe m b s1) = rt_queue s" by (simp add: process_effect s1_def)
    moreover have "\<exists>ma. Started ma r \<in> set (map (Started m) xs @ tr) \<and> entitled hash (map (Started m) xs @ tr) ma (st_user r)"
      if r: "r \<in> set (rt_starts (process env pe m b s1))" for r
    proof -
      consider (old) "r \<in> set (rt_starts s)" | (started) "r \<in> set xs" using r xs(1) by auto
      then show ?thesis
      proof cases
        case old
        with inv show ?thesis unfolding route_inv_def by simp
      next
        case started
        with new show ?thesis by blast
      qed
    qed
    ultimately show "route_inv hash (map (Started m) xs @ tr) (process env pe m b s1)"
      using inv new unfolding route_inv_def xs(1) by (auto simp: ball_Un)
  qed
qed

lemma route_run: "router_run hash tr s \<Longrightarrow> route_inv hash tr s"
proof (induction rule: router_run.induct)
  case (start d)
  show ?case using chan_run.start by (auto simp: route_inv_def real_db_def)
next
  case (message tr s env s' cancelled m)
  then show ?case using route_message by blast
next
  case (begin_run tr s s' env pe k)
  then show ?case using route_lock by blast
next
  case (end_run tr s k)
  show ?case by (rule route_inv_mono [OF end_run(2)]) (use end_run(2) in \<open>auto simp: run_ends_def route_inv_def dest: subsetD [OF set_drop_first]\<close>)
next
  case (others tr s ctr db d)
  show ?case by (rule route_inv_mono [OF others(3)]) (use others(2) in \<open>auto simp: real_db_def\<close>)
qed

text \<open>An account that is not paired gets the hint at most, and not twice within the interval.\<close>
lemma unpaired_gets_a_hint:
  assumes "get_binding (rt_db s) (in_inst m) (in_user m) = None" "\<not> startswith (py_strip (in_text m)) ''/pair''"
  shows "handle_message env c m s = (if \<exists>t. map_of (rt_unpaired s) (account_key m) = Some t \<and> re_mono env - t < UNPAIRED_REPLY_INTERVAL then s
     else s\<lparr>rt_unpaired := prune_keys (dput (account_key m) (re_mono env) (rt_unpaired s)), rt_outbox := rt_outbox s @ [(in_chat m, MsgUnpaired)]\<rparr>)"
  using assms by (auto simp: handle_message_def Let_def reply_unpaired_def send_reply_def split: option.splits)

text \<open>The dictionaries that strangers can fill stay below the cap.\<close>
lemma prune_bound: "length (prune_keys d) \<le> MAX_TRACKED_KEYS"
  by (simp add: prune_keys_def MAX_TRACKED_KEYS_def)

text \<open>The limit on failed attempts silences the reply; the code is tried, and pairs, whatever the count.\<close>
lemma pair_limit_only_silences:
  assumes "split_ws txt = [cmd, code]" "redeem_pairing_code (re_hash env) (re_id env 0) (in_inst m) code (in_user m) (in_username m) (re_now_ms env) (rt_db s) = (Inr (Some b), db)"
  shows "rt_db (cmd_pair env m txt s) = db" "last (rt_outbox (cmd_pair env m txt s)) = (in_chat m, MsgPairOk)"
  using assms by (simp_all add: cmd_pair_def)

text \<open>A small history: a paired account sends a message, its chat gets the lock and a run starts.\<close>

definition demo_chan_db :: chan_db where
  "demo_chan_db = \<lparr>instances = [],
     bindings = [\<lparr>b_id = ''b'', b_inst = ''tg'', b_ext = ''x'', b_username = None, b_user = ''ann'', b_model = Some ''m'', b_dir = None,
       b_revoked = False, b_created = 5\<rparr>],
     pair_codes = [\<lparr>pc_id = ''k'', pc_hash = ''00000007'', pc_inst = ''tg'', pc_user = ''ann'', pc_expires = PAIRING_TTL_MS, pc_used = Some 5\<rparr>],
     chats = [], ch_sessions = []\<rparr>"

lemma demo_chan_run: "chan_run (\<lambda>s. s) demo_history demo_chan_db"
proof -
  have code: "code_of 7 = ''00000007''" by code_simp
  define db1 where "db1 = snd (create_pairing_code (\<lambda>s. s) ''k'' 7 ''tg'' ''ann'' 0 chan_init)"
  have db1: "create_pairing_code (\<lambda>s. s) ''k'' 7 ''tg'' ''ann'' 0 chan_init = (Inr (''00000007'', PAIRING_TTL_MS), db1)"
    by (simp add: db1_def create_pairing_code_def chan_init_def code Let_def)
  define db2 where "db2 = snd (redeem_pairing_code (\<lambda>s. s) ''b'' ''tg'' ''00000007'' ''x'' None 5 db1)"
  have ev: "redeem_event (\<lambda>s. s) ''b'' ''tg'' ''00000007'' ''x'' 5 db1 = [Redeemed ''tg'' ''00000007'' ''ann'' ''x'' 5]"
    by (simp add: redeem_event_def db1_def create_pairing_code_def chan_init_def code Let_def code_open_def PAIRING_TTL_MS_def)
  have "chan_run (\<lambda>s. s) demo_history db2"
    using chan_run.redeem [OF chan_run.issue [OF chan_run.start db1], of "''b''" "''tg''" "''00000007''" "''x''" 5 None]
    unfolding db2_def ev demo_history_def by simp
  from chan_run.model [OF this, of "''ann''" "''b''" "''m''"]
  show ?thesis
    by (simp add: db2_def db1_def create_pairing_code_def redeem_pairing_code_def chan_init_def code Let_def code_open_def PAIRING_TTL_MS_def
        set_where_def upsert_row_def bind_account_def set_binding_model_def update_binding_def demo_chan_db_def)
qed

definition demo_inbound :: inbound where
  "demo_inbound = \<lparr>in_type = ''telegram'', in_inst = ''tg'', in_chat = ''7'', in_user = ''x'', in_username = None, in_text = ''hi'', in_files = []\<rparr>"

definition demo_renv :: route_env where
  "demo_renv = \<lparr>re_hash = (\<lambda>s. s), re_mono = 0, re_now_ms = 6, re_now_s = 0, re_id = (\<lambda>n. if n = 1 then ''s'' else ''c''), re_cards = demo_card_env\<rparr>"

definition demo_penv :: proc_env where
  "demo_penv = \<lparr>pe_creds = True, pe_typing_ok = True, pe_ingest = ([], []), pe_skip_ok = True, pe_media = False\<rparr>"

definition demo_r1 :: router where
  "demo_r1 = handle_message demo_renv False demo_inbound \<lparr>rt_db = demo_chan_db, rt_desk = demo_desk, rt_pending = [], rt_unpaired = [], rt_fails = [],
     rt_queue = [], rt_busy = [], rt_outbox = [], rt_starts = []\<rparr>"

definition demo_r2 :: router where
  "demo_r2 = lock_and_process demo_renv demo_penv (''tg'', ''7'') demo_r1"

definition demo_run_start :: run_start where
  "demo_run_start = \<lparr>st_session = ''s'', st_user = ''ann'', st_text = ''hi'', st_username = [], st_files = [], st_media = False\<rparr>"

lemma demo_queued: "rt_queue demo_r1 = [(demo_inbound, hd (bindings demo_chan_db))]" "rt_starts demo_r1 = []" "rt_busy demo_r1 = []" "rt_db demo_r1 = demo_chan_db"
proof -
  have "py_strip ''hi'' = ''hi''" by code_simp
  then show "rt_queue demo_r1 = [(demo_inbound, hd (bindings demo_chan_db))]" "rt_starts demo_r1 = []" "rt_busy demo_r1 = []" "rt_db demo_r1 = demo_chan_db"
    by (simp_all add: demo_r1_def handle_message_def demo_inbound_def demo_chan_db_def get_binding_def run_enqueue_def pending_of_def MAX_PENDING_def Let_def)
qed

lemma demo_started: "rt_starts demo_r2 = [demo_run_start]"
  by (simp add: demo_r2_def lock_and_process_def next_message_def demo_queued chat_key_def demo_inbound_def demo_chan_db_def process_def demo_penv_def
      demo_renv_def demo_run_start_def get_chat_def fresh_session_def create_channel_session_def upsert_chat_def start_run_def run_text_def)

lemma demo_router_run: "\<exists>tr. router_run (\<lambda>s. s) tr demo_r2"
proof -
  have "router_run (\<lambda>s. s) [] \<lparr>rt_db = demo_chan_db, rt_desk = demo_desk, rt_pending = [], rt_unpaired = [], rt_fails = [],
     rt_queue = [], rt_busy = [], rt_outbox = [], rt_starts = []\<rparr>"
    using router_run.others [OF router_run.start demo_chan_run, of demo_desk demo_desk] by simp
  from router_run.message [OF this, of demo_renv demo_r1 False demo_inbound]
  obtain tr where "router_run (\<lambda>s. s) tr demo_r1" by (auto simp: demo_r1_def demo_renv_def)
  from router_run.begin_run [OF this demo_r2_def] show ?thesis by blast
qed

section \<open>Properties\<close>

text \<open>
  C36. Only paired accounts start runs: in every history of the router, whatever happens to the store in between, each run
  was started for a message that was accepted when its account belonged to the user the run is for, by the history
  of the store at that moment.
\<close>
theorem runs_need_pairing:
  assumes "router_run hash tr s" "r \<in> set (rt_starts s)"
  shows "\<exists>m db ctr. Started m r \<in> set tr \<and> Accepted m (st_user r) db \<in> set tr \<and> chan_run hash ctr db \<and>
    owner_of ctr (in_inst m) (in_user m) = Some (st_user r)"
  using route_run [OF assms(1)] assms(2) unfolding route_inv_def entitled_def by blast

text \<open>
  A chat has one run at a time and at most three messages in flight: the count of the chat is the number of its
  messages that wait or run, it never exceeds three, a held lock belongs to one of them, nothing starts while the lock is
  held, and getting the lock starts one run at most.
\<close>
theorem chat_runs_one_at_a_time:
  assumes "router_run hash tr s"
  shows "pending_of k s = in_flight k s \<and> in_flight k s \<le> 3 \<and> distinct (rt_busy s) \<and>
    (k \<in> set (rt_busy s) \<longrightarrow> in_flight k s \<ge> 1 \<and> lock_and_process env pe k s = s) \<and>
    length (rt_starts (lock_and_process env pe k s)) \<le> Suc (length (rt_starts s))"
proof (intro conjI impI)
  have inv: "serial_inv s" by (rule serial_run [OF assms])
  then show "pending_of k s = in_flight k s" unfolding serial_inv_def by blast
  have "in_flight k s \<le> MAX_PENDING" using inv unfolding serial_inv_def by blast
  then show "in_flight k s \<le> 3" by (simp add: MAX_PENDING_def)
  show "distinct (rt_busy s)" using inv by (simp add: serial_inv_def)
  show "in_flight k s \<ge> 1" if "k \<in> set (rt_busy s)" using inv that by (simp add: serial_inv_def)
  show "lock_and_process env pe k s = s" if "k \<in> set (rt_busy s)" using that by (simp add: lock_and_process_def split: option.split)
  have "length (rt_starts (process env pe m b (s\<lparr>rt_busy := l\<rparr>))) \<le> Suc (length (rt_starts s))" for m b l
    using process_effect(1) [of env pe m b "s\<lparr>rt_busy := l\<rparr>"] by auto
  then show "length (rt_starts (lock_and_process env pe k s)) \<le> Suc (length (rt_starts s))"
    by (auto simp: lock_and_process_def le_SucI split: option.split)
qed

theorem runs_need_pairing_witness:
  "\<exists>tr m db ctr. router_run (\<lambda>s. s) tr demo_r2 \<and> rt_starts demo_r2 = [demo_run_start] \<and> Accepted m ''ann'' db \<in> set tr \<and>
     chan_run (\<lambda>s. s) ctr db \<and> owner_of ctr (in_inst m) (in_user m) = Some ''ann''"
proof -
  obtain tr where run: "router_run (\<lambda>s. s) tr demo_r2" using demo_router_run by blast
  have mem: "demo_run_start \<in> set (rt_starts demo_r2)" by (simp add: demo_started)
  obtain m db ctr where "Accepted m (st_user demo_run_start) db \<in> set tr" "chan_run (\<lambda>s. s) ctr db"
    "owner_of ctr (in_inst m) (in_user m) = Some (st_user demo_run_start)"
    using runs_need_pairing [OF run mem] by blast
  moreover have "st_user demo_run_start = ''ann''" by (simp add: demo_run_start_def)
  ultimately show ?thesis using run demo_started by auto
qed

theorem chat_runs_one_at_a_time_witness:
  "length (rt_starts demo_r2) = 1 \<and> pending_of (''tg'', ''7'') demo_r2 \<le> 3"
proof -
  obtain tr where run: "router_run (\<lambda>s. s) tr demo_r2" using demo_router_run by blast
  from chat_runs_one_at_a_time [OF run, of "(''tg'', ''7'')"] show ?thesis by (simp add: demo_started)
qed

end
