(* ===== verification/Channel_Driver.thy ===== *)
theory Channel_Driver
  imports Py_Text
begin

text \<open>
  \<open>agent/channels/driver.py\<close> and \<open>split_text\<close> of \<open>agent/channels/model.py\<close>: how the events of a run become messages of
  a chat, and how a long message is cut into chunks. The driver reads the events of its subscription, first those of
  the past; when they end without the terminal event, its deadline has passed. Whether the n-th attempt to send a text
  succeeds is an argument; the pauses between two texts are left out, they change nothing but the time.
\<close>

section \<open>Cutting a text\<close>

definition is_break :: "int \<Rightarrow> bool" where
  "is_break c \<longleftrightarrow> c = 10 \<or> c = 32"

text \<open>\<open>str.rfind\<close> of one character: \<open>-1\<close> when it does not occur.\<close>

definition rfind :: "'a \<Rightarrow> 'a list \<Rightarrow> int" where
  "rfind c w = int (length w) - 1 - int (length (takeWhile (\<lambda>x. x \<noteq> c) (rev w)))"

definition cut_at :: "nat \<Rightarrow> codes \<Rightarrow> nat" where
  "cut_at n rest = (let window = take n rest; a = rfind 10 window; b = rfind 32 window in
     if a \<ge> int n div 2 then nat a else if b \<ge> int n div 2 then nat b else n)"

text \<open>The loop may not end, namely when \<open>n\<close> is 0; \<open>None\<close> stands for that.\<close>

partial_function (option) split_loop :: "nat \<Rightarrow> codes \<Rightarrow> codes list option" where
  "split_loop n rest =
     (if length rest > n
      then Option.bind (split_loop n (lstrip_of is_break (drop (cut_at n rest) rest)))
        (\<lambda>cs. Some (rstrip_of is_break (take (cut_at n rest) rest) # cs))
      else Some (if rest = [] then [] else [rest]))"

declare split_loop.simps [code]

definition split_text :: "codes \<Rightarrow> nat \<Rightarrow> codes list option" where
  "split_text txt n = (if txt = [] then Some [] else split_loop n txt)"

section \<open>The driver\<close>

type_synonym run_event = "(string \<times> pyval) list"

record relay =
  rl_buf :: string
  rl_sent_any :: bool
  rl_error :: "string option"
  rl_attempts :: nat
  rl_sent :: "string list"
  rl_surfaced :: "run_event list"

definition relay_init :: relay where
  "relay_init = \<lparr>rl_buf = [], rl_sent_any = False, rl_error = None, rl_attempts = 0, rl_sent = [], rl_surfaced = []\<rparr>"

text \<open>The second component says whether sending raised.\<close>

definition emit_text :: "(nat \<Rightarrow> bool) \<Rightarrow> string \<Rightarrow> relay \<Rightarrow> relay \<times> bool" where
  "emit_text ok txt s =
     (if txt = [] then (s, False)
      else if ok (rl_attempts s)
      then (s\<lparr>rl_attempts := Suc (rl_attempts s), rl_sent := rl_sent s @ [txt], rl_sent_any := True\<rparr>, False)
      else (s\<lparr>rl_attempts := Suc (rl_attempts s)\<rparr>, True))"

definition flush_buf :: "(nat \<Rightarrow> bool) \<Rightarrow> relay \<Rightarrow> relay \<times> bool" where
  "flush_buf ok s = (if py_strip (rl_buf s) \<noteq> [] then emit_text ok (rl_buf s) (s\<lparr>rl_buf := []\<rparr>) else (s\<lparr>rl_buf := []\<rparr>, False))"

definition CONFIRM_TYPES :: "string list" where
  "CONFIRM_TYPES = [''access_request'', ''confirmation_required'']"

definition ev_type :: "run_event \<Rightarrow> string" where
  "ev_type ev = (case pget ev ''type'' of PStr t \<Rightarrow> t | _ \<Rightarrow> [])"

text \<open>\<open>ev.get("content") or d\<close>; the content of these events is text.\<close>

definition content_or :: "string \<Rightarrow> run_event \<Rightarrow> string" where
  "content_or d ev = (case py_or (pget ev ''content'') (PStr d) of PStr t \<Rightarrow> t | _ \<Rightarrow> [])"

definition is_card :: "run_event \<Rightarrow> bool" where
  "is_card ev \<longleftrightarrow> ev_type ev \<in> set CONFIRM_TYPES \<and> truthy (pget ev ''confirm_id'')"

text \<open>One event; an exception of the flush before a card is logged, the card is surfaced all the same.\<close>

definition apply_event :: "(nat \<Rightarrow> bool) \<Rightarrow> run_event \<Rightarrow> relay \<Rightarrow> relay \<times> bool" where
  "apply_event ok ev s = (let t = ev_type ev in
     if t = ''message_delta'' then (s\<lparr>rl_buf := rl_buf s @ content_or [] ev\<rparr>, False)
     else if t = ''message'' then (s\<lparr>rl_buf := content_or [] ev\<rparr>, False)
     else if t \<in> set [''tool_call'', ''function_call''] then flush_buf ok s
     else if t \<in> set CONFIRM_TYPES then
       (let s' = fst (flush_buf ok s) in
        (if truthy (pget ev ''confirm_id'') then s'\<lparr>rl_surfaced := rl_surfaced s' @ [ev]\<rparr> else s', False))
     else if t = ''error'' then (s\<lparr>rl_error := Some (content_or ''agent error'' ev)\<rparr>, False)
     else (s, False))"

text \<open>An empty error text counts as no error.\<close>

definition finish_relay :: "(nat \<Rightarrow> bool) \<Rightarrow> relay \<Rightarrow> relay \<times> bool" where
  "finish_relay ok s = (case flush_buf ok s of
      (s', True) \<Rightarrow> (s', True)
    | (s', False) \<Rightarrow>
        if rl_error s' \<noteq> None \<and> rl_error s' \<noteq> Some [] then emit_text ok (''Something went wrong: '' @ the (rl_error s')) s'
        else if \<not> rl_sent_any s' then emit_text ok ''(empty reply)'' s'
        else (s', False))"

definition relay_timeout :: "relay \<Rightarrow> relay" where
  "relay_timeout s = (if rl_error s = None \<or> rl_error s = Some [] then s\<lparr>rl_error := Some ''timeout''\<rparr> else s)"

fun relay_loop :: "(nat \<Rightarrow> bool) \<Rightarrow> run_event list \<Rightarrow> relay \<Rightarrow> relay \<times> bool" where
  "relay_loop ok [] s = finish_relay ok (relay_timeout s)"
| "relay_loop ok (ev # evs) s = (case apply_event ok ev s of
      (s', True) \<Rightarrow> (s', True)
    | (s', False) \<Rightarrow> if ev_type ev = ''done'' then finish_relay ok s' else relay_loop ok evs s')"

definition relay_drive :: "(nat \<Rightarrow> bool) \<Rightarrow> run_event list \<Rightarrow> run_event list \<Rightarrow> relay \<times> bool" where
  "relay_drive ok past live = relay_loop ok (past @ live) relay_init"

section \<open>Lemmas on cutting\<close>

lemma rfind_hit:
  assumes "rfind c w \<ge> 0"
  shows "nat (rfind c w) < length w" "w ! nat (rfind c w) = c"
proof -
  let ?t = "length (takeWhile (\<lambda>x. x \<noteq> c) (rev w))"
  have lt: "?t < length w" using assms by (simp add: rfind_def)
  have i: "nat (rfind c w) = length w - Suc ?t" using lt by (simp add: rfind_def)
  show "nat (rfind c w) < length w" using lt i by simp
  have "rev w ! ?t = c" using nth_length_takeWhile [of "\<lambda>x. x \<noteq> c" "rev w"] lt by simp
  then show "w ! nat (rfind c w) = c" using lt by (simp add: i rev_nth)
qed

lemma cut_at_cases:
  assumes "length rest > n"
  obtains "cut_at n rest = n" | "cut_at n rest < n" "is_break (rest ! cut_at n rest)"
proof -
  have hit: "cut_at n rest < n \<and> is_break (rest ! cut_at n rest)"
    if "c = 10 \<or> c = 32" "rfind c (take n rest) \<ge> int n div 2" "cut_at n rest = nat (rfind c (take n rest))" for c
  proof -
    have "rfind c (take n rest) \<ge> 0" using that(2) by linarith
    from rfind_hit [OF this] that assms show ?thesis by (auto simp: is_break_def)
  qed
  show ?thesis
  proof (cases "rfind 10 (take n rest) \<ge> int n div 2")
    case True
    then have "cut_at n rest = nat (rfind 10 (take n rest))" by (simp add: cut_at_def Let_def)
    from hit [OF _ True this] that(2) show ?thesis by blast
  next
    case no: False
    show ?thesis
    proof (cases "rfind 32 (take n rest) \<ge> int n div 2")
      case True
      with no have "cut_at n rest = nat (rfind 32 (take n rest))" by (simp add: cut_at_def Let_def)
      from hit [OF _ True this] that(2) show ?thesis by blast
    next
      case False
      with no show ?thesis by (intro that(1)) (simp add: cut_at_def Let_def)
    qed
  qed
qed

lemma length_lstrip: "length (lstrip_of P xs) \<le> length xs"
  by (simp add: lstrip_of_def length_dropWhile_le)

lemma split_shrinks:
  assumes "n > 0" "length rest > n"
  shows "length (lstrip_of is_break (drop (cut_at n rest) rest)) < length rest"
  using assms(2)
proof (cases rule: cut_at_cases)
  case 1
  then show ?thesis using assms length_lstrip [of is_break "drop n rest"] by simp
next
  case 2
  then obtain x xs where x: "drop (cut_at n rest) rest = x # xs" "is_break x"
    using assms by (metis Cons_nth_drop_Suc less_trans)
  then have "length (lstrip_of is_break (drop (cut_at n rest) rest)) \<le> length xs"
    by (simp add: lstrip_of_def length_dropWhile_le)
  also have "length xs < length rest" using arg_cong [OF x(1), of length] assms 2 by simp
  finally show ?thesis .
qed

lemma cut_at_le: "length rest > n \<Longrightarrow> cut_at n rest \<le> n"
  by (cases rule: cut_at_cases) auto

text \<open>The text with its breaks taken out survives the cutting, and so do the places of the rest.\<close>

definition solid :: "codes \<Rightarrow> codes" where
  "solid t = filter (\<lambda>c. \<not> is_break c) t"

lemma solid_strip [simp]: "solid (lstrip_of is_break t) = solid t" "solid (rstrip_of is_break t) = solid t"
proof -
  have l: "solid (lstrip_of is_break t) = solid t" for t
    unfolding solid_def lstrip_of_def by (induction t) auto
  have "solid (rstrip_of is_break t) = rev (solid (lstrip_of is_break (rev t)))"
    by (simp add: solid_def rstrip_of_def lstrip_of_def rev_filter)
  then show "solid (rstrip_of is_break t) = solid t" by (simp add: l) (simp add: solid_def rev_filter)
  show "solid (lstrip_of is_break t) = solid t" by (rule l)
qed

lemma solid_append: "solid (a @ b) = solid a @ solid b"
  by (simp add: solid_def)

lemma split_loop_sound:
  assumes "n > 0"
  shows "\<exists>cs. split_loop n rest = Some cs \<and> list_all (\<lambda>c. length c \<le> n) cs \<and> solid (concat cs) = solid rest"
proof (induction rest rule: measure_induct_rule [where f = length])
  case (less rest)
  show ?case
  proof (cases "length rest > n")
    case True
    from less [OF split_shrinks [OF assms True]] obtain cs where cs:
      "split_loop n (lstrip_of is_break (drop (cut_at n rest) rest)) = Some cs" "list_all (\<lambda>c. length c \<le> n) cs"
      "solid (concat cs) = solid (drop (cut_at n rest) rest)" by auto
    have "length (rstrip_of is_break (take (cut_at n rest) rest)) \<le> n"
      using length_rstrip [of is_break "take (cut_at n rest) rest"] cut_at_le [OF True] by simp
    moreover have "solid (take (cut_at n rest) rest) @ solid (drop (cut_at n rest) rest) = solid rest"
      by (simp flip: solid_append)
    ultimately show ?thesis
      using cs True by (subst split_loop.simps) (simp add: solid_append)
  next
    case False
    then show ?thesis by (subst split_loop.simps) (simp add: solid_def)
  qed
qed

section \<open>Lemmas on the driver\<close>

lemma emit_keeps: "emit_text ok txt s = (s', e) \<Longrightarrow> rl_surfaced s' = rl_surfaced s \<and> rl_buf s' = rl_buf s \<and> rl_error s' = rl_error s"
  by (auto simp: emit_text_def split: if_splits)

lemma flush_keeps: "flush_buf ok s = (s', e) \<Longrightarrow> rl_surfaced s' = rl_surfaced s \<and> rl_error s' = rl_error s"
  by (auto simp: flush_buf_def dest!: emit_keeps split: if_splits)

lemma finish_keeps: "finish_relay ok s = (s', e) \<Longrightarrow> rl_surfaced s' = rl_surfaced s"
  by (auto simp: finish_relay_def dest!: emit_keeps flush_keeps split: prod.splits bool.splits if_splits)

lemma apply_surfaced:
  assumes "apply_event ok ev s = (s', e)"
  shows "rl_surfaced s' = rl_surfaced s @ (if is_card ev then [ev] else [])" "is_card ev \<Longrightarrow> \<not> e"
proof -
  have f: "rl_surfaced (fst (flush_buf ok s)) = rl_surfaced s" by (cases "flush_buf ok s") (simp add: flush_keeps)
  have types: "ev_type ev \<in> set CONFIRM_TYPES \<Longrightarrow> ev_type ev \<notin> set [''message_delta'', ''message'', ''tool_call'', ''function_call'']"
    by (auto simp: CONFIRM_TYPES_def)
  show "rl_surfaced s' = rl_surfaced s @ (if is_card ev then [ev] else [])"
    using assms types f unfolding apply_event_def is_card_def
    by (cases "ev_type ev \<in> set CONFIRM_TYPES") (auto simp: Let_def dest: flush_keeps split: if_splits)
  show "is_card ev \<Longrightarrow> \<not> e"
    using assms types unfolding apply_event_def is_card_def by (auto simp: Let_def split: if_splits)
qed

text \<open>The events the driver reads: up to the terminal one.\<close>

fun until_done :: "run_event list \<Rightarrow> run_event list" where
  "until_done [] = []"
| "until_done (ev # evs) = (if ev_type ev = ''done'' then [ev] else ev # until_done evs)"

lemma loop_surfaced:
  "relay_loop ok evs s = (s', e) \<Longrightarrow> \<exists>read rest. until_done evs = read @ rest \<and> rl_surfaced s' = rl_surfaced s @ filter is_card read \<and> (e \<or> rest = []) \<and>
     (rest \<noteq> [] \<longrightarrow> read \<noteq> [] \<and> \<not> is_card (last read))"
proof (induction evs arbitrary: s)
  case Nil
  then show ?case using finish_keeps [of ok "relay_timeout s"] by (auto simp: relay_timeout_def split: if_splits)
next
  case (Cons ev evs)
  obtain s1 e1 where a: "apply_event ok ev s = (s1, e1)" by fastforce
  note sf = apply_surfaced [OF a]
  show ?case
  proof (cases e1)
    case True
    with Cons.prems a have "s' = s1" "e" by simp_all
    moreover have "until_done (ev # evs) = [ev] @ (if ev_type ev = ''done'' then [] else until_done evs)" by simp
    ultimately show ?thesis using sf True by (intro exI [of _ "[ev]"] exI conjI) auto
  next
    case False
    show ?thesis
    proof (cases "ev_type ev = ''done''")
      case True
      with Cons.prems a False have "finish_relay ok s1 = (s', e)" by simp
      from finish_keeps [OF this] sf True show ?thesis by (intro exI [of _ "[ev]"] exI [of _ "[]"]) simp
    next
      case nd: False
      with Cons.prems a False have "relay_loop ok evs s1 = (s', e)" by simp
      from Cons.IH [OF this] obtain read rest where r: "until_done evs = read @ rest" "rl_surfaced s' = rl_surfaced s1 @ filter is_card read"
        "e \<or> rest = []" "rest \<noteq> [] \<longrightarrow> read \<noteq> [] \<and> \<not> is_card (last read)" by blast
      then show ?thesis using nd sf by (intro exI [of _ "ev # read"] exI [of _ rest]) simp
    qed
  qed
qed

text \<open>The characters of a text that are not white space.\<close>

definition ink :: "string \<Rightarrow> string" where
  "ink t = filter (\<lambda>c. \<not> py_isspace c) t"

lemma ink_Nil [simp]: "ink [] = []"
  by (simp add: ink_def)

lemma ink_append: "ink (a @ b) = ink a @ ink b"
  by (simp add: ink_def)

lemma strip_Nil_ink: "py_strip t = [] \<Longrightarrow> ink t = []"
proof -
  have drop: "dropWhile P xs = [] \<Longrightarrow> filter (\<lambda>x. \<not> P x) xs = []" for P :: "char \<Rightarrow> bool" and xs
    by (simp add: dropWhile_eq_Nil_conv filter_empty_conv)
  have keep: "filter (\<lambda>x. \<not> P x) (dropWhile P xs) = filter (\<lambda>x. \<not> P x) xs" for P :: "char \<Rightarrow> bool" and xs
    by (induction xs) auto
  assume "py_strip t = []"
  then have "dropWhile py_isspace (rev (dropWhile py_isspace t)) = []" by (simp add: py_strip_def rstrip_of_def lstrip_of_def)
  from drop [OF this] have "filter (\<lambda>x. \<not> py_isspace x) (dropWhile py_isspace t) = []" by (simp flip: rev_filter)
  then show ?thesis unfolding ink_def keep .
qed

definition deltas :: "run_event list \<Rightarrow> string" where
  "deltas evs = concat (map (content_or []) (filter (\<lambda>ev. ev_type ev = ''message_delta'') evs))"

definition relayed :: "relay \<Rightarrow> string" where
  "relayed s = ink (concat (rl_sent s) @ rl_buf s)"

definition relay_ok :: "relay \<Rightarrow> bool" where
  "relay_ok s \<longleftrightarrow> (rl_sent_any s \<longleftrightarrow> rl_sent s \<noteq> [])"

lemma flush_ok:
  assumes "flush_buf (\<lambda>_. True) s = (s', e)" "relay_ok s"
  shows "\<not> e" "relayed s' = relayed s" "rl_buf s' = []" "relay_ok s'" "rl_error s' = rl_error s"
  using assms strip_Nil_ink [of "rl_buf s"]
  by (auto simp: flush_buf_def emit_text_def relayed_def relay_ok_def ink_append split: if_splits)

lemma apply_ok:
  assumes "apply_event (\<lambda>_. True) ev s = (s', e)" "relay_ok s" "ev_type ev \<noteq> ''message''"
  shows "\<not> e \<and> relay_ok s' \<and> relayed s' = relayed s @ ink (deltas [ev])"
proof -
  obtain s1 e1 where f: "flush_buf (\<lambda>_. True) s = (s1, e1)" by fastforce
  note fl = flush_ok [OF f assms(2)]
  have d: "deltas [ev] = (if ev_type ev = ''message_delta'' then content_or [] ev else [])" by (simp add: deltas_def)
  consider (delta) "ev_type ev = ''message_delta''" | (tool) "ev_type ev = ''tool_call'' \<or> ev_type ev = ''function_call''"
    | (card) "ev_type ev = ''access_request'' \<or> ev_type ev = ''confirmation_required''"
    | (other) "ev_type ev \<notin> {''message_delta'', ''tool_call'', ''function_call'', ''access_request'', ''confirmation_required''}" by blast
  then show ?thesis
  proof cases
    case delta
    with assms show ?thesis by (auto simp: apply_event_def d relayed_def relay_ok_def ink_append)
  next
    case tool
    then have "(s', e) = (s1, e1)" using assms(1) f by (auto simp: apply_event_def)
    moreover have "deltas [ev] = []" using tool by (auto simp: d)
    ultimately show ?thesis using fl by simp
  next
    case card
    then have "s' = (if truthy (pget ev ''confirm_id'') then s1\<lparr>rl_surfaced := rl_surfaced s1 @ [ev]\<rparr> else s1)" "\<not> e"
      using assms(1) f by (auto simp: apply_event_def CONFIRM_TYPES_def)
    moreover have "deltas [ev] = []" using card by (auto simp: d)
    ultimately show ?thesis using fl(2,4) by (simp add: relayed_def relay_ok_def)
  next
    case other
    then have "(s' = s \<or> (\<exists>x. s' = s\<lparr>rl_error := x\<rparr>)) \<and> \<not> e"
      using assms(1,3) by (auto simp: apply_event_def Let_def CONFIRM_TYPES_def split: if_splits)
    moreover have "deltas [ev] = []" using other by (simp add: d)
    ultimately show ?thesis using assms(2) by (auto simp: relayed_def relay_ok_def)
  qed
qed

definition closing_line :: "relay \<Rightarrow> string list \<Rightarrow> bool" where
  "closing_line s c \<longleftrightarrow> (if rl_error s \<noteq> None \<and> rl_error s \<noteq> Some [] then c = [''Something went wrong: '' @ the (rl_error s)] else c \<in> {[], [''(empty reply)'']})"

lemma finish_ok:
  assumes "finish_relay (\<lambda>_. True) s = (s', e)" "relay_ok s"
  shows "\<not> e \<and> rl_sent s' \<noteq> [] \<and> (\<exists>msgs c. rl_sent s' = msgs @ c \<and> closing_line s' c \<and> ink (concat msgs) = relayed s)"
proof -
  obtain s1 e1 where f: "flush_buf (\<lambda>_. True) s = (s1, e1)" by fastforce
  note fl = flush_ok [OF f assms(2)]
  have m: "ink (concat (rl_sent s1)) = relayed s" using fl(2,3) by (simp add: relayed_def)
  show ?thesis
  proof (cases "rl_error s1 \<noteq> None \<and> rl_error s1 \<noteq> Some []")
    case True
    with assms(1) f fl have "rl_sent s' = rl_sent s1 @ [''Something went wrong: '' @ the (rl_error s1)]" "\<not> e" "rl_error s' = rl_error s1"
      by (auto simp: finish_relay_def emit_text_def)
    with m True show ?thesis by (auto simp: closing_line_def)
  next
    case no: False
    show ?thesis
    proof (cases "rl_sent s1 = []")
      case True
      with no assms(1) f fl have "rl_sent s' = rl_sent s1 @ [''(empty reply)'']" "\<not> e" "rl_error s' = rl_error s1"
        by (auto simp: finish_relay_def emit_text_def relay_ok_def)
      with m no show ?thesis by (intro conjI exI [of _ "rl_sent s1"] exI [of _ "[''(empty reply)'']"]) (simp_all add: closing_line_def)
    next
      case False
      with no assms(1) f fl have "s' = s1" "\<not> e" by (auto simp: finish_relay_def relay_ok_def)
      with m no False show ?thesis by (intro conjI exI [of _ "rl_sent s1"] exI [of _ "[]"]) (simp_all add: closing_line_def)
    qed
  qed
qed

lemma deltas_Cons: "deltas (ev # evs) = deltas [ev] @ deltas evs"
  by (simp add: deltas_def)

lemma loop_ok:
  assumes "relay_loop (\<lambda>_. True) evs s = (s', e)" "relay_ok s" "\<forall>ev\<in>set evs. ev_type ev \<noteq> ''message''"
  shows "\<not> e \<and> rl_sent s' \<noteq> [] \<and> (\<exists>msgs c. rl_sent s' = msgs @ c \<and> closing_line s' c \<and> ink (concat msgs) = relayed s @ ink (deltas (until_done evs)))"
  using assms
proof (induction evs arbitrary: s)
  case Nil
  have "relay_ok (relay_timeout s)" "relayed (relay_timeout s) = relayed s"
    using Nil(2) by (simp_all add: relay_timeout_def relay_ok_def relayed_def)
  with finish_ok [of "relay_timeout s" s' e] Nil(1) show ?case by (simp add: deltas_def ink_def)
next
  case (Cons ev evs)
  obtain s1 e1 where a: "apply_event (\<lambda>_. True) ev s = (s1, e1)" by fastforce
  have ap: "\<not> e1" "relay_ok s1" "relayed s1 = relayed s @ ink (deltas [ev])"
    using apply_ok [OF a Cons.prems(2)] Cons.prems(3) by simp_all
  show ?case
  proof (cases "ev_type ev = ''done''")
    case True
    with Cons.prems(1) a ap have "finish_relay (\<lambda>_. True) s1 = (s', e)" by simp
    from finish_ok [OF this ap(2)] True ap(3) show ?thesis by simp
  next
    case False
    with Cons.prems(1) a ap have l: "relay_loop (\<lambda>_. True) evs s1 = (s', e)" by simp
    have "\<forall>ev\<in>set evs. ev_type ev \<noteq> ''message''" using Cons.prems(3) by simp
    from Cons.IH [OF l ap(2) this] False ap(3) show ?thesis
      by (simp add: deltas_Cons [of ev "until_done evs"] ink_append)
  qed
qed

section \<open>Properties\<close>

text \<open>
  C40. Cutting a message ends for every positive limit; no chunk is longer than the limit, and the chunks in order have
  exactly the characters of the message that are neither spaces nor line breaks.
\<close>
theorem split_text_sound:
  assumes "n > 0"
  shows "\<exists>cs. split_text txt n = Some cs \<and> (\<forall>c\<in>set cs. length c \<le> n) \<and>
    filter (\<lambda>c. c \<noteq> 10 \<and> c \<noteq> 32) (concat cs) = filter (\<lambda>c. c \<noteq> 10 \<and> c \<noteq> 32) txt"
proof (cases "txt = []")
  case False
  from split_loop_sound [OF assms, of "txt"] False show ?thesis
    by (auto simp: split_text_def list_all_iff solid_def is_break_def)
qed (simp add: split_text_def)

text \<open>
  C39. Whatever sends fail, the driver surfaces every card of the run it reads, in order and once, before it ends: it
  stops reading early only when a send failed at an event that is no card, and a failing send before a card never
  keeps that card back.
\<close>
theorem cards_surfaced:
  assumes "relay_drive ok past live = (s, failed)"
  shows "\<exists>read rest. until_done (past @ live) = read @ rest \<and> rl_surfaced s = filter is_card read \<and> (failed \<or> rest = []) \<and>
    (rest \<noteq> [] \<longrightarrow> read \<noteq> [] \<and> \<not> is_card (last read))"
  using loop_surfaced [OF assms [unfolded relay_drive_def]] by (simp add: relay_init_def)

text \<open>
  When sends succeed, a streamed reply arrives whole: the chat gets at least one message, and the messages before the
  closing line have, in order, every character of the streamed text that is not white space; the closing line is there
  exactly for an error, or says that the reply was empty.
\<close>
theorem reply_relayed:
  assumes "relay_drive (\<lambda>_. True) past live = (s, failed)" "\<forall>ev\<in>set (past @ live). ev_type ev \<noteq> ''message''"
  shows "\<not> failed \<and> rl_sent s \<noteq> [] \<and> (\<exists>msgs c. rl_sent s = msgs @ c \<and> closing_line s c \<and>
    ink (concat msgs) = ink (deltas (until_done (past @ live))))"
proof -
  have "relay_ok relay_init" "relayed relay_init = []" by (simp_all add: relay_ok_def relayed_def relay_init_def ink_def)
  with loop_ok [OF assms(1) [unfolded relay_drive_def] _ assms(2)] show ?thesis by simp
qed

definition demo_events :: "run_event list" where
  "demo_events = [[(''type'', PStr ''message_delta''), (''content'', PStr ''one'')],
     [(''type'', PStr ''confirmation_required''), (''confirm_id'', PStr ''c1'')],
     [(''type'', PStr ''message_delta''), (''content'', PStr ''two'')], [(''type'', PStr ''done'')]]"

theorem split_text_sound_witness:
  "split_text [97, 98, 32, 99, 100, 101] 4 = Some [[97, 98], [99, 100, 101]] \<and>
   (\<exists>cs. split_text [97, 98, 32, 99, 100, 101] 4 = Some cs \<and> (\<forall>c\<in>set cs. length c \<le> 4))"
proof -
  have "split_text [97, 98, 32, 99, 100, 101] 4 = Some [[97, 98], [99, 100, 101]]" by code_simp
  with split_text_sound [of 4 "[97, 98, 32, 99, 100, 101]"] show ?thesis by auto
qed

lemma strip_demo: "py_strip ''one'' = ''one''" "py_strip ''two'' = ''two''" "py_strip [] = []"
  by code_simp+

lemma demo_relay:
  "relay_drive (\<lambda>n. n \<noteq> 0) demo_events [] =
     (\<lparr>rl_buf = [], rl_sent_any = True, rl_error = None, rl_attempts = 2, rl_sent = [''two''], rl_surfaced = [demo_events ! 1]\<rparr>, False)"
  "relay_drive (\<lambda>n. True) demo_events [] =
     (\<lparr>rl_buf = [], rl_sent_any = True, rl_error = None, rl_attempts = 2, rl_sent = [''one'', ''two''], rl_surfaced = [demo_events ! 1]\<rparr>, False)"
  by (simp_all add: relay_drive_def demo_events_def relay_init_def apply_event_def ev_type_def content_or_def flush_buf_def emit_text_def CONFIRM_TYPES_def
      finish_relay_def strip_demo Let_def pget_def dget_def py_or_def)

theorem cards_surfaced_witness:
  "\<exists>read rest. until_done (demo_events @ []) = read @ rest \<and> [demo_events ! 1] = filter is_card read \<and> rest = []"
  using cards_surfaced [OF demo_relay(1)] by auto

theorem reply_relayed_witness:
  "\<exists>msgs c. [''one'', ''two''] = msgs @ c \<and> ink (concat msgs) = ink (deltas (until_done (demo_events @ [])))"
proof -
  have "\<forall>ev\<in>set (demo_events @ []). ev_type ev \<noteq> ''message''" by code_simp
  from reply_relayed [OF demo_relay(2) this] show ?thesis by auto
qed

end
