(* ===== verification/Spec2Isabelle.thy ===== *)
theory Spec2Isabelle
  imports Permissions Run_Gate Confirm Task_Stream Scheduler Compaction Fs_Access Fs_Undo Fs_Read
    Egress_Rules Elicit Mid_Run Channel_Router Channel_Driver
begin

text \<open>
  A verification development for the agent of NimoOS-AI, the Python service under \<open>src/agent\<close> that
  runs a language model with tools on a home server. The development models the parts that decide
  what the agent may do, when it does it, and what it remembers of it.

  \<^bold>\<open>The program.\<close> A run of the agent calls tools. A tool that touches the shell, files or the
  network asks first: the permission policy may waive the question, a rule may cover it, and otherwise
  a confirmation is registered and the tool waits for an answer. Scheduled tasks run with nobody
  watching: a driver reads the run's events and answers its confirmations from what the task's owner
  has authorised beforehand. A scheduler turns due tasks into runs; a store keeps tasks, runs and the
  sessions they belong to. Every run writes its events to a sink that viewers follow and replay, and
  before every run the conversation is compacted to fit the model's window.

  \<^bold>\<open>The theories\<close>, in the order in which they build on each other.

  \<^item> \<open>Py_Prelude\<close>, \<open>Py_Path\<close>: Python values, string and dictionary methods, POSIX paths, and the
    lemmas every component uses. The locale \<open>worst_of\<close> states what folding verdicts to the worst one
    guarantees.
  \<^item> \<open>Permissions\<close> (\<open>permissions.py\<close>): the policy document, its cache over the settings table, the
    decision ladder, the classification of events. Normalising a document is a retraction; a protected
    command is never waived; without a policy nothing is.
  \<^item> \<open>Shell_Parse\<close>, \<open>Shell_Rules\<close> (\<open>shell_guard/parse.py\<close>, \<open>rules.py\<close>): the command line lexer with the
    state machine of \<open>shlex\<close>, the segments, and the risk level of a command. What is safe is shown to
    be harmless segment by segment; secrets are protected; the level is the maximum of the levels.
  \<^item> \<open>Run_Gate\<close> (\<open>shell_guard/allowlist.py\<close> and the gates in \<open>skills/shell.py\<close>): what a stored rule, a
    run's prefix rule or a run's script rule lets through.
  \<^item> \<open>Confirm\<close> (\<open>confirm.py\<close>): the confirmation manager as a state machine over its dictionaries, its
    table and the audit trail; an approval that wakes a tool was answered and audited.
  \<^item> \<open>Task_Gate\<close>, \<open>Preauth\<close> (\<open>tasks/driver.py\<close>, \<open>tasks/preauth.py\<close>, \<open>tasks/grants.py\<close>): the gates for hosts
    and paths, the preauthorisation document, how a denied action is adopted, what a run is granted.
    The locale of path scopes is interpreted on the gate's own test.
  \<^item> \<open>Task_Driver\<close> (\<open>TaskRunDriver\<close>): the driver over the confirmation manager. Approvals are
    justified, cards are answered or escalated, nothing stays pending, a run ends.
  \<^item> \<open>Run_Sink\<close> (\<open>run_sink.py\<close>): the event log. The abstract reading of a log is what one scope of the
    user interface shows; the coalesced log refines the raw events.
  \<^item> \<open>Task_Stream\<close>: driver and sink together; subscribing late makes no difference.
  \<^item> \<open>Cron\<close>, \<open>Task_Store\<close>, \<open>Scheduler\<close> (\<open>tasks/cron.py\<close>, \<open>tasks/store.py\<close>, \<open>tasks/scheduler.py\<close>): the next
    firing time as the least matching minute, the three tables with every operation on them, and a tick
    of the scheduler. The locale \<open>zone\<close> is the contract of a time zone, interpreted for fixed
    offsets; the locale \<open>forward_clock\<close> is what the scheduler needs of the search.
  \<^item> \<open>Model_Windows\<close>, \<open>Compaction\<close> (\<open>model_windows.py\<close>, \<open>memory_store.py\<close>, \<open>context_compaction.py\<close>): the
    window of a model, the token estimate, turn boundaries, folding into the rolling summary, truncation,
    and the plan.
  \<^item> \<open>Fs_Scope\<close> (\<open>fs/paths.py\<close>, \<open>ignore.py\<close>, \<open>validators.py\<close>, \<open>sandbox_view.py\<close>): which paths a session may
    touch, which are blocked, and what the shell sandbox mounts.
  \<^item> \<open>Vtree\<close>, \<open>Fs_Disk\<close>, \<open>Fs_Staging\<close>, \<open>Fs_Batch\<close> (\<open>fs/vtree.py\<close>, \<open>staging.py\<close>, \<open>snapshots.py\<close>, \<open>batch.py\<close>): the
    lazily loaded virtual tree, the disk, staged changes with their snapshots and reverts, and the batch tool.
    A map from paths to kinds of entries is the specification of both tree and disk: the locales
    \<open>tree_check\<close> and \<open>tree_exec\<close> state it and are interpreted on both, so what the tree accepts the
    disk executes; a batch can be reverted.
  \<^item> \<open>Fs_Access\<close> (\<open>fs/access_request.py\<close>): requests for access over the confirmation manager, one card for
    concurrent requests; an access that was granted was approved or waived.
  \<^item> \<open>Py_Text\<close>, \<open>Tool_Output\<close> (\<open>tool_output.py\<close>, \<open>offload_summary.py\<close>, \<open>fences.py\<close>): text as code points with the UTF-8
    codec; the fence around foreign text, and the offloading of long results to files.
  \<^item> \<open>Fs_Ops\<close>, \<open>Fs_Confine\<close>, \<open>Fs_Undo\<close>, \<open>Fs_Read\<close> (\<open>fs/ops.py\<close>): the ten file tools. \<open>Fs_Confine\<close> explains every change
    of the disk by an allowed path, \<open>Fs_Undo\<close> takes a staged change back, \<open>Fs_Read\<close> says what listings and
    searches show.
  \<^item> \<open>Egress_Parse\<close>, \<open>Egress_Rules\<close> (\<open>egress/parse.py\<close>, \<open>rules.py\<close>, \<open>judge.py\<close> and the upload gate of \<open>skills/shell.py\<close>):
    which commands upload what to which host, with addresses as machine words and a parser for their texts; the content
    rules; the judge around its model call; and the gate that grants a host and a byte budget or refuses.
  \<^item> \<open>Elicit_Schema\<close>, \<open>Elicit\<close> (\<open>mcp_client/elicitation_schema.py\<close>, \<open>elicitation.py\<close>): the fields a remote schema is
    rendered to, the validation of an answer against them, and the callback that asks over the confirmation manager.
  \<^item> \<open>Mid_Run\<close> (\<open>compaction_filter.py\<close>, \<open>run_context.py\<close>): the filter before every model call, in its three levels: stubs
    for old outputs, a fold into the summary, truncation. What is sent is a tail of the history that fits the hard line or is minimal.
  \<^item> \<open>Channel_Store\<close> (\<open>channels/store.py\<close>): pairing codes, bindings and chats of external messengers. An inductive relation keeps
    the history beside the tables: codes are used once and in time, and an account belongs to whom the history says.
  \<^item> \<open>Channel_Cards\<close>, \<open>Channel_Router\<close> (\<open>channels/router.py\<close>): the cards of confirmations in a chat as a state machine over the
    confirmation manager and the policy, and what a message does: only paired accounts start runs, one at a time in a chat.
  \<^item> \<open>Channel_Driver\<close> (\<open>channels/driver.py\<close>, \<open>channels/model.py\<close>): the events of a run as messages of a chat, every card surfaced,
    and how a long message is cut.

  \<^bold>\<open>How code is read.\<close> A class or a row is a record, an operation is a function on it that returns the
  new state, an exception is a value of a sum or option type or a named outcome. Database tables are
  lists of rows in insertion order (the order of \<open>rowid\<close>). Identifiers, tokens and clock readings are
  arguments. What the program calls outside its own files is a parameter: \<open>os.path.realpath\<close>, tests for
  files and directories, the regular-expression engine, the egress proxy, the summarising model, the
  deletion of a session, answers of providers. Parallel coroutines appear as explicit inputs: the feed
  of the driver has steps of the other coroutines between two events, the sink is a relation
  that interleaves events, subscriptions and timers, a parked coroutine is modelled by how it ends.

  \<^bold>\<open>Bounds and termination.\<close> Loops are total functions with a measure, so no fuel is used: the sweep
  of the event log, the purge of runs, the shrinking of a fold. The partial functions are the search
  of \<open>Cron\<close>, shown to return for every expression, and the cutting of a message, shown to return for every positive limit. Strings are lists of characters below 256; the token
  estimate works on code points. Products with float constants are computed exactly as doubles.

  \<^bold>\<open>Not modelled.\<close> The HTTP service (\<open>main.py\<close>), the agent loop over its SDK (\<open>agent.py\<close>), the adapters of the chat
  channels, the MCP client and server, network namespaces, web tools, document extraction and the retrieval
  pipelines are glue around services and libraries outside the repository; of the task runner only what it composes
  is modelled. Owners, modes and times of files are left out, and so are symbolic links below a path that was resolved.
\<close>

end
